(* ===== verification/Prelude.thy ===== *)
theory Prelude
  imports Main "HOL-Library.Char_ord" "HOL-Library.List_Lexorder" "HOL-Library.Code_Target_Nat"
begin

text \<open>
  Shared vocabulary of the Heartbeat development.  A Go string is a sequence of bytes and is
  modelled by \<^typ>\<open>string\<close>, whose characters are exactly the 256 bytes; Go's \<open><\<close> on strings is
  the lexicographic order of \<open>HOL-Library.List_Lexorder\<close> over \<open>HOL-Library.Char_ord\<close>.  A
  \<open>time.Duration\<close> and a \<open>time.Time\<close> are integers of nanoseconds, the zero time being 0; a function
  that returns \<open>(value, error)\<close> returns a sum with the error on the left; a Go map whose
  iteration order matters is an association list with distinct keys, in the order of iteration.

  The theory collects the generic facts on lists, sums, maps and sorting that the components
  share.
\<close>

type_synonym duration = int
type_synonym gotime = int
type_synonym ('e, 'a) result = "'e + 'a"
type_synonym labels = "(string \<times> string) list"

named_theorems go_simps \<open>unfolding rules of the modelled operations, for evaluation\<close>

definition ns_millisecond :: duration where "ns_millisecond = 1000000"
definition ns_second :: duration where "ns_second = 1000000000"
definition ns_minute :: duration where "ns_minute = 60000000000"
definition ns_hour :: duration where "ns_hour = 3600000000000"

lemmas duration_units = ns_millisecond_def ns_second_def ns_minute_def ns_hour_def

declare duration_units [go_simps]

subsection \<open>Signed 64-bit arithmetic\<close>

text \<open>The value a Go \<open>int64\<close> (and \<open>int\<close>, \<open>time.Duration\<close>) holds after an operation whose exact
  result is the argument: two's complement wrap-around.\<close>

definition int64 :: "int \<Rightarrow> int" where
  "int64 x = (x + 2 ^ 63) mod 2 ^ 64 - 2 ^ 63"

lemma int64_id: "- (2 ^ 63) \<le> x \<Longrightarrow> x < 2 ^ 63 \<Longrightarrow> int64 x = x"
  by (simp add: int64_def mod_pos_pos_trivial)

lemma int64_range: "- (2 ^ 63) \<le> int64 x \<and> int64 x < 2 ^ 63"
  by (auto simp: int64_def add.commute)

subsection \<open>Sums as results\<close>

definition bind_result :: "('e, 'a) result \<Rightarrow> ('a \<Rightarrow> ('e, 'b) result) \<Rightarrow> ('e, 'b) result" where
  "bind_result r f = (case r of Inl e \<Rightarrow> Inl e | Inr a \<Rightarrow> f a)"

lemma bind_result_simps [simp]:
  "bind_result (Inl e) f = Inl e"
  "bind_result (Inr a) f = f a"
  by (simp_all add: bind_result_def)

lemma bind_result_Inr_iff:
  "bind_result r f = Inr b \<longleftrightarrow> (\<exists>a. r = Inr a \<and> f a = Inr b)"
  by (cases r) auto

text \<open>A loop that returns the first error and otherwise collects the results in order.\<close>

fun map_result :: "('a \<Rightarrow> ('e, 'b) result) \<Rightarrow> 'a list \<Rightarrow> ('e, 'b list) result" where
  "map_result f [] = Inr []"
| "map_result f (x # xs) =
     bind_result (f x) (\<lambda>y. bind_result (map_result f xs) (\<lambda>ys. Inr (y # ys)))"

lemma map_result_Inr:
  "map_result f xs = Inr ys \<longleftrightarrow> list_all2 (\<lambda>x y. f x = Inr y) xs ys"
  by (induction xs arbitrary: ys) (auto simp: bind_result_Inr_iff list_all2_Cons1)

lemma map_result_source:
  assumes "map_result f xs = Inr ys" and "y \<in> set ys"
  shows "\<exists>x \<in> set xs. f x = Inr y"
  using assms by (induction xs arbitrary: ys) (auto simp: bind_result_Inr_iff)

text \<open>A loop that only looks for the first error (a validator).\<close>

fun first_error :: "('a \<Rightarrow> 'e option) \<Rightarrow> 'a list \<Rightarrow> 'e option" where
  "first_error f [] = None"
| "first_error f (x # xs) = (case f x of None \<Rightarrow> first_error f xs | Some e \<Rightarrow> Some e)"

lemma first_error_None [simp]: "first_error f xs = None \<longleftrightarrow> (\<forall>x \<in> set xs. f x = None)"
  by (induction xs) (auto split: option.splits)

lemma first_error_SomeD: "first_error f xs = Some e \<Longrightarrow> \<exists>x \<in> set xs. f x = Some e"
  by (induction xs) (auto split: option.splits)

text \<open>Checks run one after the other: the first error wins.\<close>

definition or_else :: "'e option \<Rightarrow> 'e option \<Rightarrow> 'e option" where
  "or_else a b = (case a of None \<Rightarrow> b | Some e \<Rightarrow> Some e)"

lemma or_else_simps [simp]: "or_else None b = b" "or_else (Some e) b = Some e"
  by (simp_all add: or_else_def)

lemma or_else_None [simp]: "or_else a b = None \<longleftrightarrow> a = None \<and> b = None"
  by (cases a) auto

definition fail_if :: "bool \<Rightarrow> 'e \<Rightarrow> 'e option" where
  "fail_if c e = (if c then Some e else None)"

lemma fail_if_None [simp]: "fail_if c e = None \<longleftrightarrow> \<not> c"
  by (simp add: fail_if_def)

lemma fail_if_simps: "fail_if True e = Some e" "fail_if False e = None"
  by (simp_all add: fail_if_def)

declare fail_if_simps [simp]

subsection \<open>Sorting by a key\<close>

text \<open>\<open>sort.Slice\<close> with a less function on a key.  Where the keys are distinct the result is the
  one sorted permutation; \<^const>\<open>sort_key\<close> is that permutation.\<close>

lemma sort_key_set_mset:
  "set (sort_key f xs) = set xs" "length (sort_key f xs) = length xs"
  by simp_all

lemma distinct_map_sort_key [simp]: "distinct (map f (sort_key f xs)) = distinct (map f xs)"
  by (simp add: distinct_map)

lemma sort_key_distinct_unique:
  assumes "distinct (map f xs)" and "set ys = set xs" and "distinct ys"
    and "sorted (map f ys)"
  shows "ys = sort_key f xs"
proof -
  have d: "distinct xs" using assms(1) by (simp add: distinct_map)
  have inj: "inj_on f (set xs)" using assms(1) by (simp add: distinct_map)
  have m: "map f ys = map f (sort_key f xs)"
  proof (rule sorted_distinct_set_unique)
    show "distinct (map f ys)" using assms(2,3) inj by (simp add: distinct_map)
    show "distinct (map f (sort_key f xs))" using d inj by (simp add: distinct_map)
  qed (use assms in simp_all)
  show ?thesis
    using m inj assms(2) by (metis map_inj_on set_sort sup.idem)
qed

subsection \<open>Maps built from lists of keyed records\<close>

lemma map_of_map_key:
  "map_of (map (\<lambda>x. (f x, x)) xs) k = find (\<lambda>x. f x = k) xs"
  by (induction xs) auto

lemma map_of_key_Some:
  assumes "distinct (map f xs)"
  shows "map_of (map (\<lambda>x. (f x, x)) xs) k = Some x \<longleftrightarrow> x \<in> set xs \<and> f x = k"
proof -
  have "distinct (map fst (map (\<lambda>x. (f x, x)) xs))" using assms by (simp add: comp_def)
  from map_of_eq_Some_iff [OF this] show ?thesis by auto
qed

lemma map_of_key_None:
  "map_of (map (\<lambda>x. (f x, x)) xs) k = None \<longleftrightarrow> k \<notin> f ` set xs"
  by (simp add: map_of_eq_None_iff image_image)

lemma map_of_rev_distinct:
  assumes "distinct (map fst xs)"
  shows "map_of (rev xs) = map_of xs"
proof
  fix x
  have "map_of (rev xs) x = Some v \<longleftrightarrow> map_of xs x = Some v" for v
    using assms by (simp add: map_of_eq_Some_iff rev_map [symmetric])
  then show "map_of (rev xs) x = map_of xs x"
    by (cases "map_of xs x"; cases "map_of (rev xs) x") auto
qed

text \<open>Texts cut at a separator.\<close>

lemma split_at_char:
  assumes "c \<notin> set a" and "c \<notin> set b" and "a @ c # r = b @ c # s"
  shows "a = b \<and> r = s"
proof -
  have "takeWhile (\<lambda>x. x \<noteq> c) (a @ c # r) = a" using assms(1) by (subst takeWhile_append2) auto
  moreover have "takeWhile (\<lambda>x. x \<noteq> c) (b @ c # s) = b" using assms(2) by (subst takeWhile_append2) auto
  ultimately show ?thesis using assms(3) by auto
qed

end
