(* ===== verification/GoStrings.thy ===== *)
theory GoStrings
  imports Prelude
begin

text \<open>
  What the modelled packages use of Go's \<open>strings\<close>, \<open>unicode\<close> and \<open>unicode/utf8\<close>: decoding one
  rune (an invalid byte decodes to U+FFFD with size 1), splitting a string into its runes, the
  ASCII part of the character classes, and the searching, trimming and mapping functions.
  Indices are byte offsets; Go's -1 is \<^const>\<open>None\<close>.  The Unicode tables beyond ASCII are data of
  the Go distribution and are passed in as a record \<open>unicode_tables\<close>.
\<close>

section \<open>UTF-8\<close>

definition byte :: "char \<Rightarrow> nat" where "byte c = of_char c"

definition rune_error :: nat where "rune_error = 65533"

text \<open>The size of the sequence a lead byte starts and the range of its second byte.\<close>

definition lead_info :: "nat \<Rightarrow> (nat \<times> nat \<times> nat) option" where
  "lead_info b =
     (if 194 \<le> b \<and> b \<le> 223 then Some (2, 128, 191)
      else if b = 224 then Some (3, 160, 191)
      else if b = 237 then Some (3, 128, 159)
      else if 225 \<le> b \<and> b \<le> 239 then Some (3, 128, 191)
      else if b = 240 then Some (4, 144, 191)
      else if 241 \<le> b \<and> b \<le> 243 then Some (4, 128, 191)
      else if b = 244 then Some (4, 128, 143)
      else None)"

definition continuation :: "nat \<Rightarrow> bool" where
  "continuation b \<longleftrightarrow> 128 \<le> b \<and> b \<le> 191"

text \<open>\<open>utf8.DecodeRuneInString\<close>: the first rune and its size in bytes.\<close>

definition decode_rune :: "string \<Rightarrow> nat \<times> nat" where
  "decode_rune s = (case s of
     [] \<Rightarrow> (rune_error, 0)
   | c # _ \<Rightarrow>
      (let b0 = byte c in
       if b0 < 128 then (b0, 1)
       else (case lead_info b0 of
          None \<Rightarrow> (rune_error, 1)
        | Some (sz, lo, hi) \<Rightarrow>
           (if length s < sz then (rune_error, 1)
            else let b1 = byte (s ! 1) in
              if b1 < lo \<or> hi < b1 then (rune_error, 1)
              else if sz \<le> 2 then (b0 mod 32 * 64 + b1 mod 64, 2)
              else let b2 = byte (s ! 2) in
                if \<not> continuation b2 then (rune_error, 1)
                else if sz \<le> 3 then (b0 mod 16 * 4096 + b1 mod 64 * 64 + b2 mod 64, 3)
                else let b3 = byte (s ! 3) in
                  if \<not> continuation b3 then (rune_error, 1)
                  else (b0 mod 8 * 262144 + b1 mod 64 * 4096 + b2 mod 64 * 64 + b3 mod 64, 4)))))"

lemma decode_rune_Nil [simp]: "decode_rune [] = (rune_error, 0)"
  by (simp add: decode_rune_def)

lemma decode_rune_ascii [simp]: "byte c < 128 \<Longrightarrow> decode_rune (c # s) = (byte c, 1)"
  by (simp add: decode_rune_def)

lemma lead_info_SomeD:
  assumes "lead_info b = Some (sz, lo, hi)"
  shows "128 \<le> lo" and "hi \<le> 191"
    and "(sz = 2 \<and> 194 \<le> b \<and> b \<le> 223)
       \<or> (sz = 3 \<and> ((b = 224 \<and> lo = 160) \<or> (225 \<le> b \<and> b \<le> 239)))
       \<or> (sz = 4 \<and> ((b = 240 \<and> lo = 144) \<or> (241 \<le> b \<and> b \<le> 244)))"
  using assms by (simp_all add: lead_info_def split: if_splits)

lemma mod_offset:
  assumes "(m::nat) dvd a" and "a \<le> b" and "b < a + m"
  shows "b mod m = b - a"
proof -
  from assms(2,3) obtain k where b: "b = a + k" and k: "k < m" by (auto simp: le_iff_add)
  from assms(1) obtain q where "a = m * q" by (rule dvdE)
  with b k show ?thesis by simp
qed

text \<open>The possible results of decoding: one invalid byte, or a sequence of the announced size
  whose rune is not ASCII.\<close>

lemma decode_rune_lead:
  assumes "128 \<le> byte c"
  shows "decode_rune (c # s) = (rune_error, 1) \<or>
    (\<exists>r n. decode_rune (c # s) = (r, n) \<and> 128 \<le> r \<and> 2 \<le> n \<and> n \<le> 4 \<and> n \<le> Suc (length s)
       \<and> (\<forall>i < n. 128 \<le> byte ((c # s) ! i)))"
proof (cases "lead_info (byte c)")
  case None
  with assms show ?thesis by (simp add: decode_rune_def Let_def)
next
  case (Some t)
  obtain sz lo hi where t: "t = (sz, lo, hi)" by (cases t)
  note lead = lead_info_SomeD [OF Some [unfolded t]]
  have two: "128 \<le> byte c mod 32 * 64 + b1 mod 64" if "sz = 2" for b1
  proof -
    have "byte c mod 32 = byte c - 192" by (rule mod_offset) (use lead(3) that in simp_all)
    with lead(3) that show ?thesis by linarith
  qed
  have three: "128 \<le> byte c mod 16 * 4096 + b1 mod 64 * 64 + b2 mod 64"
    if "sz = 3" "lo \<le> b1" "b1 \<le> hi" for b1 b2
  proof (cases "byte c = 224")
    case True
    with lead that have "160 \<le> b1" "b1 \<le> 191" by auto
    then have "b1 mod 64 = b1 - 128" by (intro mod_offset) simp_all
    with \<open>160 \<le> b1\<close> have "32 \<le> b1 mod 64" by simp
    then show ?thesis by linarith
  next
    case False
    with lead(3) that have r: "225 \<le> byte c" "byte c \<le> 239" by auto
    then have "byte c mod 16 = byte c - 224" by (intro mod_offset) simp_all
    with r have "1 \<le> byte c mod 16" by simp
    then show ?thesis by linarith
  qed
  have four: "128 \<le> byte c mod 8 * 262144 + b1 mod 64 * 4096 + b2 mod 64 * 64 + b3 mod 64"
    if "sz = 4" "lo \<le> b1" "b1 \<le> hi" for b1 b2 b3
  proof (cases "byte c = 240")
    case True
    with lead that have "144 \<le> b1" "b1 \<le> 191" by auto
    then have "b1 mod 64 = b1 - 128" by (intro mod_offset) simp_all
    with \<open>144 \<le> b1\<close> have "16 \<le> b1 mod 64" by simp
    then show ?thesis by linarith
  next
    case False
    with lead(3) that have r: "241 \<le> byte c" "byte c \<le> 244" by auto
    then have "byte c mod 8 = byte c - 240" by (intro mod_offset) simp_all
    with r have "1 \<le> byte c mod 8" by simp
    then show ?thesis by linarith
  qed
  define b1 b2 b3 where "b1 = byte ((c # s) ! 1)" and "b2 = byte ((c # s) ! 2)"
    and "b3 = byte ((c # s) ! 3)"
  have eq: "decode_rune (c # s) =
      (if Suc (length s) < sz \<or> b1 < lo \<or> hi < b1 then (rune_error, 1)
       else if sz \<le> 2 then (byte c mod 32 * 64 + b1 mod 64, 2)
       else if \<not> continuation b2 then (rune_error, 1)
       else if sz \<le> 3 then (byte c mod 16 * 4096 + b1 mod 64 * 64 + b2 mod 64, 3)
       else if \<not> continuation b3 then (rune_error, 1)
       else (byte c mod 8 * 262144 + b1 mod 64 * 4096 + b2 mod 64 * 64 + b3 mod 64, 4))"
    using assms by (simp add: decode_rune_def Some t Let_def b1_def b2_def b3_def)
  show ?thesis
  proof (cases "Suc (length s) < sz \<or> b1 < lo \<or> hi < b1")
    case False
    then have b1: "lo \<le> b1" "b1 \<le> hi" and len: "sz \<le> Suc (length s)" by auto
    from b1(1) lead(1) have hb1: "128 \<le> byte ((c # s) ! 1)" by (simp add: b1_def)
    have nats: "(\<forall>i < 2. P i) = (P 0 \<and> P 1)" "(\<forall>i < 3. P i) = (P 0 \<and> P 1 \<and> P 2)"
      "(\<forall>i < 4. P i) = (P 0 \<and> P 1 \<and> P 2 \<and> P 3)" for P :: "nat \<Rightarrow> bool"
      by (auto simp: less_Suc_eq numeral_eq_Suc)
    consider "sz = 2" | "sz = 3" | "sz = 4" using lead(3) by blast
    then show ?thesis
    proof cases
      case 1
      with two [of b1] len b1 assms hb1 show ?thesis by (simp add: eq nats)
    next
      case 2
      with three [OF _ b1, of b2] len b1 assms hb1 show ?thesis
        by (cases "continuation b2") (simp_all add: eq nats continuation_def b2_def)
    next
      case 3
      with four [OF _ b1, of b2 b3] len b1 assms hb1 show ?thesis
        by (cases "continuation b2"; cases "continuation b3")
          (simp_all add: eq nats continuation_def b2_def b3_def)
    qed
  qed (simp add: eq)
qed

lemma decode_rune_size:
  assumes "s \<noteq> []"
  shows "1 \<le> snd (decode_rune s) \<and> snd (decode_rune s) \<le> length s \<and> snd (decode_rune s) \<le> 4"
proof (cases s)
  case (Cons c t)
  show ?thesis
  proof (cases "byte c < 128")
    case False
    with decode_rune_lead [of c t] Cons show ?thesis by auto
  qed (simp add: Cons)
qed (use assms in simp)

lemma decode_rune_nonascii:
  "128 \<le> byte c \<Longrightarrow> 128 \<le> fst (decode_rune (c # s))"
  using decode_rune_lead [of c s] by (auto simp: rune_error_def)

text \<open>The runes of a string, each with the bytes it was decoded from (a \<open>range\<close> loop).\<close>

function runes :: "string \<Rightarrow> (nat \<times> string) list" where
  "runes s = (if s = [] then []
     else let (r, n) = decode_rune s in (r, take n s) # runes (drop n s))"
  by pat_completeness auto
termination
proof (relation "measure length")
  fix s :: string and r n x y
  assume "s \<noteq> []" and "x = decode_rune s" and "(r, n) = x"
  then show "(drop n s, s) \<in> measure length"
    using decode_rune_size [of s] by (metis diff_less in_measure le_zero_eq length_drop
        length_greater_0_conv not_gr_zero not_one_le_zero snd_conv)
qed simp

declare runes.simps [simp del]

lemma runes_Nil [simp]: "runes [] = []"
  by (simp add: runes.simps)

lemma runes_Cons_ascii [simp]: "byte c < 128 \<Longrightarrow> runes (c # s) = (byte c, [c]) # runes s"
  by (subst runes.simps) simp

lemma concat_runes [simp]: "concat (map snd (runes s)) = s"
proof (induction s rule: runes.induct)
  case (1 s)
  obtain r n where d: "decode_rune s = (r, n)" by fastforce
  show ?case
    using "1.IH" [of "(r, n)" r n] d by (subst runes.simps) auto
qed

text \<open>Each rune is one ASCII byte or bytes that are all beyond ASCII: no ASCII byte is ever part
  of another rune.\<close>

lemma runes_elem:
  "(r, bs) \<in> set (runes s) \<Longrightarrow>
     (\<exists>c. bs = [c] \<and> byte c = r \<and> r < 128) \<or> (128 \<le> r \<and> bs \<noteq> [] \<and> (\<forall>c \<in> set bs. 128 \<le> byte c))"
proof (induction s rule: runes.induct)
  case (1 s)
  obtain r' n where d: "decode_rune s = (r', n)" by fastforce
  show ?case
  proof (cases s)
    case (Cons c t)
    show ?thesis
    proof (cases "(r, bs) \<in> set (runes (drop n s))")
      case True
      with "1.IH" [of "(r', n)" r' n] d Cons show ?thesis by simp
    next
      case False
      with "1.prems" d Cons have rb: "r = r'" "bs = take n s"
        by (simp_all add: runes.simps [of "c # t"])
      show ?thesis
      proof (cases "byte c < 128")
        case True
        with d Cons rb show ?thesis by auto
      next
        case False
        then have "128 \<le> byte c" by simp
        from decode_rune_lead [OF this, of t] d Cons rb \<open>128 \<le> byte c\<close> show ?thesis
          by (auto simp: rune_error_def in_set_conv_nth)
      qed
    qed
  qed (use "1.prems" in simp)
qed

lemma runes_ascii: "\<forall>c \<in> set s. byte c < 128 \<Longrightarrow> runes s = map (\<lambda>c. (byte c, [c])) s"
  by (induction s) auto

text \<open>\<open>utf8.ValidString\<close>: no byte is decoded as an error of its own.\<close>

definition valid_utf8 :: "string \<Rightarrow> bool" where
  "valid_utf8 s = list_all (\<lambda>(r, bytes). \<not> (r = rune_error \<and> length bytes = 1)) (runes s)"

text \<open>\<open>utf8.AppendRune\<close>; a surrogate or out-of-range value is written as U+FFFD.\<close>

definition encode_rune :: "nat \<Rightarrow> string" where
  "encode_rune r = map char_of
     (if r < 128 then [r]
      else if r < 2048 then [192 + r div 64, 128 + r mod 64]
      else if r > 1114111 \<or> (55296 \<le> r \<and> r \<le> 57343) then [239, 191, 189]
      else if r < 65536 then [224 + r div 4096, 128 + r div 64 mod 64, 128 + r mod 64]
      else [240 + r div 262144, 128 + r div 4096 mod 64, 128 + r div 64 mod 64, 128 + r mod 64])"

text \<open>\<open>strings.Map\<close>: a dropped rune is \<^const>\<open>None\<close>.  A rune the mapping keeps is copied as it is,
  except an invalid byte, which becomes the encoding of U+FFFD.\<close>

definition map_runes :: "(nat \<Rightarrow> nat option) \<Rightarrow> string \<Rightarrow> string" where
  "map_runes f s = concat (map (\<lambda>(r, bs).
     (case f r of
        None \<Rightarrow> []
      | Some r' \<Rightarrow> if r' = r \<and> \<not> (r = rune_error \<and> length bs = 1) then bs else encode_rune r'))
     (runes s))"

section \<open>Character classes\<close>

record unicode_tables =
  uni_letter :: "nat \<Rightarrow> bool"
  uni_digit :: "nat \<Rightarrow> bool"
  uni_upper :: "nat \<Rightarrow> nat"
  uni_lower :: "nat \<Rightarrow> nat"

text \<open>Tables with no character beyond ASCII, for evaluation.\<close>

definition ascii_tables :: unicode_tables where
  "ascii_tables = \<lparr>uni_letter = \<lambda>_. False, uni_digit = \<lambda>_. False, uni_upper = \<lambda>r. r, uni_lower = \<lambda>r. r\<rparr>"

definition is_letter :: "unicode_tables \<Rightarrow> nat \<Rightarrow> bool" where
  "is_letter u r = (if r < 128 then (65 \<le> r \<and> r \<le> 90) \<or> (97 \<le> r \<and> r \<le> 122) else uni_letter u r)"

definition is_digit :: "unicode_tables \<Rightarrow> nat \<Rightarrow> bool" where
  "is_digit u r = (if r < 128 then 48 \<le> r \<and> r \<le> 57 else uni_digit u r)"

definition to_upper_rune :: "unicode_tables \<Rightarrow> nat \<Rightarrow> nat" where
  "to_upper_rune u r = (if r < 128 then (if 97 \<le> r \<and> r \<le> 122 then r - 32 else r) else uni_upper u r)"

definition to_lower_rune :: "unicode_tables \<Rightarrow> nat \<Rightarrow> nat" where
  "to_lower_rune u r = (if r < 128 then (if 65 \<le> r \<and> r \<le> 90 then r + 32 else r) else uni_lower u r)"

text \<open>\<open>unicode.IsSpace\<close>: the White\_Space property.\<close>

definition is_space :: "nat \<Rightarrow> bool" where
  "is_space r \<longleftrightarrow> (9 \<le> r \<and> r \<le> 13) \<or> r = 32 \<or> r = 133 \<or> r = 160 \<or> r = 5760
     \<or> (8192 \<le> r \<and> r \<le> 8202) \<or> r = 8232 \<or> r = 8233 \<or> r = 8239 \<or> r = 8287 \<or> r = 12288"

text \<open>\<open>unicode.IsControl\<close>: category Cc.\<close>

definition is_control :: "nat \<Rightarrow> bool" where
  "is_control r \<longleftrightarrow> r < 32 \<or> (127 \<le> r \<and> r \<le> 159)"

section \<open>Package strings\<close>

definition trim_space :: "string \<Rightarrow> string" where
  "trim_space s =
     concat (map snd (rev (dropWhile (is_space \<circ> fst)
       (rev (dropWhile (is_space \<circ> fst) (runes s))))))"

definition to_upper :: "unicode_tables \<Rightarrow> string \<Rightarrow> string" where
  "to_upper u s = map_runes (Some \<circ> to_upper_rune u) s"

definition to_lower :: "unicode_tables \<Rightarrow> string \<Rightarrow> string" where
  "to_lower u s = map_runes (Some \<circ> to_lower_rune u) s"

text \<open>\<open>strings.ToLower\<close> of a string of ASCII bytes.\<close>

definition lower_byte :: "char \<Rightarrow> char" where
  "lower_byte c = (if 65 \<le> byte c \<and> byte c \<le> 90 then char_of (byte c + 32) else c)"

definition to_lower_ascii :: "string \<Rightarrow> string" where
  "to_lower_ascii s = map lower_byte s"

text \<open>\<open>strings.EqualFold\<close> against a lower-case ASCII word: besides the letter case, the simple
  folds of U+212A (Kelvin) and U+017F (long s) reach ASCII.\<close>

definition fold_rune :: "nat \<Rightarrow> nat" where
  "fold_rune r = (if 65 \<le> r \<and> r \<le> 90 then r + 32 else if r = 8490 then 107
     else if r = 383 then 115 else r)"

definition equal_fold_ascii :: "string \<Rightarrow> string \<Rightarrow> bool" where
  "equal_fold_ascii s w \<longleftrightarrow> map (fold_rune \<circ> fst) (runes s) = map byte w"

definition has_prefix :: "string \<Rightarrow> string \<Rightarrow> bool" where
  "has_prefix s p \<longleftrightarrow> take (length p) s = p"

text \<open>The first index whose byte satisfies a predicate (\<open>strings.IndexAny\<close> with ASCII sets,
  \<open>strings.IndexByte\<close>).\<close>

fun index_of :: "(char \<Rightarrow> bool) \<Rightarrow> string \<Rightarrow> nat option" where
  "index_of p [] = None"
| "index_of p (c # s) = (if p c then Some 0 else map_option Suc (index_of p s))"

lemma index_of_None: "index_of p s = None \<longleftrightarrow> (\<forall>c \<in> set s. \<not> p c)"
  by (induction s) auto

lemma index_of_SomeD:
  "index_of p s = Some i \<Longrightarrow> i < length s \<and> p (s ! i) \<and> (\<forall>c \<in> set (take i s). \<not> p c)"
  by (induction s arbitrary: i) (auto split: if_splits)

lemma index_of_Some_iff:
  "index_of p s = Some i \<longleftrightarrow> i < length s \<and> p (s ! i) \<and> (\<forall>j < i. \<not> p (s ! j))"
proof (induction s arbitrary: i)
  case (Cons c s)
  show ?case
  proof (cases i)
    case 0
    then show ?thesis by auto
  next
    case (Suc k)
    then show ?thesis using Cons by (auto simp: all_conj_distrib less_Suc_eq_0_disj)
  qed
qed simp

text \<open>The last index whose byte satisfies a predicate (\<open>strings.LastIndexByte\<close>).\<close>

fun last_index_of :: "(char \<Rightarrow> bool) \<Rightarrow> string \<Rightarrow> nat option" where
  "last_index_of p [] = None"
| "last_index_of p (c # s) =
     (case last_index_of p s of Some i \<Rightarrow> Some (Suc i) | None \<Rightarrow> if p c then Some 0 else None)"

lemma last_index_of_None: "last_index_of p s = None \<longleftrightarrow> (\<forall>c \<in> set s. \<not> p c)"
  by (induction s) (auto split: option.splits)

lemma last_index_of_SomeD:
  "last_index_of p s = Some i \<Longrightarrow> i < length s \<and> p (s ! i) \<and> (\<forall>c \<in> set (drop (Suc i) s). \<not> p c)"
  by (induction s arbitrary: i) (auto simp: last_index_of_None split: option.splits if_splits)

text \<open>\<open>strings.Index\<close>: the first occurrence of a substring.\<close>

fun index_sub :: "string \<Rightarrow> string \<Rightarrow> nat option" where
  "index_sub p [] = (if p = [] then Some 0 else None)"
| "index_sub p (c # s) =
     (if has_prefix (c # s) p then Some 0 else map_option Suc (index_sub p s))"

lemma index_sub_SomeD:
  "index_sub p s = Some i \<Longrightarrow> i + length p \<le> length s \<and> take (length p) (drop i s) = p"
proof (induction s arbitrary: i)
  case (Cons c s)
  then show ?case
    by (auto simp: has_prefix_def split: if_splits)
      (metis length_take linorder_not_less min.cobounded1 length_Cons list.size(4) add.right_neutral
        add_Suc_right)+
qed (auto split: if_splits)

end
