(* ===== verification/UrlUserinfo.thy ===== *)
theory UrlUserinfo
  imports GoStrings
begin

text \<open>
  Credentials inside URLs (package \<open>config\<close>, \<open>config.go\<close>): finding the userinfo of a URL or URL
  template the way browsers read it, the checks that reject it, and the redaction that strips it
  from diagnostics.  Byte offsets are natural numbers, a span is \<open>[start, end)\<close>.
\<close>

section \<open>Definitions\<close>

definition isSlash :: "char \<Rightarrow> bool" where
  "isSlash c \<longleftrightarrow> c = CHR ''/'' \<or> c = CHR 0x5C"

definition specialSchemes :: "string list" where
  "specialSchemes = [''http'', ''https'', ''ws'', ''wss'', ''ftp'', ''file'']"

text \<open>Bytes up to the space, which browsers strip from the front.\<close>

definition is_c0_or_space :: "char \<Rightarrow> bool" where
  "is_c0_or_space c \<longleftrightarrow> byte c \<le> 32"

definition ascii_letter :: "char \<Rightarrow> bool" where
  "ascii_letter c \<longleftrightarrow> (97 \<le> byte c \<and> byte c \<le> 122) \<or> (65 \<le> byte c \<and> byte c \<le> 90)"

definition ascii_digit :: "char \<Rightarrow> bool" where
  "ascii_digit c \<longleftrightarrow> 48 \<le> byte c \<and> byte c \<le> 57"

fun schemeEnd_from :: "nat \<Rightarrow> string \<Rightarrow> nat option" where
  "schemeEnd_from i [] = None"
| "schemeEnd_from i (c # s) =
     (if ascii_letter c then schemeEnd_from (Suc i) s
      else if ascii_digit c \<or> c \<in> {CHR ''+'', CHR ''-'', CHR ''.''} then
        (if i = 0 then None else schemeEnd_from (Suc i) s)
      else if c = CHR '':'' then (if i = 0 then None else Some i)
      else None)"

definition schemeEnd :: "string \<Rightarrow> nat option" where
  "schemeEnd raw = schemeEnd_from 0 raw"

text \<open>Where the authority may start and what ends it, or \<^const>\<open>None\<close> for an opaque URL, a path,
  a query or a fragment.\<close>

definition authority_at :: "string \<Rightarrow> (nat \<times> string) option" where
  "authority_at raw =
     (let i = length raw - length (dropWhile is_c0_or_space raw) in
      case schemeEnd (drop i raw) of
        Some colon \<Rightarrow>
          (let scheme = to_lower_ascii (take colon (drop i raw)); j = i + colon + 1 in
           if scheme \<in> set specialSchemes then Some (j, ''/'' @ [CHR 0x5C] @ ''?#'')
           else if has_prefix (drop j raw) ''//'' then Some (j, ''/?#'')
           else None)
      | None \<Rightarrow>
          (if length raw - i < 2 \<or> \<not> isSlash (raw ! i) \<or> \<not> isSlash (raw ! (i + 1)) then None
           else Some (i, ''/?#'')))"

definition userinfoSpan :: "string \<Rightarrow> (nat \<times> nat) option" where
  "userinfoSpan raw =
     (case authority_at raw of
        None \<Rightarrow> None
      | Some (j, delimiters) \<Rightarrow>
          (let i = j + length (takeWhile isSlash (drop j raw));
               authority = takeWhile (\<lambda>c. c \<notin> set delimiters) (drop i raw) in
           case last_index_of (\<lambda>c. c = CHR ''@'') authority of
             None \<Rightarrow> None
           | Some at \<Rightarrow> Some (i, i + at + 1)))"

definition removeTabsAndNewlines :: "string \<Rightarrow> string" where
  "removeTabsAndNewlines raw =
     (if \<not> (\<exists>c \<in> set raw. byte c \<in> {9, 10, 13}) then raw
      else map_runes (\<lambda>r. if r \<in> {9, 10, 13} then None else Some r) raw)"

definition hasUserinfo :: "string \<Rightarrow> bool" where
  "hasUserinfo raw \<longleftrightarrow> userinfoSpan (removeTabsAndNewlines raw) \<noteq> None"

definition stripUserinfo :: "string \<Rightarrow> string" where
  "stripUserinfo raw =
     (let raw = removeTabsAndNewlines raw in
      case userinfoSpan raw of
        None \<Rightarrow> raw
      | Some (start, end_) \<Rightarrow> take start raw @ drop end_ raw)"

definition bareUserinfoEnd :: "string \<Rightarrow> nat option" where
  "bareUserinfoEnd raw0 =
     (let raw = removeTabsAndNewlines raw0;
          head = dropWhile is_c0_or_space raw;
          offset = length raw - length head;
          head = takeWhile (\<lambda>c. c \<notin> {CHR ''/'', CHR 0x5C, CHR ''?'', CHR ''#''}) head in
      case last_index_of (\<lambda>c. c = CHR ''@'') head of
        None \<Rightarrow> None
      | Some at \<Rightarrow>
          (case index_of (\<lambda>c. c = CHR '':'') (take at head) of
             None \<Rightarrow> None
           | Some colon \<Rightarrow>
               (if equal_fold_ascii (take colon head) ''mailto'' then None
                else Some (offset + at + 1))))"

definition targetRefCredentials :: "string \<Rightarrow> bool" where
  "targetRefCredentials ref \<longleftrightarrow> hasUserinfo ref \<or> bareUserinfoEnd ref \<noteq> None"

definition redactTargetRef :: "string \<Rightarrow> string" where
  "redactTargetRef ref0 =
     (let ref = stripUserinfo ref0 in
      case bareUserinfoEnd ref of Some e \<Rightarrow> drop e ref | None \<Rightarrow> ref)"

text \<open>\<open>ValidHost\<close> takes the test \<open>net.ParseIP(host)\<close> is an IPv6 address, not an IPv4-mapped one, as a
  parameter: the parser belongs to package \<open>net\<close>.\<close>

definition valid_host_byte :: "char \<Rightarrow> bool" where
  "valid_host_byte c \<longleftrightarrow> ascii_letter c \<or> ascii_digit c \<or> c \<in> {CHR ''.'', CHR ''-'', CHR ''_''}"

definition ValidHost :: "(string \<Rightarrow> bool) \<Rightarrow> string \<Rightarrow> bool" where
  "ValidHost is_ipv6 host =
     (if CHR '':'' \<in> set host then is_ipv6 host else list_all valid_host_byte host)"

definition ValidSecretRef :: "string \<Rightarrow> bool" where
  "ValidSecretRef ref \<longleftrightarrow> has_prefix ref ''kv/'' \<or> has_prefix ref ''secret/'' \<or> has_prefix ref ''env/''"

definition redactRef :: "string \<Rightarrow> string" where
  "redactRef ref = (if ref = '''' then '''' else ref @ '':<redacted>'')"

section \<open>Tabs and newlines\<close>

lemma removeTabs_no_tabs: "c \<in> set (removeTabsAndNewlines raw) \<Longrightarrow> byte c \<notin> {9, 10, 13}"
proof -
  let ?f = "\<lambda>r::nat. if r \<in> {9, 10, 13} then None else Some r"
  have enc: "encode_rune rune_error = map char_of [239, 191, 189::nat]"
    by (simp add: encode_rune_def rune_error_def)
  assume c: "c \<in> set (removeTabsAndNewlines raw)"
  show ?thesis
  proof (cases "\<exists>c \<in> set raw. byte c \<in> {9, 10, 13}")
    case True
    then have "removeTabsAndNewlines raw = map_runes ?f raw" unfolding removeTabsAndNewlines_def by meson
    with c have "c \<in> set (map_runes ?f raw)" by simp
    then obtain r bs where rb: "(r, bs) \<in> set (runes raw)" and notin: "r \<notin> {9, 10, 13}"
      and cc: "c \<in> set (if \<not> (r = rune_error \<and> length bs = 1) then bs else encode_rune r)"
      by (auto simp: map_runes_def split: if_splits option.splits)
    show ?thesis
    proof (cases "r = rune_error \<and> length bs = 1")
      case True
      with cc show ?thesis by (auto simp: enc byte_def)
    next
      case False
      with cc have "c \<in> set bs" by simp
      with runes_elem [OF rb] notin have "byte c = r \<or> 128 \<le> byte c" by auto
      with notin show ?thesis by auto
    qed
  next
    case False
    with c show ?thesis by (auto simp: removeTabsAndNewlines_def)
  qed
qed

lemma removeTabs_idem [simp]:
  "removeTabsAndNewlines (removeTabsAndNewlines raw) = removeTabsAndNewlines raw"
  using removeTabs_no_tabs [of _ raw] by (auto simp: removeTabsAndNewlines_def [of "removeTabsAndNewlines raw"])

lemma removeTabs_subset:
  "set s \<subseteq> set (removeTabsAndNewlines raw) \<Longrightarrow> removeTabsAndNewlines s = s"
  using removeTabs_no_tabs [of _ raw] by (auto simp: removeTabsAndNewlines_def [of s])

section \<open>The span and what stripping leaves\<close>

lemma schemeEnd_from_prefix:
  "schemeEnd_from k s = Some m \<Longrightarrow>
     k \<le> m \<and> m - k < length s \<and> schemeEnd_from k (take (Suc (m - k)) s @ t) = Some m"
proof (induction k s rule: schemeEnd_from.induct)
  case (2 i c s)
  show ?case
  proof (cases "ascii_letter c \<or> (ascii_digit c \<or> c \<in> {CHR ''+'', CHR ''-'', CHR ''.''}) \<and> i \<noteq> 0")
    case True
    with "2.prems" have r: "schemeEnd_from (Suc i) s = Some m" by (auto split: if_splits)
    with True "2.IH" have "Suc i \<le> m \<and> m - Suc i < length s \<and>
        schemeEnd_from (Suc i) (take (Suc (m - Suc i)) s @ t) = Some m" by blast
    moreover from this have "Suc (m - Suc i) = m - i" by arith
    ultimately show ?thesis using True by (auto simp: Suc_diff_le)
  next
    case False
    with "2.prems" show ?thesis by (auto split: if_splits)
  qed
qed simp

lemma schemeEnd_prefix:
  assumes "schemeEnd s = Some m" and "take (Suc m) t = take (Suc m) s"
  shows "schemeEnd t = Some m" and "m < length s"
proof -
  note r = schemeEnd_from_prefix [OF assms(1) [unfolded schemeEnd_def], of "drop (Suc m) t"]
  from r show "m < length s" by simp
  from r assms(2) show "schemeEnd t = Some m"
    unfolding schemeEnd_def by (metis append_take_drop_id diff_zero)
qed

lemma length_takeWhile_dropWhile:
  "length s - length (dropWhile P s) = length (takeWhile P s)"
  by (metis add_diff_cancel_right' length_append takeWhile_dropWhile_id)

text \<open>The prefix that decides where the authority starts.\<close>

lemma takeWhile_prefix:
  assumes "length (takeWhile P s) < n" and "n \<le> length s" and "take n t = take n s"
  shows "takeWhile P t = takeWhile P s"
proof -
  let ?k = "length (takeWhile P s)"
  have "\<not> P (s ! ?k)" using assms by (intro nth_length_takeWhile) simp
  moreover have "s ! ?k \<in> set (take n s)"
    using assms by (metis in_set_conv_nth length_take min.absorb2 nth_take)
  ultimately have "takeWhile P (take n s @ u) = takeWhile P (take n s)" for u
    by (rule takeWhile_append1 [rotated])
  from this [of "drop n s"] this [of "drop n t"] assms(3) show ?thesis
    by (metis append_take_drop_id)
qed

lemma authority_at_prefix:
  assumes "authority_at raw = Some (j, d)" and "j \<le> n" and "n \<le> length raw"
    and "take n t = take n raw" and "has_prefix (drop j raw) ''//'' \<Longrightarrow> j + 2 \<le> n"
    and "j < length raw \<Longrightarrow> isSlash (raw ! j) \<Longrightarrow> isSlash (raw ! (j + 1)) \<Longrightarrow> j + 2 \<le> n"
  shows "authority_at t = Some (j, d)"
proof -
  let ?i = "length (takeWhile is_c0_or_space raw)"
  have len: "n \<le> length t" using assms(3,4) by (metis length_take min.absorb_iff2 nat_le_linear take_all)
  show ?thesis
  proof (cases "schemeEnd (drop ?i raw)")
    case (Some colon)
    have c: "colon < length (drop ?i raw)" using schemeEnd_prefix(2) [OF Some refl] .
    from assms(1) Some have j: "j = ?i + colon + 1"
      by (auto simp: authority_at_def length_takeWhile_dropWhile Let_def split: if_splits)
    with assms(2) have i: "?i < n" by simp
    have tw: "takeWhile is_c0_or_space t = takeWhile is_c0_or_space raw"
      using i assms(3,4) by (rule takeWhile_prefix)
    have pre: "take (Suc colon) (drop ?i t) = take (Suc colon) (drop ?i raw)"
      using assms(2,4) j by (metis add.assoc add.commute add_Suc_right plus_1_eq_Suc take_drop min.absorb1 take_take)
    have se: "schemeEnd (drop ?i t) = Some colon" using Some pre by (rule schemeEnd_prefix(1))
    have pc: "take colon (drop ?i t) = take colon (drop ?i raw)"
      using pre by (metis Suc_n_not_le_n min.absorb1 nat_le_linear take_take)
    have hp: "has_prefix (drop j t) ''//''" if "has_prefix (drop j raw) ''//''"
    proof -
      have "take 2 (drop j t) = take 2 (drop j raw)"
        using assms(5) [OF that] assms(4) by (metis add.commute min.absorb1 take_drop take_take)
      with that show ?thesis by (simp add: has_prefix_def numeral_2_eq_2)
    qed
    show ?thesis
      using assms(1) Some se tw pc hp j
      by (auto simp: authority_at_def length_takeWhile_dropWhile Let_def split: if_splits)
  next
    case None
    with assms(1) have j: "j = ?i" and l2: "\<not> length raw - ?i < 2" and sl: "isSlash (raw ! ?i)" "isSlash (raw ! (?i + 1))"
      by (auto simp: authority_at_def length_takeWhile_dropWhile Let_def split: if_splits)
    have n2: "?i + 2 \<le> n" using assms(6) j l2 sl by simp
    have tw: "takeWhile is_c0_or_space t = takeWhile is_c0_or_space raw"
      using n2 assms(3,4) by (intro takeWhile_prefix) simp_all
    have eq: "t ! ?i = raw ! ?i" "t ! (?i + 1) = raw ! (?i + 1)"
      using n2 arg_cong [OF assms(4), of "\<lambda>s. s ! ?i"] arg_cong [OF assms(4), of "\<lambda>s. s ! (?i + 1)"]
      by simp_all
    have nl: "schemeEnd (drop ?i t) = None"
    proof -
      have "?i < length t" using n2 len by simp
      then have "drop ?i t = t ! ?i # drop (Suc ?i) t" by (rule Cons_nth_drop_Suc [symmetric])
      with sl(1) eq(1) show ?thesis
        by (auto simp: schemeEnd_def isSlash_def ascii_letter_def ascii_digit_def byte_def)
    qed
    show ?thesis
      using assms(1) None nl tw eq sl n2 len l2 j
      by (auto simp: authority_at_def length_takeWhile_dropWhile Let_def split: if_splits)
  qed
qed

lemma drop_takeWhile:
  "n \<le> length (takeWhile P xs) \<Longrightarrow> drop n (takeWhile P xs) = takeWhile P (drop n xs)"
proof (induction xs arbitrary: n)
  case (Cons x xs)
  then show ?case by (cases n) (auto split: if_splits)
qed simp

lemma drop_middle: "at < length B \<Longrightarrow> drop (length A + at + 1) (A @ B @ C) = drop (Suc at) B @ C"
  by simp

lemma takeWhile_dropWhile_subset:
  assumes X: "\<forall>c \<in> set X. P c" and R: "R = [] \<or> \<not> P (hd R)" and Q: "\<And>c. Q c \<Longrightarrow> P c"
  shows "set (takeWhile P (dropWhile Q (X @ R))) \<subseteq> set X"
proof (cases "\<forall>c \<in> set X. Q c")
  case True
  have "dropWhile Q R = R" "takeWhile P R = []" using R Q by (cases R; auto)+
  with True show ?thesis by (simp add: dropWhile_append2)
next
  case False
  have tR: "takeWhile P R = []" using R by (cases R) auto
  from False have "dropWhile Q (X @ R) = dropWhile Q X @ R" by (meson dropWhile_append1)
  moreover have "takeWhile P (dropWhile Q X @ R) = dropWhile Q X"
    using X tR by (subst takeWhile_append2) (auto dest: set_dropWhileD)
  ultimately show ?thesis by (auto dest: set_dropWhileD)
qed

lemma userinfoSpan_SomeE:
  assumes "userinfoSpan raw = Some (s, e)"
  obtains j d at where "authority_at raw = Some (j, d)"
    and "s = j + length (takeWhile isSlash (drop j raw))" and "e = s + at + 1"
    and "last_index_of (\<lambda>c. c = CHR ''@'') (takeWhile (\<lambda>c. c \<notin> set d) (drop s raw)) = Some at"
  using assms by (auto simp: userinfoSpan_def Let_def split: option.splits)

lemma userinfoSpan_bounds:
  assumes "userinfoSpan raw = Some (s, e)"
  shows "s < e" and "e \<le> length raw" and "raw ! (e - 1) = CHR ''@''"
proof -
  obtain j d at where e: "e = s + at + 1"
    and at: "last_index_of (\<lambda>c. c = CHR ''@'') (takeWhile (\<lambda>c. c \<notin> set d) (drop s raw)) = Some at"
    using userinfoSpan_SomeE [OF assms] by metis
  let ?A = "takeWhile (\<lambda>c. c \<notin> set d) (drop s raw)"
  from last_index_of_SomeD [OF at] have a: "at < length ?A" "?A ! at = CHR ''@''" by auto
  moreover have "length ?A \<le> length (drop s raw)" by (rule length_takeWhile_le)
  ultimately have "s + at < length raw" by simp
  then show "s < e" "e \<le> length raw" using e by simp_all
  from a have "drop s raw ! at = CHR ''@''" by (metis takeWhile_nth)
  with e \<open>s + at < length raw\<close> show "raw ! (e - 1) = CHR ''@''" by simp
qed

text \<open>After the span is cut out, scanning the rest finds no userinfo, provided the authority went
  on after the \<open>@\<close>: a slash there would be skipped together with the ones before it.\<close>

lemma userinfoSpan_stripped:
  assumes "userinfoSpan raw = Some (s, e)" and "e < length raw \<Longrightarrow> \<not> isSlash (raw ! e)"
  shows "userinfoSpan (take s raw @ drop e raw) = None"
proof -
  let ?t = "take s raw @ drop e raw"
  obtain j d at where auth: "authority_at raw = Some (j, d)"
    and s: "s = j + length (takeWhile isSlash (drop j raw))" and e: "e = s + at + 1"
    and at: "last_index_of (\<lambda>c. c = CHR ''@'') (takeWhile (\<lambda>c. c \<notin> set d) (drop s raw)) = Some at"
    using userinfoSpan_SomeE [OF assms(1)] .
  note b = userinfoSpan_bounds [OF assms(1)]
  from b have sl: "s < length raw" by simp
  have slashes: "takeWhile isSlash (drop j raw) = take (s - j) (drop j raw)"
    using s takeWhile_eq_take [of isSlash "drop j raw"] by simp
  have two: "j + 2 \<le> s" if "isSlash (raw ! j)" "isSlash (raw ! (j + 1))"
  proof (rule ccontr)
    assume "\<not> j + 2 \<le> s"
    moreover have "j \<le> s" using s by simp
    ultimately have "s = j \<or> s = j + 1" by linarith
    then have "isSlash (drop j raw ! length (takeWhile isSlash (drop j raw)))"
      using that s sl by auto
    moreover have "length (takeWhile isSlash (drop j raw)) < length (drop j raw)" using s sl by simp
    ultimately show False using nth_length_takeWhile by blast
  qed
  have two': "j + 2 \<le> s" if "has_prefix (drop j raw) ''//''"
  proof -
    have "take 2 (drop j raw) = [CHR ''/'', CHR ''/'']" using that by (simp add: has_prefix_def numeral_2_eq_2)
    then have "drop j raw ! 0 = CHR ''/''" "drop j raw ! 1 = CHR ''/''"
      by (metis nth_Cons_0 nth_take zero_less_numeral, metis nth_Cons_0 nth_Cons_Suc nth_take one_less_numeral_iff One_nat_def semiring_norm(76))
    then show ?thesis using two s sl by (simp add: isSlash_def)
  qed
  have auth': "authority_at ?t = Some (j, d)"
  proof (rule authority_at_prefix [OF auth, of s])
    show "j \<le> s" using s by simp
    show "s \<le> length raw" "take s ?t = take s raw" using sl by simp_all
  qed (use two two' in blast)+
  have dj: "drop j ?t = takeWhile isSlash (drop j raw) @ drop e raw"
  proof -
    have "j \<le> s" using s by simp
    then have "drop j ?t = drop j (take s raw) @ drop e raw" using sl by simp
    then show ?thesis by (simp only: drop_take slashes)
  qed
  have skip: "takeWhile isSlash (drop j ?t) = takeWhile isSlash (drop j raw)"
  proof (cases "e < length raw")
    case True
    then have "drop e raw = raw ! e # drop (Suc e) raw" by (rule Cons_nth_drop_Suc [symmetric])
    with assms(2) [OF True] have "takeWhile isSlash (drop e raw) = []" by simp
    moreover have "takeWhile isSlash (takeWhile isSlash (drop j raw) @ drop e raw)
        = takeWhile isSlash (drop j raw) @ takeWhile isSlash (drop e raw)"
      by (rule takeWhile_append2) (rule set_takeWhileD [THEN conjunct2])
    ultimately show ?thesis unfolding dj by (simp only: append_Nil2)
  next
    case False
    with dj show ?thesis by (simp add: takeWhile_idem)
  qed
  have "\<forall>c \<in> set (takeWhile (\<lambda>c. c \<notin> set d) (drop e raw)). c \<noteq> CHR ''@''"
  proof -
    let ?A = "takeWhile (\<lambda>c. c \<notin> set d) (drop s raw)"
    from last_index_of_SomeD [OF at] have a: "at < length ?A" "\<forall>c \<in> set (drop (Suc at) ?A). c \<noteq> CHR ''@''"
      by auto
    have "drop (Suc at) ?A = takeWhile (\<lambda>c. c \<notin> set d) (drop (Suc at) (drop s raw))"
      using a(1) by (simp add: drop_takeWhile)
    with a(2) e show ?thesis by (simp add: add.commute)
  qed
  then have none: "last_index_of (\<lambda>c. c = CHR ''@'') (takeWhile (\<lambda>c. c \<notin> set d) (drop e raw)) = None"
    by (simp only: last_index_of_None not_False_eq_True)
  have ds: "drop s ?t = drop e raw" using sl by simp
  show ?thesis
    unfolding userinfoSpan_def auth' Let_def option.case prod.case skip s [symmetric] ds none ..
qed

lemma set_stripUserinfo: "set (stripUserinfo raw) \<subseteq> set (removeTabsAndNewlines raw)"
  by (auto simp: stripUserinfo_def Let_def split: option.splits dest: in_set_takeD in_set_dropD)

lemma removeTabs_strip [simp]: "removeTabsAndNewlines (stripUserinfo raw) = stripUserinfo raw"
  by (rule removeTabs_subset [OF set_stripUserinfo])

lemma strip_unchanged: "\<not> hasUserinfo raw \<Longrightarrow> stripUserinfo raw = removeTabsAndNewlines raw"
  by (cases "userinfoSpan (removeTabsAndNewlines raw)") (simp_all add: stripUserinfo_def hasUserinfo_def)

lemma strip_no_userinfo: "\<not> hasUserinfo raw \<Longrightarrow> \<not> hasUserinfo (stripUserinfo raw)"
  by (simp add: strip_unchanged hasUserinfo_def)

text \<open>A scheme-less reference: what remains before the first delimiter has no \<open>@\<close>.\<close>

lemma bareUserinfoEnd_drop:
  assumes "bareUserinfoEnd ref = Some e" and "removeTabsAndNewlines ref = ref"
  shows "bareUserinfoEnd (drop e ref) = None"
proof -
  let ?P = "\<lambda>c. c \<notin> {CHR ''/'', CHR 0x5C, CHR ''?'', CHR ''#''}"
  let ?base = "dropWhile is_c0_or_space ref" and ?off = "length (takeWhile is_c0_or_space ref)"
  let ?h = "takeWhile ?P ?base"
  obtain at where at: "last_index_of (\<lambda>c. c = CHR ''@'') ?h = Some at" and e: "e = ?off + at + 1"
    using assms by (auto simp: bareUserinfoEnd_def Let_def length_takeWhile_dropWhile
        split: option.splits if_splits)
  from last_index_of_SomeD [OF at] have a: "at < length ?h" "\<forall>c \<in> set (drop (Suc at) ?h). c \<noteq> CHR ''@''"
    by auto
  let ?X = "drop (Suc at) ?h" and ?R = "dropWhile ?P ?base"
  have "?h @ ?R = ?base" by (rule takeWhile_dropWhile_id)
  then have "ref = takeWhile is_c0_or_space ref @ ?h @ ?R" by (simp only: takeWhile_dropWhile_id)
  then have "drop e ref = drop e (takeWhile is_c0_or_space ref @ ?h @ ?R)" by metis
  also have "\<dots> = ?X @ ?R" unfolding e using a(1) by (rule drop_middle)
  finally have t: "drop e ref = ?X @ ?R" .
  have X: "\<forall>c \<in> set ?X. ?P c"
  proof
    fix c assume "c \<in> set ?X"
    then have "c \<in> set ?h" by (rule in_set_dropD)
    then show "?P c" by (rule set_takeWhileD [THEN conjunct2])
  qed
  have R: "?R = [] \<or> \<not> ?P (hd ?R)" by (metis hd_dropWhile)
  then have "set (takeWhile ?P (dropWhile is_c0_or_space (?X @ ?R))) \<subseteq> set ?X"
    by (rule takeWhile_dropWhile_subset [OF X]) (auto simp: is_c0_or_space_def byte_def)
  with a(2) have none: "last_index_of (\<lambda>c. c = CHR ''@'')
      (takeWhile ?P (dropWhile is_c0_or_space (drop e ref))) = None"
    unfolding t last_index_of_None by blast
  have "removeTabsAndNewlines (drop e ref) = drop e ref"
    using assms(2) by (metis removeTabs_subset set_drop_subset)
  with none show ?thesis by (simp add: bareUserinfoEnd_def Let_def)
qed

section \<open>Properties\<close>

text \<open>C6: Redaction of a URL whose authority goes on after its userinfo: the stripped URL has no
  userinfo left, whatever browsers would make of the text.\<close>

theorem strip_removes_userinfo:
  assumes "userinfoSpan (removeTabsAndNewlines raw) = Some (s, e)"
    and "e < length (removeTabsAndNewlines raw) \<longrightarrow> \<not> isSlash (removeTabsAndNewlines raw ! e)"
  shows "stripUserinfo raw = take s (removeTabsAndNewlines raw) @ drop e (removeTabsAndNewlines raw)
    \<and> \<not> hasUserinfo (stripUserinfo raw)"
proof -
  have eq: "stripUserinfo raw = take s (removeTabsAndNewlines raw) @ drop e (removeTabsAndNewlines raw)"
    using assms(1) by (simp add: stripUserinfo_def Let_def)
  moreover have "\<not> hasUserinfo (stripUserinfo raw)"
    using userinfoSpan_stripped [OF assms(1)] assms(2) removeTabs_strip [of raw]
    by (simp add: hasUserinfo_def eq)
  ultimately show ?thesis by simp
qed

theorem strip_removes_userinfo_witness:
  "stripUserinfo ''https://ops:pw@db/x'' = ''https://db/x'' \<and> \<not> hasUserinfo (stripUserinfo ''https://ops:pw@db/x'')"
proof -
  have h: "userinfoSpan (removeTabsAndNewlines ''https://ops:pw@db/x'') = Some (8, 15)" by code_simp
  have t: "removeTabsAndNewlines ''https://ops:pw@db/x'' = ''https://ops:pw@db/x''" by code_simp
  have g: "15 < length (removeTabsAndNewlines ''https://ops:pw@db/x'') \<longrightarrow>
      \<not> isSlash (removeTabsAndNewlines ''https://ops:pw@db/x'' ! 15)"
    unfolding t by (simp add: isSlash_def)
  have "stripUserinfo ''https://ops:pw@db/x'' = ''https://db/x''" by code_simp
  then show ?thesis using strip_removes_userinfo [OF h g] by (rule conjI [OF _ conjunct2])
qed

text \<open>The documented promise that userinfo is stripped from every URL does not hold where the
  authority is empty after the userinfo: the slashes around the cut join, and what follows them
  is read as a new authority with userinfo of its own.\<close>

lemma strip_can_leave_userinfo:
  "stripUserinfo ''http://a:b@/c:d@h'' = ''http:///c:d@h'' \<and> hasUserinfo (stripUserinfo ''http://a:b@/c:d@h'')"
  by code_simp

text \<open>Redacting a notification target reference leaves no bare \<open>user:password@host\<close> in it.\<close>

theorem redactTargetRef_no_bare: "bareUserinfoEnd (redactTargetRef ref) = None"
proof (cases "bareUserinfoEnd (stripUserinfo ref)")
  case (Some e)
  then show ?thesis
    by (simp add: redactTargetRef_def bareUserinfoEnd_drop)
qed (simp add: redactTargetRef_def)

end
