(* ===== verification/SqlQuery.thy ===== *)
theory SqlQuery
  imports GoStrings
begin

text \<open>
  The read-only check of probe queries (package \<open>config\<close>, \<open>query.go\<close>): the T-SQL lexer with its
  comments, strings, quoted identifiers and numbers, the token rules of
  \<open>ValidateReadOnlySelect\<close>, and \<open>DerivedTable\<close>.  Offsets are byte offsets into the query; the
  lexer is parameterised by the Unicode tables beyond ASCII.
\<close>

section \<open>Tokens and errors\<close>

datatype sqlTokenKind = sqlWord | sqlQuoted | sqlString | sqlVariable | sqlNumber | sqlPunct

record sqlToken =
  tk_kind :: sqlTokenKind
  tk_text :: string
  tk_afterDot :: bool
  tk_start :: nat
  tk_end :: nat

datatype sqlError =
    ControlCharacter
  | UnterminatedString
  | UnterminatedBracket
  | UnterminatedQuoted
  | UnterminatedComment
  | EmptyStatement
  | BadStart
  | ManyStatements
  | UnbalancedParentheses
  | SystemProcedure
  | ForbiddenKeyword string string
  | EndWithoutCase
  | SecondSelect
  | NoTopLevelSelect
  | StartsWithWith
  | HasOption
  | HasFor string
  | OrderByWithoutTop

section \<open>The scanners of one token\<close>

definition lineBreakLike :: "nat \<Rightarrow> bool" where
  "lineBreakLike r = (if r = 9 \<or> r = 13 \<or> r = 10 then False
     else is_control r \<or> r = 8232 \<or> r = 8233)"

definition word_rune :: "unicode_tables \<Rightarrow> nat \<Rightarrow> bool" where
  "word_rune u r \<longleftrightarrow> is_letter u r \<or> is_digit u r \<or> r \<in> {95, 64, 35, 36}"

function wordEnd :: "unicode_tables \<Rightarrow> string \<Rightarrow> nat \<Rightarrow> nat" where
  "wordEnd u q i =
     (if i < length q then
        let (r, size) = decode_rune (drop i q) in
        if \<not> word_rune u r then i else wordEnd u q (i + size)
      else i)"
  by pat_completeness auto
termination
proof (relation "measure (\<lambda>(u, q, i). length q - i)")
  fix u :: unicode_tables and q :: string and i r size x
  assume "i < length q" "x = decode_rune (drop i q)" "(r, size) = x"
  then show "((u, q, i + size), u, q, i) \<in> measure (\<lambda>(u, q, i). length q - i)"
    using decode_rune_size [of "drop i q"] by (cases "decode_rune (drop i q)") auto
qed simp

declare wordEnd.simps [simp del]

function digits :: "string \<Rightarrow> bool \<Rightarrow> nat \<Rightarrow> nat" where
  "digits q hex i =
     (if i < length q \<and> ((48 \<le> byte (q ! i) \<and> byte (q ! i) \<le> 57) \<or>
        (hex \<and> q ! i \<in> set ''abcdefABCDEF''))
      then digits q hex (i + 1) else i)"
  by pat_completeness auto
termination by (relation "measure (\<lambda>(q, hex, i). length q - i)") auto

declare digits.simps [simp del]

definition byte_at :: "string \<Rightarrow> nat \<Rightarrow> char set \<Rightarrow> bool" where
  "byte_at q i cs \<longleftrightarrow> i < length q \<and> q ! i \<in> cs"

definition numberEnd :: "string \<Rightarrow> nat \<Rightarrow> nat" where
  "numberEnd q i =
     (if has_prefix (drop i q) ''0x'' \<or> has_prefix (drop i q) ''0X'' then digits q True (i + 2)
      else
        let i = digits q False i;
            i = (if byte_at q i {CHR ''.''} then digits q False (i + 1) else i) in
        if byte_at q i {CHR ''e'', CHR ''E''} then
          let i = i + 1;
              i = (if byte_at q i {CHR ''+'', CHR ''-''} then i + 1 else i) in
          digits q False i
        else i)"

function quotedEnd_from :: "string \<Rightarrow> nat \<Rightarrow> char \<Rightarrow> nat option" where
  "quotedEnd_from q i closer =
     (if i < length q then
        (if q ! i \<noteq> closer then quotedEnd_from q (i + 1) closer
         else if i + 1 < length q \<and> q ! (i + 1) = closer then quotedEnd_from q (i + 2) closer
         else Some (i + 1))
      else None)"
  by pat_completeness auto
termination by (relation "measure (\<lambda>(q, i, closer). length q - i)") auto

declare quotedEnd_from.simps [simp del]

definition quotedEnd :: "string \<Rightarrow> nat \<Rightarrow> char \<Rightarrow> nat option" where
  "quotedEnd q start closer = quotedEnd_from q (start + 1) closer"

function blockComment_from :: "string \<Rightarrow> nat \<Rightarrow> int \<Rightarrow> nat option" where
  "blockComment_from q i depth =
     (if i + 1 < length q then
        (if q ! i = CHR ''/'' \<and> q ! (i + 1) = CHR ''*'' then blockComment_from q (i + 2) (depth + 1)
         else if q ! i = CHR ''*'' \<and> q ! (i + 1) = CHR ''/'' then
           (if depth - 1 = 0 then Some (i + 2) else blockComment_from q (i + 2) (depth - 1))
         else blockComment_from q (i + 1) depth)
      else None)"
  by pat_completeness auto
termination by (relation "measure (\<lambda>(q, i, depth). length q - i)") auto

declare blockComment_from.simps [simp del]

definition blockCommentEnd :: "string \<Rightarrow> nat \<Rightarrow> nat option" where
  "blockCommentEnd q start = blockComment_from q start 0"

section \<open>Progress of the scanners\<close>

lemma wordEnd_bounds: "i \<le> length q \<Longrightarrow> i \<le> wordEnd u q i \<and> wordEnd u q i \<le> length q"
proof (induction u q i rule: wordEnd.induct)
  case (1 u q i)
  obtain r size where d: "decode_rune (drop i q) = (r, size)" by fastforce
  show ?case
  proof (cases "i < length q \<and> word_rune u r")
    case True
    moreover have "i + size \<le> length q"
      using True decode_rune_size [of "drop i q"] d by auto
    ultimately have "i + size \<le> wordEnd u q (i + size) \<and> wordEnd u q (i + size) \<le> length q"
      using "1.IH" [of "(r, size)" r size] d by simp
    with True d show ?thesis by (simp add: wordEnd.simps [of u q i])
  next
    case False
    with d "1.prems" show ?thesis by (auto simp: wordEnd.simps [of u q i])
  qed
qed

lemma wordEnd_gt:
  assumes "i < length q" and "word_rune u (fst (decode_rune (drop i q)))"
  shows "i < wordEnd u q i"
proof -
  obtain r size where d: "decode_rune (drop i q) = (r, size)" by fastforce
  have "1 \<le> size" "i + size \<le> length q"
    using assms(1) decode_rune_size [of "drop i q"] d by auto
  with wordEnd_bounds [of "i + size" q u] assms d show ?thesis
    by (simp add: wordEnd.simps [of u q i])
qed

lemma digits_bounds: "i \<le> length q \<Longrightarrow> i \<le> digits q hex i \<and> digits q hex i \<le> length q"
proof (induction q hex i rule: digits.induct)
  case (1 q hex i)
  then show ?case
    by (subst (1 2) digits.simps) auto
qed

lemma has_prefix_len: "has_prefix (drop i q) p \<Longrightarrow> p \<noteq> [] \<Longrightarrow> i + length p \<le> length q"
  unfolding has_prefix_def by (metis Nat.le_diff_conv2 add.commute drop_all length_drop length_take
      linorder_le_cases min_def nat_le_linear take_all_iff take_eq_Nil)

lemma numberEnd_bounds:
  assumes "i < length q" and "48 \<le> byte (q ! i)" "byte (q ! i) \<le> 57"
  shows "i < numberEnd q i \<and> numberEnd q i \<le> length q"
proof -
  let ?d = "digits q False i"
  have d: "i < ?d" "?d \<le> length q"
    using assms digits_bounds [of "i + 1" q False] by (auto simp: digits.simps [of q False i])
  have step: "i < digits q False j \<and> digits q False j \<le> length q" if "i < j" "j \<le> length q" for j
    using digits_bounds [of j q False] that by simp
  show ?thesis
  proof (cases "has_prefix (drop i q) ''0x'' \<or> has_prefix (drop i q) ''0X''")
    case True
    then have "i + 2 \<le> length q" using has_prefix_len by fastforce
    with digits_bounds [of "i + 2" q True] True show ?thesis by (simp add: numberEnd_def)
  next
    case False
    define j where "j = (if byte_at q ?d {CHR ''.''} then digits q False (?d + 1) else ?d)"
    define k where "k = (if byte_at q (j + 1) {CHR ''+'', CHR ''-''} then j + 2 else j + 1)"
    have j: "i < j" "j \<le> length q"
      using d step [of "?d + 1"] by (simp_all add: j_def byte_at_def)
    have n: "numberEnd q i = (if byte_at q j {CHR ''e'', CHR ''E''} then digits q False k else j)"
      using False by (simp add: numberEnd_def Let_def j_def k_def)
    have "byte_at q j {CHR ''e'', CHR ''E''} \<Longrightarrow> i < k \<and> k \<le> length q"
      using j by (auto simp: k_def byte_at_def)
    with j step [of k] show ?thesis by (simp add: n)
  qed
qed

lemma quotedEnd_from_bounds: "quotedEnd_from q i closer = Some e \<Longrightarrow> i < e \<and> e \<le> length q"
proof (induction q i closer rule: quotedEnd_from.induct)
  case (1 q i closer)
  show ?case
    using "1.prems" "1.IH" by (subst (asm) (1) quotedEnd_from.simps) (auto split: if_splits)
qed

lemma quotedEnd_bounds: "quotedEnd q i closer = Some e \<Longrightarrow> i + 1 < e \<and> e \<le> length q"
  using quotedEnd_from_bounds unfolding quotedEnd_def by blast

lemma blockComment_from_bounds: "blockComment_from q i depth = Some e \<Longrightarrow> i + 2 \<le> e \<and> e \<le> length q"
proof (induction q i depth rule: blockComment_from.induct)
  case (1 q i depth)
  show ?case
    using "1.prems" "1.IH" by (subst (asm) (1) blockComment_from.simps) (auto split: if_splits)
qed

lemma blockCommentEnd_bounds: "blockCommentEnd q i = Some e \<Longrightarrow> i + 2 \<le> e \<and> e \<le> length q"
  using blockComment_from_bounds unfolding blockCommentEnd_def by blast

section \<open>The lexer\<close>

text \<open>A '.' that continues a name, judged by the last two tokens.\<close>

definition afterDot :: "sqlToken list \<Rightarrow> bool" where
  "afterDot tokens =
     (let n = length tokens in
      if n < 2 \<or> tk_kind (tokens ! (n - 1)) \<noteq> sqlPunct \<or> tk_text (tokens ! (n - 1)) \<noteq> ''.'' then False
      else let before = tokens ! (n - 2) in
        tk_kind before = sqlWord \<or> tk_kind before = sqlQuoted \<or> tk_kind before = sqlVariable
        \<or> (tk_kind before = sqlPunct \<and> tk_text before = ''.''))"

text \<open>One turn of the loop of \<open>sqlTokens\<close> at offset i: an error, the early return of a final line
  comment, text that is skipped up to an offset, or a token.\<close>

datatype lex_step = LexFail sqlError | LexStop | LexSkip nat | LexToken sqlToken

definition new_token :: "sqlTokenKind \<Rightarrow> string \<Rightarrow> bool \<Rightarrow> nat \<Rightarrow> nat \<Rightarrow> lex_step" where
  "new_token kind text dot start stop =
     LexToken \<lparr>tk_kind = kind, tk_text = text, tk_afterDot = dot, tk_start = start, tk_end = stop\<rparr>"

definition quoted_token :: "string \<Rightarrow> nat \<Rightarrow> char \<Rightarrow> sqlTokenKind \<Rightarrow> sqlError \<Rightarrow> lex_step" where
  "quoted_token q i closer kind err =
     (case quotedEnd q i closer of None \<Rightarrow> LexFail err | Some e \<Rightarrow> new_token kind [] False i e)"

definition sqlTokens_step :: "unicode_tables \<Rightarrow> string \<Rightarrow> sqlToken list \<Rightarrow> nat \<Rightarrow> lex_step" where
  "sqlTokens_step u q tokens i =
     (let (r, size) = decode_rune (drop i q) in
      if is_space r then LexSkip (i + size)
      else if has_prefix (drop i q) ''--'' then
        (case index_of (\<lambda>c. byte c = 13 \<or> byte c = 10) (drop i q) of
           None \<Rightarrow> LexStop | Some e \<Rightarrow> LexSkip (i + e))
      else if has_prefix (drop i q) ''/*'' then
        (case blockCommentEnd q i of None \<Rightarrow> LexFail UnterminatedComment | Some e \<Rightarrow> LexSkip e)
      else if r = 39 then quoted_token q i (CHR 39) sqlString UnterminatedString
      else if r = 91 then quoted_token q i (CHR '']'') sqlQuoted UnterminatedBracket
      else if r = 34 then quoted_token q i (CHR 34) sqlQuoted UnterminatedQuoted
      else if r = 64 \<or> r = 35 then new_token sqlVariable [] False i (wordEnd u q (i + size))
      else if r = 95 \<or> is_letter u r then
        (let e = wordEnd u q i in
         new_token sqlWord (to_upper u (drop i (take e q))) (afterDot tokens) i e)
      else if 48 \<le> r \<and> r \<le> 57 then new_token sqlNumber [] False i (numberEnd q i)
      else new_token sqlPunct (encode_rune r) False i (i + size))"

lemma sqlTokens_step_progress:
  assumes i: "i < length q"
  shows "sqlTokens_step u q tokens i = LexSkip e \<Longrightarrow> i < e \<and> e \<le> length q"
    and "sqlTokens_step u q tokens i = LexToken t \<Longrightarrow>
      tk_start t = i \<and> i < tk_end t \<and> tk_end t \<le> length q"
proof -
  obtain r size where d: "decode_rune (drop i q) = (r, size)" by fastforce
  have sz: "1 \<le> size" "i + size \<le> length q"
    using i decode_rune_size [of "drop i q"] d by auto
  have dig: "48 \<le> byte (q ! i) \<and> byte (q ! i) \<le> 57" if "48 \<le> r" "r \<le> 57"
  proof (rule ccontr)
    assume c: "\<not> ?thesis"
    have "drop i q = q ! i # drop (Suc i) q" using i by (rule Cons_nth_drop_Suc [symmetric])
    with d decode_rune_nonascii [of "q ! i" "drop (Suc i) q"] that c show False
      by (cases "byte (q ! i) < 128") auto
  qed
  have eol: "0 < e" if "has_prefix (drop i q) ''--''"
    "index_of (\<lambda>c. byte c = 13 \<or> byte c = 10) (drop i q) = Some e" for e
  proof (rule ccontr)
    assume "\<not> 0 < e"
    with that index_of_SomeD [OF that(2)] i show False
      by (cases "drop i q") (auto simp: has_prefix_def byte_def)
  qed
  have word: "i < wordEnd u q i" if "r = 95 \<or> is_letter u r"
    using wordEnd_gt [OF i, of u] d that by (auto simp: word_rune_def)
  have quot: "i < e \<and> e \<le> length q" if "quotedEnd q i c = Some e" for c e
    using quotedEnd_bounds [OF that] by simp
  show "i < e \<and> e \<le> length q" if "sqlTokens_step u q tokens i = LexSkip e"
    using that sz eol i index_of_SomeD [of _ "drop i q"] blockCommentEnd_bounds [of q i]
    by (auto simp: sqlTokens_step_def d new_token_def quoted_token_def Let_def
        split: if_splits option.splits) fastforce+
  show "tk_start t = i \<and> i < tk_end t \<and> tk_end t \<le> length q"
    if "sqlTokens_step u q tokens i = LexToken t"
    using that sz i dig word numberEnd_bounds [OF i] wordEnd_bounds [of i q u]
      wordEnd_bounds [of "i + size" q u] quot
    by (auto simp: sqlTokens_step_def d new_token_def quoted_token_def Let_def
        split: if_splits option.splits)
qed

function tokens_from :: "unicode_tables \<Rightarrow> string \<Rightarrow> sqlToken list \<Rightarrow> nat \<Rightarrow>
    (sqlError, sqlToken list) result" where
  "tokens_from u q tokens i =
     (if i < length q then
        (case sqlTokens_step u q tokens i of
           LexFail e \<Rightarrow> Inl e
         | LexStop \<Rightarrow> Inr tokens
         | LexSkip j \<Rightarrow> tokens_from u q tokens j
         | LexToken t \<Rightarrow> tokens_from u q (tokens @ [t]) (tk_end t))
      else Inr tokens)"
  by pat_completeness auto
termination
  by (relation "measure (\<lambda>(u, q, tokens, i). length q - i)")
    (use sqlTokens_step_progress in \<open>fastforce+\<close>)

declare tokens_from.simps [simp del]

definition sqlTokens :: "unicode_tables \<Rightarrow> string \<Rightarrow> (sqlError, sqlToken list) result" where
  "sqlTokens u q =
     (if \<exists>x \<in> set (runes q). lineBreakLike (fst x) then Inl ControlCharacter else tokens_from u q [] 0)"

section \<open>The statement rules\<close>

definition isSemicolon :: "sqlToken \<Rightarrow> bool" where
  "isSemicolon t \<longleftrightarrow> tk_kind t = sqlPunct \<and> tk_text t = '';''"

definition trimSemicolons :: "sqlToken list \<Rightarrow> sqlToken list" where
  "trimSemicolons tokens = rev (dropWhile isSemicolon (rev (dropWhile isSemicolon tokens)))"

definition keyword_reasons :: "(string \<times> string list) list" where
  "keyword_reasons =
   [(''which changes data'',
      [''INSERT'', ''UPDATE'', ''DELETE'', ''MERGE'', ''TRUNCATE'', ''BULK'', ''WRITETEXT'', ''UPDATETEXT'']),
    (''which changes the schema or permissions'',
      [''CREATE'', ''ALTER'', ''DROP'', ''ADD'', ''GRANT'', ''DENY'', ''REVOKE'']),
    (''which runs a procedure or dynamic SQL'', [''EXEC'', ''EXECUTE'']),
    (''which writes the result to a table (SELECT ... INTO)'', [''INTO'']),
    (''which reads another server or a file'', [''OPENROWSET'', ''OPENQUERY'', ''OPENDATASOURCE'']),
    (''which administers the server'',
      [''SHUTDOWN'', ''DBCC'', ''BACKUP'', ''RESTORE'', ''KILL'', ''RECONFIGURE'', ''CHECKPOINT'', ''DISK'',
       ''LOAD'', ''DUMP'']),
    (''which holds the session'', [''WAITFOR'']),
    (''which switches the database, user or session settings'',
      [''USE'', ''SET'', ''SETUSER'', ''REVERT'']),
    (''which opens or ends a transaction'',
      [''BEGIN'', ''COMMIT'', ''ROLLBACK'', ''SAVE'', ''TRAN'', ''TRANSACTION'']),
    (''which starts another statement'',
      [''DECLARE'', ''IF'', ''WHILE'', ''GOTO'', ''RETURN'', ''BREAK'', ''CONTINUE'', ''PRINT'', ''RAISERROR'',
       ''READTEXT'', ''OPEN'', ''CLOSE'', ''DEALLOCATE'', ''RECEIVE'', ''SEND''])]"

definition forbiddenSQLKeywords :: "string \<rightharpoonup> string" where
  "forbiddenSQLKeywords =
     map_of (concat (map (\<lambda>(reason, keywords). map (\<lambda>k. (k, reason)) keywords) keyword_reasons))"

definition word_token :: "sqlToken list \<Rightarrow> nat \<Rightarrow> string \<Rightarrow> bool" where
  "word_token nxt i text \<longleftrightarrow> i < length nxt \<and> tk_kind (nxt ! i) = sqlWord \<and> tk_text (nxt ! i) = text"

definition queryHint :: "sqlToken list \<Rightarrow> string \<Rightarrow> bool" where
  "queryHint nxt keyword =
     (if keyword = ''MERGE'' then word_token nxt 0 ''JOIN'' \<or> word_token nxt 0 ''UNION''
      else if keyword = ''USE'' then word_token nxt 0 ''PLAN'' \<or>
        (word_token nxt 0 ''HINT'' \<and> length nxt > 1 \<and> tk_kind (nxt ! 1) = sqlPunct
           \<and> tk_text (nxt ! 1) = ''('')
      else False)"

definition routinePrefix :: "string \<Rightarrow> bool" where
  "routinePrefix word \<longleftrightarrow> has_prefix word ''SP_'' \<or> has_prefix word ''XP_''"

definition followsSetOperator :: "sqlToken list \<Rightarrow> bool" where
  "followsSetOperator before =
     (if before = [] then False
      else let final = before ! (length before - 1) in
        if tk_kind final \<noteq> sqlWord then False
        else if tk_text final \<in> {''UNION'', ''EXCEPT'', ''INTERSECT''} then True
        else if tk_text final = ''ALL'' then
          length before > 1 \<and> tk_kind (before ! (length before - 2)) = sqlWord
            \<and> tk_text (before ! (length before - 2)) = ''UNION''
        else False)"

text \<open>The loop over the statement: \<open>before\<close> and the tokens left are the slices
  \<open>statement[:i]\<close> and \<open>statement[i:]\<close>.\<close>

fun select_loop :: "sqlToken list \<Rightarrow> sqlToken list \<Rightarrow> int \<Rightarrow> int \<Rightarrow> nat \<Rightarrow> sqlError option" where
  "select_loop before [] depth ncases selects =
     (if depth \<noteq> 0 then Some UnbalancedParentheses
      else if selects = 0 then Some NoTopLevelSelect
      else None)"
| "select_loop before (token # rest) depth ncases selects =
     (let continue = select_loop (before @ [token]) rest in
      case tk_kind token of
        sqlPunct \<Rightarrow>
          (if tk_text token = '';'' then Some ManyStatements
           else if tk_text token = ''('' then continue (depth + 1) ncases selects
           else if tk_text token = '')'' then
             (if depth - 1 < 0 then Some UnbalancedParentheses else continue (depth - 1) ncases selects)
           else continue depth ncases selects)
      | sqlWord \<Rightarrow>
          (if routinePrefix (tk_text token) then Some SystemProcedure
           else if forbiddenSQLKeywords (tk_text token) \<noteq> None \<and> \<not> queryHint rest (tk_text token) then
             Some (ForbiddenKeyword (tk_text token) (the (forbiddenSQLKeywords (tk_text token))))
           else if tk_afterDot token then continue depth ncases selects
           else if tk_text token = ''CASE'' then continue depth (ncases + 1) selects
           else if tk_text token = ''END'' then
             (if ncases - 1 < 0 then Some EndWithoutCase else continue depth (ncases - 1) selects)
           else if tk_text token = ''SELECT'' then
             (if depth > 0 then continue depth ncases selects
              else if selects > 0 \<and> \<not> followsSetOperator before then Some SecondSelect
              else continue depth ncases (selects + 1))
           else continue depth ncases selects)
      | _ \<Rightarrow> continue depth ncases selects)"

definition check_statement :: "sqlToken list \<Rightarrow> sqlError option" where
  "check_statement statement =
     (if statement = [] then Some EmptyStatement
      else let first = statement ! 0 in
        if tk_kind first \<noteq> sqlWord \<or> (tk_text first \<noteq> ''SELECT'' \<and> tk_text first \<noteq> ''WITH'')
        then Some BadStart
        else select_loop [] statement 0 0 0)"

definition ValidateReadOnlySelect :: "unicode_tables \<Rightarrow> string \<Rightarrow> sqlError option" where
  "ValidateReadOnlySelect u query =
     (case sqlTokens u query of
        Inl e \<Rightarrow> Some e
      | Inr tokens \<Rightarrow> check_statement (trimSemicolons tokens))"

section \<open>Derived tables\<close>

definition next_text :: "sqlToken list \<Rightarrow> string \<Rightarrow> bool" where
  "next_text rest text \<longleftrightarrow> rest \<noteq> [] \<and> tk_text (rest ! 0) = text"

fun derived_loop :: "sqlToken list \<Rightarrow> int \<Rightarrow> bool \<Rightarrow> bool \<Rightarrow> bool \<Rightarrow> sqlError option" where
  "derived_loop [] depth hasTop orderBy offset =
     (if orderBy \<and> \<not> hasTop \<and> \<not> offset then Some OrderByWithoutTop else None)"
| "derived_loop (token # rest) depth hasTop orderBy offset =
     (if tk_kind token \<noteq> sqlPunct \<and> tk_kind token \<noteq> sqlWord then derived_loop rest depth hasTop orderBy offset
      else if tk_text token = ''('' then derived_loop rest (depth + 1) hasTop orderBy offset
      else if tk_text token = '')'' then derived_loop rest (depth - 1) hasTop orderBy offset
      else if depth > 0 \<or> tk_kind token \<noteq> sqlWord \<or> tk_afterDot token then
        derived_loop rest depth hasTop orderBy offset
      else if tk_text token = ''OPTION'' then Some HasOption
      else if tk_text token = ''FOR'' \<and> rest \<noteq> [] \<and> tk_text (rest ! 0) \<in> {''XML'', ''JSON'', ''BROWSE''} then
        Some (HasFor (tk_text (rest ! 0)))
      else if tk_text token = ''TOP'' then derived_loop rest depth True orderBy offset
      else if tk_text token = ''ORDER'' \<and> next_text rest ''BY'' then derived_loop rest depth hasTop True offset
      else if tk_text token = ''OFFSET'' \<and> orderBy then derived_loop rest depth hasTop orderBy True
      else derived_loop rest depth hasTop orderBy offset)"

definition DerivedTable :: "unicode_tables \<Rightarrow> string \<Rightarrow> (sqlError, string) result" where
  "DerivedTable u query =
     (case ValidateReadOnlySelect u query of
        Some e \<Rightarrow> Inl e
      | None \<Rightarrow>
         (case sqlTokens u query of
            Inl e \<Rightarrow> Inl e
          | Inr tokens \<Rightarrow>
             (let statement = trimSemicolons tokens in
              if tk_text (statement ! 0) = ''WITH'' then Inl StartsWithWith
              else (case derived_loop statement 0 False False False of
                  Some e \<Rightarrow> Inl e
                | None \<Rightarrow> Inr (drop (tk_start (statement ! 0))
                    (take (tk_end (statement ! (length statement - 1))) query))))))"

section \<open>Token spans\<close>

text \<open>The tokens lie in the query, one after the other, each at least one byte long, from offset
  \<open>from\<close> on; a word carries its own text in upper case.\<close>

fun spans_ok :: "unicode_tables \<Rightarrow> string \<Rightarrow> nat \<Rightarrow> sqlToken list \<Rightarrow> bool" where
  "spans_ok u q from [] = (from \<le> length q)"
| "spans_ok u q from (t # ts) =
     (from \<le> tk_start t \<and> tk_start t < tk_end t \<and> tk_end t \<le> length q
      \<and> (tk_kind t = sqlWord \<longrightarrow> tk_text t = to_upper u (drop (tk_start t) (take (tk_end t) q)))
      \<and> spans_ok u q (tk_end t) ts)"

lemma spans_ok_mono: "spans_ok u q j ts \<Longrightarrow> i \<le> j \<Longrightarrow> spans_ok u q i ts"
  by (cases ts) auto

lemma sqlTokens_step_word:
  "sqlTokens_step u q tokens i = LexToken t \<Longrightarrow> tk_kind t = sqlWord \<Longrightarrow>
     tk_text t = to_upper u (drop i (take (tk_end t) q))"
  by (auto simp: sqlTokens_step_def new_token_def quoted_token_def Let_def
      split: if_splits option.splits prod.splits)

lemma tokens_from_spans:
  "tokens_from u q tokens i = Inr ts \<Longrightarrow> i \<le> length q \<Longrightarrow> \<exists>rest. ts = tokens @ rest \<and> spans_ok u q i rest"
proof (induction u q tokens i rule: tokens_from.induct)
  case (1 u q tokens i)
  show ?case
  proof (cases "i < length q")
    case False
    with "1.prems" show ?thesis by (simp add: tokens_from.simps [of u q tokens i])
  next
    case True
    show ?thesis
    proof (cases "sqlTokens_step u q tokens i")
      case (LexFail e)
      with "1.prems" True show ?thesis by (simp add: tokens_from.simps [of u q tokens i])
    next
      case LexStop
      with "1.prems" True show ?thesis by (simp add: tokens_from.simps [of u q tokens i])
    next
      case (LexSkip j)
      from sqlTokens_step_progress(1) [OF True LexSkip] have j: "i < j" "j \<le> length q" by auto
      from "1.prems" True LexSkip have "tokens_from u q tokens j = Inr ts"
        by (simp add: tokens_from.simps [of u q tokens i])
      from "1.IH"(1) [OF True LexSkip this j(2)] j(1) show ?thesis
        using spans_ok_mono less_imp_le by blast
    next
      case (LexToken t)
      from sqlTokens_step_progress(2) [OF True LexToken]
      have t: "tk_start t = i" "i < tk_end t" "tk_end t \<le> length q" by auto
      from "1.prems" True LexToken have "tokens_from u q (tokens @ [t]) (tk_end t) = Inr ts"
        by (simp add: tokens_from.simps [of u q tokens i])
      from "1.IH"(2) [OF True LexToken this t(3)] obtain rest
        where "ts = tokens @ t # rest" "spans_ok u q (tk_end t) rest" by auto
      with t sqlTokens_step_word [OF LexToken] show ?thesis
        by (intro exI [of _ "t # rest"]) simp
    qed
  qed
qed

text \<open>The lexer always returns; when it returns tokens, each token spans at least one byte of
  the query, the spans are in range, in order and disjoint, and a word's text is the upper case
  of its span.\<close>

theorem sqlTokens_spans:
  assumes "sqlTokens u q = Inr ts"
  shows "spans_ok u q 0 ts"
  using assms tokens_from_spans [of u q "[]" 0 ts] by (auto simp: sqlTokens_def split: if_splits)

theorem sqlTokens_spans_witness:
  "\<exists>ts. sqlTokens ascii_tables '';a'' = Inr ts \<and> length ts = 2 \<and> spans_ok ascii_tables '';a'' 0 ts"
proof -
  let ?ts = "[\<lparr>tk_kind = sqlPunct, tk_text = '';'', tk_afterDot = False, tk_start = 0, tk_end = 1\<rparr>,
    \<lparr>tk_kind = sqlWord, tk_text = ''A'', tk_afterDot = False, tk_start = 1, tk_end = 2\<rparr>]"
  have lex: "sqlTokens ascii_tables '';a'' = Inr ?ts" by code_simp
  from sqlTokens_spans [OF lex] lex show ?thesis by (intro exI [of _ ?ts]) simp
qed

section \<open>Quoting\<close>

definition escape_closer :: "char \<Rightarrow> string \<Rightarrow> string" where
  "escape_closer closer s = concat (map (\<lambda>c. if c = closer then [c, c] else [c]) s)"

lemma quotedEnd_from_escape:
  assumes "rest = [] \<or> hd rest \<noteq> closer"
  shows "quotedEnd_from (pre @ escape_closer closer s @ closer # rest) (length pre) closer =
    Some (length pre + length (escape_closer closer s) + 1)"
proof (induction s arbitrary: pre)
  case Nil
  from assms show ?case
    by (subst quotedEnd_from.simps)
      (auto simp: escape_closer_def nth_append hd_conv_nth)
next
  case (Cons c s)
  show ?case
  proof (cases "c = closer")
    case True
    have "quotedEnd_from (pre @ escape_closer closer (c # s) @ closer # rest) (length pre) closer =
      quotedEnd_from ((pre @ [c, c]) @ escape_closer closer s @ closer # rest) (length (pre @ [c, c])) closer"
      using True by (subst quotedEnd_from.simps) (simp add: escape_closer_def nth_append)
    with Cons.IH [of "pre @ [c, c]"] True show ?thesis by (simp add: escape_closer_def)
  next
    case False
    have "quotedEnd_from (pre @ escape_closer closer (c # s) @ closer # rest) (length pre) closer =
      quotedEnd_from ((pre @ [c]) @ escape_closer closer s @ closer # rest) (length (pre @ [c])) closer"
      using False by (subst quotedEnd_from.simps) (simp add: escape_closer_def nth_append)
    with Cons.IH [of "pre @ [c]"] False show ?thesis by (simp add: escape_closer_def)
  qed
qed

text \<open>Quoting round trip.  Any text written between an opening byte and its closer with each
  closer doubled is scanned as one literal that ends exactly after the final closer, wherever it
  stands in the query.\<close>

theorem quotedEnd_roundtrip:
  assumes "rest = [] \<or> hd rest \<noteq> closer"
  shows "quotedEnd (pre @ opener # escape_closer closer s @ closer # rest) (length pre) closer =
    Some (length pre + length (escape_closer closer s) + 2)"
  using quotedEnd_from_escape [OF assms, of "pre @ [opener]" s] by (simp add: quotedEnd_def)

theorem quotedEnd_roundtrip_witness:
  "quotedEnd ''a [x]]y] b'' 2 (CHR '']'') = Some 8"
  using quotedEnd_roundtrip [of "'' b''" "CHR '']''" "''a ''" "CHR ''[''" "''x]y''"]
  by (simp add: escape_closer_def eval_nat_numeral)

section \<open>The rules, declaratively\<close>

definition paren_delta :: "sqlToken \<Rightarrow> int" where
  "paren_delta t = (if tk_kind t = sqlPunct then
     (if tk_text t = ''('' then 1 else if tk_text t = '')'' then -1 else 0) else 0)"

definition case_delta :: "sqlToken \<Rightarrow> int" where
  "case_delta t = (if tk_kind t = sqlWord \<and> \<not> tk_afterDot t then
     (if tk_text t = ''CASE'' then 1 else if tk_text t = ''END'' then -1 else 0) else 0)"

definition level :: "(sqlToken \<Rightarrow> int) \<Rightarrow> sqlToken list \<Rightarrow> nat \<Rightarrow> int" where
  "level delta st i = sum_list (map delta (take i st))"

definition token_allowed :: "sqlToken \<Rightarrow> sqlToken list \<Rightarrow> bool" where
  "token_allowed t rest \<longleftrightarrow> \<not> isSemicolon t \<and>
     (tk_kind t = sqlWord \<longrightarrow> \<not> routinePrefix (tk_text t)
        \<and> (forbiddenSQLKeywords (tk_text t) = None \<or> queryHint rest (tk_text t)))"

definition plain_select :: "sqlToken \<Rightarrow> bool" where
  "plain_select t \<longleftrightarrow> tk_kind t = sqlWord \<and> \<not> tk_afterDot t \<and> tk_text t = ''SELECT''"

definition top_select :: "sqlToken list \<Rightarrow> int \<Rightarrow> nat \<Rightarrow> bool" where
  "top_select st depth i \<longleftrightarrow> i < length st \<and> plain_select (st ! i) \<and> depth + level paren_delta st i \<le> 0"

text \<open>What the loop accepts from a state on.\<close>

definition loop_accepts :: "sqlToken list \<Rightarrow> sqlToken list \<Rightarrow> int \<Rightarrow> int \<Rightarrow> nat \<Rightarrow> bool" where
  "loop_accepts before st depth ncases selects \<longleftrightarrow>
     (\<forall>i < length st. token_allowed (st ! i) (drop (Suc i) st)) \<and>
     (\<forall>i < Suc (length st). 0 \<le> depth + level paren_delta st i) \<and>
     depth + level paren_delta st (length st) = 0 \<and>
     (\<forall>i < Suc (length st). 0 \<le> ncases + level case_delta st i) \<and>
     (\<forall>i < length st. top_select st depth i \<and> (0 < selects \<or> (\<exists>j < i. top_select st depth j)) \<longrightarrow>
        followsSetOperator (before @ take i st)) \<and>
     (0 < selects \<or> (\<exists>i < length st. top_select st depth i))"

lemma level_0 [simp]: "level d st 0 = 0"
  by (simp add: level_def)

lemma level_Cons_Suc [simp]: "level d (t # st) (Suc i) = d t + level d st i"
  by (simp add: level_def)

lemma top_select_Cons [simp]:
  "top_select (t # st) depth 0 \<longleftrightarrow> plain_select t \<and> depth \<le> 0"
  "top_select (t # st) depth (Suc i) \<longleftrightarrow> top_select st (depth + paren_delta t) i"
  by (simp_all add: top_select_def add.assoc)

lemma loop_accepts_Nil:
  "loop_accepts before [] depth ncases selects \<longleftrightarrow> depth = 0 \<and> 0 \<le> ncases \<and> 0 < selects"
  by (auto simp: loop_accepts_def)

lemma loop_accepts_Cons:
  "loop_accepts before (t # st) depth ncases selects \<longleftrightarrow>
     0 \<le> depth \<and> 0 \<le> ncases \<and> token_allowed t st \<and>
     (plain_select t \<and> depth \<le> 0 \<and> 0 < selects \<longrightarrow> followsSetOperator before) \<and>
     loop_accepts (before @ [t]) st (depth + paren_delta t) (ncases + case_delta t)
       (if plain_select t \<and> depth \<le> 0 then selects + 1 else selects)"
  unfolding loop_accepts_def
  by (simp add: All_less_Suc2 Ex_less_Suc2 add.assoc del: ex_simps all_simps cong: conj_cong) auto

lemma loop_accepts_neg:
  "depth < 1 \<Longrightarrow> \<not> loop_accepts before st (depth - 1) ncases selects"
  "ncases < 1 \<Longrightarrow> \<not> loop_accepts before st depth (ncases - 1) selects"
  unfolding loop_accepts_def by force+

lemma select_loop_accepts:
  "0 \<le> depth \<Longrightarrow> 0 \<le> ncases \<Longrightarrow>
   select_loop before st depth ncases selects = None \<longleftrightarrow> loop_accepts before st depth ncases selects"
proof (induction st arbitrary: before depth ncases selects)
  case Nil
  then show ?case by (simp add: loop_accepts_Nil)
next
  case (Cons t st)
  note unfold = loop_accepts_Cons Let_def token_allowed_def isSemicolon_def plain_select_def
    paren_delta_def case_delta_def loop_accepts_neg
  show ?case
  proof (cases "tk_kind t")
    case sqlWord
    with Cons show ?thesis
      by (cases "tk_afterDot t"; cases "tk_text t = ''END''") (auto simp: unfold)
  next
    case sqlPunct
    with Cons show ?thesis by (auto simp: unfold)
  qed (use Cons in \<open>simp_all add: unfold\<close>)
qed

text \<open>One read-only SELECT, stated on the statement's tokens: it starts with SELECT or WITH; no
  token is a ';', a system procedure or a forbidden keyword outside a query hint; parentheses and
  CASE ... END never close more than was opened and the parentheses close in the end; there is a
  top-level SELECT, and each further one follows a set operator.\<close>

definition read_only_statement :: "sqlToken list \<Rightarrow> bool" where
  "read_only_statement st \<longleftrightarrow>
     st \<noteq> [] \<and> tk_kind (st ! 0) = sqlWord \<and> tk_text (st ! 0) \<in> {''SELECT'', ''WITH''} \<and>
     (\<forall>i < length st. token_allowed (st ! i) (drop (Suc i) st)) \<and>
     (\<forall>i \<le> length st. 0 \<le> level paren_delta st i) \<and> level paren_delta st (length st) = 0 \<and>
     (\<forall>i \<le> length st. 0 \<le> level case_delta st i) \<and>
     (\<forall>i < length st. \<forall>j < i. top_select st 0 j \<and> top_select st 0 i \<longrightarrow> followsSetOperator (take i st)) \<and>
     (\<exists>i < length st. top_select st 0 i)"

lemma check_statement_iff: "check_statement st = None \<longleftrightarrow> read_only_statement st"
proof -
  have "loop_accepts [] st 0 0 0 \<longleftrightarrow>
     (\<forall>i < length st. token_allowed (st ! i) (drop (Suc i) st)) \<and>
     (\<forall>i \<le> length st. 0 \<le> level paren_delta st i) \<and> level paren_delta st (length st) = 0 \<and>
     (\<forall>i \<le> length st. 0 \<le> level case_delta st i) \<and>
     (\<forall>i < length st. \<forall>j < i. top_select st 0 j \<and> top_select st 0 i \<longrightarrow> followsSetOperator (take i st)) \<and>
     (\<exists>i < length st. top_select st 0 i)"
    unfolding loop_accepts_def less_Suc_eq_le by auto
  with select_loop_accepts [of 0 0 "[]" st 0] show ?thesis
    by (simp add: check_statement_def read_only_statement_def Let_def)
qed

text \<open>C3: \<open>ValidateReadOnlySelect\<close> accepts a query exactly when it lexes and its tokens, without
  the leading and trailing semicolons, form one read-only SELECT in the sense of
  \<open>read_only_statement\<close>; in particular no accepted query has a forbidden keyword outside
  strings, comments, quoted names and query hints, or a second statement.\<close>

theorem ValidateReadOnlySelect_iff:
  "ValidateReadOnlySelect u q = None \<longleftrightarrow>
     (\<exists>ts. sqlTokens u q = Inr ts \<and> read_only_statement (trimSemicolons ts))"
  by (auto simp: ValidateReadOnlySelect_def check_statement_iff split: sum.splits)

definition derived_delta :: "sqlToken \<Rightarrow> int" where
  "derived_delta t = (if tk_kind t = sqlPunct \<or> tk_kind t = sqlWord then
     (if tk_text t = ''('' then 1 else if tk_text t = '')'' then -1 else 0) else 0)"

text \<open>The word at index i stands at the top level and is not part of a name.\<close>

definition top_word :: "sqlToken list \<Rightarrow> int \<Rightarrow> nat \<Rightarrow> bool" where
  "top_word st depth i \<longleftrightarrow> i < length st \<and> tk_kind (st ! i) = sqlWord \<and> \<not> tk_afterDot (st ! i)
     \<and> depth + level derived_delta st i \<le> 0"

definition text_at :: "sqlToken list \<Rightarrow> nat \<Rightarrow> string \<Rightarrow> bool" where
  "text_at st i w \<longleftrightarrow> i < length st \<and> tk_text (st ! i) = w"

definition top_order_by :: "sqlToken list \<Rightarrow> int \<Rightarrow> nat \<Rightarrow> bool" where
  "top_order_by st depth i \<longleftrightarrow> top_word st depth i \<and> text_at st i ''ORDER'' \<and> text_at st (Suc i) ''BY''"

definition derivable :: "sqlToken list \<Rightarrow> int \<Rightarrow> bool \<Rightarrow> bool \<Rightarrow> bool \<Rightarrow> bool" where
  "derivable st depth hasTop orderBy offset \<longleftrightarrow>
     (\<forall>i < length st. top_word st depth i \<longrightarrow> \<not> text_at st i ''OPTION'' \<and>
        \<not> (text_at st i ''FOR'' \<and> (\<exists>w \<in> {''XML'', ''JSON'', ''BROWSE''}. text_at st (Suc i) w))) \<and>
     (orderBy \<or> (\<exists>i < length st. top_order_by st depth i) \<longrightarrow>
        hasTop \<or> offset \<or> (\<exists>i < length st. top_word st depth i \<and> text_at st i ''TOP'') \<or>
        (\<exists>i < length st. top_word st depth i \<and> text_at st i ''OFFSET'' \<and>
            (orderBy \<or> (\<exists>j < i. top_order_by st depth j))))"

lemma top_word_Cons [simp]:
  "top_word (t # st) depth 0 \<longleftrightarrow> tk_kind t = sqlWord \<and> \<not> tk_afterDot t \<and> depth \<le> 0"
  "top_word (t # st) depth (Suc i) \<longleftrightarrow> top_word st (depth + derived_delta t) i"
  by (simp_all add: top_word_def add.assoc)

lemma text_at_Cons [simp]:
  "text_at (t # st) 0 w \<longleftrightarrow> tk_text t = w"
  "text_at (t # st) (Suc i) w \<longleftrightarrow> text_at st i w"
  by (simp_all add: text_at_def)

lemma top_order_by_Cons [simp]:
  "top_order_by (t # st) depth 0 \<longleftrightarrow>
     tk_kind t = sqlWord \<and> \<not> tk_afterDot t \<and> depth \<le> 0 \<and> tk_text t = ''ORDER'' \<and> text_at st 0 ''BY''"
  "top_order_by (t # st) depth (Suc i) \<longleftrightarrow> top_order_by st (depth + derived_delta t) i"
  by (simp_all add: top_order_by_def)

lemma derivable_Cons:
  assumes "here \<longleftrightarrow> tk_kind t = sqlWord \<and> \<not> tk_afterDot t \<and> depth \<le> 0"
  shows "derivable (t # st) depth hasTop orderBy offset \<longleftrightarrow>
     (here \<longrightarrow> tk_text t \<noteq> ''OPTION'' \<and>
         \<not> (tk_text t = ''FOR'' \<and> (\<exists>w \<in> {''XML'', ''JSON'', ''BROWSE''}. text_at st 0 w))) \<and>
      derivable st (depth + derived_delta t) (hasTop \<or> (here \<and> tk_text t = ''TOP''))
        (orderBy \<or> (here \<and> tk_text t = ''ORDER'' \<and> text_at st 0 ''BY''))
        (offset \<or> (here \<and> tk_text t = ''OFFSET'' \<and> orderBy))"
  (is "_ \<longleftrightarrow> (here \<longrightarrow> ?A) \<and> _")
proof -
  define d where "d = depth + derived_delta t"
  define ord where "ord \<longleftrightarrow> here \<and> tk_text t = ''ORDER'' \<and> text_at st 0 ''BY''"
  have top: "top_word (t # st) depth 0 \<longleftrightarrow> here"
    "top_word (t # st) depth (Suc i) \<longleftrightarrow> top_word st d i"
    "top_order_by (t # st) depth 0 \<longleftrightarrow> ord"
    "top_order_by (t # st) depth (Suc i) \<longleftrightarrow> top_order_by st d i" for i
    using assms by (auto simp: d_def ord_def)
  have ext: "(\<exists>i < Suc n. P i) \<longleftrightarrow> P 0 \<or> (\<exists>i < n. P (Suc i))"
    "(\<forall>i < Suc n. P i) \<longleftrightarrow> P 0 \<and> (\<forall>i < n. P (Suc i))" for n and P :: "nat \<Rightarrow> bool"
    by (simp_all add: All_less_Suc2 Ex_less_Suc2)
  show ?thesis
    unfolding derivable_def list.size(4) add_0_right add_Suc_right ext top text_at_Cons
      d_def [symmetric] ord_def [symmetric]
    by (cases here; cases ord; cases orderBy; cases offset; cases hasTop) auto
qed

lemma derived_loop_derivable:
  "derived_loop st depth hasTop orderBy offset = None \<longleftrightarrow> derivable st depth hasTop orderBy offset"
proof (induction st arbitrary: depth hasTop orderBy offset)
  case Nil
  then show ?case by (auto simp: derivable_def)
next
  case (Cons t st)
  have at0: "text_at st 0 w \<longleftrightarrow> st \<noteq> [] \<and> tk_text (st ! 0) = w" for w
    by (auto simp: text_at_def)
  show ?case
    by (auto simp: Cons derivable_Cons [OF refl] derived_delta_def at0 next_text_def)
qed

definition derived_statement :: "sqlToken list \<Rightarrow> bool" where
  "derived_statement st \<longleftrightarrow> tk_text (st ! 0) \<noteq> ''WITH'' \<and> derivable st 0 False False False"

text \<open>C4: \<open>DerivedTable\<close> succeeds exactly for a read-only SELECT not led by WITH, without a
  top-level OPTION or FOR XML, JSON or BROWSE, and whose top-level ORDER BY, if any, comes with a
  TOP or a following OFFSET; its result is then the bytes of the query from the first to the last
  token of the statement.\<close>

theorem DerivedTable_iff:
  "DerivedTable u q = Inr s \<longleftrightarrow>
     (\<exists>ts st. sqlTokens u q = Inr ts \<and> st = trimSemicolons ts \<and> read_only_statement st \<and>
        derived_statement st \<and>
        s = drop (tk_start (st ! 0)) (take (tk_end (st ! (length st - 1))) q))"
proof (cases "sqlTokens u q")
  case (Inl e)
  then show ?thesis by (simp add: DerivedTable_def ValidateReadOnlySelect_def)
next
  case (Inr ts)
  let ?st = "trimSemicolons ts"
  show ?thesis
  proof (cases "read_only_statement ?st \<and> derivable ?st 0 False False False")
    case True
    then have "check_statement ?st = None" "derived_loop ?st 0 False False False = None"
      by (simp_all add: check_statement_iff derived_loop_derivable)
    with Inr True show ?thesis
      by (auto simp: DerivedTable_def ValidateReadOnlySelect_def derived_statement_def Let_def)
  next
    case False
    then have "check_statement ?st \<noteq> None \<or> derived_loop ?st 0 False False False \<noteq> None"
      by (auto simp: check_statement_iff derived_loop_derivable)
    with Inr False show ?thesis
      by (auto simp: DerivedTable_def ValidateReadOnlySelect_def derived_statement_def Let_def
          split: option.splits)
  qed
qed

end
