(* ===== verification/ConfigTypes.thy ===== *)
theory ConfigTypes
  imports UrlUserinfo SqlQuery
begin

text \<open>
  The data of package \<open>config\<close> (\<open>config.go\<close>): the YAML document, the normalised runtime
  configuration, the constants, and the errors of the loader, one constructor for each message
  with what the message names.

  A Go map is an optional association list with distinct keys, \<^const>\<open>None\<close> being the nil map; its
  order stands for the order in which a \<open>range\<close> visits it.  What the loader uses of packages
  that are not modelled (the YAML decoder, \<open>sha256\<close>, \<open>time.ParseDuration\<close>, the time zone
  database, \<open>net.ParseIP\<close>, \<open>url.Parse\<close> and the Unicode tables) is the record \<open>config_env\<close>.
\<close>

section \<open>Maps\<close>

type_synonym gomap = "labels option"

definition entries :: "gomap \<Rightarrow> labels" where
  "entries m = (case m of None \<Rightarrow> [] | Some l \<Rightarrow> l)"

lemma entries_simps [simp]: "entries None = []" "entries (Some l) = l"
  by (simp_all add: entries_def)

definition map_entries :: "(string \<Rightarrow> string) \<Rightarrow> gomap \<Rightarrow> gomap" where
  "map_entries f m = map_option (map (\<lambda>(k, v). (k, f v))) m"

lemma entries_map_entries [simp]: "entries (map_entries f m) = map (\<lambda>(k, v). (k, f v)) (entries m)"
  by (cases m) (simp_all add: map_entries_def)

definition copyStringMap :: "gomap \<Rightarrow> gomap" where
  "copyStringMap m = (case m of None \<Rightarrow> Some [] | Some l \<Rightarrow> Some l)"

lemma entries_copyStringMap [simp]: "entries (copyStringMap m) = entries m"
  by (cases m) (simp_all add: copyStringMap_def)

section \<open>Constants\<close>

definition KindSQLServer :: string where "KindSQLServer = ''sqlserver''"
definition KindOutSystemsLogs :: string where "KindOutSystemsLogs = ''outsystems_logs''"
definition PlatformGrafana :: string where "PlatformGrafana = ''grafana''"
definition PlatformGeneric :: string where "PlatformGeneric = ''generic''"
definition DefaultPlatform :: string where "DefaultPlatform = PlatformGrafana"
definition supportedPlatforms :: "string list" where
  "supportedPlatforms = [PlatformGrafana, PlatformGeneric]"

definition DefaultLogLag :: duration where "DefaultLogLag = 60 * ns_second"
definition DefaultLogBatchLimit :: int where "DefaultLogBatchLimit = 5000"
definition MaxLogBatchLimit :: int where "MaxLogBatchLimit = 50000"
definition DefaultLogInitialLookback :: duration where "DefaultLogInitialLookback = 15 * ns_minute"
definition DefaultLogTimezone :: string where "DefaultLogTimezone = ''UTC''"
definition DefaultLogRecountWindow :: duration where "DefaultLogRecountWindow = 10 * ns_minute"
definition MaxLogRecountWindow :: duration where "MaxLogRecountWindow = ns_hour"
definition DefaultLogMaxDerivedSeries :: int where "DefaultLogMaxDerivedSeries = 50000"
definition MaxLogDerivedSeries :: int where "MaxLogDerivedSeries = 1000000"
definition MaxProbeTimeout :: duration where "MaxProbeTimeout = 25 * ns_second"
definition DefaultProbeMaxRows :: int where "DefaultProbeMaxRows = 10000"
definition MaxProbeMaxRows :: int where "MaxProbeMaxRows = 100000"
definition redactedValue :: string where "redactedValue = ''<redacted>''"

lemmas config_constants =
  KindSQLServer_def KindOutSystemsLogs_def PlatformGrafana_def PlatformGeneric_def
  DefaultPlatform_def supportedPlatforms_def DefaultLogLag_def DefaultLogBatchLimit_def
  MaxLogBatchLimit_def DefaultLogInitialLookback_def DefaultLogTimezone_def
  DefaultLogRecountWindow_def MaxLogRecountWindow_def DefaultLogMaxDerivedSeries_def
  MaxLogDerivedSeries_def MaxProbeTimeout_def DefaultProbeMaxRows_def MaxProbeMaxRows_def

section \<open>The document\<close>

record Endpoint =
  ep_BaseURL :: string
  ep_Endpoint :: string
  ep_DashboardTemplates :: gomap
  ep_DeepLinkTemplates :: gomap

record NotificationChannel =
  nc_ID :: string
  nc_ChannelType :: string
  nc_TargetRef :: string
  nc_CredentialRef :: string
  nc_Config :: gomap

record probeDocument =
  pd_Name :: string
  pd_QueryTemplate :: string
  pd_TimeoutMS :: int
  pd_MaxRows :: int
  pd_Lag :: string

record targetDocument =
  td_Name :: string
  td_Environment :: string
  td_Host :: string
  td_Port :: int
  td_DatabaseName :: string
  td_CredentialRef :: string
  td_Probes :: "probeDocument list"

record collectorConfigDocument =
  cd_Environment :: string
  cd_ScrapeInterval :: string
  cd_TargetNames :: "string list"
  cd_Targets :: "targetDocument list"
  cd_Probes :: "probeDocument list"
  cd_Lag :: string
  cd_BatchLimit :: "int option"
  cd_InitialLookback :: string
  cd_LogTimezone :: string
  cd_RecountWindow :: string
  cd_MaxDerivedSeries :: "int option"

record collectorDocument =
  cdoc_ID :: string
  cdoc_Kind :: string
  cdoc_Enabled :: bool
  cdoc_CredentialRef :: string
  cdoc_Config :: collectorConfigDocument

record document =
  doc_Platform :: string
  doc_Dashboards :: Endpoint
  doc_Logs :: Endpoint
  doc_Alerting :: Endpoint
  doc_OpenTelemetry :: Endpoint
  doc_NotificationChannels :: "NotificationChannel list"
  doc_Collectors :: "collectorDocument list"
  doc_CredentialRefs :: gomap

section \<open>The runtime configuration\<close>

record ProbeRuntimeConfig =
  probe_Name :: string
  probe_QueryTemplate :: string
  probe_TimeoutMS :: int
  probe_MaxRows :: int
  probe_Lag :: duration

record TargetRuntimeConfig =
  target_Name :: string
  target_EnvironmentSlug :: string
  target_Engine :: string
  target_Host :: string
  target_Port :: int
  target_DatabaseName :: string
  target_CredentialRef :: string
  target_Probes :: "ProbeRuntimeConfig list"

record OutSystemsLogsConfig =
  logs_Lag :: duration
  logs_BatchLimit :: int
  logs_InitialLookback :: duration
  logs_LogTimezone :: string
  logs_RecountWindow :: duration
  logs_MaxDerivedSeries :: int
  logs_LogsEndpoint :: string

definition zero_logs :: OutSystemsLogsConfig where
  "zero_logs = \<lparr>logs_Lag = 0, logs_BatchLimit = 0, logs_InitialLookback = 0, logs_LogTimezone = [],
     logs_RecountWindow = 0, logs_MaxDerivedSeries = 0, logs_LogsEndpoint = []\<rparr>"

record CollectorRuntimeConfig =
  coll_ID :: string
  coll_Kind :: string
  coll_Enabled :: bool
  coll_CredentialRef :: string
  coll_Environment :: string
  coll_TargetNames :: "string list"
  coll_ScrapeInterval :: duration
  coll_Targets :: "TargetRuntimeConfig list"
  coll_Probes :: "ProbeRuntimeConfig list"
  coll_OutSystemsLogs :: OutSystemsLogsConfig

record RuntimeConfig =
  cfg_Version :: string
  cfg_Platform :: string
  cfg_Dashboards :: Endpoint
  cfg_Logs :: Endpoint
  cfg_Alerting :: Endpoint
  cfg_OpenTelemetry :: Endpoint
  cfg_NotificationChannels :: "NotificationChannel list"
  cfg_Collectors :: "CollectorRuntimeConfig list"
  cfg_CredentialRefs :: gomap

section \<open>What the loader calls\<close>

record url_parts =
  url_Scheme :: string
  url_Host :: string
  url_RawQuery :: string
  url_ForceQuery :: bool
  url_Fragment :: string

record config_env =
  env_tables :: unicode_tables
  env_yaml :: "string \<Rightarrow> document option"
  env_hash :: "string \<Rightarrow> string"
  env_parse_duration :: "string \<Rightarrow> duration option"
  env_location :: "string \<Rightarrow> bool"
  env_ipv6 :: "string \<Rightarrow> bool"
  env_url :: "string \<Rightarrow> url_parts option"

section \<open>Errors\<close>

datatype collectorProblem =
    KindRequired | ScrapeIntervalNotPositive | CollectorCredentialInvalid | TargetNameRequired
  | UnknownTargetName string | LogsEndpointRequired | LagNotPositive | InitialLookbackNotPositive
  | RecountWindowInvalid | BatchLimitOutOfRange | DerivedSeriesOutOfRange | TimezoneInvalid string
  | InvalidDuration string | OnlyOutSystemsLogs string

datatype targetProblem =
    TargetNotUnique | HostRequired | HostInvalid | PortInvalid | TargetCredentialInvalid

datatype probeProblem =
    InvalidProbeLag | ProbeLagNotPositive | TimeoutNegative | TimeoutTooLong int | LagElsewhere
  | QueryNotReadOnly sqlError | QueryNotRecountable sqlError | MaxRowsElsewhere | MaxRowsOutOfRange
  | LogTypeTwice

datatype channelProblem =
    ChannelNotUnique | ChannelIncomplete | ChannelTargetCredentials | ChannelCredentialInvalid

datatype configError =
    ReadError
  | ParseError
  | EmbeddedCredentials string string
  | UnsupportedPlatform string
  | LogsEndpointSet
  | AlertingEndpointSet
  | SectionNotEmpty string
  | URLRequired string
  | NotAbsoluteURL string
  | CredentialRefInvalid string
  | CollectorIDRequired
  | CollectorIDNotUnique string
  | CollectorError string collectorProblem
  | TargetError string string targetProblem
  | ProbeError "string list" string probeProblem
  | TargetScrapedTwice string string string string
  | LogTypeExtractedTwice string string string int string string
  | ChannelIDRequired
  | ChannelError string channelProblem

end
