(* ===== verification/LinkTemplates.thy ===== *)
theory LinkTemplates
  imports ConfigTypes
begin

text \<open>
  Link templates (package \<open>config\<close>, \<open>templates.go\<close>): the variables \<open>${name}\<close> a template names and
  the checks of the dashboard and deep-link templates.
\<close>

datatype templateError =
    NoClosingBrace
  | MalformedVariable string
  | EmptyTemplateName string
  | NeedsBaseURL string
  | BaseURLNotHTTP
  | BaseURLHasQuery
  | NotAPath string
  | TemplateProblem string templateError
  | ForeignVariable string string "string list"

definition VarEnvironment :: string where "VarEnvironment = ''environment''"
definition VarApplication :: string where "VarApplication = ''application''"
definition VarTarget :: string where "VarTarget = ''target''"
definition VarLogsQuery :: string where "VarLogsQuery = ''logs_query''"
definition VarFrom :: string where "VarFrom = ''from''"
definition VarTo :: string where "VarTo = ''to''"

definition LinkVariables :: "string list" where
  "LinkVariables = [VarApplication, VarEnvironment, VarFrom, VarLogsQuery, VarTarget, VarTo]"

definition DashboardVariables :: "string list" where
  "DashboardVariables = [VarFrom, VarTo]"

definition variable_rune :: "nat \<Rightarrow> bool" where
  "variable_rune r \<longleftrightarrow> \<not> ((r < 97 \<or> r > 122) \<and> r \<noteq> 95 \<and> (r < 48 \<or> r > 57))"

definition validVariableName :: "string \<Rightarrow> bool" where
  "validVariableName name \<longleftrightarrow> name \<noteq> [] \<and> (\<forall>x \<in> set (runes name). variable_rune (fst x))"

lemma index_sub_bound:
  "index_sub p s = Some i \<Longrightarrow> i + length p \<le> length s"
  using index_sub_SomeD by blast

function template_vars :: "string list \<Rightarrow> string \<Rightarrow> (templateError, string list) result" where
  "template_vars names rest =
     (case index_sub ''${'' rest of
        None \<Rightarrow> Inr names
      | Some start \<Rightarrow>
         (case index_of (\<lambda>c. c = CHR ''}'') (drop start rest) of
            None \<Rightarrow> Inl NoClosingBrace
          | Some stop \<Rightarrow>
             (let name = drop (start + 2) (take (start + stop) rest) in
              if \<not> validVariableName name then Inl (MalformedVariable name)
              else template_vars (if name \<notin> set names then names @ [name] else names)
                (drop (start + stop + 1) rest))))"
  by pat_completeness auto
termination
proof (relation "measure (\<lambda>(names, rest). length rest)")
  fix names :: "string list" and rest :: string and start stop name
  assume "index_sub ''${'' rest = Some start"
  from index_sub_bound [OF this] have "rest \<noteq> []" by auto
  then show "((if name \<notin> set names then names @ [name] else names, drop (start + stop + 1) rest), names, rest)
      \<in> measure (\<lambda>(names, rest). length rest)" by simp
qed simp

declare template_vars.simps [simp del]

definition TemplateVariables :: "string \<Rightarrow> (templateError, string list) result" where
  "TemplateVariables template = template_vars [] template"

text \<open>\<open>strings.Cut(s, ":")\<close>: what stands before the first colon, or all of it.\<close>

definition before_colon :: "string \<Rightarrow> string" where
  "before_colon s = takeWhile (\<lambda>c. c \<noteq> CHR '':'') s"

definition template_error :: "config_env \<Rightarrow> string \<Rightarrow> string \<Rightarrow> string list \<Rightarrow> string \<times> string \<Rightarrow>
    templateError option" where
  "template_error env baseURL field allowed = (\<lambda>(key, template).
     let name = ''dashboards.'' @ field @ ''.'' @ key; scheme = before_colon baseURL in
     or_else (fail_if (trim_space key = []) (EmptyTemplateName field))
     (or_else (fail_if (baseURL = []) (NeedsBaseURL name))
     (or_else (fail_if (\<not> equal_fold_ascii scheme ''http'' \<and> \<not> equal_fold_ascii scheme ''https'') BaseURLNotHTTP)
     (or_else
       (case env_url env baseURL of
          None \<Rightarrow> Some BaseURLHasQuery
        | Some base \<Rightarrow> fail_if (url_RawQuery base \<noteq> [] \<or> url_ForceQuery base \<or> url_Fragment base \<noteq> []
            \<or> CHR ''#'' \<in> set baseURL) BaseURLHasQuery)
     (or_else (fail_if (\<not> has_prefix template ''/'' \<or> has_prefix template ''//'') (NotAPath name))
       (case TemplateVariables template of
          Inl e \<Rightarrow> Some (TemplateProblem name e)
        | Inr variables \<Rightarrow>
           first_error (\<lambda>v. fail_if (v \<notin> set allowed) (ForeignVariable name v allowed)) variables))))))"

definition ValidateLinkTemplates :: "config_env \<Rightarrow> Endpoint \<Rightarrow> templateError option" where
  "ValidateLinkTemplates env dashboards =
     or_else
       (first_error (template_error env (ep_BaseURL dashboards) ''dashboard_templates'' DashboardVariables)
         (sort_key fst (entries (ep_DashboardTemplates dashboards))))
       (first_error (template_error env (ep_BaseURL dashboards) ''deep_link_templates'' LinkVariables)
         (sort_key fst (entries (ep_DeepLinkTemplates dashboards))))"

section \<open>The variables of a template\<close>

text \<open>A template is plain pieces, each followed by a variable, and a plain tail; a plain piece has
  no \<open>${\<close>.\<close>

definition template_of :: "(string \<times> string) list \<Rightarrow> string \<Rightarrow> string" where
  "template_of pieces tail = concat (map (\<lambda>(t, n). t @ ''${'' @ n @ ''}'') pieces) @ tail"

definition plain :: "string \<Rightarrow> bool" where
  "plain t \<longleftrightarrow> index_sub ''${'' t = None"

text \<open>The distinct elements in the order of their first appearance.\<close>

fun add_new :: "'a list \<Rightarrow> 'a list \<Rightarrow> 'a list" where
  "add_new seen [] = seen"
| "add_new seen (x # xs) = add_new (if x \<notin> set seen then seen @ [x] else seen) xs"

lemma set_add_new: "set (add_new seen xs) = set seen \<union> set xs"
  by (induction seen xs rule: add_new.induct) auto

lemma distinct_add_new: "distinct seen \<Longrightarrow> distinct (add_new seen xs)"
  by (induction seen xs rule: add_new.induct) auto

lemma plain_Cons: "plain (c # t) \<longleftrightarrow> \<not> has_prefix (c # t) ''${'' \<and> plain t"
  by (simp add: plain_def)

lemma index_sub_plain: "plain t \<Longrightarrow> index_sub ''${'' (t @ ''${'' @ s) = Some (length t)"
proof (induction t)
  case Nil
  then show ?case by (simp add: has_prefix_def)
next
  case (Cons c t)
  have "\<not> has_prefix (c # t @ ''${'' @ s) ''${''"
    using Cons.prems by (cases t) (auto simp: plain_Cons has_prefix_def)
  with Cons show ?case by (simp add: plain_Cons)
qed

lemma name_no_brace: "validVariableName n \<Longrightarrow> CHR ''}'' \<notin> set n"
proof
  assume v: "validVariableName n" and "CHR ''}'' \<in> set n"
  then have "CHR ''}'' \<in> set (concat (map snd (runes n)))" by simp
  then obtain r bs where rb: "(r, bs) \<in> set (runes n)" "CHR ''}'' \<in> set bs"
    unfolding set_concat set_map by auto
  with runes_elem [OF rb(1)] have "r = 125" by (auto simp: byte_def)
  with v rb(1) show False by (force simp: validVariableName_def variable_rune_def)
qed

lemma index_of_brace:
  "\<forall>c \<in> set n. c \<noteq> CHR ''}'' \<Longrightarrow> index_of (\<lambda>c. c = CHR ''}'') (n @ CHR ''}'' # s) = Some (length n)"
  by (induction n) auto

lemma template_vars_piece:
  assumes "plain t" and "validVariableName n"
  shows "template_vars names (t @ ''${'' @ n @ ''}'' @ s) =
    template_vars (if n \<notin> set names then names @ [n] else names) s"
proof -
  let ?rest = "t @ ''${'' @ n @ ''}'' @ s"
  have i: "index_sub ''${'' ?rest = Some (length t)" using index_sub_plain [OF assms(1)] by simp
  have "index_of (\<lambda>c. c = CHR ''}'') (''${'' @ n @ CHR ''}'' # s) = Some (2 + length n)"
    using index_of_brace [of "''${'' @ n" s] name_no_brace [OF assms(2)] by auto
  then have j: "index_of (\<lambda>c. c = CHR ''}'') (drop (length t) ?rest) = Some (2 + length n)" by simp
  show ?thesis
    by (subst template_vars.simps) (simp add: i [simplified] j [simplified] assms(2) numeral_3_eq_3)
qed

text \<open>C7: a template written as plain text with variables \<open>${name}\<close> in between names exactly those
  variables: \<open>TemplateVariables\<close> returns each once, in the order of first appearance.\<close>

theorem TemplateVariables_template_of:
  assumes "\<forall>(t, n) \<in> set pieces. plain t \<and> validVariableName n" and "plain tail"
  shows "TemplateVariables (template_of pieces tail) = Inr (add_new [] (map snd pieces))"
proof -
  have "template_vars names (template_of pieces tail) = Inr (add_new names (map snd pieces))" for names
    using assms
  proof (induction pieces arbitrary: names)
    case Nil
    then show ?case by (subst template_vars.simps) (simp add: template_of_def plain_def)
  next
    case (Cons p pieces)
    obtain t n where p: "p = (t, n)" by (cases p)
    with Cons.prems have tn: "plain t" "validVariableName n" by auto
    have "template_of (p # pieces) tail = t @ ''${'' @ n @ ''}'' @ template_of pieces tail"
      by (simp add: template_of_def p)
    with template_vars_piece [OF tn, of names "template_of pieces tail"] Cons p show ?case by simp
  qed
  then show ?thesis by (simp add: TemplateVariables_def)
qed

theorem TemplateVariables_template_of_witness:
  "TemplateVariables ''/d?a=${from}&b=${to}&c=${from}'' = Inr [''from'', ''to'']"
  using TemplateVariables_template_of
    [of "[(''/d?a='', ''from''), (''&b='', ''to''), (''&c='', ''from'')]" "[]"]
  by (simp add: template_of_def plain_def has_prefix_def validVariableName_def variable_rune_def byte_def)

definition link_template_ok :: "config_env \<Rightarrow> string \<Rightarrow> string list \<Rightarrow> string \<Rightarrow> string \<Rightarrow> bool" where
  "link_template_ok env baseURL allowed key template \<longleftrightarrow>
     trim_space key \<noteq> [] \<and> baseURL \<noteq> [] \<and>
     (equal_fold_ascii (before_colon baseURL) ''http'' \<or> equal_fold_ascii (before_colon baseURL) ''https'') \<and>
     (\<exists>base. env_url env baseURL = Some base \<and> url_RawQuery base = [] \<and> \<not> url_ForceQuery base \<and>
        url_Fragment base = []) \<and> CHR ''#'' \<notin> set baseURL \<and>
     has_prefix template ''/'' \<and> \<not> has_prefix template ''//'' \<and>
     (\<exists>vs. TemplateVariables template = Inr vs \<and> set vs \<subseteq> set allowed)"

lemma template_error_None:
  "template_error env baseURL field allowed (key, template) = None \<longleftrightarrow>
     link_template_ok env baseURL allowed key template"
  by (auto simp: template_error_def link_template_ok_def Let_def split: option.splits sum.splits)

text \<open>C8: the link check accepts exactly the endpoints all of whose templates are named paths on an
  http or https base URL without query or fragment, with well-formed variables of their kind: the
  time range for a dashboard, any link variable for a deep link.\<close>

theorem ValidateLinkTemplates_iff:
  "ValidateLinkTemplates env e = None \<longleftrightarrow>
     list_all (\<lambda>(k, t). link_template_ok env (ep_BaseURL e) [''from'', ''to''] k t)
       (entries (ep_DashboardTemplates e)) \<and>
     list_all (\<lambda>(k, t). link_template_ok env (ep_BaseURL e)
         [''application'', ''environment'', ''from'', ''logs_query'', ''target'', ''to''] k t)
       (entries (ep_DeepLinkTemplates e))"
  by (auto simp: ValidateLinkTemplates_def template_error_None DashboardVariables_def LinkVariables_def
      VarFrom_def VarTo_def VarApplication_def VarEnvironment_def VarLogsQuery_def VarTarget_def list_all_iff)

end
