(* ===== verification/ConfigNormalize.thy ===== *)
theory ConfigNormalize
  imports ConfigTypes
begin

text \<open>
  Normalisation of the YAML document into the runtime configuration (\<open>config.go\<close>):
  \<open>normalizeProbes\<close>, \<open>normalizeOutSystemsLogs\<close>, \<open>normalizeCollector\<close> and \<open>normalizeEndpoint\<close>,
  and what they establish of every collector they return.
\<close>

definition normalizeEndpoint :: "Endpoint \<Rightarrow> Endpoint" where
  "normalizeEndpoint endpoint =
     endpoint\<lparr>ep_DashboardTemplates :=
         (case ep_DashboardTemplates endpoint of None \<Rightarrow> Some [] | Some m \<Rightarrow> Some m),
       ep_DeepLinkTemplates :=
         (case ep_DeepLinkTemplates endpoint of None \<Rightarrow> Some [] | Some m \<Rightarrow> Some m)\<rparr>"

definition emptyEndpoint :: "Endpoint \<Rightarrow> bool" where
  "emptyEndpoint endpoint \<longleftrightarrow> ep_BaseURL endpoint = [] \<and> ep_Endpoint endpoint = []
     \<and> length (entries (ep_DashboardTemplates endpoint)) = 0
     \<and> length (entries (ep_DeepLinkTemplates endpoint)) = 0"

text \<open>A probe document without a name is dropped; the lag must parse and be positive.\<close>

definition normalizeProbe :: "config_env \<Rightarrow> string \<Rightarrow> probeDocument \<Rightarrow>
    (configError, ProbeRuntimeConfig) result" where
  "normalizeProbe env collectorID doc =
     (let probe = \<lparr>probe_Name = trim_space (pd_Name doc), probe_QueryTemplate = pd_QueryTemplate doc,
            probe_TimeoutMS = pd_TimeoutMS doc, probe_MaxRows = pd_MaxRows doc, probe_Lag = 0\<rparr> in
      if pd_Lag doc \<noteq> [] then
        (case env_parse_duration env (pd_Lag doc) of
           None \<Rightarrow> Inl (ProbeError [collectorID] (probe_Name probe) InvalidProbeLag)
         | Some lag \<Rightarrow>
            if lag \<le> 0 then Inl (ProbeError [collectorID] (probe_Name probe) ProbeLagNotPositive)
            else Inr (probe\<lparr>probe_Lag := lag\<rparr>))
      else Inr probe)"

definition normalizeProbes :: "config_env \<Rightarrow> string \<Rightarrow> probeDocument list \<Rightarrow>
    (configError, ProbeRuntimeConfig list) result" where
  "normalizeProbes env collectorID docs =
     map_result (normalizeProbe env collectorID) (filter (\<lambda>doc. trim_space (pd_Name doc) \<noteq> []) docs)"

text \<open>The optional duration fields of the settings: the default when empty.\<close>

definition duration_field :: "config_env \<Rightarrow> string \<Rightarrow> string \<Rightarrow> string \<Rightarrow> duration \<Rightarrow>
    (configError, duration) result" where
  "duration_field env collectorID name val dflt =
     (if val = [] then Inr dflt
      else case env_parse_duration env val of
        None \<Rightarrow> Inl (CollectorError collectorID (InvalidDuration name))
      | Some parsed \<Rightarrow> Inr parsed)"

definition outsystems_fields :: "collectorConfigDocument \<Rightarrow> (string \<times> bool) list" where
  "outsystems_fields c =
     [(''lag'', cd_Lag c \<noteq> []), (''batch_limit'', cd_BatchLimit c \<noteq> None),
      (''initial_lookback'', cd_InitialLookback c \<noteq> []), (''log_timezone'', cd_LogTimezone c \<noteq> []),
      (''recount_window'', cd_RecountWindow c \<noteq> []), (''max_derived_series'', cd_MaxDerivedSeries c \<noteq> None)]"

definition normalizeOutSystemsLogs :: "config_env \<Rightarrow> collectorDocument \<Rightarrow>
    (configError, OutSystemsLogsConfig) result" where
  "normalizeOutSystemsLogs env doc =
     (let c = cdoc_Config doc in
      if trim_space (cdoc_Kind doc) \<noteq> KindOutSystemsLogs then
        (case find snd (outsystems_fields c) of
           Some (name, _) \<Rightarrow> Inl (CollectorError (cdoc_ID doc) (OnlyOutSystemsLogs name))
         | None \<Rightarrow> Inr zero_logs)
      else
        bind_result (duration_field env (cdoc_ID doc) ''lag'' (cd_Lag c) DefaultLogLag) (\<lambda>lag.
        bind_result (duration_field env (cdoc_ID doc) ''initial_lookback'' (cd_InitialLookback c)
            DefaultLogInitialLookback) (\<lambda>lookback.
        bind_result (duration_field env (cdoc_ID doc) ''recount_window'' (cd_RecountWindow c)
            DefaultLogRecountWindow) (\<lambda>window.
        let tz = trim_space (cd_LogTimezone c) in
        Inr \<lparr>logs_Lag = lag,
          logs_BatchLimit = (case cd_BatchLimit c of None \<Rightarrow> DefaultLogBatchLimit | Some n \<Rightarrow> n),
          logs_InitialLookback = lookback,
          logs_LogTimezone = (if tz \<noteq> [] then tz else DefaultLogTimezone),
          logs_RecountWindow = window,
          logs_MaxDerivedSeries =
            (case cd_MaxDerivedSeries c of None \<Rightarrow> DefaultLogMaxDerivedSeries | Some n \<Rightarrow> n),
          logs_LogsEndpoint = []\<rparr>))))"

definition normalizeTarget :: "config_env \<Rightarrow> string \<Rightarrow> CollectorRuntimeConfig \<Rightarrow> targetDocument \<Rightarrow>
    (configError, TargetRuntimeConfig) result" where
  "normalizeTarget env collectorID cfg target =
     bind_result (normalizeProbes env collectorID (td_Probes target)) (\<lambda>targetProbes.
       let environment = trim_space (td_Environment target);
           credential = trim_space (td_CredentialRef target) in
       Inr \<lparr>target_Name = trim_space (td_Name target),
         target_EnvironmentSlug = (if environment = [] then coll_Environment cfg else environment),
         target_Engine = coll_Kind cfg,
         target_Host = trim_space (td_Host target),
         target_Port = td_Port target,
         target_DatabaseName = trim_space (td_DatabaseName target),
         target_CredentialRef = (if credential = [] then coll_CredentialRef cfg else credential),
         target_Probes = (if length targetProbes = 0 then targetProbes @ coll_Probes cfg
           else targetProbes)\<rparr>)"

text \<open>The struct literal \<open>normalizeCollector\<close> starts from.\<close>

definition collector_base :: "collectorDocument \<Rightarrow> CollectorRuntimeConfig" where
  "collector_base doc =
     (let c = cdoc_Config doc in
      \<lparr>coll_ID = trim_space (cdoc_ID doc), coll_Kind = trim_space (cdoc_Kind doc),
        coll_Enabled = cdoc_Enabled doc, coll_CredentialRef = trim_space (cdoc_CredentialRef doc),
        coll_Environment = trim_space (cd_Environment c), coll_TargetNames = cd_TargetNames c,
        coll_ScrapeInterval = 30 * ns_second, coll_Targets = [], coll_Probes = [],
        coll_OutSystemsLogs = zero_logs\<rparr>)"

definition normalizeCollector :: "config_env \<Rightarrow> collectorDocument \<Rightarrow>
    (configError, CollectorRuntimeConfig) result" where
  "normalizeCollector env doc =
     (let c = cdoc_Config doc; cfg = collector_base doc in
      bind_result (normalizeProbes env (cdoc_ID doc) (cd_Probes c)) (\<lambda>probes.
      bind_result (duration_field env (cdoc_ID doc) ''scrape_interval'' (cd_ScrapeInterval c)
          (coll_ScrapeInterval cfg)) (\<lambda>interval.
      bind_result (normalizeOutSystemsLogs env doc) (\<lambda>logs.
      let cfg = cfg\<lparr>coll_Probes := probes, coll_ScrapeInterval := interval,
            coll_OutSystemsLogs := logs\<rparr> in
      bind_result (map_result (normalizeTarget env (cdoc_ID doc) cfg) (cd_Targets c)) (\<lambda>targets.
      Inr (cfg\<lparr>coll_Targets := targets\<rparr>))))))"

section \<open>What normalisation establishes\<close>

definition normal_probe :: "ProbeRuntimeConfig \<Rightarrow> bool" where
  "normal_probe p \<longleftrightarrow> probe_Name p \<noteq> [] \<and> 0 \<le> probe_Lag p"

definition normal_collector :: "CollectorRuntimeConfig \<Rightarrow> bool" where
  "normal_collector c \<longleftrightarrow>
     list_all normal_probe (coll_Probes c) \<and>
     list_all (\<lambda>t. target_Engine t = coll_Kind c \<and> list_all normal_probe (target_Probes t)
       \<and> (coll_Environment c \<noteq> [] \<longrightarrow> target_EnvironmentSlug t \<noteq> [])
       \<and> (coll_CredentialRef c \<noteq> [] \<longrightarrow> target_CredentialRef t \<noteq> [])
       \<and> (target_Probes t = [] \<longrightarrow> coll_Probes c = [])) (coll_Targets c) \<and>
     (coll_Kind c \<noteq> KindOutSystemsLogs \<longrightarrow> coll_OutSystemsLogs c = zero_logs) \<and>
     (coll_Kind c = KindOutSystemsLogs \<longrightarrow> logs_LogTimezone (coll_OutSystemsLogs c) \<noteq> [])"

lemma normalizeProbe_normal:
  "normalizeProbe env i doc = Inr p \<Longrightarrow> trim_space (pd_Name doc) \<noteq> [] \<Longrightarrow> normal_probe p"
  by (auto simp: normalizeProbe_def normal_probe_def Let_def split: if_splits option.splits)

lemma normalizeProbes_normal:
  assumes "normalizeProbes env i docs = Inr ps"
  shows "list_all normal_probe ps"
  unfolding list_all_iff
proof
  fix p
  assume "p \<in> set ps"
  from map_result_source [OF assms [unfolded normalizeProbes_def] this] normalizeProbe_normal
  show "normal_probe p" by auto
qed

lemma normalizeOutSystemsLogs_normal:
  assumes "normalizeOutSystemsLogs env doc = Inr logs"
  shows "trim_space (cdoc_Kind doc) \<noteq> KindOutSystemsLogs \<Longrightarrow> logs = zero_logs"
    and "trim_space (cdoc_Kind doc) = KindOutSystemsLogs \<Longrightarrow> logs_LogTimezone logs \<noteq> []"
  using assms
  by (auto simp: normalizeOutSystemsLogs_def Let_def bind_result_Inr_iff DefaultLogTimezone_def
      split: option.splits prod.splits if_splits)

lemma normalizeTarget_normal:
  assumes "normalizeTarget env i c doc = Inr t" and "list_all normal_probe (coll_Probes c)"
  shows "target_Engine t = coll_Kind c \<and> list_all normal_probe (target_Probes t)
       \<and> (coll_Environment c \<noteq> [] \<longrightarrow> target_EnvironmentSlug t \<noteq> [])
       \<and> (coll_CredentialRef c \<noteq> [] \<longrightarrow> target_CredentialRef t \<noteq> [])
       \<and> (target_Probes t = [] \<longrightarrow> coll_Probes c = [])"
proof -
  from assms(1) obtain ps where ps: "normalizeProbes env i (td_Probes doc) = Inr ps"
    by (auto simp: normalizeTarget_def bind_result_Inr_iff)
  from assms normalizeProbes_normal [OF ps] show ?thesis
    by (cases ps) (auto simp: normalizeTarget_def ps Let_def split: if_splits)
qed

lemma normalizeCollector_normal:
  assumes "normalizeCollector env doc = Inr c"
  shows "normal_collector c"
proof -
  let ?c = "cdoc_Config doc"
  from assms obtain probes interval logs targets where
    p: "normalizeProbes env (cdoc_ID doc) (cd_Probes ?c) = Inr probes"
    and l: "normalizeOutSystemsLogs env doc = Inr logs"
    and t: "map_result (normalizeTarget env (cdoc_ID doc) (collector_base doc\<lparr>coll_Probes := probes,
        coll_ScrapeInterval := interval, coll_OutSystemsLogs := logs\<rparr>)) (cd_Targets ?c) = Inr targets"
    and c: "c = collector_base doc\<lparr>coll_Probes := probes, coll_ScrapeInterval := interval,
        coll_OutSystemsLogs := logs, coll_Targets := targets\<rparr>"
    by (auto simp: normalizeCollector_def bind_result_Inr_iff Let_def)
  have k: "coll_Kind c = trim_space (cdoc_Kind doc)"
    by (simp add: c collector_base_def Let_def)
  have targets: "target_Engine x = coll_Kind c \<and> list_all normal_probe (target_Probes x)
       \<and> (coll_Environment c \<noteq> [] \<longrightarrow> target_EnvironmentSlug x \<noteq> [])
       \<and> (coll_CredentialRef c \<noteq> [] \<longrightarrow> target_CredentialRef x \<noteq> [])
       \<and> (target_Probes x = [] \<longrightarrow> coll_Probes c = [])" if "x \<in> set targets" for x
    using map_result_source [OF t that] normalizeProbes_normal [OF p]
    by (auto simp: c dest!: normalizeTarget_normal)
  from normalizeProbes_normal [OF p] targets normalizeOutSystemsLogs_normal [OF l] k show ?thesis
    unfolding normal_collector_def by (simp add: c list_all_iff)
qed

end
