(* ===== verification/ConfigValidate.thy ===== *)
theory ConfigValidate
  imports ConfigNormalize
begin

text \<open>
  Validation of the runtime configuration (\<open>validate\<close> and the checks it calls in \<open>config.go\<close>),
  \<open>ParseRuntimeConfig\<close>, \<open>LoadRuntimeConfig\<close> and \<open>EnabledCollectors\<close>.  A check returns the first
  error, in the order of the code, or \<^const>\<open>None\<close>.  The declarative predicate \<open>valid_config\<close> says
  what the accepted configurations are, and \<open>validate_None\<close> that the checks decide it.
\<close>

section \<open>The checks\<close>

definition credential_error :: "string \<Rightarrow> 'e \<Rightarrow> 'e option" where
  "credential_error ref e = fail_if (ref \<noteq> [] \<and> \<not> ValidSecretRef ref) e"

definition templates_error :: "string \<Rightarrow> string \<Rightarrow> gomap \<Rightarrow> configError option" where
  "templates_error sect field m =
     first_error (\<lambda>(key, val). fail_if (hasUserinfo val)
       (EmbeddedCredentials sect (field @ ''.'' @ key))) (entries m)"

definition endpointCredentials :: "string \<times> Endpoint \<Rightarrow> configError option" where
  "endpointCredentials = (\<lambda>(name, e).
     or_else (fail_if (hasUserinfo (ep_BaseURL e)) (EmbeddedCredentials name ''base_url''))
     (or_else (fail_if (hasUserinfo (ep_Endpoint e)) (EmbeddedCredentials name ''endpoint''))
     (or_else (templates_error name ''dashboard_templates'' (ep_DashboardTemplates e))
       (templates_error name ''deep_link_templates'' (ep_DeepLinkTemplates e)))))"

definition validateEndpointCredentials :: "RuntimeConfig \<Rightarrow> configError option" where
  "validateEndpointCredentials cfg = first_error endpointCredentials
     [(''dashboards'', cfg_Dashboards cfg), (''logs'', cfg_Logs cfg),
      (''alerting'', cfg_Alerting cfg), (''opentelemetry'', cfg_OpenTelemetry cfg)]"

definition validateURL :: "config_env \<Rightarrow> string \<Rightarrow> string \<Rightarrow> bool \<Rightarrow> configError option" where
  "validateURL env name raw required =
     (if raw = [] then (if required then Some (URLRequired name) else None)
      else case env_url env raw of
        None \<Rightarrow> Some (NotAbsoluteURL name)
      | Some u \<Rightarrow> fail_if (url_Scheme u = [] \<or> url_Host u = []) (NotAbsoluteURL name))"

definition probe_timeout_error :: "CollectorRuntimeConfig \<Rightarrow> TargetRuntimeConfig \<Rightarrow>
    ProbeRuntimeConfig \<Rightarrow> configError option" where
  "probe_timeout_error collector target probe =
     (let err = ProbeError [coll_ID collector, target_Name target] (probe_Name probe);
          maxMS = MaxProbeTimeout div ns_millisecond in
      or_else (fail_if (probe_TimeoutMS probe < 0) (err TimeoutNegative))
      (or_else (fail_if (probe_TimeoutMS probe > maxMS) (err (TimeoutTooLong (probe_TimeoutMS probe))))
        (fail_if (probe_Lag probe \<noteq> 0 \<and> coll_Kind collector \<noteq> KindOutSystemsLogs) (err LagElsewhere))))"

text \<open>The loop over the targets, with the set of names seen.\<close>

fun targets_error :: "config_env \<Rightarrow> CollectorRuntimeConfig \<Rightarrow> string list \<Rightarrow> TargetRuntimeConfig list \<Rightarrow>
    configError option" where
  "targets_error env collector seen [] = None"
| "targets_error env collector seen (target # rest) =
     (let err = TargetError (coll_ID collector) (target_Name target) in
      or_else (fail_if (target_Name target = []) (CollectorError (coll_ID collector) TargetNameRequired))
      (or_else (fail_if (target_Name target \<in> set seen) (err TargetNotUnique))
      (or_else (fail_if (target_Host target = []) (err HostRequired))
      (or_else (fail_if (\<not> ValidHost (env_ipv6 env) (target_Host target)) (err HostInvalid))
      (or_else (fail_if (target_Port target < 1 \<or> target_Port target > 65535) (err PortInvalid))
      (or_else (credential_error (target_CredentialRef target) (err TargetCredentialInvalid))
      (or_else (first_error (probe_timeout_error collector target) (target_Probes target))
        (targets_error env collector (target_Name target # seen) rest))))))))"

definition validateTargets :: "config_env \<Rightarrow> CollectorRuntimeConfig \<Rightarrow> configError option" where
  "validateTargets env collector =
     or_else (targets_error env collector [] (coll_Targets collector))
       (first_error (\<lambda>selected.
          fail_if (selected \<notin> set (map target_Name (coll_Targets collector)) \<and> coll_Targets collector \<noteq> [])
            (CollectorError (coll_ID collector) (UnknownTargetName selected)))
         (coll_TargetNames collector))"

definition probe_query_error :: "config_env \<Rightarrow> CollectorRuntimeConfig \<Rightarrow> string list \<Rightarrow>
    ProbeRuntimeConfig \<Rightarrow> configError option" where
  "probe_query_error env collector scope probe =
     (let err = ProbeError scope (probe_Name probe);
          q = probe_QueryTemplate probe in
      or_else
        (if q \<noteq> [] then
          (case ValidateReadOnlySelect (env_tables env) q of
             Some e \<Rightarrow> Some (err (QueryNotReadOnly e))
           | None \<Rightarrow>
              (if coll_Kind collector = KindOutSystemsLogs
                  \<and> logs_RecountWindow (coll_OutSystemsLogs collector) > 0 then
                 (case DerivedTable (env_tables env) q of
                    Inl e \<Rightarrow> Some (err (QueryNotRecountable e))
                  | Inr _ \<Rightarrow> None)
               else None))
         else None)
        (if probe_MaxRows probe = 0 then None
         else or_else (fail_if (coll_Kind collector \<noteq> KindSQLServer) (err MaxRowsElsewhere))
           (fail_if (probe_MaxRows probe < 0 \<or> probe_MaxRows probe > MaxProbeMaxRows)
             (err MaxRowsOutOfRange))))"

definition validateProbeQueries :: "config_env \<Rightarrow> CollectorRuntimeConfig \<Rightarrow> configError option" where
  "validateProbeQueries env collector =
     or_else (first_error (probe_query_error env collector [coll_ID collector]) (coll_Probes collector))
       (first_error (\<lambda>target. first_error
            (probe_query_error env collector [coll_ID collector, target_Name target])
            (target_Probes target))
          (coll_Targets collector))"

fun log_types_error :: "string \<Rightarrow> string \<Rightarrow> string list \<Rightarrow> ProbeRuntimeConfig list \<Rightarrow> configError option" where
  "log_types_error i t seen [] = None"
| "log_types_error i t seen (probe # rest) =
     (if probe_Name probe \<in> set seen then Some (ProbeError [i, t] (probe_Name probe) LogTypeTwice)
      else log_types_error i t (probe_Name probe # seen) rest)"

definition recount_window_bad :: "duration \<Rightarrow> bool" where
  "recount_window_bad w \<longleftrightarrow>
     w \<noteq> 0 \<and> (w < 2 * ns_minute \<or> w > MaxLogRecountWindow \<or> w mod ns_minute \<noteq> 0)"

definition validateOutSystemsLogs :: "config_env \<Rightarrow> CollectorRuntimeConfig \<Rightarrow> string \<Rightarrow>
    configError option" where
  "validateOutSystemsLogs env collector logsEndpoint =
     (let logs = coll_OutSystemsLogs collector; err = CollectorError (coll_ID collector) in
      or_else (fail_if (coll_Enabled collector \<and> logsEndpoint = []) (err LogsEndpointRequired))
      (or_else (fail_if (logs_Lag logs \<le> 0) (err LagNotPositive))
      (or_else (fail_if (logs_InitialLookback logs \<le> 0) (err InitialLookbackNotPositive))
      (or_else (fail_if (recount_window_bad (logs_RecountWindow logs)) (err RecountWindowInvalid))
      (or_else (fail_if (logs_BatchLimit logs < 1 \<or> logs_BatchLimit logs > MaxLogBatchLimit)
          (err BatchLimitOutOfRange))
      (or_else (fail_if (logs_MaxDerivedSeries logs < 1 \<or> logs_MaxDerivedSeries logs > MaxLogDerivedSeries)
          (err DerivedSeriesOutOfRange))
      (or_else (fail_if (\<not> env_location env (logs_LogTimezone logs) \<or> logs_LogTimezone logs = ''Local'')
          (err (TimezoneInvalid (logs_LogTimezone logs))))
        (first_error (\<lambda>target. log_types_error (coll_ID collector) (target_Name target) []
            (target_Probes target)) (coll_Targets collector)))))))))"

text \<open>The targets a collector selects: all of them unless it names some.\<close>

definition selected_targets :: "CollectorRuntimeConfig \<Rightarrow> TargetRuntimeConfig list" where
  "selected_targets collector = filter (\<lambda>target.
     \<not> (coll_TargetNames collector \<noteq> [] \<and> target_Name target \<notin> set (coll_TargetNames collector)))
     (coll_Targets collector)"

text \<open>Both uniqueness checks walk over (key, owner) pairs and keep the owner of each key; the
  first also rejects a key met twice in one collector.\<close>

definition sqlserver_claims :: "CollectorRuntimeConfig list \<Rightarrow> ((string \<times> string) \<times> string) list" where
  "sqlserver_claims collectors =
     concat (map (\<lambda>c. map (\<lambda>t. ((target_EnvironmentSlug t, target_Name t), coll_ID c)) (selected_targets c))
       (filter (\<lambda>c. coll_Enabled c \<and> coll_Kind c = KindSQLServer) collectors))"

fun sqlserver_owner_error :: "((string \<times> string) \<rightharpoonup> string) \<Rightarrow> ((string \<times> string) \<times> string) list \<Rightarrow>
    configError option" where
  "sqlserver_owner_error owners [] = None"
| "sqlserver_owner_error owners (((environment, name), i) # rest) =
     (case owners (environment, name) of
        Some owner \<Rightarrow> Some (TargetScrapedTwice name environment owner i)
      | None \<Rightarrow> sqlserver_owner_error (owners((environment, name) \<mapsto> i)) rest)"

definition validateUniqueSQLServerTargets :: "CollectorRuntimeConfig list \<Rightarrow> configError option" where
  "validateUniqueSQLServerTargets collectors = sqlserver_owner_error Map.empty (sqlserver_claims collectors)"

type_synonym source_key = "string \<times> int \<times> string \<times> string"

definition source_key :: "config_env \<Rightarrow> TargetRuntimeConfig \<Rightarrow> ProbeRuntimeConfig \<Rightarrow> source_key" where
  "source_key env target probe =
     (to_lower (env_tables env) (target_Host target), target_Port target,
      to_lower (env_tables env) (target_DatabaseName target), probe_Name probe)"

definition log_sources :: "CollectorRuntimeConfig list \<Rightarrow> (TargetRuntimeConfig \<times> ProbeRuntimeConfig \<times> string) list" where
  "log_sources collectors =
     concat (map (\<lambda>c. concat (map (\<lambda>t. map (\<lambda>p. (t, p, coll_ID c)) (target_Probes t)) (selected_targets c)))
       (filter (\<lambda>c. coll_Enabled c \<and> coll_Kind c = KindOutSystemsLogs) collectors))"

definition log_source_claims :: "config_env \<Rightarrow> CollectorRuntimeConfig list \<Rightarrow> (source_key \<times> string) list" where
  "log_source_claims env collectors = map (\<lambda>(t, p, i). (source_key env t p, i)) (log_sources collectors)"

fun log_source_error :: "config_env \<Rightarrow> (source_key \<rightharpoonup> string) \<Rightarrow> (TargetRuntimeConfig \<times> ProbeRuntimeConfig \<times> string) list \<Rightarrow>
    configError option" where
  "log_source_error env owners [] = None"
| "log_source_error env owners ((target, probe, i) # rest) =
     (let key = source_key env target probe in
      if owners key \<noteq> None \<and> owners key \<noteq> Some i then
        Some (LogTypeExtractedTwice (probe_Name probe) (target_DatabaseName target) (target_Host target) (target_Port target)
          (the (owners key)) i)
      else log_source_error env (owners(key \<mapsto> i)) rest)"

definition validateUniqueOutSystemsLogSources :: "config_env \<Rightarrow> CollectorRuntimeConfig list \<Rightarrow>
    configError option" where
  "validateUniqueOutSystemsLogSources env collectors =
     log_source_error env Map.empty (log_sources collectors)"

definition collector_error :: "config_env \<Rightarrow> string \<Rightarrow> CollectorRuntimeConfig \<Rightarrow> configError option" where
  "collector_error env logsEndpoint collector =
     (let err = CollectorError (coll_ID collector) in
      or_else (fail_if (coll_Kind collector = []) (err KindRequired))
      (or_else (fail_if (coll_ScrapeInterval collector \<le> 0) (err ScrapeIntervalNotPositive))
      (or_else (credential_error (coll_CredentialRef collector) (err CollectorCredentialInvalid))
      (or_else (validateTargets env collector)
      (or_else (validateProbeQueries env collector)
        (if coll_Kind collector = KindOutSystemsLogs
         then validateOutSystemsLogs env collector logsEndpoint else None))))))"

fun collectors_error :: "config_env \<Rightarrow> string \<Rightarrow> string list \<Rightarrow> CollectorRuntimeConfig list \<Rightarrow>
    configError option" where
  "collectors_error env logsEndpoint ids [] = None"
| "collectors_error env logsEndpoint ids (collector # rest) =
     or_else (fail_if (coll_ID collector = []) CollectorIDRequired)
     (or_else (fail_if (coll_ID collector \<in> set ids) (CollectorIDNotUnique (coll_ID collector)))
     (or_else (collector_error env logsEndpoint collector)
       (collectors_error env logsEndpoint (coll_ID collector # ids) rest)))"

fun channels_error :: "string list \<Rightarrow> NotificationChannel list \<Rightarrow> configError option" where
  "channels_error ids [] = None"
| "channels_error ids (channel # rest) =
     (let err = ChannelError (nc_ID channel) in
      or_else (fail_if (nc_ID channel = []) ChannelIDRequired)
      (or_else (fail_if (nc_ID channel \<in> set ids) (err ChannelNotUnique))
      (or_else (fail_if (nc_ChannelType channel = [] \<or> nc_TargetRef channel = []) (err ChannelIncomplete))
      (or_else (fail_if (targetRefCredentials (nc_TargetRef channel)) (err ChannelTargetCredentials))
      (or_else (credential_error (nc_CredentialRef channel) (err ChannelCredentialInvalid))
        (channels_error (nc_ID channel # ids) rest))))))"

definition platform_error :: "RuntimeConfig \<Rightarrow> configError option" where
  "platform_error cfg =
     or_else (fail_if (cfg_Platform cfg \<noteq> [] \<and> cfg_Platform cfg \<notin> set supportedPlatforms)
       (UnsupportedPlatform (cfg_Platform cfg)))
     (or_else (fail_if (ep_Endpoint (cfg_Logs cfg) \<noteq> []) LogsEndpointSet)
     (or_else (fail_if (ep_Endpoint (cfg_Alerting cfg) \<noteq> []) AlertingEndpointSet)
       (if cfg_Platform cfg = PlatformGeneric then
          first_error (\<lambda>(name, e). fail_if (\<not> emptyEndpoint e) (SectionNotEmpty name))
            [(''dashboards'', cfg_Dashboards cfg), (''logs'', cfg_Logs cfg), (''alerting'', cfg_Alerting cfg)]
        else None)))"

definition validate :: "config_env \<Rightarrow> RuntimeConfig \<Rightarrow> configError option" where
  "validate env cfg =
     or_else (validateEndpointCredentials cfg)
     (or_else (platform_error cfg)
     (or_else (validateURL env ''dashboards.base_url'' (ep_BaseURL (cfg_Dashboards cfg)) False)
     (or_else (validateURL env ''logs.base_url'' (ep_BaseURL (cfg_Logs cfg)) False)
     (or_else (validateURL env ''alerting.base_url'' (ep_BaseURL (cfg_Alerting cfg)) False)
     (or_else (validateURL env ''opentelemetry.endpoint'' (ep_Endpoint (cfg_OpenTelemetry cfg)) False)
     (or_else (first_error (\<lambda>(key, ref). credential_error ref (CredentialRefInvalid key))
        (entries (cfg_CredentialRefs cfg)))
     (or_else (collectors_error env (ep_Endpoint (cfg_OpenTelemetry cfg)) [] (cfg_Collectors cfg))
     (or_else (validateUniqueSQLServerTargets (cfg_Collectors cfg))
     (or_else (validateUniqueOutSystemsLogSources env (cfg_Collectors cfg))
       (channels_error [] (cfg_NotificationChannels cfg)))))))))))"

section \<open>Loading\<close>

definition finish_collector :: "string \<Rightarrow> CollectorRuntimeConfig \<Rightarrow> CollectorRuntimeConfig" where
  "finish_collector endpoint c =
     (if coll_Kind c = KindOutSystemsLogs
      then c\<lparr>coll_OutSystemsLogs := (coll_OutSystemsLogs c)\<lparr>logs_LogsEndpoint := endpoint\<rparr>\<rparr> else c)"

definition ParseRuntimeConfig :: "config_env \<Rightarrow> string \<Rightarrow> (configError, RuntimeConfig) result" where
  "ParseRuntimeConfig env content =
     (case env_yaml env content of
        None \<Rightarrow> Inl ParseError
      | Some doc \<Rightarrow>
         (let platform = trim_space (doc_Platform doc);
              otel = normalizeEndpoint (doc_OpenTelemetry doc) in
          bind_result (map_result (\<lambda>c. bind_result (normalizeCollector env c)
              (\<lambda>r. Inr (finish_collector (ep_Endpoint otel) r))) (doc_Collectors doc)) (\<lambda>collectors.
          let cfg = \<lparr>cfg_Version = env_hash env content,
                cfg_Platform = (if platform = [] then DefaultPlatform else platform),
                cfg_Dashboards = normalizeEndpoint (doc_Dashboards doc),
                cfg_Logs = normalizeEndpoint (doc_Logs doc),
                cfg_Alerting = normalizeEndpoint (doc_Alerting doc),
                cfg_OpenTelemetry = otel,
                cfg_NotificationChannels = doc_NotificationChannels doc,
                cfg_Collectors = collectors,
                cfg_CredentialRefs = copyStringMap (doc_CredentialRefs doc)\<rparr> in
          case validate env cfg of Some e \<Rightarrow> Inl e | None \<Rightarrow> Inr cfg)))"

definition LoadRuntimeConfig :: "config_env \<Rightarrow> (string \<rightharpoonup> string) \<Rightarrow> string \<Rightarrow>
    (configError, RuntimeConfig) result" where
  "LoadRuntimeConfig env files path =
     (case files path of None \<Rightarrow> Inl ReadError | Some content \<Rightarrow> ParseRuntimeConfig env content)"

definition EnabledCollectors :: "RuntimeConfig \<Rightarrow> string list \<Rightarrow> CollectorRuntimeConfig list" where
  "EnabledCollectors cfg kinds =
     sort_key coll_ID (filter (\<lambda>c. coll_Enabled c \<and> coll_Kind c \<in> set kinds) (cfg_Collectors cfg))"

section \<open>What an accepted configuration is\<close>

definition clean_endpoint :: "Endpoint \<Rightarrow> bool" where
  "clean_endpoint e \<longleftrightarrow> \<not> hasUserinfo (ep_BaseURL e) \<and> \<not> hasUserinfo (ep_Endpoint e) \<and>
     (\<forall>(k, v) \<in> set (entries (ep_DashboardTemplates e)). \<not> hasUserinfo v) \<and>
     (\<forall>(k, v) \<in> set (entries (ep_DeepLinkTemplates e)). \<not> hasUserinfo v)"

definition valid_ref :: "string \<Rightarrow> bool" where
  "valid_ref ref \<longleftrightarrow> ref = [] \<or> ValidSecretRef ref"

definition absolute_url :: "config_env \<Rightarrow> string \<Rightarrow> bool" where
  "absolute_url env raw \<longleftrightarrow> raw = [] \<or>
     (\<exists>u. env_url env raw = Some u \<and> url_Scheme u \<noteq> [] \<and> url_Host u \<noteq> [])"

definition valid_probe_limits :: "string \<Rightarrow> ProbeRuntimeConfig \<Rightarrow> bool" where
  "valid_probe_limits kind p \<longleftrightarrow> 0 \<le> probe_TimeoutMS p \<and> probe_TimeoutMS p \<le> 25000 \<and>
     (probe_Lag p \<noteq> 0 \<longrightarrow> kind = KindOutSystemsLogs)"

definition valid_probe_query :: "config_env \<Rightarrow> CollectorRuntimeConfig \<Rightarrow> ProbeRuntimeConfig \<Rightarrow> bool" where
  "valid_probe_query env c p \<longleftrightarrow>
     (probe_QueryTemplate p \<noteq> [] \<longrightarrow>
        ValidateReadOnlySelect (env_tables env) (probe_QueryTemplate p) = None \<and>
        (coll_Kind c = KindOutSystemsLogs \<and> logs_RecountWindow (coll_OutSystemsLogs c) > 0 \<longrightarrow>
           (\<exists>s. DerivedTable (env_tables env) (probe_QueryTemplate p) = Inr s))) \<and>
     (probe_MaxRows p \<noteq> 0 \<longrightarrow>
        coll_Kind c = KindSQLServer \<and> 1 \<le> probe_MaxRows p \<and> probe_MaxRows p \<le> 100000)"

definition valid_target :: "config_env \<Rightarrow> CollectorRuntimeConfig \<Rightarrow> TargetRuntimeConfig \<Rightarrow> bool" where
  "valid_target env c t \<longleftrightarrow> target_Name t \<noteq> [] \<and> target_Host t \<noteq> [] \<and>
     ValidHost (env_ipv6 env) (target_Host t) \<and> 1 \<le> target_Port t \<and> target_Port t \<le> 65535 \<and>
     valid_ref (target_CredentialRef t) \<and>
     (\<forall>p \<in> set (target_Probes t). valid_probe_limits (coll_Kind c) p \<and> valid_probe_query env c p)"

definition valid_logs :: "config_env \<Rightarrow> CollectorRuntimeConfig \<Rightarrow> string \<Rightarrow> bool" where
  "valid_logs env c endpoint \<longleftrightarrow>
     (let logs = coll_OutSystemsLogs c; w = logs_RecountWindow logs in
      (coll_Enabled c \<longrightarrow> endpoint \<noteq> []) \<and> 0 < logs_Lag logs \<and> 0 < logs_InitialLookback logs \<and>
      (w = 0 \<or> 2 * ns_minute \<le> w \<and> w \<le> ns_hour \<and> ns_minute dvd w) \<and>
      1 \<le> logs_BatchLimit logs \<and> logs_BatchLimit logs \<le> 50000 \<and>
      1 \<le> logs_MaxDerivedSeries logs \<and> logs_MaxDerivedSeries logs \<le> 1000000 \<and>
      env_location env (logs_LogTimezone logs) \<and> logs_LogTimezone logs \<noteq> ''Local'' \<and>
      (\<forall>t \<in> set (coll_Targets c). distinct (map probe_Name (target_Probes t))))"

definition valid_collector :: "config_env \<Rightarrow> string \<Rightarrow> CollectorRuntimeConfig \<Rightarrow> bool" where
  "valid_collector env endpoint c \<longleftrightarrow> coll_ID c \<noteq> [] \<and> coll_Kind c \<noteq> [] \<and>
     0 < coll_ScrapeInterval c \<and> valid_ref (coll_CredentialRef c) \<and>
     (\<forall>t \<in> set (coll_Targets c). valid_target env c t) \<and>
     distinct (map target_Name (coll_Targets c)) \<and>
     (coll_Targets c \<noteq> [] \<longrightarrow> set (coll_TargetNames c) \<subseteq> target_Name ` set (coll_Targets c)) \<and>
     (\<forall>p \<in> set (coll_Probes c). valid_probe_query env c p) \<and>
     (coll_Kind c = KindOutSystemsLogs \<longrightarrow> valid_logs env c endpoint)"

definition valid_channel :: "NotificationChannel \<Rightarrow> bool" where
  "valid_channel n \<longleftrightarrow> nc_ID n \<noteq> [] \<and> nc_ChannelType n \<noteq> [] \<and> nc_TargetRef n \<noteq> [] \<and>
     \<not> targetRefCredentials (nc_TargetRef n) \<and> valid_ref (nc_CredentialRef n)"

definition valid_platform :: "RuntimeConfig \<Rightarrow> bool" where
  "valid_platform cfg \<longleftrightarrow> cfg_Platform cfg \<in> {[], PlatformGrafana, PlatformGeneric} \<and>
     ep_Endpoint (cfg_Logs cfg) = [] \<and> ep_Endpoint (cfg_Alerting cfg) = [] \<and>
     (cfg_Platform cfg = PlatformGeneric \<longrightarrow> emptyEndpoint (cfg_Dashboards cfg) \<and>
        emptyEndpoint (cfg_Logs cfg) \<and> emptyEndpoint (cfg_Alerting cfg))"

text \<open>One owner per key: every two claims of the same key come from the same collector.\<close>

definition single_owner :: "('k \<times> string) list \<Rightarrow> bool" where
  "single_owner claims \<longleftrightarrow> (\<forall>(k, i) \<in> set claims. \<forall>(k', j) \<in> set claims. k = k' \<longrightarrow> i = j)"

definition valid_config :: "config_env \<Rightarrow> RuntimeConfig \<Rightarrow> bool" where
  "valid_config env cfg \<longleftrightarrow>
     list_all clean_endpoint [cfg_Dashboards cfg, cfg_Logs cfg, cfg_Alerting cfg, cfg_OpenTelemetry cfg] \<and>
     valid_platform cfg \<and>
     list_all (absolute_url env) [ep_BaseURL (cfg_Dashboards cfg), ep_BaseURL (cfg_Logs cfg),
       ep_BaseURL (cfg_Alerting cfg), ep_Endpoint (cfg_OpenTelemetry cfg)] \<and>
     (\<forall>(k, ref) \<in> set (entries (cfg_CredentialRefs cfg)). valid_ref ref) \<and>
     (\<forall>c \<in> set (cfg_Collectors cfg). valid_collector env (ep_Endpoint (cfg_OpenTelemetry cfg)) c) \<and>
     distinct (map coll_ID (cfg_Collectors cfg)) \<and>
     distinct (map fst (sqlserver_claims (cfg_Collectors cfg))) \<and>
     single_owner (log_source_claims env (cfg_Collectors cfg)) \<and>
     (\<forall>n \<in> set (cfg_NotificationChannels cfg). valid_channel n) \<and>
     distinct (map nc_ID (cfg_NotificationChannels cfg))"

section \<open>The checks decide it\<close>

lemma credential_error_None [simp]: "credential_error ref e = None \<longleftrightarrow> valid_ref ref"
  by (auto simp: credential_error_def valid_ref_def)

lemma templates_error_None [simp]:
  "templates_error s f m = None \<longleftrightarrow> (\<forall>(k, v) \<in> set (entries m). \<not> hasUserinfo v)"
  by (auto simp: templates_error_def)

lemma validateEndpointCredentials_None:
  "validateEndpointCredentials cfg = None \<longleftrightarrow>
     list_all clean_endpoint [cfg_Dashboards cfg, cfg_Logs cfg, cfg_Alerting cfg, cfg_OpenTelemetry cfg]"
  by (simp add: validateEndpointCredentials_def endpointCredentials_def clean_endpoint_def conj_assoc
      del: first_error.simps)

lemma validateURL_None: "validateURL env name raw False = None \<longleftrightarrow> absolute_url env raw"
  by (auto simp: validateURL_def absolute_url_def split: option.splits)

lemma probe_timeout_error_None:
  "probe_timeout_error c t p = None \<longleftrightarrow> valid_probe_limits (coll_Kind c) p"
  by (auto simp: probe_timeout_error_def valid_probe_limits_def Let_def MaxProbeTimeout_def duration_units)

lemma probe_query_error_None: "probe_query_error env c scope p = None \<longleftrightarrow> valid_probe_query env c p"
  by (auto simp: probe_query_error_def valid_probe_query_def Let_def MaxProbeMaxRows_def
      split: option.splits sum.splits)

lemma targets_error_None:
  "targets_error env c seen ts = None \<longleftrightarrow>
     (\<forall>t \<in> set ts. target_Name t \<noteq> [] \<and> target_Host t \<noteq> [] \<and>
        ValidHost (env_ipv6 env) (target_Host t) \<and> 1 \<le> target_Port t \<and> target_Port t \<le> 65535 \<and>
        valid_ref (target_CredentialRef t) \<and> (\<forall>p \<in> set (target_Probes t). valid_probe_limits (coll_Kind c) p)) \<and>
     distinct (map target_Name ts) \<and> set seen \<inter> target_Name ` set ts = {}"
proof (induction ts arbitrary: seen)
  case (Cons t ts)
  show ?case
    by (auto simp: Let_def Cons probe_timeout_error_None not_less)
qed simp

lemma log_types_error_None:
  "log_types_error i t seen ps = None \<longleftrightarrow>
     distinct (map probe_Name ps) \<and> set seen \<inter> probe_Name ` set ps = {}"
  by (induction ps arbitrary: seen) auto

lemma validateOutSystemsLogs_None:
  "validateOutSystemsLogs env c endpoint = None \<longleftrightarrow> valid_logs env c endpoint"
  by (auto simp: validateOutSystemsLogs_def valid_logs_def Let_def log_types_error_None
      recount_window_bad_def MaxLogRecountWindow_def MaxLogBatchLimit_def MaxLogDerivedSeries_def
      not_less not_le dvd_eq_mod_eq_0)

lemma collector_error_None:
  "coll_ID c \<noteq> [] \<and> collector_error env endpoint c = None \<longleftrightarrow> valid_collector env endpoint c"
  by (simp add: collector_error_def valid_collector_def valid_target_def Let_def not_le
      validateTargets_def targets_error_None validateProbeQueries_def probe_query_error_None
      validateOutSystemsLogs_None) auto

lemma collectors_error_None:
  "collectors_error env endpoint ids cs = None \<longleftrightarrow>
     (\<forall>c \<in> set cs. valid_collector env endpoint c) \<and> distinct (map coll_ID cs) \<and>
     set ids \<inter> coll_ID ` set cs = {}"
proof (induction cs arbitrary: ids)
  case (Cons c cs)
  show ?case
    unfolding collectors_error.simps or_else_None fail_if_None Cons
    using collector_error_None [of c env endpoint] by auto
qed simp

lemma sqlserver_owner_error_None:
  "sqlserver_owner_error owners claims = None \<longleftrightarrow>
     distinct (map fst claims) \<and> dom owners \<inter> fst ` set claims = {}"
proof (induction owners claims rule: sqlserver_owner_error.induct)
  case (2 owners environment name i rest)
  show ?case
  proof (cases "owners (environment, name)")
    case None
    define k where "k = (environment, name)"
    from None have k: "k \<notin> dom owners" by (auto simp: k_def)
    have "sqlserver_owner_error owners ((k, i) # rest) = sqlserver_owner_error (owners(k \<mapsto> i)) rest"
      by (simp add: None k_def)
    also have "\<dots> = None \<longleftrightarrow> distinct (map fst rest) \<and> insert k (dom owners) \<inter> fst ` set rest = {}"
      unfolding 2 [OF None, folded k_def] dom_fun_upd by simp
    also have "\<dots> \<longleftrightarrow> distinct (map fst ((k, i) # rest)) \<and> dom owners \<inter> fst ` set ((k, i) # rest) = {}"
      using k by auto
    finally show ?thesis by (simp only: k_def)
  qed (auto simp: dom_def)
qed simp

lemma single_owner_Cons:
  "single_owner ((k, i) # rest) \<longleftrightarrow> single_owner rest \<and> (\<forall>j. (k, j) \<in> set rest \<longrightarrow> j = i)"
  unfolding single_owner_def by auto

lemma claim_first:
  assumes "Q key i"
  shows "(\<forall>k j. (k, j) \<in> R \<longrightarrow> (if k = key then j = i else Q k j)) \<longleftrightarrow>
    (\<forall>j. (key, j) \<in> R \<longrightarrow> j = i) \<and> (\<forall>k j. k = key \<and> j = i \<or> (k, j) \<in> R \<longrightarrow> Q k j)"
  using assms by (metis (mono_tags))

lemma log_source_error_None:
  "log_source_error env owners sources = None \<longleftrightarrow>
     single_owner (map (\<lambda>(t, p, i). (source_key env t p, i)) sources) \<and>
     (\<forall>k i. (k, i) \<in> set (map (\<lambda>(t, p, i). (source_key env t p, i)) sources) \<longrightarrow> owners k = None \<or> owners k = Some i)"
proof (induction env owners sources rule: log_source_error.induct)
  case (2 env owners target probe i rest)
  let ?key = "source_key env target probe" and ?rest = "map (\<lambda>(t, p, i). (source_key env t p, i)) rest"
  show ?case
  proof (cases "owners ?key \<noteq> None \<and> owners ?key \<noteq> Some i")
    case True
    then have "log_source_error env owners ((target, probe, i) # rest) \<noteq> None" by (simp add: Let_def)
    with True show ?thesis by (metis (no_types, lifting) list.set_intros(1) list.simps(9) split_conv)
  next
    case False
    then have "log_source_error env owners ((target, probe, i) # rest) = log_source_error env (owners(?key \<mapsto> i)) rest"
      by (simp only: log_source_error.simps Let_def if_False)
    also have "\<dots> = None \<longleftrightarrow> single_owner ?rest \<and>
        (\<forall>k j. (k, j) \<in> set ?rest \<longrightarrow> (if k = ?key then j = i else owners k = None \<or> owners k = Some j))"
      unfolding 2 [OF refl False] by (auto simp del: split_paired_All set_map)
    also have "\<dots> \<longleftrightarrow> single_owner ((?key, i) # ?rest) \<and>
        (\<forall>k j. (k, j) \<in> set ((?key, i) # ?rest) \<longrightarrow> owners k = None \<or> owners k = Some j)"
      unfolding single_owner_Cons list.set insert_iff prod.inject conj_assoc
      using False by (subst claim_first) auto
    finally show ?thesis by simp
  qed
qed (simp add: single_owner_def)

lemma channels_error_None:
  "channels_error ids ns = None \<longleftrightarrow>
     (\<forall>n \<in> set ns. valid_channel n) \<and> distinct (map nc_ID ns) \<and> set ids \<inter> nc_ID ` set ns = {}"
proof (induction ns arbitrary: ids)
  case (Cons n ns)
  show ?case by (simp add: Let_def Cons valid_channel_def) auto
qed simp

lemma platform_error_None: "platform_error cfg = None \<longleftrightarrow> valid_platform cfg"
  by (auto simp: platform_error_def valid_platform_def supportedPlatforms_def simp del: first_error.simps)

lemma validate_None: "validate env cfg = None \<longleftrightarrow> valid_config env cfg"
  by (simp add: validate_def valid_config_def validateEndpointCredentials_None platform_error_None
      validateURL_None collectors_error_None validateUniqueSQLServerTargets_def
      sqlserver_owner_error_None validateUniqueOutSystemsLogSources_def log_source_error_None log_source_claims_def
      channels_error_None split_def)

text \<open>C1: the loader's validation accepts exactly the configurations of \<open>valid_config\<close>: no
  embedded credentials, a supported platform, absolute URLs, secret references, collectors with
  unique ids that are each valid (unique targets with a usable host, port and limits, read-only
  queries, in-range log settings), every SQL Server target scraped once, every log source
  extracted by one collector, and valid notification channels with unique ids.\<close>

theorem validate_iff: "validate env cfg = None \<longleftrightarrow> valid_config env cfg"
  by (rule validate_None)

section \<open>What the loader returns\<close>

lemma finish_collector_simps [simp]:
  "coll_ID (finish_collector e c) = coll_ID c" "coll_Kind (finish_collector e c) = coll_Kind c"
  "coll_Targets (finish_collector e c) = coll_Targets c" "coll_Probes (finish_collector e c) = coll_Probes c"
  by (simp_all add: finish_collector_def)

lemma finish_collector_normal: "normal_collector c \<Longrightarrow> normal_collector (finish_collector e c)"
  by (auto simp: normal_collector_def finish_collector_def)

text \<open>The platform is set, every collector is normalised, and a log collector carries the OTLP
  endpoint of the configuration.\<close>

definition normal_config :: "RuntimeConfig \<Rightarrow> bool" where
  "normal_config cfg \<longleftrightarrow> cfg_Platform cfg \<in> {PlatformGrafana, PlatformGeneric} \<and>
     (\<forall>c \<in> set (cfg_Collectors cfg). normal_collector c \<and>
        (coll_Kind c = KindOutSystemsLogs \<longrightarrow>
           logs_LogsEndpoint (coll_OutSystemsLogs c) = ep_Endpoint (cfg_OpenTelemetry cfg)))"

lemma ParseRuntimeConfig_collector:
  assumes "map_result (\<lambda>c. bind_result (normalizeCollector env c)
      (\<lambda>r. Inr (finish_collector e r))) docs = Inr cs" and "c \<in> set cs"
  shows "normal_collector c \<and>
    (coll_Kind c = KindOutSystemsLogs \<longrightarrow> logs_LogsEndpoint (coll_OutSystemsLogs c) = e)"
proof -
  from map_result_source [OF assms] obtain doc r where
    r: "normalizeCollector env doc = Inr r" and c: "c = finish_collector e r"
    by (auto simp: bind_result_Inr_iff)
  with normalizeCollector_normal [OF r] show ?thesis
    by (auto simp: finish_collector_normal) (simp add: finish_collector_def)
qed

text \<open>C2: a configuration the loader returns is valid and normalised, whatever the file holds: no
  partial or invalid configuration leaves \<open>ParseRuntimeConfig\<close>, and its version is the hash of
  the content.\<close>

theorem ParseRuntimeConfig_valid:
  assumes "ParseRuntimeConfig env content = Inr cfg"
  shows "valid_config env cfg \<and> normal_config cfg \<and> cfg_Version cfg = env_hash env content"
proof -
  from assms obtain doc collectors where doc: "env_yaml env content = Some doc"
    and cs: "map_result (\<lambda>c. bind_result (normalizeCollector env c)
      (\<lambda>r. Inr (finish_collector (ep_Endpoint (normalizeEndpoint (doc_OpenTelemetry doc))) r)))
        (doc_Collectors doc) = Inr collectors"
    and v: "validate env cfg = None" and f: "cfg_Collectors cfg = collectors"
      "cfg_OpenTelemetry cfg = normalizeEndpoint (doc_OpenTelemetry doc)"
      "cfg_Platform cfg \<noteq> []" "cfg_Version cfg = env_hash env content"
    by (auto simp: ParseRuntimeConfig_def bind_result_Inr_iff Let_def DefaultPlatform_def
        PlatformGrafana_def split: option.splits)
  from v have valid: "valid_config env cfg" by (simp add: validate_None)
  with f have "cfg_Platform cfg \<in> {PlatformGrafana, PlatformGeneric}"
    by (auto simp: valid_config_def valid_platform_def)
  with valid f ParseRuntimeConfig_collector [OF cs] show ?thesis
    by (simp add: normal_config_def)
qed

definition sample_endpoint :: "string \<Rightarrow> Endpoint" where
  "sample_endpoint url = \<lparr>ep_BaseURL = [], ep_Endpoint = url, ep_DashboardTemplates = None,
     ep_DeepLinkTemplates = None\<rparr>"

definition sample_document :: document where
  "sample_document = \<lparr>doc_Platform = [], doc_Dashboards = sample_endpoint [], doc_Logs = sample_endpoint [],
     doc_Alerting = sample_endpoint [], doc_OpenTelemetry = sample_endpoint [],
     doc_NotificationChannels = [],
     doc_Collectors = [\<lparr>cdoc_ID = ''c'', cdoc_Kind = ''sqlserver'', cdoc_Enabled = True,
       cdoc_CredentialRef = ''kv/p'',
       cdoc_Config = \<lparr>cd_Environment = ''e'', cd_ScrapeInterval = [], cd_TargetNames = [],
         cd_Targets = [\<lparr>td_Name = ''t'', td_Environment = [], td_Host = ''h'', td_Port = 1433,
           td_DatabaseName = ''d'', td_CredentialRef = [],
           td_Probes = [\<lparr>pd_Name = ''p'', pd_QueryTemplate = [], pd_TimeoutMS = 0, pd_MaxRows = 0,
             pd_Lag = []\<rparr>]\<rparr>],
         cd_Probes = [], cd_Lag = [], cd_BatchLimit = None, cd_InitialLookback = [], cd_LogTimezone = [],
         cd_RecountWindow = [], cd_MaxDerivedSeries = None\<rparr>\<rparr>],
     doc_CredentialRefs = None\<rparr>"

definition sample_env :: config_env where
  "sample_env = \<lparr>env_tables = ascii_tables, env_yaml = \<lambda>_. Some sample_document, env_hash = \<lambda>s. s,
     env_parse_duration = \<lambda>_. None, env_location = \<lambda>_. True, env_ipv6 = \<lambda>_. False,
     env_url = \<lambda>_. None\<rparr>"

theorem ParseRuntimeConfig_valid_witness:
  "\<exists>cfg. ParseRuntimeConfig sample_env ''x'' = Inr cfg \<and> length (cfg_Collectors cfg) = 1 \<and>
     valid_config sample_env cfg \<and> normal_config cfg \<and> cfg_Version cfg = ''x''"
proof -
  have "case ParseRuntimeConfig sample_env ''x'' of Inl _ \<Rightarrow> False | Inr cfg \<Rightarrow> length (cfg_Collectors cfg) = 1"
    by code_simp
  then obtain cfg where p: "ParseRuntimeConfig sample_env ''x'' = Inr cfg" and "length (cfg_Collectors cfg) = 1"
    by (auto split: sum.splits)
  with ParseRuntimeConfig_valid [OF p] show ?thesis by (auto simp: sample_env_def)
qed

text \<open>The enabled collectors of some kinds, in an accepted configuration: exactly the enabled
  collectors of those kinds, each once, in strictly increasing order of id, so that every reader
  sees the same sequence.\<close>

theorem EnabledCollectors_spec:
  assumes "valid_config env cfg"
  shows "set (EnabledCollectors cfg kinds) =
      {c \<in> set (cfg_Collectors cfg). coll_Enabled c \<and> coll_Kind c \<in> set kinds} \<and>
    sorted_wrt (<) (map coll_ID (EnabledCollectors cfg kinds))"
proof -
  have "distinct (map coll_ID (filter (\<lambda>c. coll_Enabled c \<and> coll_Kind c \<in> set kinds) (cfg_Collectors cfg)))"
    using assms by (simp add: valid_config_def distinct_map_filter)
  then have "distinct (map coll_ID (EnabledCollectors cfg kinds))"
    unfolding EnabledCollectors_def by (simp add: distinct_map)
  moreover have "sorted (map coll_ID (EnabledCollectors cfg kinds))"
    by (simp add: EnabledCollectors_def)
  ultimately have "sorted_wrt (<) (map coll_ID (EnabledCollectors cfg kinds))"
    by (simp add: strict_sorted_iff)
  then show ?thesis by (auto simp: EnabledCollectors_def)
qed

definition sample_config :: RuntimeConfig where
  "sample_config = (case ParseRuntimeConfig sample_env ''x'' of Inr cfg \<Rightarrow> cfg)"

lemma sample_config_valid: "valid_config sample_env sample_config"
proof -
  have "validate sample_env sample_config = None" by code_simp
  then show ?thesis by (simp add: validate_None)
qed

theorem EnabledCollectors_spec_witness:
  "map coll_ID (EnabledCollectors sample_config [KindSQLServer]) = [''c''] \<and>
   sorted_wrt (<) (map coll_ID (EnabledCollectors sample_config [KindSQLServer]))"
proof
  show "map coll_ID (EnabledCollectors sample_config [KindSQLServer]) = [''c'']" by code_simp
  show "sorted_wrt (<) (map coll_ID (EnabledCollectors sample_config [KindSQLServer]))"
    using EnabledCollectors_spec [OF sample_config_valid] by blast
qed

end
