(* ===== verification/CollectorDiff.thy ===== *)
theory CollectorDiff
  imports ConfigValidate
begin

text \<open>
  The difference between the enabled collectors of two configurations (package \<open>config\<close>,
  \<open>manager.go\<close>: \<open>DiffCollectors\<close>) and what it means: applied to the old collectors it gives the
  new ones.  A map that is iterated is an association list with distinct keys; the slices the
  iteration fills are sorted by id afterwards, so the order of iteration does not matter.
\<close>

type_synonym collector_map = "string \<rightharpoonup> CollectorRuntimeConfig"

fun put :: "'k \<Rightarrow> 'v \<Rightarrow> ('k \<times> 'v) list \<Rightarrow> ('k \<times> 'v) list" where
  "put k v [] = [(k, v)]"
| "put k v ((k', v') # rest) = (if k = k' then (k, v) # rest else (k', v') # put k v rest)"

lemma map_of_put [simp]: "map_of (put k v al) = (map_of al)(k \<mapsto> v)"
  by (induction al) (auto simp: fun_eq_iff)

lemma keys_put: "fst ` set (put k v al) = insert k (fst ` set al)"
  by (induction k v al rule: put.induct) auto

lemma distinct_put: "distinct (map fst al) \<Longrightarrow> distinct (map fst (put k v al))"
  by (induction k v al rule: put.induct) (auto simp: keys_put)

definition collectorsByID :: "CollectorRuntimeConfig list \<Rightarrow> (string \<times> CollectorRuntimeConfig) list" where
  "collectorsByID collectors = fold (\<lambda>c out. put (coll_ID c) c out) collectors []"

record CollectorDiff =
  diff_Added :: "CollectorRuntimeConfig list"
  diff_Updated :: "CollectorRuntimeConfig list"
  diff_Removed :: "string list"
  diff_Unchanged :: "string list"
  diff_Previous :: "(string \<times> CollectorRuntimeConfig) list"

definition sortCollectors :: "CollectorRuntimeConfig list \<Rightarrow> CollectorRuntimeConfig list" where
  "sortCollectors = sort_key coll_ID"

definition sortDiff :: "CollectorDiff \<Rightarrow> CollectorDiff" where
  "sortDiff d = d\<lparr>diff_Added := sortCollectors (diff_Added d), diff_Updated := sortCollectors (diff_Updated d),
     diff_Removed := sort (diff_Removed d), diff_Unchanged := sort (diff_Unchanged d)\<rparr>"

text \<open>One turn of the loop over the new collectors.\<close>

definition diff_new :: "(string \<times> CollectorRuntimeConfig) list \<Rightarrow> string \<times> CollectorRuntimeConfig \<Rightarrow>
    CollectorDiff \<Rightarrow> CollectorDiff" where
  "diff_new oldByID = (\<lambda>(i, c) d.
     (case map_of oldByID i of
        None \<Rightarrow> d\<lparr>diff_Added := diff_Added d @ [c]\<rparr>
      | Some old \<Rightarrow>
          if old = c then d\<lparr>diff_Unchanged := diff_Unchanged d @ [i]\<rparr>
          else d\<lparr>diff_Updated := diff_Updated d @ [c]\<rparr>))"

definition diff_old :: "(string \<times> CollectorRuntimeConfig) list \<Rightarrow> string \<times> CollectorRuntimeConfig \<Rightarrow>
    CollectorDiff \<Rightarrow> CollectorDiff" where
  "diff_old newByID = (\<lambda>(i, _) d.
     if map_of newByID i = None then d\<lparr>diff_Removed := diff_Removed d @ [i]\<rparr> else d)"

definition DiffCollectors :: "RuntimeConfig \<Rightarrow> RuntimeConfig \<Rightarrow> string list \<Rightarrow> CollectorDiff" where
  "DiffCollectors previous nxt kinds =
     (let oldByID = collectorsByID (EnabledCollectors previous kinds);
          newByID = collectorsByID (EnabledCollectors nxt kinds);
          d = \<lparr>diff_Added = [], diff_Updated = [], diff_Removed = [], diff_Unchanged = [],
            diff_Previous = oldByID\<rparr>;
          d = fold (diff_new oldByID) newByID d;
          d = fold (diff_old newByID) oldByID d in
      sortDiff d)"

section \<open>What the loops collect\<close>

lemma collectorsByID_distinct: "distinct (map fst (collectorsByID cs))"
proof -
  have "distinct (map fst al) \<Longrightarrow> distinct (map fst (fold (\<lambda>c out. put (coll_ID c) c out) cs al))" for al
    by (induction cs arbitrary: al) (auto intro: distinct_put)
  then show ?thesis by (simp add: collectorsByID_def)
qed

lemma put_elem: "x \<in> set (put k v al) \<Longrightarrow> x = (k, v) \<or> x \<in> set al"
  by (induction k v al rule: put.induct) (auto split: if_splits)

lemma collectorsByID_key:
  assumes "(i, c) \<in> set (collectorsByID cs)"
  shows "coll_ID c = i"
proof -
  have "\<forall>x \<in> set al. coll_ID (snd x) = fst x \<Longrightarrow>
      \<forall>x \<in> set (fold (\<lambda>c out. put (coll_ID c) c out) cs al). coll_ID (snd x) = fst x" for al
  proof (induction cs arbitrary: al)
    case (Cons d cs)
    have "\<forall>x \<in> set (put (coll_ID d) d al). coll_ID (snd x) = fst x"
      using Cons.prems put_elem by fastforce
    with Cons.IH show ?case by simp
  qed simp
  from this [of "[]"] assms show ?thesis by (force simp: collectorsByID_def)
qed

lemma collectorsByID_source: "x \<in> set (collectorsByID cs) \<Longrightarrow> snd x \<in> set cs"
proof -
  have "x \<in> set (fold (\<lambda>c out. put (coll_ID c) c out) cs al) \<Longrightarrow> snd x \<in> set cs \<or> x \<in> set al" for al
  proof (induction cs arbitrary: al)
    case (Cons c cs)
    then have "snd x \<in> set cs \<or> x \<in> set (put (coll_ID c) c al)" by simp
    with put_elem [of x "coll_ID c" c al] show ?case by auto
  qed simp
  from this [of "[]"] show "x \<in> set (collectorsByID cs) \<Longrightarrow> snd x \<in> set cs" by (simp add: collectorsByID_def)
qed

definition by_id :: "CollectorRuntimeConfig list \<Rightarrow> collector_map" where
  "by_id cs = map_of (collectorsByID cs)"

lemma by_id_ID: "by_id cs i = Some c \<Longrightarrow> coll_ID c = i"
  unfolding by_id_def using collectorsByID_key map_of_SomeD by metis

lemma by_id_source: "by_id cs i = Some c \<Longrightarrow> c \<in> set cs"
  unfolding by_id_def by (drule map_of_SomeD, drule collectorsByID_source) simp

lemma fold_put_map:
  assumes "distinct (map f cs)"
  shows "map_of (fold (\<lambda>c out. put (f c) c out) cs al) i =
    (case find (\<lambda>c. f c = i) cs of Some c \<Rightarrow> Some c | None \<Rightarrow> map_of al i)"
  using assms
proof (induction cs arbitrary: al)
  case (Cons c cs)
  have "find (\<lambda>c. f c = i) cs = None" if "f c = i"
    using Cons.prems that by (simp add: find_None_iff) (metis imageI)
  with Cons show ?case by (auto split: option.splits)
qed simp

lemma by_id_distinct:
  assumes "distinct (map coll_ID cs)"
  shows "by_id cs i = Some c \<longleftrightarrow> c \<in> set cs \<and> coll_ID c = i"
proof -
  have "by_id cs i = map_of (map (\<lambda>c. (coll_ID c, c)) cs) i"
    unfolding by_id_def collectorsByID_def fold_put_map [OF assms] map_of_map_key
    by (simp split: option.splits)
  with map_of_key_Some [OF assms, of i c] show ?thesis by simp
qed

lemma diff_new_step:
  "diff_new old (i, c) d =
     (case map_of old i of
        None \<Rightarrow> d\<lparr>diff_Added := diff_Added d @ [c]\<rparr>
      | Some o' \<Rightarrow> if o' = c then d\<lparr>diff_Unchanged := diff_Unchanged d @ [i]\<rparr>
          else d\<lparr>diff_Updated := diff_Updated d @ [c]\<rparr>)"
  by (simp add: diff_new_def)

lemma diff_new_fold:
  "fold (diff_new old) new d =
     d\<lparr>diff_Added := diff_Added d @ map snd (filter (\<lambda>(i, c). map_of old i = None) new),
       diff_Updated := diff_Updated d @ map snd (filter (\<lambda>(i, c). \<exists>o'. map_of old i = Some o' \<and> o' \<noteq> c) new),
       diff_Unchanged := diff_Unchanged d @ map fst (filter (\<lambda>(i, c). map_of old i = Some c) new)\<rparr>"
proof (induction new arbitrary: d)
  case (Cons x new)
  obtain i c where x: "x = (i, c)" by (cases x)
  show ?case
    by (cases "map_of old i") (simp_all add: Cons x diff_new_step)
qed simp

lemma diff_old_fold:
  "fold (diff_old new) old d =
     d\<lparr>diff_Removed := diff_Removed d @ map fst (filter (\<lambda>(i, c). map_of new i = None) old)\<rparr>"
  by (induction old arbitrary: d) (auto simp: diff_old_def split_def)

lemma sort_key_map_filter:
  assumes "distinct (map fst al)" and "\<And>i c. (i, c) \<in> set al \<Longrightarrow> f c = i"
  shows "distinct (map f (map snd (filter P al)))"
proof -
  have eq: "map (f \<circ> snd) (filter P al) = map fst (filter P al)"
    using assms(2) by (intro map_cong refl) auto
  from assms(1) have "distinct (map fst (filter P al))" by (rule distinct_map_filter)
  then show ?thesis by (simp add: eq)
qed

section \<open>The difference, declaratively\<close>

definition enabled_map :: "RuntimeConfig \<Rightarrow> string list \<Rightarrow> collector_map" where
  "enabled_map cfg kinds = by_id (EnabledCollectors cfg kinds)"

text \<open>The ids of the four parts, and the map a diff leads to.\<close>

definition diff_ids :: "CollectorDiff \<Rightarrow> string list" where
  "diff_ids d = map coll_ID (diff_Added d) @ map coll_ID (diff_Updated d) @ diff_Removed d"

definition apply_diff :: "CollectorDiff \<Rightarrow> collector_map \<Rightarrow> collector_map" where
  "apply_diff d m i =
     (case find (\<lambda>c. coll_ID c = i) (diff_Added d @ diff_Updated d) of
        Some c \<Rightarrow> Some c
      | None \<Rightarrow> if i \<in> set (diff_Removed d) then None else m i)"

lemma DiffCollectors_fields:
  fixes prev nxt kinds
  defines "old \<equiv> enabled_map prev kinds" and "new \<equiv> enabled_map nxt kinds"
    and "d \<equiv> DiffCollectors prev nxt kinds"
  shows "set (diff_Added d) = {c. new (coll_ID c) = Some c \<and> old (coll_ID c) = None}"
    and "set (diff_Updated d) = {c. new (coll_ID c) = Some c \<and> old (coll_ID c) \<notin> {None, Some c}}"
    and "set (diff_Removed d) = {i. old i \<noteq> None \<and> new i = None}"
    and "set (diff_Unchanged d) = {i. old i \<noteq> None \<and> new i = old i}"
    and "map_of (diff_Previous d) = old"
proof -
  let ?o = "collectorsByID (EnabledCollectors prev kinds)" and ?n = "collectorsByID (EnabledCollectors nxt kinds)"
  have old: "map_of ?o = old" and new: "map_of ?n = new"
    by (simp_all add: old_def new_def enabled_map_def by_id_def)
  have n: "(i, c) \<in> set ?n \<longleftrightarrow> new i = Some c" and o: "(i, c) \<in> set ?o \<longleftrightarrow> old i = Some c" for i c
    using map_of_eq_Some_iff [OF collectorsByID_distinct] old new by metis+
  have key: "new i = Some c \<Longrightarrow> coll_ID c = i" for i c
    unfolding new_def enabled_map_def by (rule by_id_ID)
  note d = d_def DiffCollectors_def Let_def diff_new_fold diff_old_fold sortDiff_def sortCollectors_def old new
  have "set (diff_Added d) = {c. \<exists>i. new i = Some c \<and> old i = None}"
    by (auto simp: d n image_iff)
  then show "set (diff_Added d) = {c. new (coll_ID c) = Some c \<and> old (coll_ID c) = None}"
    using key by auto
  have "set (diff_Updated d) = {c. \<exists>i. new i = Some c \<and> (\<exists>x. old i = Some x \<and> x \<noteq> c)}"
    by (auto simp: d n image_iff) blast
  then show "set (diff_Updated d) = {c. new (coll_ID c) = Some c \<and> old (coll_ID c) \<notin> {None, Some c}}"
    using key by auto
  show "set (diff_Removed d) = {i. old i \<noteq> None \<and> new i = None}"
    by (auto simp: d o image_iff)
  have "set (diff_Unchanged d) = {i. \<exists>c. new i = Some c \<and> old i = Some c}"
    by (auto simp: d n image_iff)
  then show "set (diff_Unchanged d) = {i. old i \<noteq> None \<and> new i = old i}"
    by auto
  show "map_of (diff_Previous d) = old"
    by (simp add: d)
qed

lemma find_by_ID:
  assumes "\<And>c. c \<in> set cs \<Longrightarrow> new (coll_ID c) = Some c"
  shows "find (\<lambda>c. coll_ID c = i) cs =
    (if \<exists>c \<in> set cs. coll_ID c = i then new i else None)"
proof (cases "find (\<lambda>c. coll_ID c = i) cs")
  case None
  then show ?thesis by (auto simp: find_None_iff)
next
  case (Some c)
  then have "c \<in> set cs" "coll_ID c = i" by (auto simp: find_Some_iff)
  with assms Some show ?thesis by auto
qed

lemma apply_diff_enabled:
  "apply_diff (DiffCollectors prev nxt kinds) (enabled_map prev kinds) = enabled_map nxt kinds"
proof
  fix i
  let ?d = "DiffCollectors prev nxt kinds" and ?o = "enabled_map prev kinds" and ?n = "enabled_map nxt kinds"
  note f = DiffCollectors_fields [of prev nxt kinds]
  have key: "?n i = Some c \<Longrightarrow> coll_ID c = i" for i c
    unfolding enabled_map_def by (rule by_id_ID)
  have fnd: "find (\<lambda>c. coll_ID c = i) (diff_Added ?d @ diff_Updated ?d) =
      (if \<exists>c \<in> set (diff_Added ?d @ diff_Updated ?d). coll_ID c = i then ?n i else None)"
    by (rule find_by_ID) (auto simp: f)
  show "apply_diff ?d ?o i = ?n i"
  proof (cases "?n i")
    case None
    then show ?thesis unfolding apply_diff_def fnd f(3) by (cases "?o i") auto
  next
    case (Some c)
    with key have "coll_ID c = i" by blast
    with Some show ?thesis
      unfolding apply_diff_def fnd f(3) set_append f(1,2) by (cases "?o i") (auto split: option.splits)
  qed
qed

text \<open>C15: the diff of two configurations is complete and minimal: applied to the enabled collectors
  of the first it gives the enabled collectors of the second, it restarts no collector whose
  configuration is the same in both, and it remembers the previous configuration of every
  collector it touches.\<close>

theorem DiffCollectors_correct:
  fixes prev nxt kinds
  defines "d \<equiv> DiffCollectors prev nxt kinds"
  shows "apply_diff d (enabled_map prev kinds) = enabled_map nxt kinds \<and>
    set (diff_Unchanged d) = {i. enabled_map prev kinds i \<noteq> None \<and> enabled_map nxt kinds i = enabled_map prev kinds i} \<and>
    set (diff_Unchanged d) \<inter> set (diff_ids d) = {} \<and>
    map_of (diff_Previous d) = enabled_map prev kinds"
proof (intro conjI)
  note f = DiffCollectors_fields [of prev nxt kinds, folded d_def]
  show "apply_diff d (enabled_map prev kinds) = enabled_map nxt kinds"
    unfolding d_def by (rule apply_diff_enabled)
  show "set (diff_Unchanged d) =
      {i. enabled_map prev kinds i \<noteq> None \<and> enabled_map nxt kinds i = enabled_map prev kinds i}"
    by (rule f(4))
  show "set (diff_Unchanged d) \<inter> set (diff_ids d) = {}"
    unfolding diff_ids_def set_append set_map f(1-4) by auto
  show "map_of (diff_Previous d) = enabled_map prev kinds" by (rule f(5))
qed

text \<open>The parts touch distinct collectors.\<close>

lemma diff_ids_distinct: "distinct (diff_ids (DiffCollectors prev nxt kinds))"
proof -
  let ?o = "collectorsByID (EnabledCollectors prev kinds)" and ?n = "collectorsByID (EnabledCollectors nxt kinds)"
  let ?d = "DiffCollectors prev nxt kinds"
  note d = DiffCollectors_def Let_def diff_new_fold diff_old_fold sortDiff_def sortCollectors_def
  note f = DiffCollectors_fields [of prev nxt kinds]
  have part: "distinct (map coll_ID (sort_key coll_ID (map snd (filter P ?n))))" for P
  proof -
    have "distinct (map coll_ID (map snd (filter P ?n)))"
      by (rule sort_key_map_filter [OF collectorsByID_distinct collectorsByID_key])
    then show ?thesis by (simp add: distinct_map del: map_map)
  qed
  have a: "diff_Added ?d = sort_key coll_ID (map snd (filter (\<lambda>(i, c). map_of ?o i = None) ?n))"
    by (simp add: d)
  have u: "diff_Updated ?d = sort_key coll_ID (map snd (filter
      (\<lambda>(i, c). \<exists>o'. map_of ?o i = Some o' \<and> o' \<noteq> c) ?n))"
    by (simp add: d)
  have "diff_Removed ?d = sort (map fst (filter (\<lambda>(i, c). map_of ?n i = None) ?o))"
    by (simp add: d)
  then have r: "distinct (diff_Removed ?d)"
    using distinct_map_filter [OF collectorsByID_distinct] by simp
  let ?A = "coll_ID ` set (diff_Added ?d)" and ?U = "coll_ID ` set (diff_Updated ?d)"
  have old: "\<forall>i \<in> ?A. enabled_map prev kinds i = None" "\<forall>i \<in> ?U. enabled_map prev kinds i \<noteq> None"
    unfolding f(1,2) by auto
  have new: "\<forall>i \<in> ?A \<union> ?U. enabled_map nxt kinds i \<noteq> None"
    "\<forall>i \<in> set (diff_Removed ?d). enabled_map nxt kinds i = None"
    unfolding f(1-3) by auto
  from old have au: "?A \<inter> ?U = {}" by blast
  from new have aur: "(?A \<union> ?U) \<inter> set (diff_Removed ?d) = {}" by blast
  have "distinct (map coll_ID (diff_Added ?d))" "distinct (map coll_ID (diff_Updated ?d))"
    unfolding a u by (rule part)+
  with r au aur show ?thesis
    unfolding diff_ids_def distinct_append set_append set_map by blast
qed

end
