(* ===== verification/Reconcile.thy ===== *)
theory Reconcile
  imports CollectorDiff
begin

text \<open>
  Reconciliation of the running collectors with a diff (package \<open>config\<close>, \<open>manager.go\<close>): the
  three phases of steps, the rollback of everything touched when a step fails, and the interface
  \<open>CollectorLifecycle\<close> they call, as a locale.

  A lifecycle is a record of state-passing operations.  Steps that the code runs in parallel are
  run in an arbitrary order given by a schedule (a permutation of the step numbers): a step
  touches only its own collector, and the interface demands that calls on distinct ids are safe
  to run concurrently.  The two contexts (of the reload and of the rollback) are values handed to
  the operations.
\<close>

section \<open>The interface and the steps\<close>

record ('s, 'c, 'e) CollectorLifecycle =
  lc_Start :: "'c \<Rightarrow> CollectorRuntimeConfig \<Rightarrow> 's \<Rightarrow> 's \<times> 'e option"
  lc_Update :: "'c \<Rightarrow> CollectorRuntimeConfig \<Rightarrow> 's \<Rightarrow> 's \<times> 'e option"
  lc_Drain :: "'c \<Rightarrow> string \<Rightarrow> 's \<Rightarrow> 's \<times> 'e option"
  lc_Stop :: "'c \<Rightarrow> string \<Rightarrow> 's \<Rightarrow> 's \<times> 'e option"

datatype 'e stepError = StepError string string 'e | PreviousUnknown string string

record ('s, 'c, 'e) reconcileStep =
  step_do :: "'c \<Rightarrow> 's \<Rightarrow> 's \<times> 'e stepError option"
  step_undo :: "'c \<Rightarrow> 's \<Rightarrow> 's \<times> 'e stepError option"

definition wrapStep :: "string \<Rightarrow> string \<Rightarrow> 's \<times> 'e option \<Rightarrow> 's \<times> 'e stepError option" where
  "wrapStep action i r = (case r of (s, e) \<Rightarrow> (s, map_option (StepError action i) e))"

definition addSteps :: "('s, 'c, 'e) CollectorLifecycle \<Rightarrow> CollectorDiff \<Rightarrow> ('s, 'c, 'e) reconcileStep list" where
  "addSteps L d = map (\<lambda>c.
     \<lparr>step_do = \<lambda>ctx s. wrapStep ''start collector'' (coll_ID c) (lc_Start L ctx c s),
      step_undo = \<lambda>ctx s. wrapStep ''rollback: stop added collector'' (coll_ID c)
        (lc_Stop L ctx (coll_ID c) s)\<rparr>) (diff_Added d)"

definition updateSteps :: "('s, 'c, 'e) CollectorLifecycle \<Rightarrow> CollectorDiff \<Rightarrow> ('s, 'c, 'e) reconcileStep list" where
  "updateSteps L d = map (\<lambda>c.
     \<lparr>step_do = \<lambda>ctx s. wrapStep ''update collector'' (coll_ID c) (lc_Update L ctx c s),
      step_undo = \<lambda>ctx s.
        (case map_of (diff_Previous d) (coll_ID c) of
           None \<Rightarrow> (s, Some (PreviousUnknown ''rollback: restore collector'' (coll_ID c)))
         | Some previous \<Rightarrow> wrapStep ''rollback: restore collector'' (coll_ID c)
             (lc_Update L ctx previous s))\<rparr>) (diff_Updated d)"

definition removeSteps :: "('s, 'c, 'e) CollectorLifecycle \<Rightarrow> CollectorDiff \<Rightarrow> ('s, 'c, 'e) reconcileStep list" where
  "removeSteps L d = map (\<lambda>i.
     \<lparr>step_do = \<lambda>ctx s.
        (case lc_Drain L ctx i s of
           (s', Some e) \<Rightarrow> wrapStep ''drain collector'' i (s', Some e)
         | (s', None) \<Rightarrow> wrapStep ''stop collector'' i (lc_Stop L ctx i s')),
      step_undo = \<lambda>ctx s.
        (case map_of (diff_Previous d) i of
           None \<Rightarrow> (s, Some (PreviousUnknown ''rollback: restart removed collector'' i))
         | Some previous \<Rightarrow> wrapStep ''rollback: restart removed collector'' i
             (lc_Start L ctx previous s))\<rparr>) (diff_Removed d)"

text \<open>Running steps: each at its turn, its result at its own position.\<close>

fun run_at :: "('s \<Rightarrow> 's \<times> 'e option) list \<Rightarrow> nat list \<Rightarrow> 's \<Rightarrow> 'e option list \<Rightarrow> 's \<times> 'e option list" where
  "run_at fs [] s results = (s, results)"
| "run_at fs (i # turns) s results =
     (case (fs ! i) s of (s', e) \<Rightarrow> run_at fs turns s' (results[i := e]))"

definition runSteps :: "(nat \<Rightarrow> nat list) \<Rightarrow> bool \<Rightarrow> ('s \<Rightarrow> 's \<times> 'e option) list \<Rightarrow> 's \<Rightarrow> 's \<times> 'e list" where
  "runSteps sched parallel fs s =
     (let n = length fs in
      case run_at fs (if parallel then sched n else [0..<n]) s (replicate n None) of
        (s', results) \<Rightarrow> (s', map the (filter (\<lambda>e. e \<noteq> None) results)))"

record 'e ReconcileError =
  re_Err :: "'e stepError list"
  re_RollbackErr :: "'e stepError list"

definition RolledBack :: "'e ReconcileError \<Rightarrow> bool" where
  "RolledBack e \<longleftrightarrow> re_RollbackErr e = []"

text \<open>The forward phases: the touched phases are those run, the failed one included.\<close>

fun forward :: "(nat \<Rightarrow> nat \<Rightarrow> nat list) \<Rightarrow> 'c \<Rightarrow> nat \<Rightarrow> ('s, 'c, 'e) reconcileStep list list \<Rightarrow> 's \<Rightarrow>
    ('s, 'c, 'e) reconcileStep list list \<Rightarrow> 's \<times> ('s, 'c, 'e) reconcileStep list list \<times> 'e stepError list" where
  "forward sched ctx i [] s touched = (s, touched, [])"
| "forward sched ctx i (phase # rest) s touched =
     (case runSteps (sched i) (i > 0) (map (\<lambda>step. step_do step ctx) phase) s of
        (s', errs) \<Rightarrow>
          if errs \<noteq> [] then (s', touched @ [phase], errs)
          else forward sched ctx (i + 1) rest s' (touched @ [phase]))"

text \<open>The undo steps, from the last touched phase to the first; the list is reversed.\<close>

fun backward :: "(nat \<Rightarrow> nat \<Rightarrow> nat list) \<Rightarrow> 'c \<Rightarrow> ('s, 'c, 'e) reconcileStep list list \<Rightarrow> 's \<Rightarrow>
    's \<times> 'e stepError list" where
  "backward sched ctx [] s = (s, [])"
| "backward sched ctx (phase # earlier) s =
     (case runSteps (sched (3 + length earlier)) (length earlier > 0)
        (map (\<lambda>step. step_undo step ctx) (rev phase)) s of
        (s', errs) \<Rightarrow> (case backward sched ctx earlier s' of (s'', errs') \<Rightarrow> (s'', errs @ errs')))"

definition ReconcileWithRollback :: "(nat \<Rightarrow> nat \<Rightarrow> nat list) \<Rightarrow> ('c \<Rightarrow> duration \<Rightarrow> 'c) \<Rightarrow> 'c \<Rightarrow>
    ('s, 'c, 'e) CollectorLifecycle \<Rightarrow> CollectorDiff \<Rightarrow> duration \<Rightarrow> 's \<Rightarrow> 's \<times> 'e ReconcileError option" where
  "ReconcileWithRollback sched withTimeout ctx L d rollbackTimeout s =
     (case forward sched ctx 0 [addSteps L d, updateSteps L d, removeSteps L d] s [] of
        (s', touched, forwardErr) \<Rightarrow>
          if forwardErr = [] then (s', None)
          else (case backward sched (withTimeout ctx rollbackTimeout) (rev touched) s' of
            (s'', undoErrs) \<Rightarrow> (s'', Some \<lparr>re_Err = forwardErr, re_RollbackErr = undoErrs\<rparr>)))"

definition DefaultRollbackTimeout :: duration where
  "DefaultRollbackTimeout = 15 * ns_second"

definition ReconcileCollectors :: "(nat \<Rightarrow> nat \<Rightarrow> nat list) \<Rightarrow> ('c \<Rightarrow> duration \<Rightarrow> 'c) \<Rightarrow> 'c \<Rightarrow>
    ('s, 'c, 'e) CollectorLifecycle \<Rightarrow> CollectorDiff \<Rightarrow> 's \<Rightarrow> 's \<times> 'e ReconcileError option" where
  "ReconcileCollectors sched withTimeout ctx L d =
     ReconcileWithRollback sched withTimeout ctx L d DefaultRollbackTimeout"

section \<open>Running steps on distinct collectors\<close>

text \<open>A schedule runs every step once.\<close>

definition fair_schedule :: "(nat \<Rightarrow> nat list) \<Rightarrow> bool" where
  "fair_schedule sched \<longleftrightarrow> (\<forall>n. distinct (sched n) \<and> set (sched n) = {..<n})"

text \<open>A step on collector i, seen through a view of the state: it keeps the invariant of the state,
  leaves every other collector as it is and, when it succeeds, collector i as wanted.\<close>

definition step_spec :: "('s \<Rightarrow> bool) \<Rightarrow> ('s \<Rightarrow> collector_map) \<Rightarrow> ('s \<Rightarrow> 's \<times> 'e option) \<Rightarrow> string \<Rightarrow>
    CollectorRuntimeConfig option \<Rightarrow> bool" where
  "step_spec good view f i goal \<longleftrightarrow> (\<forall>s s' e. good s \<longrightarrow> f s = (s', e) \<longrightarrow>
     good s' \<and> (\<forall>x. x \<noteq> i \<longrightarrow> view s' x = view s x) \<and> (e = None \<longrightarrow> view s' i = goal))"

text \<open>Goals laid over a map.\<close>

definition overlay :: "(string \<times> CollectorRuntimeConfig option) list \<Rightarrow> collector_map \<Rightarrow> collector_map" where
  "overlay goals m x = (case map_of goals x of Some g \<Rightarrow> g | None \<Rightarrow> m x)"

lemma overlay_Nil [simp]: "overlay [] m = m"
  by (simp add: overlay_def fun_eq_iff)

lemma overlay_overlay:
  "overlay g2 (overlay g1 m) = overlay (g2 @ g1) m"
  by (auto simp: overlay_def fun_eq_iff map_add_def split: option.splits)

lemma overlay_eq:
  assumes "\<And>x. x \<notin> fst ` set goals \<Longrightarrow> m x = m' x"
  shows "overlay goals m = overlay goals m'"
proof
  fix x
  show "overlay goals m x = overlay goals m' x"
  proof (cases "map_of goals x")
    case None
    then have "x \<notin> fst ` set goals" by (simp add: map_of_eq_None_iff)
    with assms None show ?thesis by (simp add: overlay_def)
  qed (simp add: overlay_def)
qed

lemma run_at_spec:
  assumes "length goals = length fs" and "distinct (map fst goals)"
    and "\<And>i. i < length fs \<Longrightarrow> step_spec good view (fs ! i) (fst (goals ! i)) (snd (goals ! i))"
    and "distinct turns" and "set turns \<subseteq> {..<length fs}" and "length results = length fs"
    and "good s" and "run_at fs turns s results = (s', results')"
  shows "good s' \<and> length results' = length fs \<and>
    (\<forall>j. j \<notin> set turns \<longrightarrow> results' ! j = results ! j) \<and>
    (\<forall>x. x \<notin> (\<lambda>j. fst (goals ! j)) ` set turns \<longrightarrow> view s' x = view s x) \<and>
    (\<forall>j \<in> set turns. results' ! j = None \<longrightarrow> view s' (fst (goals ! j)) = snd (goals ! j))"
  using assms(4-8)
proof (induction turns arbitrary: s results)
  case (Cons i turns)
  obtain s1 e where step: "(fs ! i) s = (s1, e)" by fastforce
  with Cons.prems have run: "run_at fs turns s1 (results[i := e]) = (s', results')" by simp
  from Cons.prems have i: "i < length fs" "i \<notin> set turns" and t: "distinct turns" "set turns \<subseteq> {..<length fs}"
    by auto
  from assms(3) [OF i(1)] step \<open>good s\<close> have sp: "good s1" "\<forall>x. x \<noteq> fst (goals ! i) \<longrightarrow> view s1 x = view s x"
    "e = None \<longrightarrow> view s1 (fst (goals ! i)) = snd (goals ! i)"
    unfolding step_spec_def by blast+
  note IH = Cons.IH [OF t _ sp(1) run]
  have "fst (goals ! i) \<notin> (\<lambda>j. fst (goals ! j)) ` set turns"
  proof
    assume "fst (goals ! i) \<in> (\<lambda>j. fst (goals ! j)) ` set turns"
    then obtain j where j: "j \<in> set turns" "map fst goals ! i = map fst goals ! j"
      using i t assms(1) by (auto simp: subset_iff)
    with i t assms(1,2) show False by (metis (no_types, lifting) length_map lessThan_iff nth_eq_iff_index_eq subsetD)
  qed
  with IH sp i Cons.prems(3) show ?case by auto
qed simp

lemma runSteps_spec:
  assumes "fair_schedule sched" and "length goals = length fs" and "distinct (map fst goals)"
    and "\<And>i. i < length fs \<Longrightarrow> step_spec good view (fs ! i) (fst (goals ! i)) (snd (goals ! i))"
    and "good s" and "runSteps sched parallel fs s = (s', errs)"
  shows "good s' \<and> (\<forall>x. x \<notin> fst ` set goals \<longrightarrow> view s' x = view s x) \<and>
    (errs = [] \<longrightarrow> view s' = overlay goals (view s))"
proof -
  let ?n = "length fs" and ?turns = "if parallel then sched (length fs) else [0..<length fs]"
  obtain results where run: "run_at fs ?turns s (replicate ?n None) = (s', results)"
    and errs: "errs = map the (filter (\<lambda>e. e \<noteq> None) results)"
    using assms(6) by (auto simp: runSteps_def Let_def split: prod.splits)
  have turns: "distinct ?turns" "set ?turns = {..<?n}"
    using assms(1) by (auto simp: fair_schedule_def)
  have ids: "(\<lambda>j. fst (goals ! j)) ` {..<?n} = fst ` set goals"
    using assms(2) by (force simp: in_set_conv_nth image_iff)
  note sp = run_at_spec [OF assms(2-4) turns(1) _ _ \<open>good s\<close> run, unfolded turns(2) ids]
  have frame: "\<forall>x. x \<notin> fst ` set goals \<longrightarrow> view s' x = view s x" using sp by simp
  have "view s' x = overlay goals (view s) x" if "errs = []" for x
  proof (cases "map_of goals x")
    case None
    then have "x \<notin> fst ` set goals" by (simp add: map_of_eq_None_iff)
    with frame None show ?thesis by (simp add: overlay_def)
  next
    case (Some g)
    then obtain j where j: "j < ?n" "goals ! j = (x, g)"
      using assms(2) by (metis in_set_conv_nth map_of_SomeD)
    have "\<forall>r \<in> set results. r = None" using that errs by (simp add: filter_empty_conv)
    with j sp have "results ! j = None" by (simp add: nth_mem)
    with sp j Some show ?thesis by (force simp: overlay_def)
  qed
  moreover have "good s'" using sp by simp
  ultimately show ?thesis using frame by blast
qed

section \<open>Phases\<close>

text \<open>A phase with, for each of its steps, the collector it is about and what doing and undoing it
  lead to.\<close>

type_synonym move = "string \<times> CollectorRuntimeConfig option \<times> CollectorRuntimeConfig option"

definition dones :: "move list \<Rightarrow> (string \<times> CollectorRuntimeConfig option) list" where
  "dones = map (\<lambda>(i, g, u). (i, g))"

definition undones :: "move list \<Rightarrow> (string \<times> CollectorRuntimeConfig option) list" where
  "undones = map (\<lambda>(i, g, u). (i, u))"

lemma moves_keys [simp]: "map fst (dones ms) = map fst ms" "map fst (undones ms) = map fst ms"
  "fst ` set (dones ms) = fst ` set ms" "fst ` set (undones ms) = fst ` set ms"
  "length (dones ms) = length ms" "length (undones ms) = length ms"
  "dones (ms @ ms') = dones ms @ dones ms'" "undones (ms @ ms') = undones ms @ undones ms'"
  by (force simp: dones_def undones_def split_def)+

definition phase_ok :: "('s \<Rightarrow> bool) \<Rightarrow> ('s \<Rightarrow> collector_map) \<Rightarrow> 'c \<Rightarrow> 'c \<Rightarrow> ('s, 'c, 'e) reconcileStep list \<Rightarrow> move list \<Rightarrow> bool" where
  "phase_ok good view ctx rctx phase ms \<longleftrightarrow> length phase = length ms \<and>
     (\<forall>j < length ms. case ms ! j of (i, g, u) \<Rightarrow>
        step_spec good view (step_do (phase ! j) ctx) i g \<and> step_spec good view (step_undo (phase ! j) rctx) i u)"

lemma phase_do:
  assumes "phase_ok good view ctx rctx phase ms" and "fair_schedule sched" and "distinct (map fst ms)"
    and "good s" and "runSteps sched parallel (map (\<lambda>step. step_do step ctx) phase) s = (s', errs)"
  shows "good s' \<and> (\<forall>x. x \<notin> fst ` set ms \<longrightarrow> view s' x = view s x) \<and>
    (errs = [] \<longrightarrow> view s' = overlay (dones ms) (view s))"
proof -
  have spec: "step_spec good view (map (\<lambda>step. step_do step ctx) phase ! j) (fst (dones ms ! j)) (snd (dones ms ! j))"
    if "j < length phase" for j
    using assms(1) that by (auto simp: phase_ok_def dones_def split_def)
  with runSteps_spec [OF assms(2), of "dones ms" "map (\<lambda>step. step_do step ctx) phase" good view] assms
  show ?thesis by (simp add: phase_ok_def)
qed

lemma phase_undo:
  assumes "phase_ok good view ctx rctx phase ms" and "fair_schedule sched" and "distinct (map fst ms)"
    and "good s" and "runSteps sched parallel (map (\<lambda>step. step_undo step rctx) (rev phase)) s = (s', errs)"
  shows "good s' \<and> (\<forall>x. x \<notin> fst ` set ms \<longrightarrow> view s' x = view s x) \<and>
    (errs = [] \<longrightarrow> view s' = overlay (undones ms) (view s))"
proof -
  have spec: "step_spec good view (map (\<lambda>step. step_undo step rctx) (rev phase) ! j)
      (fst (rev (undones ms) ! j)) (snd (rev (undones ms) ! j))" if "j < length phase" for j
    using assms(1) that by (auto simp: phase_ok_def undones_def rev_nth split_def)
  have "map_of (rev (undones ms)) = map_of (undones ms)"
    by (rule map_of_rev_distinct) (simp add: assms(3))
  then have "overlay (rev (undones ms)) m = overlay (undones ms) m" for m
    by (simp add: overlay_def fun_eq_iff)
  with runSteps_spec [OF assms(2), of "rev (undones ms)" "map (\<lambda>step. step_undo step rctx) (rev phase)" good view]
    spec assms show ?thesis
    by (simp add: phase_ok_def rev_map [symmetric])
qed

text \<open>The phases in order, with the moves of each.\<close>

definition phases_ok :: "('s \<Rightarrow> bool) \<Rightarrow> ('s \<Rightarrow> collector_map) \<Rightarrow> 'c \<Rightarrow> 'c \<Rightarrow> ('s, 'c, 'e) reconcileStep list list \<Rightarrow>
    move list list \<Rightarrow> bool" where
  "phases_ok good view ctx rctx phases mss \<longleftrightarrow>
     list_all2 (phase_ok good view ctx rctx) phases mss \<and> distinct (map fst (concat mss))"

lemma overlay_swap:
  assumes "fst ` set g1 \<inter> fst ` set g2 = {}"
  shows "overlay (g1 @ g2) m = overlay (g2 @ g1) m"
proof
  fix x
  have "map_of g1 x = None \<or> map_of g2 x = None"
    using assms by (auto simp: map_of_eq_None_iff)
  then show "overlay (g1 @ g2) m x = overlay (g2 @ g1) m x"
    by (auto simp: overlay_def map_add_def split: option.splits)
qed

lemma forward_spec:
  assumes "phases_ok good view ctx rctx phases mss" and "\<And>k. fair_schedule (sched k)"
    and "good s" and "forward sched ctx i phases s touched = (s', touched', errs)"
  shows "good s' \<and> (\<exists>k \<le> length mss. touched' = touched @ take k phases \<and>
    (\<forall>x. x \<notin> fst ` set (concat (take k mss)) \<longrightarrow> view s' x = view s x) \<and>
    (errs = [] \<longrightarrow> view s' = overlay (dones (concat mss)) (view s)))"
  using assms(1,3,4)
proof (induction phases arbitrary: mss i s touched)
  case Nil
  then show ?case by (simp add: phases_ok_def dones_def)
next
  case (Cons phase phases)
  from Cons.prems(1) obtain ms mss' where mss: "mss = ms # mss'" and ph: "phase_ok good view ctx rctx phase ms"
    and rest: "phases_ok good view ctx rctx phases mss'" and d: "distinct (map fst ms)"
    and dis: "fst ` set ms \<inter> fst ` set (concat mss') = {}"
    by (auto simp: phases_ok_def list_all2_Cons1)
  obtain s1 errs1 where run: "runSteps (sched i) (i > 0) (map (\<lambda>step. step_do step ctx) phase) s = (s1, errs1)"
    by fastforce
  note one = phase_do [OF ph assms(2) d Cons.prems(2) run]
  show ?case
  proof (cases "errs1 = []")
    case False
    with Cons.prems(3) run have "s' = s1" "touched' = touched @ [phase]" "errs = errs1" by auto
    with False one mss show ?thesis by (intro conjI exI [of _ 1]) auto
  next
    case True
    with Cons.prems(3) run have
      fwd: "forward sched ctx (i + 1) phases s1 (touched @ [phase]) = (s', touched', errs)" by simp
    from one have "good s1" ..
    from Cons.IH [OF rest this fwd] obtain k where k: "good s'" "k \<le> length mss'"
      "touched' = touched @ phase # take k phases"
      "\<forall>x. x \<notin> fst ` set (concat (take k mss')) \<longrightarrow> view s' x = view s1 x"
      "errs = [] \<longrightarrow> view s' = overlay (dones (concat mss')) (view s1)" by auto
    have "view s' = overlay (dones (concat mss)) (view s)" if "errs = []"
      using that k(5) one True dis overlay_swap [of "dones ms" "dones (concat mss')" "view s"]
      by (simp add: mss overlay_overlay)
    with k one mss show ?thesis
      by (intro conjI exI [of _ "Suc k"]) (auto simp: image_Un)
  qed
qed

lemma backward_spec:
  assumes "phases_ok good view ctx rctx phases mss" and "\<And>k. fair_schedule (sched k)"
    and "good s" and "backward sched rctx (rev phases) s = (s', errs)"
  shows "good s' \<and> (\<forall>x. x \<notin> fst ` set (concat mss) \<longrightarrow> view s' x = view s x) \<and>
    (errs = [] \<longrightarrow> view s' = overlay (undones (concat mss)) (view s))"
  using assms(1,3,4)
proof (induction phases arbitrary: mss s errs s' rule: rev_induct)
  case Nil
  then show ?case by (simp add: phases_ok_def undones_def)
next
  case (snoc phase phases)
  from snoc.prems(1) obtain ms mss' where mss: "mss = mss' @ [ms]" and ph: "phase_ok good view ctx rctx phase ms"
    and rest: "phases_ok good view ctx rctx phases mss'" and d: "distinct (map fst ms)"
    by (auto simp: phases_ok_def list_all2_append1 list_all2_Cons1)
  obtain s1 errs1 where run: "runSteps (sched (3 + length (rev phases))) (length (rev phases) > 0)
      (map (\<lambda>step. step_undo step rctx) (rev phase)) s = (s1, errs1)" by fastforce
  obtain s2 errs2 where undo: "backward sched rctx (rev phases) s1 = (s2, errs2)" by fastforce
  from snoc.prems(3) run undo have r: "s' = s2" "errs = errs1 @ errs2" by auto
  note one = phase_undo [OF ph assms(2) d snoc.prems(2) run]
  note more = snoc.IH [OF rest conjunct1 [OF one] undo]
  have "view s' = overlay (undones (concat mss)) (view s)" if "errs = []"
    using that one more r by (simp add: mss overlay_overlay)
  with one more r mss show ?case by (auto simp: image_Un)
qed

lemma phases_ok_take:
  assumes "phases_ok good view ctx rctx phases mss"
  shows "phases_ok good view ctx rctx (take k phases) (take k mss)"
proof -
  have "concat mss = concat (take k mss) @ concat (drop k mss)"
    by (metis append_take_drop_id concat_append)
  then have "distinct (map fst (concat (take k mss)))"
    using assms by (simp add: phases_ok_def)
  with assms show ?thesis by (simp add: phases_ok_def list_all2_takeI)
qed

text \<open>The moves of a diff.\<close>

definition add_moves :: "CollectorDiff \<Rightarrow> move list" where
  "add_moves d = map (\<lambda>c. (coll_ID c, Some c, None)) (diff_Added d)"

definition update_moves :: "CollectorDiff \<Rightarrow> move list" where
  "update_moves d = map (\<lambda>c. (coll_ID c, Some c, map_of (diff_Previous d) (coll_ID c))) (diff_Updated d)"

definition remove_moves :: "CollectorDiff \<Rightarrow> move list" where
  "remove_moves d = map (\<lambda>i. (i, None, map_of (diff_Previous d) i)) (diff_Removed d)"

section \<open>The contract of a lifecycle\<close>

text \<open>What reconciliation relies on for the collectors it may start (\<open>allowed\<close>), seen through \<open>view\<close>, the collectors that run and with which
  configuration: an operation touches only its collector; a start or update that returns no error
  leaves the collector running the given configuration; a stop that returns no error leaves it
  not running.\<close>

locale collector_lifecycle =
  fixes L :: "('s, 'c, 'e) CollectorLifecycle"
    and good :: "'s \<Rightarrow> bool"
    and view :: "'s \<Rightarrow> collector_map"
    and allowed :: "CollectorRuntimeConfig \<Rightarrow> bool"
  assumes start_law: "allowed c \<Longrightarrow> step_spec good view (lc_Start L ctx c) (coll_ID c) (Some c)"
    and update_law: "allowed c \<Longrightarrow> step_spec good view (lc_Update L ctx c) (coll_ID c) (Some c)"
    and stop_law: "step_spec good view (lc_Stop L ctx i) i None"
    and drain_law: "good s \<Longrightarrow> lc_Drain L ctx i s = (s', e) \<Longrightarrow>
      good s' \<and> (x \<noteq> i \<longrightarrow> view s' x = view s x)"
begin

lemma wrap_spec: "step_spec good view f i g \<Longrightarrow> step_spec good view (\<lambda>s. wrapStep a j (f s)) i g"
  unfolding step_spec_def wrapStep_def by (auto split: prod.splits)

lemma drain_stop_spec:
  "step_spec good view (\<lambda>s. case lc_Drain L ctx i s of
      (s', Some e) \<Rightarrow> wrapStep a i (s', Some e)
    | (s', None) \<Rightarrow> wrapStep b i (lc_Stop L ctx i s')) i None"
  unfolding step_spec_def
proof (intro allI impI)
  fix s s' e
  assume good_s: "good s" and r: "(case lc_Drain L ctx i s of
      (s', Some e) \<Rightarrow> wrapStep a i (s', Some e)
    | (s', None) \<Rightarrow> wrapStep b i (lc_Stop L ctx i s')) = (s', e)"
  obtain s1 e1 where d: "lc_Drain L ctx i s = (s1, e1)" by fastforce
  note fr = drain_law [OF good_s d]
  show "good s' \<and> (\<forall>x. x \<noteq> i \<longrightarrow> view s' x = view s x) \<and> (e = None \<longrightarrow> view s' i = None)"
  proof (cases e1)
    case None
    with r d have "wrapStep b i (lc_Stop L ctx i s1) = (s', e)" by simp
    with wrap_spec [OF stop_law, of b i ctx i] fr show ?thesis
      unfolding step_spec_def by (metis)
  next
    case (Some a')
    with r d fr show ?thesis by (auto simp: wrapStep_def)
  qed
qed

text \<open>A diff that may be applied: the previous configurations are stored under their own ids, the
  parts touch distinct collectors, and every configuration in it is allowed.\<close>

definition sound_diff :: "CollectorDiff \<Rightarrow> bool" where
  "sound_diff d \<longleftrightarrow> (\<forall>i p. map_of (diff_Previous d) i = Some p \<longrightarrow> coll_ID p = i \<and> allowed p) \<and>
     distinct (diff_ids d) \<and> (\<forall>c \<in> set (diff_Added d) \<union> set (diff_Updated d). allowed c)"

lemma add_phase:
  assumes "sound_diff d"
  shows "phase_ok good view ctx rctx (addSteps L d) (add_moves d)"
proof -
  have "allowed (diff_Added d ! j)" if "j < length (diff_Added d)" for j
    using assms that by (simp add: sound_diff_def)
  then show ?thesis
    by (auto simp: phase_ok_def addSteps_def add_moves_def intro!: wrap_spec start_law stop_law)
qed

lemma undo_spec:
  assumes "\<And>p. map_of prev i = Some p \<Longrightarrow> step_spec good view (f p) i (Some p)"
  shows "step_spec good view (\<lambda>s. case map_of prev i of
      None \<Rightarrow> (s, Some (PreviousUnknown a i)) | Some p \<Rightarrow> wrapStep a i (f p s)) i (map_of prev i)"
proof (cases "map_of prev i")
  case None
  then show ?thesis by (simp add: step_spec_def)
next
  case (Some p)
  with wrap_spec [OF assms [OF Some], of a i] show ?thesis by simp
qed

lemma update_phase:
  assumes "sound_diff d"
  shows "phase_ok good view ctx rctx (updateSteps L d) (update_moves d)"
proof -
  have "step_spec good view (lc_Update L rctx p) i (Some p)" if "map_of (diff_Previous d) i = Some p" for i p
    using update_law [of p rctx] assms that by (auto simp: sound_diff_def)
  moreover have "allowed (diff_Updated d ! j)" if "j < length (diff_Updated d)" for j
    using assms that by (simp add: sound_diff_def)
  ultimately show ?thesis
    by (auto simp: phase_ok_def updateSteps_def update_moves_def intro!: wrap_spec update_law undo_spec)
qed

lemma remove_phase:
  assumes "sound_diff d"
  shows "phase_ok good view ctx rctx (removeSteps L d) (remove_moves d)"
proof -
  have "step_spec good view (lc_Start L rctx p) i (Some p)" if "map_of (diff_Previous d) i = Some p" for i p
    using start_law [of p rctx] assms that by (auto simp: sound_diff_def)
  then show ?thesis
    by (auto simp: phase_ok_def removeSteps_def remove_moves_def intro!: drain_stop_spec undo_spec)
qed

lemma diff_phases:
  assumes "sound_diff d"
  shows "phases_ok good view ctx rctx [addSteps L d, updateSteps L d, removeSteps L d]
    [add_moves d, update_moves d, remove_moves d]"
proof -
  have "map fst (concat [add_moves d, update_moves d, remove_moves d]) = diff_ids d"
    by (simp add: diff_ids_def add_moves_def update_moves_def remove_moves_def comp_def)
  with assms add_phase update_phase remove_phase show ?thesis
    unfolding phases_ok_def by (simp add: sound_diff_def)
qed

lemma overlay_diff:
  "overlay (dones (concat [add_moves d, update_moves d, remove_moves d])) m = apply_diff d m"
proof
  fix x
  have A: "map_of (map (\<lambda>c. (coll_ID c, Some c)) cs) x = map_option Some (find (\<lambda>c. coll_ID c = x) cs)"
    for cs :: "CollectorRuntimeConfig list"
    by (induction cs) auto
  have R: "map_of (map (\<lambda>i. (i, None)) is) x = (if x \<in> set is then Some None else None)"
    for "is" :: "string list"
    by (induction "is") auto
  have f: "find P (xs @ ys) = (case find P xs of Some y \<Rightarrow> Some y | None \<Rightarrow> find P ys)"
    for P :: "CollectorRuntimeConfig \<Rightarrow> bool" and xs ys
    by (induction xs) auto
  show "overlay (dones (concat [add_moves d, update_moves d, remove_moves d])) m x = apply_diff d m x"
    by (simp add: overlay_def dones_def add_moves_def update_moves_def remove_moves_def comp_def A R f
        apply_diff_def map_add_def split: option.splits)
qed

text \<open>A reconciliation that returns no error leaves exactly the collectors the diff leads to; one
  that fails and rolls back leaves every collector as it was or with its previous configuration.\<close>

lemma reconcile_success:
  assumes "sound_diff d"
    and "\<And>k. fair_schedule (sched k)"
    and "good s" and "ReconcileWithRollback sched wt ctx L d rt s = (s', None)"
  shows "good s' \<and> view s' = apply_diff d (view s)"
proof -
  obtain t where f: "forward sched ctx 0 [addSteps L d, updateSteps L d, removeSteps L d] s [] = (s', t, [])"
    using assms(4) by (auto simp: ReconcileWithRollback_def split: prod.splits if_splits)
  from forward_spec [OF diff_phases [OF assms(1)] assms(2,3) f] overlay_diff
  show ?thesis by auto
qed

lemma reconcile_undone:
  assumes "sound_diff d"
    and "\<And>k. fair_schedule (sched k)"
    and added: "\<And>c. c \<in> set (diff_Added d) \<Longrightarrow> map_of (diff_Previous d) (coll_ID c) = None"
    and good_s: "good s" and run: "ReconcileWithRollback sched wt ctx L d rt s = (s', Some e)" "RolledBack e"
  shows "good s' \<and> (\<forall>x. view s' x = view s x \<or> view s' x = map_of (diff_Previous d) x)"
proof -
  let ?phases = "[addSteps L d, updateSteps L d, removeSteps L d]"
  let ?mss = "[add_moves d, update_moves d, remove_moves d]"
  obtain s1 t errs where f: "forward sched ctx 0 ?phases s [] = (s1, t, errs)"
    and b: "backward sched (wt ctx rt) (rev t) s1 = (s', [])"
    using run by (auto simp: ReconcileWithRollback_def RolledBack_def split: prod.splits if_splits)
  note ok = diff_phases [OF assms(1), of ctx "wt ctx rt"]
  from forward_spec [OF ok assms(2) good_s f] obtain k where inv1: "good s1" and t: "t = take k ?phases"
    and fr: "\<forall>x. x \<notin> fst ` set (concat (take k ?mss)) \<longrightarrow> view s1 x = view s x" by auto
  let ?u = "undones (concat (take k ?mss))"
  from backward_spec [OF phases_ok_take [OF ok, of k] assms(2) inv1 b [unfolded t]]
  have inv2: "good s'" and v: "view s' = overlay ?u (view s1)" by simp_all
  have prev: "u = map_of (diff_Previous d) i" if "(i, g, u) \<in> set (concat ?mss)" for i g u
    using that added by (auto simp: add_moves_def update_moves_def remove_moves_def diff_ids_def)
  have "overlay ?u (view s) x = view s x \<or> overlay ?u (view s) x = map_of (diff_Previous d) x" for x
  proof (cases "map_of ?u x")
    case (Some u)
    then have "(x, u) \<in> set ?u" by (rule map_of_SomeD)
    then obtain g where "(x, g, u) \<in> set (concat ?mss)"
      by (auto simp: undones_def dest!: in_set_takeD) blast+
    with prev Some show ?thesis by (simp add: overlay_def)
  qed (simp add: overlay_def)
  moreover have "view s' = overlay ?u (view s)"
    unfolding v using fr by (intro overlay_eq) simp
  ultimately show ?thesis using inv2 by simp
qed

lemma reconcile_good:
  assumes "sound_diff d" and "\<And>k. fair_schedule (sched k)" and "good s"
    and "ReconcileWithRollback sched wt ctx L d rt s = (s', e)"
  shows "good s'"
proof -
  obtain s1 t errs where f: "forward sched ctx 0 [addSteps L d, updateSteps L d, removeSteps L d] s [] = (s1, t, errs)"
    by (metis prod_cases3)
  note ok = diff_phases [OF assms(1), of ctx "wt ctx rt"]
  from forward_spec [OF ok assms(2,3) f] obtain k where s1: "good s1"
    and t: "t = take k [addSteps L d, updateSteps L d, removeSteps L d]" by auto
  obtain s2 u where b: "backward sched (wt ctx rt) (rev t) s1 = (s2, u)" by fastforce
  from backward_spec [OF phases_ok_take [OF ok, of k] assms(2) s1 b [unfolded t]] have "good s2" ..
  with s1 f b assms(4) show ?thesis
    by (auto simp: ReconcileWithRollback_def split: if_splits)
qed

end

end
