(* ===== verification/CycleTypes.thy ===== *)
theory CycleTypes
  imports ConfigTypes
begin

text \<open>
  The results of collector cycles (package \<open>collectors\<close>, \<open>health.go\<close>) and the errors of probes
  (\<open>runner.go\<close>).  A joined error is the list of its parts, nil being the empty list.
\<close>

text \<open>Why a probe's context ended.\<close>

datatype probeEnd = probeRunning | probeTimedOut | probeCycleDeadline | probeCanceled

text \<open>What an executor returns as its error: one that wraps \<open>ErrBlocked\<close>, or any other, with
  whether it is a network timeout (\<open>isNetTimeout\<close>).\<close>

datatype execError = Blocked string | ExecFailed bool string

datatype ctxError = Canceled | DeadlineExceeded

datatype probeError =
    NotStarted string ctxError
  | Busy string string bool
  | Abandoned probeEnd string
  | Panicked string
  | TimedOut string execError
  | ProbeFailure string execError
  | BlockedError execError
  | CyclePanicked

definition is_blocked :: "probeError \<Rightarrow> bool" where
  "is_blocked e = (case e of BlockedError _ \<Rightarrow> True | _ \<Rightarrow> False)"

datatype TargetState = TargetOK | TargetFailed | TargetBackoff | TargetBlocked | TargetDegraded

datatype ProbeState = ProbeFailed | ProbeBackoff

record ProbeResult =
  pr_Probe :: string
  pr_State :: ProbeState
  pr_Err :: "probeError list"
  pr_ConsecutiveFailures :: nat
  pr_NextAttempt :: gotime

record TargetResult =
  tr_Target :: string
  tr_State :: TargetState
  tr_Err :: "probeError list"
  tr_ConsecutiveFailures :: nat
  tr_LastSuccess :: gotime
  tr_NextAttempt :: gotime
  tr_Probes :: "ProbeResult list"

record CycleResult =
  cr_CollectorID :: string
  cr_Started :: gotime
  cr_Finished :: gotime
  cr_Targets :: "TargetResult list"

definition zero_cycle :: CycleResult where
  "zero_cycle = \<lparr>cr_CollectorID = [], cr_Started = 0, cr_Finished = 0, cr_Targets = []\<rparr>"

definition Healthy :: "CycleResult \<Rightarrow> bool" where
  "Healthy c = list_all (\<lambda>t. \<not> (tr_State t \<noteq> TargetOK \<and> tr_State t \<noteq> TargetBlocked)) (cr_Targets c)"

end
