(* ===== verification/PollerLifecycle.thy ===== *)
theory PollerLifecycle
  imports Reconcile CycleTypes
begin

text \<open>
  The supervisor of the collector pollers (package \<open>app\<close>, \<open>lifecycle.go\<close>).  Entries are pointers
  in the code and are compared as such, so they live in a list of entries that only grows, an
  entry's address being its position; the map of registered collectors holds addresses.  Each
  definition is one critical section under the lifecycle's mutex, and the operations that wait in
  between are composed of two of them.

  The first part is the sequential interface the reconciliation calls, with what happens while an
  operation waits given by its context (the clock, and which supervisors exit before the deadline);
  it interprets the locale \<open>collector_lifecycle\<close>.  The second part is a step relation in which the
  critical sections of any number of callers and supervisors interleave freely.
\<close>

section \<open>State\<close>

datatype phase =
    phaseRunning | phaseRestarting | phaseBackingOff | phaseFailed | phaseDraining | phaseStopping
  | phaseStopped

definition failedAfterCrashes :: nat where "failedAfterCrashes = 5"

record restartBackoff =
  rb_initial :: duration
  rb_max :: duration

definition defaultRestartBackoff :: restartBackoff where
  "defaultRestartBackoff = \<lparr>rb_initial = ns_second, rb_max = ns_minute\<rparr>"

text \<open>The loop of \<open>delay\<close>, with the number of doublings left.\<close>

fun delay_loop :: "nat \<Rightarrow> duration \<Rightarrow> duration \<Rightarrow> duration" where
  "delay_loop 0 d m = d"
| "delay_loop (Suc n) d m = (if d < m then delay_loop n (int64 (d * 2)) m else d)"

definition delay :: "restartBackoff \<Rightarrow> nat \<Rightarrow> duration" where
  "delay b crashes = min (delay_loop (crashes - 1) (rb_initial b) (rb_max b)) (rb_max b)"

text \<open>Where the supervisor goroutine of an entry stands: in a run of the poller, waiting for the
  restart timer, waiting for its context after a config error, or gone (its \<open>done\<close> is closed).\<close>

datatype supervisor = SupRun | SupTimer | SupFailed | SupExited

record pollerEntry =
  pe_collector :: CollectorRuntimeConfig
  pe_cancelled :: bool
  pe_phase :: phase
  pe_started :: gotime
  pe_lastCycle :: CycleResult
  pe_hasCycle :: bool
  pe_crashes :: nat
  pe_restarts :: nat
  pe_nextRestart :: gotime
  pe_sup :: supervisor

record pollerLifecycle =
  pl_entries :: "pollerEntry list"
  pl_items :: "(string \<times> nat) list"
  pl_closed :: bool
  pl_base :: bool
  pl_backoff :: restartBackoff

definition newPollerLifecycle :: pollerLifecycle where
  "newPollerLifecycle = \<lparr>pl_entries = [], pl_items = [], pl_closed = False, pl_base = False,
     pl_backoff = defaultRestartBackoff\<rparr>"

datatype lifecycleError = LifecycleClosed | DidNotStop | ReplacedConcurrently string

definition lookup :: "pollerLifecycle \<Rightarrow> string \<Rightarrow> nat option" where
  "lookup l i = map_of (pl_items l) i"

definition entry :: "pollerLifecycle \<Rightarrow> nat \<Rightarrow> pollerEntry" where
  "entry l a = pl_entries l ! a"

definition entry_id :: "pollerLifecycle \<Rightarrow> nat \<Rightarrow> string" where
  "entry_id l a = coll_ID (pe_collector (entry l a))"

definition set_entry :: "nat \<Rightarrow> (pollerEntry \<Rightarrow> pollerEntry) \<Rightarrow> pollerLifecycle \<Rightarrow> pollerLifecycle" where
  "set_entry a f l = l\<lparr>pl_entries := (pl_entries l)[a := f (pl_entries l ! a)]\<rparr>"

definition unregister :: "string \<Rightarrow> pollerLifecycle \<Rightarrow> pollerLifecycle" where
  "unregister i l = l\<lparr>pl_items := filter (\<lambda>(k, a). k \<noteq> i) (pl_items l)\<rparr>"

section \<open>The critical sections\<close>

definition new_entry :: "gotime \<Rightarrow> CollectorRuntimeConfig \<Rightarrow> pollerEntry" where
  "new_entry now c = \<lparr>pe_collector = c, pe_cancelled = False, pe_phase = phaseRunning, pe_started = now,
     pe_lastCycle = zero_cycle, pe_hasCycle = False, pe_crashes = 0, pe_restarts = 0,
     pe_nextRestart = 0, pe_sup = SupRun\<rparr>"

definition startLocked :: "gotime \<Rightarrow> CollectorRuntimeConfig \<Rightarrow> pollerLifecycle \<Rightarrow>
    pollerLifecycle \<times> lifecycleError option" where
  "startLocked now c l =
     (if pl_closed l then (l, Some LifecycleClosed)
      else (l\<lparr>pl_entries := pl_entries l @ [new_entry now c],
          pl_items := put (coll_ID c) (length (pl_entries l)) (pl_items l)\<rparr>, None))"

text \<open>The first half of \<open>Update\<close>: it marks and cancels the old entry and returns its address.\<close>

definition update_begin :: "CollectorRuntimeConfig \<Rightarrow> pollerLifecycle \<Rightarrow>
    pollerLifecycle \<times> (lifecycleError, nat option) result" where
  "update_begin c l =
     (if pl_closed l then (l, Inl LifecycleClosed)
      else case lookup l (coll_ID c) of
        None \<Rightarrow> (l, Inr None)
      | Some a \<Rightarrow> (set_entry a (\<lambda>e. e\<lparr>pe_phase := phaseRestarting, pe_cancelled := True\<rparr>) l, Inr (Some a)))"

text \<open>The second half, after the wait.\<close>

definition update_finish :: "gotime \<Rightarrow> CollectorRuntimeConfig \<Rightarrow> nat option \<Rightarrow> pollerLifecycle \<Rightarrow>
    pollerLifecycle \<times> lifecycleError option" where
  "update_finish now c old l =
     (case lookup l (coll_ID c) of
        Some current \<Rightarrow>
          if Some current \<noteq> old then (l, Some (ReplacedConcurrently (coll_ID c)))
          else startLocked now c l
      | None \<Rightarrow> startLocked now c l)"

definition stop_begin :: "string \<Rightarrow> pollerLifecycle \<Rightarrow> pollerLifecycle \<times> nat option" where
  "stop_begin i l =
     (case lookup l i of
        None \<Rightarrow> (l, None)
      | Some a \<Rightarrow> (set_entry a (\<lambda>e. e\<lparr>pe_phase := phaseStopping, pe_cancelled := True\<rparr>) l, Some a))"

definition drain :: "string \<Rightarrow> pollerLifecycle \<Rightarrow> pollerLifecycle" where
  "drain i l =
     (case lookup l i of
        None \<Rightarrow> l
      | Some a \<Rightarrow> set_entry a (\<lambda>e. e\<lparr>pe_phase := phaseDraining\<rparr>) l)"

text \<open>The end of a supervisor: the deferred \<open>exited\<close> and the close of \<open>done\<close> that follows it.\<close>

definition exited :: "nat \<Rightarrow> pollerLifecycle \<Rightarrow> pollerLifecycle" where
  "exited a l =
     (let l' = set_entry a (\<lambda>e. e\<lparr>pe_sup := SupExited\<rparr>) l; i = entry_id l a in
      if lookup l i = Some a then
        (case pe_phase (entry l a) of
           phaseStopping \<Rightarrow> unregister i l'
         | phaseRestarting \<Rightarrow> set_entry a (\<lambda>e. e\<lparr>pe_phase := phaseFailed\<rparr>) l'
         | _ \<Rightarrow> l')
      else l')"

definition recordFailure :: "nat \<Rightarrow> pollerLifecycle \<Rightarrow> pollerLifecycle" where
  "recordFailure a = set_entry a (\<lambda>e.
     (if pe_phase e = phaseRunning then e\<lparr>pe_phase := phaseFailed\<rparr> else e)\<lparr>pe_sup := SupFailed\<rparr>)"

definition recordCrash :: "gotime \<Rightarrow> nat \<Rightarrow> pollerLifecycle \<Rightarrow> pollerLifecycle" where
  "recordCrash now a l = set_entry a (\<lambda>e.
     let crashes = pe_crashes e + 1;
         e = e\<lparr>pe_crashes := crashes, pe_nextRestart := now + delay (pl_backoff l) crashes, pe_sup := SupTimer\<rparr> in
     if pe_phase e \<in> {phaseRunning, phaseBackingOff, phaseFailed} then
       e\<lparr>pe_phase := (if crashes \<ge> failedAfterCrashes then phaseFailed else phaseBackingOff)\<rparr>
     else e) l"

definition recordRestart :: "gotime \<Rightarrow> nat \<Rightarrow> pollerLifecycle \<Rightarrow> pollerLifecycle" where
  "recordRestart now a = set_entry a (\<lambda>e.
     let e = e\<lparr>pe_restarts := pe_restarts e + 1, pe_started := now, pe_nextRestart := 0, pe_sup := SupRun\<rparr> in
     if pe_phase e \<in> {phaseBackingOff, phaseFailed} then e\<lparr>pe_phase := phaseRunning\<rparr> else e)"

text \<open>The context of an entry is done when it was cancelled or the base context was.\<close>

definition ctx_done :: "pollerLifecycle \<Rightarrow> nat \<Rightarrow> bool" where
  "ctx_done l a \<longleftrightarrow> pe_cancelled (entry l a) \<or> pl_base l"

definition recordCycle :: "CycleResult \<Rightarrow> nat \<Rightarrow> pollerLifecycle \<Rightarrow> pollerLifecycle" where
  "recordCycle result a l =
     (if ctx_done l a then l
      else set_entry a (\<lambda>e. e\<lparr>pe_lastCycle := result, pe_hasCycle := True, pe_crashes := 0\<rparr>) l)"

definition shutdown_begin :: "pollerLifecycle \<Rightarrow> pollerLifecycle" where
  "shutdown_begin l =
     (let l = fold (\<lambda>(i, a). set_entry a (\<lambda>e. e\<lparr>pe_phase := phaseStopping, pe_cancelled := True\<rparr>))
        (pl_items l) l in
      l\<lparr>pl_closed := True, pl_base := True\<rparr>)"

definition Status :: "pollerLifecycle \<Rightarrow> string \<Rightarrow> phase" where
  "Status l i = (case lookup l i of Some a \<Rightarrow> pe_phase (entry l a) | None \<Rightarrow> phaseStopped)"

definition needsRestart :: "pollerLifecycle \<Rightarrow> string \<Rightarrow> bool" where
  "needsRestart l i = (case lookup l i of None \<Rightarrow> False | Some a \<Rightarrow> pe_phase (entry l a) \<noteq> phaseRunning)"

definition configs :: "pollerLifecycle \<Rightarrow> CollectorRuntimeConfig list" where
  "configs l = sort_key coll_ID (map (\<lambda>(i, a). pe_collector (entry l a)) (pl_items l))"

definition states :: "pollerLifecycle \<Rightarrow> pollerEntry list" where
  "states l = sort_key (\<lambda>e. coll_ID (pe_collector e)) (map (\<lambda>(i, a). entry l a) (pl_items l))"

section \<open>The operations of the interface\<close>

text \<open>What an operation's context and the supervisors it waits for amount to: the time, and
  whether a supervisor it waits for exits before the context ends.\<close>

record op_context =
  oc_now :: gotime
  oc_exits :: "nat \<Rightarrow> bool"

definition waitStopped :: "op_context \<Rightarrow> nat \<Rightarrow> pollerLifecycle \<Rightarrow> pollerLifecycle \<times> bool" where
  "waitStopped ctx a l =
     (if pe_sup (entry l a) = SupExited then (l, True)
      else if oc_exits ctx a then (exited a l, True) else (l, False))"

definition Update :: "op_context \<Rightarrow> CollectorRuntimeConfig \<Rightarrow> pollerLifecycle \<Rightarrow>
    pollerLifecycle \<times> lifecycleError option" where
  "Update ctx c l =
     (case update_begin c l of
        (l', Inl e) \<Rightarrow> (l', Some e)
      | (l', Inr None) \<Rightarrow> update_finish (oc_now ctx) c None l'
      | (l', Inr (Some a)) \<Rightarrow>
          (case waitStopped ctx a l' of
             (l'', False) \<Rightarrow> (l'', Some DidNotStop)
           | (l'', True) \<Rightarrow> update_finish (oc_now ctx) c (Some a) l''))"

definition Start :: "op_context \<Rightarrow> CollectorRuntimeConfig \<Rightarrow> pollerLifecycle \<Rightarrow>
    pollerLifecycle \<times> lifecycleError option" where
  "Start ctx c l =
     (if lookup l (coll_ID c) = None then startLocked (oc_now ctx) c l else Update ctx c l)"

definition Drain :: "op_context \<Rightarrow> string \<Rightarrow> pollerLifecycle \<Rightarrow> pollerLifecycle \<times> lifecycleError option" where
  "Drain ctx i l = (drain i l, None)"

definition Stop :: "op_context \<Rightarrow> string \<Rightarrow> pollerLifecycle \<Rightarrow> pollerLifecycle \<times> lifecycleError option" where
  "Stop ctx i l =
     (case stop_begin i l of
        (l', None) \<Rightarrow> (l', None)
      | (l', Some a) \<Rightarrow>
          (case waitStopped ctx a l' of
             (l'', False) \<Rightarrow> (l'', Some DidNotStop)
           | (l'', True) \<Rightarrow> (l'', None)))"

definition shutdown :: "op_context \<Rightarrow> pollerLifecycle \<Rightarrow> pollerLifecycle \<times> string list" where
  "shutdown ctx l =
     (let addrs = map snd (pl_items l) in
      case fold (\<lambda>a (l, stuck). case waitStopped ctx a l of
          (l', ok) \<Rightarrow> (l', if ok then stuck else stuck @ [entry_id l a])) addrs (shutdown_begin l, []) of
        (l', stuck) \<Rightarrow> (l', sort stuck))"

definition poller_interface :: "(pollerLifecycle, op_context, lifecycleError) CollectorLifecycle" where
  "poller_interface = \<lparr>lc_Start = Start, lc_Update = Update, lc_Drain = Drain, lc_Stop = Stop\<rparr>"

section \<open>The invariant\<close>

text \<open>An entry whose phase says it runs or will run again has not been cancelled, and a running one
  is gone only when the base context ended.\<close>

definition entry_ok :: "bool \<Rightarrow> pollerEntry \<Rightarrow> bool" where
  "entry_ok base e \<longleftrightarrow>
     (pe_phase e \<in> {phaseRunning, phaseBackingOff, phaseFailed} \<and> pe_sup e \<noteq> SupExited \<longrightarrow> \<not> pe_cancelled e) \<and>
     (pe_phase e = phaseRunning \<and> pe_sup e = SupExited \<longrightarrow> base)"

text \<open>Every registered address is an entry of its collector, and every supervisor that is not gone
  belongs to a registered entry.\<close>

definition lifecycle_wf :: "pollerLifecycle \<Rightarrow> bool" where
  "lifecycle_wf l \<longleftrightarrow>
     (\<forall>i a. lookup l i = Some a \<longrightarrow> a < length (pl_entries l) \<and> entry_id l a = i) \<and>
     (\<forall>a < length (pl_entries l). pe_sup (entry l a) \<noteq> SupExited \<longrightarrow> lookup l (entry_id l a) = Some a) \<and>
     (\<forall>a < length (pl_entries l). entry_ok (pl_base l) (entry l a)) \<and>
     distinct (map fst (pl_items l))"

definition live :: "pollerLifecycle \<Rightarrow> collector_map" where
  "live l i = (case lookup l i of
     None \<Rightarrow> None
   | Some a \<Rightarrow> if pe_sup (entry l a) = SupExited then None else Some (pe_collector (entry l a)))"

lemma set_entry_simps [simp]:
  "pl_items (set_entry a f l) = pl_items l" "pl_closed (set_entry a f l) = pl_closed l"
  "pl_base (set_entry a f l) = pl_base l" "lookup (set_entry a f l) = lookup l"
  "length (pl_entries (set_entry a f l)) = length (pl_entries l)"
  "pl_backoff (set_entry a f l) = pl_backoff l"
  by (simp_all add: set_entry_def lookup_def fun_eq_iff)

lemma entry_set_entry:
  "a < length (pl_entries l) \<Longrightarrow> entry (set_entry a f l) b = (if b = a then f (entry l a) else entry l b)"
  by (simp add: entry_def set_entry_def nth_list_update)

lemma lookup_unregister [simp]: "lookup (unregister i l) j = (if j = i then None else lookup l j)"
proof -
  have "map_of (filter (\<lambda>(k, a). k \<noteq> i) xs) j = (if j = i then None else map_of xs j)" for xs :: "(string \<times> nat) list"
    by (induction xs) auto
  then show ?thesis by (simp add: lookup_def unregister_def)
qed

lemma unregister_simps [simp]:
  "pl_entries (unregister i l) = pl_entries l" "entry (unregister i l) = entry l"
  "pl_base (unregister i l) = pl_base l" "pl_closed (unregister i l) = pl_closed l"
  "entry_id (unregister i l) = entry_id l"
  by (simp_all add: unregister_def entry_def entry_id_def fun_eq_iff)

lemma wf_registered: "lifecycle_wf l \<Longrightarrow> lookup l i = Some a \<Longrightarrow> a < length (pl_entries l) \<and> entry_id l a = i"
  by (simp add: lifecycle_wf_def)

lemma wf_live_lookup:
  "lifecycle_wf l \<Longrightarrow> a < length (pl_entries l) \<Longrightarrow> pe_sup (entry l a) \<noteq> SupExited \<Longrightarrow>
     lookup l (entry_id l a) = Some a"
  by (simp add: lifecycle_wf_def)

lemma wf_set_entry:
  assumes "lifecycle_wf l" and a: "a < length (pl_entries l)"
    and "pe_collector (f (entry l a)) = pe_collector (entry l a)"
    and "pe_sup (f (entry l a)) \<noteq> SupExited \<Longrightarrow> pe_sup (entry l a) \<noteq> SupExited"
    and "entry_ok (pl_base l) (f (entry l a))"
  shows "lifecycle_wf (set_entry a f l)"
proof -
  have i: "entry_id (set_entry a f l) b = entry_id l b" for b
    using a assms(3) by (simp add: entry_id_def entry_set_entry)
  show ?thesis
    using assms unfolding lifecycle_wf_def by (simp add: i entry_set_entry)
qed

lemma wf_unregister:
  assumes "lifecycle_wf l" and "lookup l i = Some a" and "pe_sup (entry l a) = SupExited"
  shows "lifecycle_wf (unregister i l)"
proof -
  have "distinct (map fst (pl_items (unregister i l)))"
    using assms(1) by (simp add: lifecycle_wf_def unregister_def distinct_map_filter)
  moreover have "entry_id l b \<noteq> i" if "b < length (pl_entries l)" "pe_sup (entry l b) \<noteq> SupExited" for b
    using assms that by (auto simp: lifecycle_wf_def)
  ultimately show ?thesis
    using assms(1) by (auto simp: lifecycle_wf_def)
qed

text \<open>A collector may be started when no supervisor of it is left.\<close>

definition startable :: "pollerLifecycle \<Rightarrow> string \<Rightarrow> bool" where
  "startable l i \<longleftrightarrow> (\<forall>a. lookup l i = Some a \<longrightarrow> pe_sup (entry l a) = SupExited)"

lemma lookup_startLocked:
  "startLocked now c l = (l', None) \<Longrightarrow>
     lookup l' i = (if i = coll_ID c then Some (length (pl_entries l)) else lookup l i)"
  by (auto simp: startLocked_def lookup_def split: if_splits)

lemma entry_startLocked:
  assumes "startLocked now c l = (l', None)"
  shows "length (pl_entries l') = Suc (length (pl_entries l))"
    and "a < length (pl_entries l) \<Longrightarrow> entry l' a = entry l a"
    and "pe_collector (entry l' (length (pl_entries l))) = c"
    and "pe_sup (entry l' (length (pl_entries l))) = SupRun"
    and "entry_ok base (entry l' (length (pl_entries l)))"
    and "pl_base l' = pl_base l" and "pl_closed l' = pl_closed l"
proof -
  have "l' = l\<lparr>pl_entries := pl_entries l @ [new_entry now c],
      pl_items := put (coll_ID c) (length (pl_entries l)) (pl_items l)\<rparr>"
    using assms by (simp add: startLocked_def split: if_splits)
  then show "length (pl_entries l') = Suc (length (pl_entries l))"
    and "a < length (pl_entries l) \<Longrightarrow> entry l' a = entry l a"
    and "pe_collector (entry l' (length (pl_entries l))) = c"
    and "pe_sup (entry l' (length (pl_entries l))) = SupRun"
    and "entry_ok base (entry l' (length (pl_entries l)))"
    and "pl_base l' = pl_base l" and "pl_closed l' = pl_closed l"
    by (simp_all add: entry_def nth_append new_entry_def entry_ok_def)
qed

lemma wf_startLocked:
  assumes "lifecycle_wf l" and "startable l (coll_ID c)" and "startLocked now c l = (l', e)"
  shows "lifecycle_wf l'"
proof (cases e)
  case (Some x)
  with assms(3) have "l' = l" by (simp add: startLocked_def split: if_splits)
  with assms(1) show ?thesis by simp
next
  case None
  note s = assms(3) [unfolded None]
  note E = entry_startLocked [OF s] and L = lookup_startLocked [OF s]
  have d: "distinct (map fst (pl_items l'))"
  proof -
    have "pl_items l' = put (coll_ID c) (length (pl_entries l)) (pl_items l)"
      using s by (auto simp: startLocked_def split: if_splits)
    with assms(1) show ?thesis by (simp add: lifecycle_wf_def distinct_put)
  qed
  have other: "entry_id l a \<noteq> coll_ID c" if "a < length (pl_entries l)" "pe_sup (entry l a) \<noteq> SupExited" for a
  proof
    assume i: "entry_id l a = coll_ID c"
    from assms(1) that have "lookup l (entry_id l a) = Some a" by (simp add: lifecycle_wf_def)
    with assms(2) i that(2) show False by (simp add: startable_def)
  qed
  have ids: "a < length (pl_entries l) \<Longrightarrow> entry_id l' a = entry_id l a" for a
    by (simp add: entry_id_def E(2))
  have new: "entry_id l' (length (pl_entries l)) = coll_ID c" by (simp add: entry_id_def E(3))
  show ?thesis
    unfolding lifecycle_wf_def
  proof (intro conjI allI impI)
    fix i a
    assume a: "lookup l' i = Some a"
    have "a < length (pl_entries l') \<and> entry_id l' a = i"
    proof (cases "i = coll_ID c")
      case True
      with a new show ?thesis by (auto simp: L E(1))
    next
      case False
      with a have "lookup l i = Some a" by (simp add: L)
      with wf_registered [OF assms(1)] have "a < length (pl_entries l) \<and> entry_id l a = i" by blast
      then show ?thesis by (simp add: E(1) ids)
    qed
    then show "a < length (pl_entries l')" "entry_id l' a = i" by auto
  next
    fix a
    assume a: "a < length (pl_entries l')" "pe_sup (entry l' a) \<noteq> SupExited"
    show "lookup l' (entry_id l' a) = Some a"
    proof (cases "a = length (pl_entries l)")
      case True
      then show ?thesis by (simp add: L new)
    next
      case False
      with a have b: "a < length (pl_entries l)" "pe_sup (entry l a) \<noteq> SupExited" by (auto simp: E(1,2))
      with assms(1) have "lookup l (entry_id l a) = Some a" by (simp add: lifecycle_wf_def)
      with other [OF b] b(1) show ?thesis by (simp add: L ids)
    qed
  next
    fix a
    assume a: "a < length (pl_entries l')"
    show "entry_ok (pl_base l') (entry l' a)"
    proof (cases "a = length (pl_entries l)")
      case True
      then show ?thesis by (simp add: E(5))
    next
      case False
      with a assms(1) show ?thesis by (simp add: E(1,2,6) lifecycle_wf_def)
    qed
  qed (rule d)
qed

lemma live_startLocked:
  assumes "lifecycle_wf l" and "startLocked now c l = (l', None)"
  shows "live l' = (live l)(coll_ID c \<mapsto> c)"
proof
  fix i
  note E = entry_startLocked [OF assms(2)] and L = lookup_startLocked [OF assms(2)]
  show "live l' i = ((live l)(coll_ID c \<mapsto> c)) i"
  proof (cases "i = coll_ID c")
    case False
    then show ?thesis
      using wf_registered [OF assms(1), of i] by (auto simp: live_def L E(2) split: option.splits)
  qed (simp add: live_def L E(3,4))
qed

lemma wf_exited:
  assumes "lifecycle_wf l" and a: "a < length (pl_entries l)" and "ctx_done l a"
  shows "lifecycle_wf (exited a l)"
proof -
  let ?f = "\<lambda>e. e\<lparr>pe_sup := SupExited\<rparr>"
  have "entry_ok (pl_base l) (entry l a)" using assms by (simp add: lifecycle_wf_def)
  with assms(3) have "entry_ok (pl_base l) (?f (entry l a))"
    by (cases "pe_sup (entry l a) = SupExited") (auto simp: entry_ok_def ctx_done_def)
  with assms have w: "lifecycle_wf (set_entry a ?f l)" by (intro wf_set_entry) auto
  have e: "pe_sup (entry (set_entry a ?f l) a) = SupExited" by (simp add: entry_set_entry a)
  show ?thesis
  proof (cases "lookup l (entry_id l a) = Some a")
    case False
    with w show ?thesis by (simp add: exited_def Let_def)
  next
    case True
    have "lifecycle_wf (unregister (entry_id l a) (set_entry a ?f l))"
      using w True e by (intro wf_unregister) simp_all
    moreover have "lifecycle_wf (set_entry a (\<lambda>e. e\<lparr>pe_phase := phaseFailed\<rparr>) (set_entry a ?f l))"
      by (rule wf_set_entry [OF w]) (simp_all add: a e entry_ok_def)
    ultimately show ?thesis
      using w True by (simp add: exited_def Let_def split: phase.split)
  qed
qed

lemma exited_fields:
  "length (pl_entries (exited a l)) = length (pl_entries l)"
  "pl_base (exited a l) = pl_base l" "pl_closed (exited a l) = pl_closed l"
  by (simp_all add: exited_def Let_def split: phase.split)

lemma entry_exited:
  assumes "a < length (pl_entries l)"
  shows "pe_collector (entry (exited a l) b) = pe_collector (entry l b)"
    and "pe_sup (entry (exited a l) b) = (if b = a then SupExited else pe_sup (entry l b))"
  using assms by (simp_all add: exited_def Let_def entry_set_entry split: phase.split)

lemma lookup_exited:
  assumes "lifecycle_wf l" and "a < length (pl_entries l)"
  shows "lookup (exited a l) i =
    (if i = entry_id l a \<and> lookup l i = Some a \<and> pe_phase (entry l a) = phaseStopping then None else lookup l i)"
  by (auto simp: exited_def Let_def split: phase.split)

lemma live_exited:
  assumes "lifecycle_wf l" and "a < length (pl_entries l)" and "i \<noteq> entry_id l a"
  shows "live (exited a l) i = live l i"
proof -
  have "lookup (exited a l) i = lookup l i" using assms by (simp add: lookup_exited)
  moreover have "lookup l i \<noteq> Some a" using wf_registered [OF assms(1)] assms(3) by blast
  ultimately show ?thesis
    using assms(2) by (auto simp: live_def entry_exited split: option.split)
qed

lemma live_set_entry:
  assumes "a < length (pl_entries l)" and "pe_collector (f (entry l a)) = pe_collector (entry l a)"
    and "pe_sup (f (entry l a)) = pe_sup (entry l a)"
  shows "live (set_entry a f l) = live l"
  using assms by (auto simp: live_def fun_eq_iff entry_set_entry split: option.split)

section \<open>The operations keep the contract\<close>

text \<open>Marking a registered entry for an update, a stop or a removal.\<close>

lemma wf_mark:
  assumes "lifecycle_wf l" and "lookup l i = Some a" and "p \<in> {phaseRestarting, phaseStopping, phaseDraining}"
  shows "lifecycle_wf (set_entry a (\<lambda>e. e\<lparr>pe_phase := p, pe_cancelled := k\<rparr>) l)"
    and "lifecycle_wf (set_entry a (\<lambda>e. e\<lparr>pe_phase := p\<rparr>) l)"
    and "live (set_entry a (\<lambda>e. e\<lparr>pe_phase := p, pe_cancelled := k\<rparr>) l) = live l"
    and "live (set_entry a (\<lambda>e. e\<lparr>pe_phase := p\<rparr>) l) = live l"
  using assms wf_registered [OF assms(1,2)]
  by (auto intro!: wf_set_entry live_set_entry simp: entry_ok_def)

lemma wait_after_mark:
  fixes a l p
  defines "m \<equiv> set_entry a (\<lambda>e. e\<lparr>pe_phase := p, pe_cancelled := True\<rparr>) l"
  assumes "lifecycle_wf l" and "lookup l i = Some a" and "p \<in> {phaseRestarting, phaseStopping}"
    and "waitStopped ctx a m = (l', stopped)"
  shows "lifecycle_wf l'" and "x \<noteq> i \<Longrightarrow> live l' x = live l x"
    and "stopped \<Longrightarrow> live l' i = None" and "stopped \<Longrightarrow> startable l' i"
    and "lookup l' i \<in> {None, Some a}" and "pl_closed l' = pl_closed l"
proof -
  note r = wf_registered [OF assms(2,3)]
  have wm: "lifecycle_wf m" and lm: "live m = live l"
    using wf_mark [OF assms(2,3)] assms(4) by (auto simp: m_def)
  have a: "a < length (pl_entries m)" using r by (simp add: m_def)
  have done_m: "ctx_done m a" using r by (simp add: ctx_done_def m_def entry_set_entry)
  have id: "entry_id m a = i" using r by (simp add: m_def entry_id_def entry_set_entry)
  have look: "lookup m = lookup l" "pl_closed m = pl_closed l" by (simp_all add: m_def)
  have "lifecycle_wf l' \<and> (x \<noteq> i \<longrightarrow> live l' x = live l x) \<and>
      (stopped \<longrightarrow> pe_sup (entry l' a) = SupExited \<and> lookup l' i \<in> {None, Some a}) \<and>
      lookup l' i \<in> {None, Some a} \<and> pl_closed l' = pl_closed l" for x
  proof (cases "pe_sup (entry m a) = SupExited \<or> \<not> oc_exits ctx a")
    case True
    with assms(5) wm lm look assms(3) show ?thesis by (auto simp: waitStopped_def split: if_splits)
  next
    case False
    with assms(5) have l': "l' = exited a m" "stopped" by (auto simp: waitStopped_def)
    from wf_exited [OF wm a done_m] live_exited [OF wm a] lookup_exited [OF wm a, of i] entry_exited [OF a] show ?thesis
      by (simp add: l' id lm look assms(3) exited_fields)
  qed
  note all = this
  show "lifecycle_wf l'" "x \<noteq> i \<Longrightarrow> live l' x = live l x" "lookup l' i \<in> {None, Some a}"
    "pl_closed l' = pl_closed l"
    using all by blast+
  show "stopped \<Longrightarrow> live l' i = None" "stopped \<Longrightarrow> startable l' i"
    using all by (auto simp: live_def startable_def split: option.split)
qed

lemma startLocked_spec:
  assumes "lifecycle_wf l" and "startable l (coll_ID c)" and "startLocked now c l = (l', e)"
  shows "lifecycle_wf l' \<and> (\<forall>x. x \<noteq> coll_ID c \<longrightarrow> live l' x = live l x) \<and> (e = None \<longrightarrow> live l' (coll_ID c) = Some c)"
proof (cases e)
  case None
  with live_startLocked [OF assms(1)] wf_startLocked [OF assms] assms(3) show ?thesis by simp
next
  case (Some x)
  with assms(3) have "l' = l" by (simp add: startLocked_def split: if_splits)
  with assms(1) Some show ?thesis by simp
qed

lemma Update_spec: "step_spec lifecycle_wf live (Update ctx c) (coll_ID c) (Some c)"
  unfolding step_spec_def
proof (intro allI impI)
  fix l l' e
  assume w: "lifecycle_wf l" and u: "Update ctx c l = (l', e)"
  show "lifecycle_wf l' \<and> (\<forall>x. x \<noteq> coll_ID c \<longrightarrow> live l' x = live l x) \<and> (e = None \<longrightarrow> live l' (coll_ID c) = Some c)"
  proof (cases "pl_closed l")
    case True
    with u w show ?thesis by (auto simp: Update_def update_begin_def)
  next
    case opn: False
    show ?thesis
    proof (cases "lookup l (coll_ID c)")
      case None
      with u opn have "startLocked (oc_now ctx) c l = (l', e)"
        by (simp add: Update_def update_begin_def update_finish_def)
      from startLocked_spec [OF w _ this] None show ?thesis by (simp add: startable_def)
    next
      case (Some a)
      let ?m = "set_entry a (\<lambda>e. e\<lparr>pe_phase := phaseRestarting, pe_cancelled := True\<rparr>) l"
      obtain l1 stopped where wait: "waitStopped ctx a ?m = (l1, stopped)" by fastforce
      note W = wait_after_mark [OF w Some _ wait, simplified]
      show ?thesis
      proof (cases stopped)
        case False
        with u opn Some wait W(1,2) show ?thesis by (auto simp: Update_def update_begin_def)
      next
        case True
        with u opn Some wait have "update_finish (oc_now ctx) c (Some a) l1 = (l', e)"
          by (simp add: Update_def update_begin_def)
        with W(5) have "startLocked (oc_now ctx) c l1 = (l', e)"
          by (auto simp: update_finish_def)
        from startLocked_spec [OF W(1) W(4) this] True W(2) show ?thesis by simp
      qed
    qed
  qed
qed

lemma Start_spec: "step_spec lifecycle_wf live (Start ctx c) (coll_ID c) (Some c)"
  unfolding step_spec_def
proof (intro allI impI)
  fix l l' e
  assume w: "lifecycle_wf l" and u: "Start ctx c l = (l', e)"
  show "lifecycle_wf l' \<and> (\<forall>x. x \<noteq> coll_ID c \<longrightarrow> live l' x = live l x) \<and> (e = None \<longrightarrow> live l' (coll_ID c) = Some c)"
  proof (cases "lookup l (coll_ID c)")
    case None
    with u have "startLocked (oc_now ctx) c l = (l', e)" by (simp add: Start_def)
    from startLocked_spec [OF w _ this] None show ?thesis by (simp add: startable_def)
  next
    case (Some a)
    with u have "Update ctx c l = (l', e)" by (simp add: Start_def)
    with Update_spec [of ctx c] w show ?thesis unfolding step_spec_def by blast
  qed
qed

lemma Stop_spec: "step_spec lifecycle_wf live (Stop ctx i) i None"
  unfolding step_spec_def
proof (intro allI impI)
  fix l l' e
  assume w: "lifecycle_wf l" and u: "Stop ctx i l = (l', e)"
  show "lifecycle_wf l' \<and> (\<forall>x. x \<noteq> i \<longrightarrow> live l' x = live l x) \<and> (e = None \<longrightarrow> live l' i = None)"
  proof (cases "lookup l i")
    case None
    with u w show ?thesis by (auto simp: Stop_def stop_begin_def live_def)
  next
    case (Some a)
    let ?m = "set_entry a (\<lambda>e. e\<lparr>pe_phase := phaseStopping, pe_cancelled := True\<rparr>) l"
    obtain l1 stopped where wait: "waitStopped ctx a ?m = (l1, stopped)" by fastforce
    note W = wait_after_mark [OF w Some _ wait, simplified]
    from u Some wait W(1-3) show ?thesis
      by (cases stopped) (auto simp: Stop_def stop_begin_def)
  qed
qed

lemma Drain_spec:
  assumes "lifecycle_wf l" and "Drain ctx i l = (l', e)"
  shows "lifecycle_wf l' \<and> live l' = live l"
proof (cases "lookup l i")
  case None
  with assms show ?thesis by (simp add: Drain_def drain_def)
next
  case (Some a)
  with assms wf_mark(2,4) [OF assms(1) Some, of phaseDraining] show ?thesis
    by (auto simp: Drain_def drain_def)
qed

text \<open>The collectors the service may start, and a lifecycle that only ever started such
  collectors and whose base context is alive.\<close>

definition collectorKinds :: "string list" where
  "collectorKinds = [KindSQLServer, KindOutSystemsLogs]"

definition startable_config :: "CollectorRuntimeConfig \<Rightarrow> bool" where
  "startable_config c \<longleftrightarrow> coll_Enabled c \<and> coll_Kind c \<in> set collectorKinds"

definition alive :: "pollerLifecycle \<Rightarrow> bool" where
  "alive l \<longleftrightarrow> \<not> pl_base l \<and> (\<forall>e \<in> set (pl_entries l). startable_config (pe_collector e))"

definition lifecycle_good :: "pollerLifecycle \<Rightarrow> bool" where
  "lifecycle_good l \<longleftrightarrow> lifecycle_wf l \<and> alive l"

lemma alive_set_entry:
  "alive l \<Longrightarrow> (\<And>e. pe_collector (f e) = pe_collector e) \<Longrightarrow> alive (set_entry a f l)"
proof (cases "a < length (pl_entries l)")
  case True
  then show "alive l \<Longrightarrow> (\<And>e. pe_collector (f e) = pe_collector e) \<Longrightarrow> alive (set_entry a f l)"
    by (auto simp: alive_def set_entry_def dest!: set_update_subset_insert [THEN subsetD])
qed (simp add: set_entry_def list_update_beyond)

lemma alive_exited: "alive l \<Longrightarrow> alive (exited a l)"
proof -
  assume "alive l"
  then have "alive (set_entry a (\<lambda>e. e\<lparr>pe_sup := SupExited\<rparr>) l)" by (rule alive_set_entry) simp
  moreover have "alive (unregister i m) = alive m" for i m by (simp add: alive_def)
  ultimately show ?thesis
    by (auto simp: exited_def Let_def intro: alive_set_entry split: phase.split)
qed

lemma alive_waitStopped: "alive l \<Longrightarrow> waitStopped ctx a l = (l', b) \<Longrightarrow> alive l'"
  by (auto simp: waitStopped_def alive_exited split: if_splits)

lemma alive_startLocked: "alive l \<Longrightarrow> startable_config c \<Longrightarrow> startLocked now c l = (l', e) \<Longrightarrow> alive l'"
  by (auto simp: startLocked_def alive_def new_entry_def split: if_splits)

lemma alive_update_finish: "alive l \<Longrightarrow> startable_config c \<Longrightarrow> update_finish now c old l = (l', e) \<Longrightarrow> alive l'"
  by (auto simp: update_finish_def dest: alive_startLocked split: option.splits if_splits)

lemma alive_update_begin: "alive l \<Longrightarrow> update_begin c l = (l', r) \<Longrightarrow> alive l'"
  by (auto simp: update_begin_def intro: alive_set_entry split: option.splits if_splits)

lemma alive_Update: "alive l \<Longrightarrow> startable_config c \<Longrightarrow> Update ctx c l = (l', e) \<Longrightarrow> alive l'"
proof -
  assume l: "alive l" and c: "startable_config c" and u: "Update ctx c l = (l', e)"
  obtain l1 r where b: "update_begin c l = (l1, r)" by fastforce
  from alive_update_begin [OF l b] have l1: "alive l1" .
  consider x where "r = Inl x" | "r = Inr None" | a where "r = Inr (Some a)"
    by (cases r) (blast, metis option.exhaust)
  then show ?thesis
  proof cases
    case 1
    with u b l1 show ?thesis by (simp add: Update_def)
  next
    case 2
    with u b have "update_finish (oc_now ctx) c None l1 = (l', e)" by (simp add: Update_def)
    with alive_update_finish [OF l1 c] show ?thesis .
  next
    case (3 a)
    obtain l2 ok where w: "waitStopped ctx a l1 = (l2, ok)" by fastforce
    from alive_waitStopped [OF l1 w] have l2: "alive l2" .
    from u b 3 w alive_update_finish [OF l2 c] l2 show ?thesis
      by (cases ok) (auto simp: Update_def)
  qed
qed

lemma alive_Start: "alive l \<Longrightarrow> startable_config c \<Longrightarrow> Start ctx c l = (l', e) \<Longrightarrow> alive l'"
  by (auto simp: Start_def dest: alive_startLocked alive_Update split: if_splits)

lemma alive_Stop: "alive l \<Longrightarrow> Stop ctx i l = (l', e) \<Longrightarrow> alive l'"
proof -
  assume l: "alive l" and u: "Stop ctx i l = (l', e)"
  show ?thesis
  proof (cases "lookup l i")
    case None
    with l u show ?thesis by (simp add: Stop_def stop_begin_def)
  next
    case (Some a)
    let ?m = "set_entry a (\<lambda>e. e\<lparr>pe_phase := phaseStopping, pe_cancelled := True\<rparr>) l"
    obtain l2 ok where w: "waitStopped ctx a ?m = (l2, ok)" by fastforce
    have "alive ?m" using l by (rule alive_set_entry) simp
    from alive_waitStopped [OF this w] u Some w show ?thesis
      by (cases ok) (auto simp: Stop_def stop_begin_def)
  qed
qed

lemma alive_Drain: "alive l \<Longrightarrow> alive (drain i l)"
  by (auto simp: drain_def intro: alive_set_entry split: option.splits)

lemma step_spec_alive:
  assumes "step_spec lifecycle_wf live f i g" and "\<And>l l' e. alive l \<Longrightarrow> f l = (l', e) \<Longrightarrow> alive l'"
  shows "step_spec lifecycle_good live f i g"
  using assms unfolding step_spec_def lifecycle_good_def by blast

text \<open>The poller supervisor provides what reconciliation relies on.\<close>

interpretation pollers: collector_lifecycle poller_interface lifecycle_good live startable_config
proof
  fix c :: CollectorRuntimeConfig and ctx
  assume "startable_config c"
  then show "step_spec lifecycle_good live (lc_Start poller_interface ctx c) (coll_ID c) (Some c)"
    and "step_spec lifecycle_good live (lc_Update poller_interface ctx c) (coll_ID c) (Some c)"
    by (auto simp: poller_interface_def intro!: step_spec_alive Start_spec Update_spec
        dest: alive_Start alive_Update)
next
  fix ctx i
  show "step_spec lifecycle_good live (lc_Stop poller_interface ctx i) i None"
    by (auto simp: poller_interface_def intro!: step_spec_alive Stop_spec dest: alive_Stop)
next
  fix s ctx i s' e x
  assume "lifecycle_good s" "lc_Drain poller_interface ctx i s = (s', e)"
  then show "lifecycle_good s' \<and> (x \<noteq> i \<longrightarrow> live s' x = live s x)"
    using Drain_spec [of s ctx i s' e] alive_Drain [of s i]
    by (auto simp: poller_interface_def lifecycle_good_def Drain_def)
qed

section \<open>Interleavings\<close>

text \<open>Callers and supervisors as a step relation.  Beside the lifecycle, the state holds the updates
  that wait between their two halves.  The supervisor of an entry leaves its loop only when its
  context is done; a crash, a config error and a restart may be recorded just after it was done.\<close>

type_synonym system = "pollerLifecycle \<times> (CollectorRuntimeConfig \<times> nat option) list"

inductive lifecycle_step :: "system \<Rightarrow> system \<Rightarrow> bool" where
  step_start: "lookup l (coll_ID c) = None \<Longrightarrow> startLocked now c l = (l', e) \<Longrightarrow> lifecycle_step (l, p) (l', p)"
| step_update: "update_begin c l = (l', Inr old) \<Longrightarrow> lifecycle_step (l, p) (l', (c, old) # p)"
| step_finish: "(c, old) \<in> set p \<Longrightarrow> (\<forall>a. old = Some a \<longrightarrow> pe_sup (entry l a) = SupExited) \<Longrightarrow>
    update_finish now c old l = (l', e) \<Longrightarrow> lifecycle_step (l, p) (l', remove1 (c, old) p)"
| step_give_up: "w \<in> set p \<Longrightarrow> lifecycle_step (l, p) (l, remove1 w p)"
| step_stop: "stop_begin i l = (l', a) \<Longrightarrow> lifecycle_step (l, p) (l', p)"
| step_drain: "lifecycle_step (l, p) (drain i l, p)"
| step_shutdown: "lifecycle_step (l, p) (shutdown_begin l, p)"
| step_parent: "lifecycle_step (l, p) (l\<lparr>pl_base := True\<rparr>, p)"
| step_cycle: "a < length (pl_entries l) \<Longrightarrow> pe_sup (entry l a) = SupRun \<Longrightarrow>
    lifecycle_step (l, p) (recordCycle r a l, p)"
| step_crash: "a < length (pl_entries l) \<Longrightarrow> pe_sup (entry l a) = SupRun \<Longrightarrow>
    lifecycle_step (l, p) (recordCrash now a l, p)"
| step_restart: "a < length (pl_entries l) \<Longrightarrow> pe_sup (entry l a) = SupTimer \<Longrightarrow>
    lifecycle_step (l, p) (recordRestart now a l, p)"
| step_failure: "a < length (pl_entries l) \<Longrightarrow> pe_sup (entry l a) = SupRun \<Longrightarrow>
    lifecycle_step (l, p) (recordFailure a l, p)"
| step_exit: "a < length (pl_entries l) \<Longrightarrow> pe_sup (entry l a) \<noteq> SupExited \<Longrightarrow> ctx_done l a \<Longrightarrow>
    lifecycle_step (l, p) (exited a l, p)"

lemma entry_ok_mono: "entry_ok False e \<Longrightarrow> entry_ok b e"
  by (auto simp: entry_ok_def)

lemma wf_base: "lifecycle_wf l \<Longrightarrow> lifecycle_wf (l\<lparr>pl_base := True\<rparr>)"
  by (simp add: lifecycle_wf_def lookup_def entry_def entry_id_def entry_ok_def)

lemma wf_closed: "lifecycle_wf l \<Longrightarrow> lifecycle_wf (l\<lparr>pl_closed := True, pl_base := True\<rparr>)"
  by (simp add: lifecycle_wf_def lookup_def entry_def entry_id_def entry_ok_def)

lemma wf_shutdown_begin:
  assumes "lifecycle_wf l"
  shows "lifecycle_wf (shutdown_begin l)"
proof -
  let ?mark = "\<lambda>(i :: string, a). set_entry a (\<lambda>e. e\<lparr>pe_phase := phaseStopping, pe_cancelled := True\<rparr>)"
  have "lifecycle_wf (fold ?mark items l)" if "\<forall>(i, a) \<in> set items. lookup l i = Some a" for items
    using assms that
  proof (induction items arbitrary: l)
    case (Cons x items)
    obtain i a where x: "x = (i, a)" by (cases x)
    with Cons.prems have "lifecycle_wf (?mark x l)"
      using wf_mark(1) [of l i a phaseStopping True] by simp
    with Cons x show ?case by simp
  qed simp
  moreover have "\<forall>(i, a) \<in> set (pl_items l). lookup l i = Some a"
    using assms by (auto simp: lifecycle_wf_def lookup_def)
  ultimately have "lifecycle_wf (fold ?mark (pl_items l) l)" by blast
  then show ?thesis
    unfolding shutdown_begin_def Let_def by (rule wf_closed)
qed

lemma wf_record:
  assumes "lifecycle_wf l" and a: "a < length (pl_entries l)" and "pe_sup (entry l a) \<noteq> SupExited"
  shows "lifecycle_wf (recordCycle r a l)" and "lifecycle_wf (recordCrash now a l)"
    and "lifecycle_wf (recordRestart now a l)" and "lifecycle_wf (recordFailure a l)"
proof -
  have ok: "entry_ok (pl_base l) (entry l a)" using assms by (simp add: lifecycle_wf_def)
  show "lifecycle_wf (recordCycle r a l)"
    using assms ok by (auto simp: recordCycle_def entry_ok_def intro!: wf_set_entry)
  show "lifecycle_wf (recordCrash now a l)" unfolding recordCrash_def
    by (rule wf_set_entry [OF assms(1,2)]) (use assms(3) ok in \<open>auto simp: Let_def entry_ok_def\<close>)
  show "lifecycle_wf (recordRestart now a l)" unfolding recordRestart_def
    by (rule wf_set_entry [OF assms(1,2)]) (use assms(3) ok in \<open>auto simp: Let_def entry_ok_def\<close>)
  show "lifecycle_wf (recordFailure a l)" unfolding recordFailure_def
    by (rule wf_set_entry [OF assms(1,2)]) (use assms(3) ok in \<open>auto simp: entry_ok_def\<close>)
qed

lemma wf_update_finish:
  assumes "lifecycle_wf l" and "\<forall>a. old = Some a \<longrightarrow> pe_sup (entry l a) = SupExited"
    and "update_finish now c old l = (l', e)"
  shows "lifecycle_wf l'"
proof (cases "startLocked now c l = (l', e)")
  case True
  show ?thesis
  proof (cases "startable l (coll_ID c)")
    case True
    with wf_startLocked [OF assms(1)] \<open>startLocked now c l = (l', e)\<close> show ?thesis by blast
  next
    case False
    with assms(2,3) have "l' = l"
      by (auto simp: update_finish_def startable_def split: option.splits if_splits)
    with assms(1) show ?thesis by simp
  qed
next
  case False
  with assms(3) have "l' = l" by (auto simp: update_finish_def split: option.splits if_splits)
  with assms(1) show ?thesis by simp
qed

lemma lifecycle_step_wf: "lifecycle_step s s' \<Longrightarrow> lifecycle_wf (fst s) \<Longrightarrow> lifecycle_wf (fst s')"
proof (induction rule: lifecycle_step.induct)
  case (step_start l c now l' e p)
  then show ?case using wf_startLocked [of l c now l' e] by (simp add: startable_def)
next
  case (step_update c l l' old p)
  then show ?case using wf_mark(1) [of l _ _ phaseRestarting True]
    by (auto simp: update_begin_def split: if_splits option.splits)
next
  case (step_finish c old p l now l' e)
  then show ?case using wf_update_finish by (metis fst_conv)
next
  case (step_stop i l l' a p)
  then show ?case using wf_mark(1) [of l _ _ phaseStopping True]
    by (auto simp: stop_begin_def split: option.splits)
next
  case (step_drain l p i)
  then show ?case using wf_mark(2) [of l _ _ phaseDraining] by (auto simp: drain_def split: option.split)
qed (auto intro: wf_shutdown_begin wf_base wf_record wf_exited)

definition lifecycle_reachable :: "system \<Rightarrow> bool" where
  "lifecycle_reachable s \<longleftrightarrow> lifecycle_step\<^sup>*\<^sup>* (newPollerLifecycle, []) s"

lemma reachable_wf: "lifecycle_reachable s \<Longrightarrow> lifecycle_wf (fst s)"
  unfolding lifecycle_reachable_def
proof (induction rule: rtranclp_induct)
  case base
  then show ?case by (simp add: newPollerLifecycle_def lifecycle_wf_def lookup_def)
next
  case (step s s')
  then show ?case using lifecycle_step_wf by blast
qed

text \<open>C9: however starts, updates, stops, removals, crashes, restarts, reloads and shutdown
  interleave, at most one supervisor of a collector is running at any time: an update never starts
  the replacement while the old poller, which would delete its series, is still there.\<close>

theorem one_poller_per_collector:
  assumes "lifecycle_reachable (l, p)"
    and "a < length (pl_entries l)" "pe_sup (entry l a) \<noteq> SupExited"
    and "b < length (pl_entries l)" "pe_sup (entry l b) \<noteq> SupExited"
    and "entry_id l a = entry_id l b"
  shows "a = b"
proof -
  have "lifecycle_wf l" using reachable_wf [OF assms(1)] by simp
  from wf_live_lookup [OF this assms(2,3)] wf_live_lookup [OF this assms(4,5)] assms(6)
  show ?thesis by (metis option.inject)
qed

text \<open>A collector that is started, then updated: the old entry exits and a second one takes over.\<close>

definition sample_collector :: CollectorRuntimeConfig where
  "sample_collector = \<lparr>coll_ID = ''c'', coll_Kind = KindSQLServer, coll_Enabled = True, coll_CredentialRef = [],
     coll_Environment = [], coll_TargetNames = [], coll_ScrapeInterval = ns_second, coll_Targets = [],
     coll_Probes = [], coll_OutSystemsLogs = zero_logs\<rparr>"

definition sample_updated :: pollerLifecycle where
  "sample_updated =
     fst (update_finish 7 sample_collector (Some 0) (exited 0 (fst (update_begin sample_collector
       (fst (startLocked 5 sample_collector newPollerLifecycle))))))"

lemma sample_updated_reachable: "lifecycle_reachable (sample_updated, [])"
proof -
  let ?c = sample_collector
  define l1 l2 l3 where "l1 = fst (startLocked 5 ?c newPollerLifecycle)" and "l2 = fst (update_begin ?c l1)"
    and "l3 = exited 0 l2"
  note d = l1_def l2_def l3_def
  have "lookup newPollerLifecycle (coll_ID ?c) = None" unfolding d by code_simp
  then have 1: "lifecycle_step (newPollerLifecycle, []) (l1, [])"
    by (rule step_start) (unfold d, rule surjective_pairing)
  have "snd (update_begin ?c l1) = Inr (Some 0)" unfolding d by code_simp
  then have "update_begin ?c l1 = (l2, Inr (Some 0))" by (simp add: l2_def prod_eq_iff)
  then have 2: "lifecycle_step (l1, []) (l2, [(?c, Some 0)])" by (rule step_update)
  have "0 < length (pl_entries l2)" "pe_sup (entry l2 0) \<noteq> SupExited" "ctx_done l2 0"
    unfolding d by code_simp+
  then have 3: "lifecycle_step (l2, [(?c, Some 0)]) (l3, [(?c, Some 0)])" unfolding l3_def by (rule step_exit)
  have e: "pe_sup (entry l3 0) = SupExited" unfolding d by code_simp
  have "update_finish 7 ?c (Some 0) l3 = (sample_updated, snd (update_finish 7 ?c (Some 0) l3))"
    unfolding sample_updated_def d by (rule surjective_pairing)
  then have "lifecycle_step (l3, [(?c, Some 0)]) (sample_updated, remove1 (?c, Some 0) [(?c, Some 0)])"
    by (intro step_finish) (simp_all add: e)
  then have 4: "lifecycle_step (l3, [(?c, Some 0)]) (sample_updated, [])" by simp
  show ?thesis
    unfolding lifecycle_reachable_def
    by (rule rtranclp.rtrancl_into_rtrancl [OF rtranclp.rtrancl_into_rtrancl
          [OF rtranclp.rtrancl_into_rtrancl [OF r_into_rtranclp [of lifecycle_step, OF 1] 2] 3] 4])
qed

theorem one_poller_per_collector_witness:
  "length (pl_entries sample_updated) = 2 \<and>
   {a. a < 2 \<and> pe_sup (entry sample_updated a) \<noteq> SupExited \<and> entry_id sample_updated a = ''c''} = {1}"
proof
  show len: "length (pl_entries sample_updated) = 2" by code_simp
  have 1: "pe_sup (entry sample_updated 1) \<noteq> SupExited" "entry_id sample_updated 1 = ''c''" by code_simp+
  show "{a. a < 2 \<and> pe_sup (entry sample_updated a) \<noteq> SupExited \<and> entry_id sample_updated a = ''c''} = {1}"
    using one_poller_per_collector [OF sample_updated_reachable, of _ 1] len 1 by force
qed

section \<open>Restart delays\<close>

lemma delay_loop_min:
  assumes "0 < d" and "m < 2 ^ 62"
  shows "min (delay_loop n d m) m = min (d * 2 ^ n) m"
  using assms(1)
proof (induction n arbitrary: d)
  case (Suc n)
  show ?case
  proof (cases "d < m")
    case True
    with Suc.prems assms(2) have "int64 (d * 2) = d * 2" by (intro int64_id) simp_all
    with Suc.IH [of "d * 2"] Suc.prems True show ?thesis by (simp add: mult.assoc mult.commute)
  next
    case False
    have "(1 :: int) \<le> 2 ^ Suc n" by (rule one_le_power) simp
    then have "d * 1 \<le> d * 2 ^ Suc n" using Suc.prems by (intro mult_left_mono) simp_all
    with False have "m \<le> d * 2 ^ Suc n" by linarith
    with False show ?thesis by (simp add: min_def)
  qed
qed simp

text \<open>The delay before restart number n of a crashed poller is the initial delay doubled n - 1
  times and capped at the maximum; the doubling never overflows.\<close>

theorem delay_exponential:
  assumes "0 < rb_initial b" and "rb_max b < 2 ^ 62"
  shows "delay b n = min (rb_initial b * 2 ^ (n - 1)) (rb_max b)"
  using delay_loop_min [OF assms] by (simp add: delay_def)

theorem delay_exponential_witness:
  "delay defaultRestartBackoff 4 = 8 * ns_second \<and> delay defaultRestartBackoff 400 = ns_minute"
proof
  have h: "0 < rb_initial defaultRestartBackoff" "rb_max defaultRestartBackoff < 2 ^ 62"
    by (simp_all add: defaultRestartBackoff_def duration_units)
  show "delay defaultRestartBackoff 4 = 8 * ns_second"
    unfolding delay_exponential [OF h] by (simp add: defaultRestartBackoff_def duration_units)
  have "(60000000000 :: int) \<le> 1000000000 * 2 ^ 6" by simp
  also have "\<dots> \<le> 1000000000 * 2 ^ 399"
    by (intro mult_left_mono power_increasing) simp_all
  finally show "delay defaultRestartBackoff 400 = ns_minute"
    unfolding delay_exponential [OF h] by (simp add: defaultRestartBackoff_def duration_units min_def)
qed

section \<open>A removed collector that stays registered\<close>

definition stuck_context :: op_context where
  "stuck_context = \<lparr>oc_now = 0, oc_exits = \<lambda>_. False\<rparr>"

text \<open>An entry whose supervisor has exited but which is still registered is only relabelled by a
  removal.\<close>

lemma Update_times_out:
  assumes "\<not> pl_closed l" and "lookup l (coll_ID c) = Some a" and "pe_sup (entry l a) \<noteq> SupExited"
    and "a < length (pl_entries l)" and "\<not> oc_exits ctx a"
  shows "Update ctx c l = (set_entry a (\<lambda>e. e\<lparr>pe_phase := phaseRestarting, pe_cancelled := True\<rparr>) l, Some DidNotStop)"
  using assms by (simp add: Update_def update_begin_def waitStopped_def entry_set_entry)

lemma exited_restarting:
  assumes "lookup l i = Some a" and "entry_id l a = i" and "pe_phase (entry l a) = phaseRestarting"
    and "a < length (pl_entries l)"
  shows "lookup (exited a l) i = Some a \<and> a < length (pl_entries (exited a l)) \<and>
    pl_items (exited a l) = pl_items l \<and>
    pe_sup (entry (exited a l) a) = SupExited \<and> pe_collector (entry (exited a l) a) = pe_collector (entry l a)"
  using assms by (simp add: exited_def Let_def entry_set_entry)

lemma set_entry_twice:
  "a < length (pl_entries l) \<Longrightarrow> set_entry a f (set_entry a g l) = set_entry a (\<lambda>e. f (g e)) l"
  by (simp add: set_entry_def)

lemma remove_exited:
  assumes "lookup l i = Some a" and "pe_sup (entry l a) = SupExited" and "a < length (pl_entries l)"
  shows "Stop ctx' i (fst (Drain ctx i l)) =
    (set_entry a (\<lambda>e. e\<lparr>pe_phase := phaseStopping, pe_cancelled := True\<rparr>) l, None)"
  using assms by (simp add: Stop_def Drain_def drain_def stop_begin_def waitStopped_def entry_set_entry
      set_entry_twice)

text \<open>C16: a collector whose poller outlives an update, which then fails, and exits only afterwards
  is not removed by a later removal: \<open>Drain\<close> and \<open>Stop\<close> return no error, but the entry stays
  registered, in phase stopping, with its configuration still reported among the running ones although
  nothing runs, and so it is after every further \<open>Drain\<close> and \<open>Stop\<close>: only the exit of a supervisor
  unregisters an entry and that exit is over.\<close>

theorem stop_keeps_exited_entry:
  assumes "lifecycle_wf l" and "\<not> pl_closed l" and "lookup l (coll_ID c) = Some a"
    and "pe_sup (entry l a) \<noteq> SupExited" and "\<not> oc_exits ctx a"
    and l1: "l1 = exited a (fst (Update ctx c l))"
    and l2: "l2 = fst (Stop sctx (coll_ID c) (fst (Drain dctx (coll_ID c) l1)))"
  shows "snd (Update ctx c l) = Some DidNotStop \<and>
    snd (Stop sctx (coll_ID c) (fst (Drain dctx (coll_ID c) l1))) = None \<and>
    lookup l2 (coll_ID c) = Some a \<and> Status l2 (coll_ID c) = phaseStopping \<and> live l2 (coll_ID c) = None \<and>
    pe_collector (entry l a) \<in> set (configs l2) \<and>
    (\<forall>sctx' dctx'. Stop sctx' (coll_ID c) (fst (Drain dctx' (coll_ID c) l2)) = (l2, None))"
proof -
  let ?i = "coll_ID c" and ?m = "set_entry a (\<lambda>e. e\<lparr>pe_phase := phaseRestarting, pe_cancelled := True\<rparr>) l"
  have a: "a < length (pl_entries l)" "entry_id l a = ?i" using assms(1,3) by (auto simp: lifecycle_wf_def)
  have u: "Update ctx c l = (?m, Some DidNotStop)" using assms(2-5) a(1) by (intro Update_times_out)
  have "lookup ?m ?i = Some a" "entry_id ?m a = ?i" "pe_phase (entry ?m a) = phaseRestarting" "a < length (pl_entries ?m)"
    and m: "pl_items ?m = pl_items l" "pe_collector (entry ?m a) = pe_collector (entry l a)"
    using a assms(3) by (simp_all add: entry_id_def entry_set_entry)
  from exited_restarting [OF this(1-4)] m u l1
  have x: "lookup l1 ?i = Some a" "pe_sup (entry l1 a) = SupExited" "a < length (pl_entries l1)"
    "pl_items l1 = pl_items l" "pe_collector (entry l1 a) = pe_collector (entry l a)" by simp_all
  let ?s = "\<lambda>e :: pollerEntry. e\<lparr>pe_phase := phaseStopping, pe_cancelled := True\<rparr>"
  note st = remove_exited [OF x(1-3)]
  then have l2': "l2 = set_entry a ?s l1" using l2 by simp
  have y: "lookup l2 ?i = Some a" "pe_sup (entry l2 a) = SupExited" "a < length (pl_entries l2)"
    using x by (simp_all add: l2' entry_set_entry)
  have "set_entry a ?s l2 = l2"
    using x(3) by (simp add: l2' set_entry_twice)
  then have again: "\<forall>sctx' dctx'. Stop sctx' ?i (fst (Drain dctx' ?i l2)) = (l2, None)"
    using remove_exited [OF y] by simp
  have "(?i, a) \<in> set (pl_items l2)" using y(1) by (simp add: lookup_def map_of_SomeD)
  moreover have c: "pe_collector (entry l2 a) = pe_collector (entry l a)" "pe_phase (entry l2 a) = phaseStopping"
    using x(3,5) by (simp_all add: l2' entry_set_entry)
  ultimately have "pe_collector (entry l a) \<in> set (configs l2)"
    unfolding configs_def by (force simp: image_iff split_beta)
  with u st y again c(2) show ?thesis by (simp add: Status_def live_def)
qed

text \<open>A collector is started and updated with another configuration while its poller hangs; it ends,
  and the collector is removed.\<close>

theorem stop_keeps_exited_entry_witness:
  "snd (Update stuck_context sample_collector (fst (Start stuck_context sample_collector newPollerLifecycle)))
     = Some DidNotStop \<and>
   Status (fst (Stop stuck_context ''c'' (fst (Drain stuck_context ''c'' (exited 0 (fst (Update stuck_context
     sample_collector (fst (Start stuck_context sample_collector newPollerLifecycle))))))))) ''c'' = phaseStopping"
proof -
  let ?l = "fst (Start stuck_context sample_collector newPollerLifecycle)"
  have "?l = newPollerLifecycle\<lparr>pl_entries := [new_entry 0 sample_collector], pl_items := [(''c'', 0)]\<rparr>"
    by code_simp
  moreover have "lifecycle_wf (newPollerLifecycle\<lparr>pl_entries := [new_entry 0 sample_collector], pl_items := [(''c'', 0)]\<rparr>)"
    by (simp add: lifecycle_wf_def lookup_def entry_id_def entry_def new_entry_def entry_ok_def newPollerLifecycle_def
        sample_collector_def)
  ultimately have w: "lifecycle_wf ?l" by simp
  have h: "\<not> pl_closed ?l" "lookup ?l (coll_ID sample_collector) = Some 0" "pe_sup (entry ?l 0) \<noteq> SupExited"
    "\<not> oc_exits stuck_context 0" by code_simp+
  have "coll_ID sample_collector = ''c''" by code_simp
  with stop_keeps_exited_entry [OF w h refl refl] show ?thesis by simp
qed

end
