(* ===== verification/Reload.thy ===== *)
theory Reload
  imports PollerLifecycle
begin

text \<open>
  Configuration reloads: the manager that owns the active snapshot (package \<open>config\<close>,
  \<open>manager.go\<close>) and the service that plans a reload from what is really running and reconciles
  it (package \<open>app\<close>, \<open>app.go\<close>).  What a reload reads and meets is its argument: whether it got
  the reload lock before its context ended, the time, and the result of loading the candidate.
\<close>

section \<open>The manager\<close>

datatype loadError = LoadFailed configError | ValidatorFailed string

datatype 'e applyError = ReconcileFailed "'e ReconcileError" | OtherApplyError string

datatype 'e reloadError =
    ErrInvalidCandidate loadError
  | ErrReloadApply "'e applyError"
  | ErrReloadBusy

record 'e Snapshot =
  sn_Config :: RuntimeConfig
  sn_LoadedAt :: gotime
  sn_LastReloadAt :: gotime
  sn_LastReloadErr :: "'e reloadError option"
  sn_RuntimeDiverged :: bool
  sn_RollbackErr :: "'e applyError option"

text \<open>Reading the file, the loader's own validation and then every extra validator.\<close>

definition load :: "config_env \<Rightarrow> (RuntimeConfig \<Rightarrow> string option) list \<Rightarrow> (string \<rightharpoonup> string) \<Rightarrow> string \<Rightarrow>
    (loadError, RuntimeConfig) result" where
  "load env validators files path =
     (case LoadRuntimeConfig env files path of
        Inl e \<Rightarrow> Inl (LoadFailed e)
      | Inr cfg \<Rightarrow>
         (case first_error (\<lambda>validator. validator cfg) validators of
            Some e \<Rightarrow> Inl (ValidatorFailed e)
          | None \<Rightarrow> Inr cfg))"

definition fresh_snapshot :: "RuntimeConfig \<Rightarrow> gotime \<Rightarrow> 'e Snapshot" where
  "fresh_snapshot cfg now = \<lparr>sn_Config = cfg, sn_LoadedAt = now, sn_LastReloadAt = now,
     sn_LastReloadErr = None, sn_RuntimeDiverged = False, sn_RollbackErr = None\<rparr>"

definition NewManager :: "(loadError, RuntimeConfig) result \<Rightarrow> gotime \<Rightarrow> (loadError, 'e Snapshot) result" where
  "NewManager loaded now = (case loaded of Inl e \<Rightarrow> Inl e | Inr cfg \<Rightarrow> Inr (fresh_snapshot cfg now))"

text \<open>\<open>unrolledBack\<close>: nil when the error reports a successful rollback.\<close>

definition unrolledBack :: "'e applyError \<Rightarrow> 'e applyError option" where
  "unrolledBack e = (case e of
     ReconcileFailed r \<Rightarrow> if re_RollbackErr r = [] then None else Some e
   | OtherApplyError _ \<Rightarrow> Some e)"

definition ReloadApplyingContext :: "bool \<Rightarrow> gotime \<Rightarrow> (loadError, RuntimeConfig) result \<Rightarrow>
    (RuntimeConfig \<Rightarrow> RuntimeConfig \<Rightarrow> 'w \<Rightarrow> 'w \<times> 'e applyError option) option \<Rightarrow>
    'e Snapshot \<Rightarrow> 'w \<Rightarrow> 'e Snapshot \<times> 'w \<times> 'e reloadError option" where
  "ReloadApplyingContext acquired now loaded apply current w =
     (if \<not> acquired then (current, w, Some ErrReloadBusy)
      else case loaded of
        Inl e \<Rightarrow>
          (current\<lparr>sn_LastReloadAt := now, sn_LastReloadErr := Some (ErrInvalidCandidate e)\<rparr>, w,
           Some (ErrInvalidCandidate e))
      | Inr nxt \<Rightarrow>
         (case (case apply of None \<Rightarrow> (w, None) | Some f \<Rightarrow> f (sn_Config current) nxt w) of
            (w', Some e) \<Rightarrow>
              (let failed = current\<lparr>sn_LastReloadAt := now, sn_LastReloadErr := Some (ErrReloadApply e)\<rparr>;
                   failed = (case unrolledBack e of
                       None \<Rightarrow> failed
                     | Some r \<Rightarrow> failed\<lparr>sn_RuntimeDiverged := True, sn_RollbackErr := Some r\<rparr>) in
               (failed, w', Some (ErrReloadApply e)))
          | (w', None) \<Rightarrow> (fresh_snapshot nxt now, w', None)))"

definition Reload :: "gotime \<Rightarrow> (loadError, RuntimeConfig) result \<Rightarrow> 'e Snapshot \<Rightarrow>
    'e Snapshot \<times> 'e reloadError option" where
  "Reload now loaded current =
     (case ReloadApplyingContext True now loaded None current () of (s, _, e) \<Rightarrow> (s, e))"

section \<open>The service\<close>

text \<open>A configuration that holds only collectors.\<close>

definition only_collectors :: "CollectorRuntimeConfig list \<Rightarrow> RuntimeConfig" where
  "only_collectors cs =
     (let e = \<lparr>ep_BaseURL = [], ep_Endpoint = [], ep_DashboardTemplates = None, ep_DeepLinkTemplates = None\<rparr> in
      \<lparr>cfg_Version = [], cfg_Platform = [], cfg_Dashboards = e, cfg_Logs = e, cfg_Alerting = e,
        cfg_OpenTelemetry = e, cfg_NotificationChannels = [], cfg_Collectors = cs, cfg_CredentialRefs = None\<rparr>)"

definition planReload :: "RuntimeConfig \<Rightarrow> pollerLifecycle \<Rightarrow> CollectorDiff \<times> string list" where
  "planReload nxt l =
     (let running = only_collectors (configs l);
          d = DiffCollectors running nxt collectorKinds;
          nextByID = collectorsByID (EnabledCollectors nxt collectorKinds);
          restarted = filter (needsRestart l) (diff_Unchanged d);
          unchanged = filter (\<lambda>i. \<not> needsRestart l i) (diff_Unchanged d);
          updated = diff_Updated d @ map (\<lambda>i. the (map_of nextByID i)) restarted in
      (d\<lparr>diff_Unchanged := unchanged, diff_Updated := sort_key coll_ID updated\<rparr>, restarted))"

record reloadSummary =
  rs_Added :: int
  rs_Updated :: int
  rs_Removed :: int
  rs_Unchanged :: int
  rs_Restarted :: int

definition summarize :: "CollectorDiff \<Rightarrow> string list \<Rightarrow> reloadSummary" where
  "summarize d restarted =
     \<lparr>rs_Added = int (length (diff_Added d)),
      rs_Updated = int (length (diff_Updated d)) - int (length restarted),
      rs_Removed = int (length (diff_Removed d)), rs_Unchanged = int (length (diff_Unchanged d)),
      rs_Restarted = int (length restarted)\<rparr>"

definition apply_plan :: "(nat \<Rightarrow> nat \<Rightarrow> nat list) \<Rightarrow> (op_context \<Rightarrow> duration \<Rightarrow> op_context) \<Rightarrow> op_context \<Rightarrow>
    duration \<Rightarrow> CollectorDiff \<Rightarrow> pollerLifecycle \<Rightarrow> pollerLifecycle \<times> lifecycleError applyError option" where
  "apply_plan sched withTimeout ctx rollback d l =
     (case ReconcileWithRollback sched withTimeout ctx poller_interface d rollback l of
        (l', e) \<Rightarrow> (l', map_option ReconcileFailed e))"

definition reload :: "(nat \<Rightarrow> nat \<Rightarrow> nat list) \<Rightarrow> (op_context \<Rightarrow> duration \<Rightarrow> op_context) \<Rightarrow> op_context \<Rightarrow>
    duration \<Rightarrow> bool \<Rightarrow> (loadError, RuntimeConfig) result \<Rightarrow> lifecycleError Snapshot \<Rightarrow> pollerLifecycle \<Rightarrow>
    lifecycleError Snapshot \<times> (pollerLifecycle \<times> reloadSummary) \<times> lifecycleError reloadError option" where
  "reload sched withTimeout ctx rollback acquired loaded snapshot l =
     ReloadApplyingContext acquired (oc_now ctx) loaded
       (Some (\<lambda>_ nxt (l, _).
          (case planReload nxt l of (d, restarted) \<Rightarrow>
             (case apply_plan sched withTimeout ctx rollback d l of
                (l', e) \<Rightarrow> ((l', summarize d restarted), e)))))
       snapshot (l, \<lparr>rs_Added = 0, rs_Updated = 0, rs_Removed = 0, rs_Unchanged = 0, rs_Restarted = 0\<rparr>)"

definition initialReconcile :: "(nat \<Rightarrow> nat \<Rightarrow> nat list) \<Rightarrow> (op_context \<Rightarrow> duration \<Rightarrow> op_context) \<Rightarrow>
    op_context \<Rightarrow> duration \<Rightarrow> 'e Snapshot \<Rightarrow> pollerLifecycle \<Rightarrow>
    pollerLifecycle \<times> lifecycleError ReconcileError option" where
  "initialReconcile sched withTimeout ctx rollback snapshot l =
     ReconcileWithRollback sched withTimeout ctx poller_interface
       (DiffCollectors (only_collectors []) (sn_Config snapshot) collectorKinds) rollback l"

definition rollbackSucceeded :: "'e reloadError \<Rightarrow> bool" where
  "rollbackSucceeded e = (case e of
     ErrReloadApply (ReconcileFailed r) \<Rightarrow> RolledBack r
   | _ \<Rightarrow> False)"

text \<open>The status and the \<open>rolled_back\<close> field of \<open>POST /admin/config/reload\<close>.\<close>

definition reload_response :: "bool \<Rightarrow> 'e reloadError option \<Rightarrow> nat \<times> bool option" where
  "reload_response initialized err =
     (if \<not> initialized then (503, None)
      else case err of
        None \<Rightarrow> (200, None)
      | Some e \<Rightarrow>
         (case e of
            ErrInvalidCandidate _ \<Rightarrow> (400, None)
          | ErrReloadBusy \<Rightarrow> (503, None)
          | ErrReloadApply _ \<Rightarrow> (500, Some (rollbackSucceeded e))))"

section \<open>Fail-closed snapshots\<close>

text \<open>C12: a reload publishes a new configuration only when the candidate loaded and applied without
  error, and then clears every failure mark; otherwise the active configuration stays, a busy
  reload touches nothing, a candidate that does not load never reaches the runtime, and the runtime
  is marked diverged exactly when applying failed without a successful rollback.\<close>

theorem reload_fail_closed:
  assumes "ReloadApplyingContext acquired now loaded apply current w = (s, w', e)"
  shows "(e = None \<longrightarrow> acquired \<and> loaded = Inr (sn_Config s) \<and> \<not> sn_RuntimeDiverged s \<and> sn_LastReloadErr s = None) \<and>
    (e \<noteq> None \<longrightarrow> sn_Config s = sn_Config current \<and> sn_LoadedAt s = sn_LoadedAt current) \<and>
    (e = Some ErrReloadBusy \<longrightarrow> s = current \<and> w' = w) \<and>
    (\<forall>x. e = Some (ErrInvalidCandidate x) \<longrightarrow> w' = w \<and> sn_RuntimeDiverged s = sn_RuntimeDiverged current) \<and>
    (\<forall>x. e = Some (ErrReloadApply x) \<longrightarrow>
       sn_RuntimeDiverged s = (sn_RuntimeDiverged current \<or> \<not> rollbackSucceeded (ErrReloadApply x)))"
  using assms
  by (auto simp: ReloadApplyingContext_def fresh_snapshot_def unrolledBack_def rollbackSucceeded_def
      RolledBack_def Let_def split: if_splits sum.splits prod.splits option.splits applyError.splits)

theorem reload_fail_closed_witness:
  "sn_Config (fst (ReloadApplyingContext True 9 (Inr (only_collectors []))
       (Some (\<lambda>_ _ w. (w, Some (OtherApplyError ''x'')))) (fresh_snapshot sample_config 1 :: nat Snapshot) ()))
     = sample_config \<and>
   sn_RuntimeDiverged (fst (ReloadApplyingContext True 9 (Inr (only_collectors []))
       (Some (\<lambda>_ _ w. (w, Some (OtherApplyError ''x'')))) (fresh_snapshot sample_config 1 :: nat Snapshot) ()))"
proof -
  let ?r = "ReloadApplyingContext True 9 (Inr (only_collectors []))
    (Some (\<lambda>_ _ w. (w, Some (OtherApplyError ''x'')))) (fresh_snapshot sample_config 1 :: nat Snapshot) ()"
  obtain s w e where r: "?r = (s, w, e)" by (cases ?r)
  have e: "e = Some (ErrReloadApply (OtherApplyError ''x''))"
    using r by (auto simp: ReloadApplyingContext_def Let_def)
  from reload_fail_closed [OF r] e show ?thesis
    unfolding r by (simp add: rollbackSucceeded_def fresh_snapshot_def)
qed

section \<open>Planning\<close>

definition registered :: "pollerLifecycle \<Rightarrow> collector_map" where
  "registered l i = map_option (\<lambda>a. pe_collector (entry l a)) (lookup l i)"

lemma live_registered: "live l i = Some c \<Longrightarrow> registered l i = Some c"
  by (simp add: live_def registered_def split: option.splits if_splits)

lemma configs_ids:
  assumes "lifecycle_wf l"
  shows "distinct (map coll_ID (configs l))" and "by_id (configs l) = registered l"
    and "set (configs l) = {c. \<exists>i. registered l i = Some c}"
proof -
  have items: "(i, a) \<in> set (pl_items l) \<longleftrightarrow> lookup l i = Some a" for i a
    using assms by (simp add: lifecycle_wf_def lookup_def)
  have "map coll_ID (map (\<lambda>(i, a). pe_collector (entry l a)) (pl_items l)) = map fst (pl_items l)"
    using wf_registered [OF assms] items by (auto simp: entry_id_def)
  then show d: "distinct (map coll_ID (configs l))"
    using assms by (simp add: configs_def lifecycle_wf_def del: map_map)
  show s: "set (configs l) = {c. \<exists>i. registered l i = Some c}"
    by (auto simp: configs_def registered_def items image_iff) blast
  show "by_id (configs l) = registered l"
  proof
    fix i
    have "by_id (configs l) i = Some c \<longleftrightarrow> registered l i = Some c" for c
      unfolding by_id_distinct [OF d] s
      using wf_registered [OF assms] by (auto simp: registered_def entry_id_def)
    then show "by_id (configs l) i = registered l i"
      by (metis not_Some_eq)
  qed
qed

lemma EnabledCollectors_only:
  assumes "\<forall>c \<in> set cs. startable_config c"
  shows "EnabledCollectors (only_collectors cs) collectorKinds = sort_key coll_ID cs"
proof -
  have "filter (\<lambda>c. coll_Enabled c \<and> coll_Kind c \<in> set collectorKinds) cs = cs"
    using assms by (simp add: startable_config_def)
  then show ?thesis by (simp add: EnabledCollectors_def only_collectors_def Let_def)
qed

lemma by_id_sort: "distinct (map coll_ID cs) \<Longrightarrow> by_id (sort_key coll_ID cs) = by_id cs"
proof
  fix i
  assume d: "distinct (map coll_ID cs)"
  then have "distinct (map coll_ID (sort_key coll_ID cs))" by (simp add: distinct_map)
  from by_id_distinct [OF this, of i] by_id_distinct [OF d, of i]
  show "by_id (sort_key coll_ID cs) i = by_id cs i"
    by (metis not_Some_eq set_sort)
qed

lemma registered_enabled:
  assumes "lifecycle_good l"
  shows "enabled_map (only_collectors (configs l)) collectorKinds = registered l"
proof -
  from assms have w: "lifecycle_wf l" and a: "alive l" by (auto simp: lifecycle_good_def)
  have "\<forall>c \<in> set (configs l). startable_config c"
  proof
    fix c
    assume "c \<in> set (configs l)"
    then obtain i b where "lookup l i = Some b" "c = pe_collector (entry l b)"
      unfolding configs_ids(3) [OF w] registered_def by auto
    with wf_registered [OF w] a show "startable_config c" by (simp add: alive_def entry_def)
  qed
  then show ?thesis
    by (simp add: enabled_map_def EnabledCollectors_only by_id_sort configs_ids [OF w])
qed

lemma enabled_startable: "enabled_map cfg collectorKinds i = Some c \<Longrightarrow> startable_config c \<and> coll_ID c = i"
proof -
  assume e: "enabled_map cfg collectorKinds i = Some c"
  from e by_id_source [of "EnabledCollectors cfg collectorKinds" i c]
    by_id_ID [of "EnabledCollectors cfg collectorKinds" i c]
  show ?thesis
    by (auto simp: enabled_map_def EnabledCollectors_def startable_config_def)
qed

lemma running_live:
  assumes "lifecycle_good l" and "registered l i = Some c" and "\<not> needsRestart l i"
  shows "live l i = Some c"
proof -
  from assms(2) obtain a where a: "lookup l i = Some a" "c = pe_collector (entry l a)"
    by (auto simp: registered_def)
  with assms(3) have "pe_phase (entry l a) = phaseRunning" by (simp add: needsRestart_def)
  moreover have "entry_ok (pl_base l) (entry l a)" "\<not> pl_base l"
    using assms(1) a wf_registered [of l i a] by (auto simp: lifecycle_good_def lifecycle_wf_def alive_def)
  ultimately have "pe_sup (entry l a) \<noteq> SupExited" by (auto simp: entry_ok_def)
  with a show ?thesis by (simp add: live_def)
qed

text \<open>The parts of a plan.\<close>

lemma plan_updates:
  fixes d :: CollectorDiff
  shows "diff_Added (d\<lparr>diff_Unchanged := u, diff_Updated := v\<rparr>) = diff_Added d"
    "diff_Removed (d\<lparr>diff_Unchanged := u, diff_Updated := v\<rparr>) = diff_Removed d"
    "diff_Previous (d\<lparr>diff_Unchanged := u, diff_Updated := v\<rparr>) = diff_Previous d"
    "diff_Updated (d\<lparr>diff_Unchanged := u, diff_Updated := v\<rparr>) = v"
  by simp_all

lemma planReload_eqs:
  "diff_Added (fst (planReload nxt l)) = diff_Added (DiffCollectors (only_collectors (configs l)) nxt collectorKinds)"
  "diff_Removed (fst (planReload nxt l)) = diff_Removed (DiffCollectors (only_collectors (configs l)) nxt collectorKinds)"
  "diff_Previous (fst (planReload nxt l)) = diff_Previous (DiffCollectors (only_collectors (configs l)) nxt collectorKinds)"
  "diff_Updated (fst (planReload nxt l)) =
     sort_key coll_ID (diff_Updated (DiffCollectors (only_collectors (configs l)) nxt collectorKinds) @
       map (\<lambda>i. the (enabled_map nxt collectorKinds i))
         (filter (needsRestart l) (diff_Unchanged (DiffCollectors (only_collectors (configs l)) nxt collectorKinds))))"
  by (simp_all only: planReload_def Let_def fst_conv plan_updates enabled_map_def by_id_def)

lemma changed_or_restarted:
  "(a \<and> x \<notin> {None, Some c} \<or> a \<and> x = Some c \<and> r) = (a \<and> x \<noteq> None \<and> (x \<noteq> Some c \<or> r))"
  by auto

lemma planReload_fields:
  assumes d_def: "d = fst (planReload nxt l)" and old_def: "old = registered l"
    and new_def: "new = enabled_map nxt collectorKinds" and good: "lifecycle_good l"
  shows "set (diff_Added d) = {c. new (coll_ID c) = Some c \<and> old (coll_ID c) = None}"
    and "set (diff_Updated d) = {c. new (coll_ID c) = Some c \<and> old (coll_ID c) \<noteq> None \<and>
          (old (coll_ID c) \<noteq> Some c \<or> needsRestart l (coll_ID c))}"
    and "set (diff_Removed d) = {i. old i \<noteq> None \<and> new i = None}"
    and "map_of (diff_Previous d) = old"
    and "distinct (diff_ids d)"
proof -
  let ?d = "DiffCollectors (only_collectors (configs l)) nxt collectorKinds"
  let ?re = "filter (needsRestart l) (diff_Unchanged ?d)"
  let ?up = "diff_Updated ?d @ map (\<lambda>i. the (new i)) ?re"
  note f = DiffCollectors_fields [of "only_collectors (configs l)" nxt collectorKinds,
      unfolded registered_enabled [OF good], folded old_def new_def]
  have d: "diff_Added d = diff_Added ?d" "diff_Removed d = diff_Removed ?d" "diff_Previous d = diff_Previous ?d"
    "diff_Updated d = sort_key coll_ID ?up"
    unfolding d_def new_def
    by (rule planReload_eqs(1), rule planReload_eqs(2), rule planReload_eqs(3), rule planReload_eqs(4))
  have key: "new i = Some c \<Longrightarrow> coll_ID c = i" for i c
    using enabled_startable by (auto simp: new_def)
  have re: "set (map (\<lambda>i. the (new i)) ?re) =
      {c. new (coll_ID c) = Some c \<and> old (coll_ID c) = Some c \<and> needsRestart l (coll_ID c)}"
  proof (intro set_eqI iffI)
    fix c
    assume "c \<in> set (map (\<lambda>i. the (new i)) ?re)"
    then obtain i where i: "old i \<noteq> None" "new i = old i" "needsRestart l i" "c = the (new i)"
      by (auto simp: f(4))
    then have "new i = Some c" by auto
    moreover from key [OF this] have "i = coll_ID c" ..
    ultimately show "c \<in> {c. new (coll_ID c) = Some c \<and> old (coll_ID c) = Some c \<and>
        needsRestart l (coll_ID c)}" using i(2,3) by simp
  next
    fix c
    assume c: "c \<in> {c. new (coll_ID c) = Some c \<and> old (coll_ID c) = Some c \<and> needsRestart l (coll_ID c)}"
    then have re: "coll_ID c \<in> set ?re" "c = the (new (coll_ID c))" by (simp_all add: f(4))
    from re(2,1) show "c \<in> set (map (\<lambda>i. the (new i)) ?re)" unfolding set_map by (rule image_eqI)
  qed
  show "set (diff_Added d) = {c. new (coll_ID c) = Some c \<and> old (coll_ID c) = None}"
    "set (diff_Removed d) = {i. old i \<noteq> None \<and> new i = None}" "map_of (diff_Previous d) = old"
    unfolding d by (rule f)+
  show "set (diff_Updated d) = {c. new (coll_ID c) = Some c \<and> old (coll_ID c) \<noteq> None \<and>
          (old (coll_ID c) \<noteq> Some c \<or> needsRestart l (coll_ID c))}"
    unfolding d set_sort set_append re f(2) Un_def mem_Collect_eq changed_or_restarted ..
  have ids: "map coll_ID (map (\<lambda>i. the (new i)) ?re) = ?re"
    unfolding map_map
  proof (rule map_idI)
    fix i
    assume "i \<in> set ?re"
    then obtain c where "new i = Some c" by (auto simp: f(4))
    with key [OF this] show "(coll_ID \<circ> (\<lambda>i. the (new i))) i = i" by simp
  qed
  have du: "distinct (diff_Unchanged ?d)"
    using collectorsByID_distinct
    by (simp add: DiffCollectors_def Let_def diff_new_fold diff_old_fold sortDiff_def distinct_map_filter)
  have "set (diff_Unchanged ?d) \<inter> set (diff_ids ?d) = {}"
    unfolding diff_ids_def set_append set_map f(1-4) by auto
  then have "distinct (map coll_ID (diff_Added ?d) @ (map coll_ID (diff_Updated ?d) @ ?re) @ diff_Removed ?d)"
    using diff_ids_distinct [of "only_collectors (configs l)" nxt collectorKinds] distinct_filter [OF du]
    unfolding diff_ids_def distinct_append set_append set_filter by blast
  then have "distinct (map coll_ID (diff_Added ?d) @ map coll_ID ?up @ diff_Removed ?d)"
    unfolding map_append ids .
  then show "distinct (diff_ids d)"
    unfolding diff_ids_def d distinct_append distinct_map_sort_key set_append set_map set_sort .
qed

lemma plan_sound:
  assumes "lifecycle_good l"
  shows "pollers.sound_diff (fst (planReload nxt l))"
proof -
  note f = planReload_fields [OF refl refl refl assms, of nxt]
  have new: "startable_config c" if "enabled_map nxt collectorKinds (coll_ID c) = Some c" for c
    using enabled_startable [OF that] ..
  have old: "coll_ID p = i \<and> startable_config p" if "registered l i = Some p" for i p
    using enabled_startable [of "only_collectors (configs l)" i p] that by (simp add: registered_enabled [OF assms])
  show ?thesis
    unfolding pollers.sound_diff_def f(1,2,4) using f(5) new old by blast
qed

lemma plan_leads:
  assumes "lifecycle_good l"
  shows "apply_diff (fst (planReload nxt l)) (live l) = enabled_map nxt collectorKinds"
proof
  fix i
  let ?d = "fst (planReload nxt l)" and ?n = "enabled_map nxt collectorKinds" and ?o = "registered l"
  note f = planReload_fields [OF refl refl refl assms, of nxt]
  have key: "coll_ID c = j" if "?n j = Some c" for j c using enabled_startable [OF that] ..
  have fnd: "find (\<lambda>c. coll_ID c = i) (diff_Added ?d @ diff_Updated ?d) =
      (if \<exists>c \<in> set (diff_Added ?d @ diff_Updated ?d). coll_ID c = i then ?n i else None)"
    by (rule find_by_ID) (simp only: set_append f(1,2) Un_iff mem_Collect_eq, blast)
  have touched: "(\<exists>c \<in> set (diff_Added ?d @ diff_Updated ?d). coll_ID c = i) \<longleftrightarrow>
      ?n i \<noteq> None \<and> (?o i \<noteq> ?n i \<or> needsRestart l i)"
  proof
    assume "\<exists>c \<in> set (diff_Added ?d @ diff_Updated ?d). coll_ID c = i"
    then obtain c where c: "coll_ID c = i" and "c \<in> set (diff_Added ?d) \<union> set (diff_Updated ?d)" by auto
    then have "?n i = Some c" "?o i \<noteq> Some c \<or> needsRestart l i"
      unfolding f(1,2) by (simp_all only: Un_iff mem_Collect_eq c) auto
    then show "?n i \<noteq> None \<and> (?o i \<noteq> ?n i \<or> needsRestart l i)" by simp
  next
    assume r: "?n i \<noteq> None \<and> (?o i \<noteq> ?n i \<or> needsRestart l i)"
    then obtain c where c: "?n i = Some c" by blast
    with key [OF c] r have "c \<in> set (diff_Added ?d @ diff_Updated ?d)"
      unfolding set_append f(1,2) by (cases "?o i") simp_all
    with key [OF c] show "\<exists>c \<in> set (diff_Added ?d @ diff_Updated ?d). coll_ID c = i" by blast
  qed
  show "apply_diff ?d (live l) i = ?n i"
  proof (cases "?n i")
    case None
    moreover have "live l i = None" if "?o i = None" using that by (simp add: registered_def live_def)
    ultimately show ?thesis unfolding apply_diff_def fnd touched f(3) by auto
  next
    case (Some c)
    show ?thesis
    proof (cases "?o i \<noteq> ?n i \<or> needsRestart l i")
      case True
      with Some show ?thesis unfolding apply_diff_def fnd touched by simp
    next
      case False
      with running_live [OF assms, of i c] Some have "live l i = Some c" by simp
      with False Some show ?thesis unfolding apply_diff_def fnd touched f(3) by simp
    qed
  qed
qed

text \<open>C10: a reload that returns no error leaves the service running exactly the enabled collectors
  of the configuration it publishes, each under the configuration it has there: whatever was
  running, crashed, backing off or stuck before, and in whatever order the steps of the plan ran.\<close>

theorem reload_success:
  assumes "lifecycle_good l" and "\<And>k. fair_schedule (sched k)"
    and "reload sched withTimeout ctx rollback acquired loaded snapshot l = (s, (l', summary), None)"
  shows "lifecycle_good l' \<and> loaded = Inr (sn_Config s) \<and> live l' = enabled_map (sn_Config s) collectorKinds"
proof -
  from assms(3) obtain nxt where nxt: "loaded = Inr nxt" "s = fresh_snapshot nxt (oc_now ctx)"
    and run: "ReconcileWithRollback sched withTimeout ctx poller_interface (fst (planReload nxt l)) rollback l = (l', None)"
    by (auto simp: reload_def ReloadApplyingContext_def apply_plan_def Let_def split_beta prod_eq_iff
        split: if_splits sum.splits prod.splits option.splits)
  from pollers.reconcile_success [OF plan_sound [OF assms(1)] assms(2,1) run] plan_leads [OF assms(1)] nxt
  show ?thesis by (simp add: fresh_snapshot_def)
qed

definition in_order :: "nat \<Rightarrow> nat \<Rightarrow> nat list" where
  "in_order k n = [0..<n]"

lemma in_order_fair: "fair_schedule (in_order k)"
  by (auto simp: fair_schedule_def in_order_def)

definition prompt_context :: op_context where
  "prompt_context = \<lparr>oc_now = 3, oc_exits = \<lambda>_. True\<rparr>"

definition sample_running :: pollerLifecycle where
  "sample_running = fst (Start prompt_context sample_collector newPollerLifecycle)"

definition sample_moved :: CollectorRuntimeConfig where
  "sample_moved = sample_collector\<lparr>coll_Environment := ''prod''\<rparr>"

lemma new_lifecycle_good: "lifecycle_good newPollerLifecycle"
  by (simp add: lifecycle_good_def lifecycle_wf_def alive_def newPollerLifecycle_def lookup_def)

lemma sample_running_good: "lifecycle_good sample_running"
proof -
  have "startable_config sample_collector" by code_simp
  from pollers.start_law [OF this, of prompt_context] new_lifecycle_good show ?thesis
    unfolding step_spec_def sample_running_def poller_interface_def
    by (metis CollectorLifecycle.select_convs(1) surjective_pairing)
qed

theorem reload_success_witness:
  "live (fst (fst (snd (reload in_order (\<lambda>c _. c) prompt_context ns_second True
      (Inr (only_collectors [sample_moved])) (fresh_snapshot (only_collectors [sample_collector]) 1) sample_running))))
     = enabled_map (only_collectors [sample_moved]) collectorKinds"
proof -
  let ?r = "reload in_order (\<lambda>c _. c) prompt_context ns_second True (Inr (only_collectors [sample_moved]))
    (fresh_snapshot (only_collectors [sample_collector]) 1) sample_running"
  have "snd (snd ?r) = None" by code_simp
  then have "?r = (fst ?r, (fst (fst (snd ?r)), snd (fst (snd ?r))), None)" by (metis prod.collapse)
  from reload_success [OF sample_running_good in_order_fair this] show ?thesis by simp
qed

text \<open>C11: a reload whose plan fails part way and whose rollback succeeds takes nothing from the
  service: every collector that was running runs on under the configuration it had, the active
  configuration is the old one and the runtime is not marked diverged.  The only collectors that may
  run where they did not before are registered ones whose supervisor had exited after an update that
  timed out; the rollback may start them again, under the configuration they are registered with.\<close>

theorem reload_rolled_back:
  assumes "lifecycle_good l" and "\<And>k. fair_schedule (sched k)"
    and "reload sched withTimeout ctx rollback acquired loaded snapshot l = (s, (l', summary), Some e)"
    and "rollbackSucceeded e"
  shows "lifecycle_good l' \<and>
    (\<forall>i. live l' i = live l i \<or> live l i = None \<and> live l' i = registered l i) \<and>
    sn_Config s = sn_Config snapshot \<and> sn_RuntimeDiverged s = sn_RuntimeDiverged snapshot"
proof -
  from assms(3,4) obtain nxt r where nxt: "loaded = Inr nxt" and e: "e = ErrReloadApply (ReconcileFailed r)"
    and r: "RolledBack r"
    and run: "ReconcileWithRollback sched withTimeout ctx poller_interface (fst (planReload nxt l)) rollback l = (l', Some r)"
    and s: "s = snapshot\<lparr>sn_LastReloadAt := oc_now ctx, sn_LastReloadErr := Some e\<rparr>"
    by (auto simp: reload_def ReloadApplyingContext_def apply_plan_def Let_def split_beta prod_eq_iff rollbackSucceeded_def
        RolledBack_def unrolledBack_def
        split: if_splits sum.splits prod.splits option.splits applyError.splits reloadError.splits)
  note f = planReload_fields [OF refl refl refl assms(1), of nxt]
  from pollers.reconcile_undone [OF plan_sound [OF assms(1)] assms(2) _ assms(1) run r]
  have "lifecycle_good l'" and v: "\<forall>i. live l' i = live l i \<or> live l' i = registered l i"
    unfolding f(4) using f(1) by simp_all
  moreover have "live l' i = live l i \<or> live l i = None \<and> live l' i = registered l i" for i
    using live_registered [of l i] spec [OF v, of i] by (cases "live l i") auto
  ultimately show ?thesis using s by simp
qed

theorem reload_rolled_back_witness:
  "live (fst (fst (snd (reload in_order (\<lambda>_ _. prompt_context) stuck_context ns_second True
      (Inr (only_collectors [sample_moved])) (fresh_snapshot (only_collectors [sample_collector]) 1) sample_running))))
     = live sample_running"
proof -
  let ?r = "reload in_order (\<lambda>_ _. prompt_context) stuck_context ns_second True (Inr (only_collectors [sample_moved]))
    (fresh_snapshot (only_collectors [sample_collector]) 1) sample_running"
  have "map_option rollbackSucceeded (snd (snd ?r)) = Some True" by code_simp
  then obtain e where e: "snd (snd ?r) = Some e" "rollbackSucceeded e" by auto
  then have r: "?r = (fst ?r, (fst (fst (snd ?r)), snd (fst (snd ?r))), Some e)" by (metis prod.collapse)
  have all: "live sample_running i = registered sample_running i" for i
    by (simp add: live_def registered_def sample_running_def Start_def startLocked_def newPollerLifecycle_def
        lookup_def entry_def new_entry_def)
  from reload_rolled_back [OF sample_running_good in_order_fair r e(2)] all show ?thesis
    by (intro ext) metis
qed

text \<open>At startup, a reconciliation that returns no error leaves exactly the enabled collectors of
  the loaded configuration running.\<close>

theorem initialReconcile_success:
  assumes "\<And>k. fair_schedule (sched k)"
    and "initialReconcile sched withTimeout ctx rollback snapshot newPollerLifecycle = (l', None)"
  shows "lifecycle_good l' \<and> live l' = enabled_map (sn_Config snapshot) collectorKinds"
proof -
  let ?d = "DiffCollectors (only_collectors []) (sn_Config snapshot) collectorKinds"
  have none: "enabled_map (only_collectors []) collectorKinds = Map.empty"
    by (simp add: enabled_map_def EnabledCollectors_def only_collectors_def Let_def by_id_def collectorsByID_def)
  note f = DiffCollectors_fields [of "only_collectors []" "sn_Config snapshot" collectorKinds, unfolded none]
  have "startable_config c" if "enabled_map (sn_Config snapshot) collectorKinds (coll_ID c) = Some c" for c
    using enabled_startable [OF that] ..
  then have sound: "pollers.sound_diff ?d"
    unfolding pollers.sound_diff_def f using diff_ids_distinct by auto
  have live: "live newPollerLifecycle = Map.empty"
    by (simp add: fun_eq_iff live_def lookup_def newPollerLifecycle_def)
  from pollers.reconcile_success [OF sound assms(1) new_lifecycle_good assms(2) [unfolded initialReconcile_def]]
  show ?thesis using apply_diff_enabled [of "only_collectors []" "sn_Config snapshot" collectorKinds, unfolded none]
    unfolding live by simp
qed

theorem initialReconcile_success_witness:
  "live (fst (initialReconcile in_order (\<lambda>c _. c) stuck_context ns_second
      (fresh_snapshot (only_collectors [sample_collector]) 1 :: nat Snapshot) newPollerLifecycle))
     = enabled_map (only_collectors [sample_collector]) collectorKinds"
proof -
  let ?s = "fresh_snapshot (only_collectors [sample_collector]) 1 :: nat Snapshot"
  let ?r = "initialReconcile in_order (\<lambda>c _. c) stuck_context ns_second ?s newPollerLifecycle"
  have "snd ?r = None" by code_simp
  then have "?r = (fst ?r, None)" by (metis prod.collapse)
  from initialReconcile_success [OF in_order_fair this] show ?thesis by (simp add: fresh_snapshot_def)
qed

end
