(* ===== verification/ConfigRedact.thy ===== *)
theory ConfigRedact
  imports ConfigValidate
begin

text \<open>
  Diagnostics copies of the configuration (\<open>config.go\<close>: \<open>Redacted\<close>, \<open>redactEndpoint\<close> and the
  clone functions).  A clone is a fresh copy of the same value; the model has no aliasing, so a
  clone is the identity on slices and \<open>copyStringMap\<close> on the maps it rebuilds.
\<close>

definition cloneEndpoint :: "Endpoint \<Rightarrow> Endpoint" where
  "cloneEndpoint e = e\<lparr>ep_DashboardTemplates := copyStringMap (ep_DashboardTemplates e),
     ep_DeepLinkTemplates := copyStringMap (ep_DeepLinkTemplates e)\<rparr>"

definition redactEndpoint :: "Endpoint \<Rightarrow> Endpoint" where
  "redactEndpoint e =
     (let out = cloneEndpoint e in
      out\<lparr>ep_BaseURL := stripUserinfo (ep_BaseURL out), ep_Endpoint := stripUserinfo (ep_Endpoint out),
        ep_DashboardTemplates := map_entries stripUserinfo (ep_DashboardTemplates out),
        ep_DeepLinkTemplates := map_entries stripUserinfo (ep_DeepLinkTemplates out)\<rparr>)"

definition redactChannel :: "NotificationChannel \<Rightarrow> NotificationChannel" where
  "redactChannel channel =
     channel\<lparr>nc_CredentialRef := (if nc_CredentialRef channel \<noteq> [] then redactRef (nc_CredentialRef channel)
         else nc_CredentialRef channel),
       nc_TargetRef := redactTargetRef (nc_TargetRef channel),
       nc_Config := map_entries (\<lambda>_. redactedValue) (nc_Config channel)\<rparr>"

definition redactCollector :: "CollectorRuntimeConfig \<Rightarrow> CollectorRuntimeConfig" where
  "redactCollector c =
     c\<lparr>coll_CredentialRef := redactRef (coll_CredentialRef c),
       coll_Targets := map (\<lambda>t. t\<lparr>target_CredentialRef := redactRef (target_CredentialRef t)\<rparr>)
         (coll_Targets c)\<rparr>"

definition Redacted :: "RuntimeConfig \<Rightarrow> RuntimeConfig" where
  "Redacted c =
     c\<lparr>cfg_Dashboards := redactEndpoint (cfg_Dashboards c), cfg_Logs := redactEndpoint (cfg_Logs c),
       cfg_Alerting := redactEndpoint (cfg_Alerting c),
       cfg_OpenTelemetry := redactEndpoint (cfg_OpenTelemetry c),
       cfg_Collectors := map redactCollector (cfg_Collectors c),
       cfg_NotificationChannels := map redactChannel (cfg_NotificationChannels c),
       cfg_CredentialRefs :=
         Some (map (\<lambda>(key, _). (key, redactedValue)) (entries (cfg_CredentialRefs c)))\<rparr>"

section \<open>Nothing secret is left\<close>

text \<open>A copy that may be shown: no userinfo in any endpoint URL or target reference, every credential
  value and channel setting masked, every secret reference marked.\<close>

definition shown_ref :: "string \<Rightarrow> bool" where
  "shown_ref ref \<longleftrightarrow> ref = [] \<or> (\<exists>r. ref = r @ '':'' @ redactedValue)"

definition masked :: "gomap \<Rightarrow> bool" where
  "masked m \<longleftrightarrow> (\<forall>(k, v) \<in> set (entries m). v = redactedValue)"

definition showable :: "RuntimeConfig \<Rightarrow> bool" where
  "showable cfg \<longleftrightarrow>
     list_all clean_endpoint [cfg_Dashboards cfg, cfg_Logs cfg, cfg_Alerting cfg, cfg_OpenTelemetry cfg] \<and>
     masked (cfg_CredentialRefs cfg) \<and>
     (\<forall>n \<in> set (cfg_NotificationChannels cfg). \<not> targetRefCredentials (nc_TargetRef n) \<and>
        masked (nc_Config n) \<and> shown_ref (nc_CredentialRef n)) \<and>
     (\<forall>c \<in> set (cfg_Collectors cfg). shown_ref (coll_CredentialRef c) \<and>
        (\<forall>t \<in> set (coll_Targets c). shown_ref (target_CredentialRef t)))"

lemma shown_redactRef: "shown_ref (redactRef ref)"
  by (simp add: shown_ref_def redactRef_def redactedValue_def)

lemma masked_simps [simp]:
  "masked (map_entries (\<lambda>_. redactedValue) m)"
  "masked (Some (map (\<lambda>(key, _). (key, redactedValue)) l))"
  by (auto simp: masked_def)

lemma redactEndpoint_clean: "clean_endpoint e \<Longrightarrow> clean_endpoint (redactEndpoint e)"
  by (auto simp: clean_endpoint_def redactEndpoint_def cloneEndpoint_def Let_def strip_no_userinfo)

lemma redactTargetRef_clean:
  assumes "\<not> targetRefCredentials ref"
  shows "\<not> targetRefCredentials (redactTargetRef ref)"
proof -
  from assms have u: "\<not> hasUserinfo ref" and b: "bareUserinfoEnd ref = None"
    by (auto simp: targetRefCredentials_def)
  from b have "bareUserinfoEnd (removeTabsAndNewlines ref) = None"
    by (simp add: bareUserinfoEnd_def)
  with u have "redactTargetRef ref = removeTabsAndNewlines ref"
    by (simp add: redactTargetRef_def strip_unchanged)
  with u b show ?thesis
    by (simp add: targetRefCredentials_def hasUserinfo_def bareUserinfoEnd_def)
qed

lemma Redacted_shown:
  assumes "valid_config env cfg"
  shows "showable (Redacted cfg)"
proof -
  have "\<not> targetRefCredentials (nc_TargetRef (redactChannel n)) \<and>
        masked (nc_Config (redactChannel n)) \<and> shown_ref (nc_CredentialRef (redactChannel n))"
    if "n \<in> set (cfg_NotificationChannels cfg)" for n
    using assms that shown_redactRef
    by (auto simp: valid_config_def valid_channel_def redactChannel_def redactTargetRef_clean shown_ref_def)
  then show ?thesis
    using assms by (auto simp: showable_def Redacted_def valid_config_def redactEndpoint_clean
        redactCollector_def shown_redactRef)
qed

section \<open>What the copy depends on\<close>

text \<open>A URL text \<open>scheme://info@rest\<close>: the scheme and the userinfo are delimited, the rest has no
  further userinfo and goes on after the \<open>@\<close>.\<close>

definition no_tabs :: "string \<Rightarrow> bool" where
  "no_tabs s \<longleftrightarrow> (\<forall>c \<in> set s. byte c \<notin> {9, 10, 13})"

definition url_scheme :: "string \<Rightarrow> bool" where
  "url_scheme s \<longleftrightarrow> s \<noteq> [] \<and> ascii_letter (hd s) \<and>
     (\<forall>c \<in> set s. ascii_letter c \<or> ascii_digit c \<or> c \<in> {CHR ''+'', CHR ''-'', CHR ''.''})"

definition url_userinfo :: "string \<Rightarrow> bool" where
  "url_userinfo info \<longleftrightarrow> no_tabs info \<and> set info \<inter> {CHR ''/'', CHR 0x5C, CHR ''?'', CHR ''#''} = {}"

definition url_rest :: "string \<Rightarrow> bool" where
  "url_rest r \<longleftrightarrow> no_tabs r \<and> (r \<noteq> [] \<longrightarrow> \<not> isSlash (hd r)) \<and>
     CHR ''@'' \<notin> set (takeWhile (\<lambda>c. c \<notin> set ''/?#'') r)"

text \<open>\<open>carries u w\<close>: the text \<open>u\<close> is \<open>w\<close>, or \<open>w\<close> with some userinfo.  Two URLs are alike when they
  carry userinfo, any or none, on the same URL; target references also when both are
  \<open>user:password@rest\<close> with the same rest.\<close>

inductive carries :: "string \<Rightarrow> string \<Rightarrow> bool" where
  carries_same: "carries w w"
| carries_info: "\<lbrakk>url_scheme s; url_userinfo info; url_rest r\<rbrakk> \<Longrightarrow>
     carries (s @ ''://'' @ info @ ''@'' @ r) (s @ ''://'' @ r)"

definition url_alike :: "string \<Rightarrow> string \<Rightarrow> bool" where
  "url_alike u v \<longleftrightarrow> (\<exists>w. carries u w \<and> carries v w)"

definition bare_user :: "string \<Rightarrow> bool" where
  "bare_user user \<longleftrightarrow> url_userinfo user \<and> CHR '':'' \<notin> set user \<and>
     (user \<noteq> [] \<longrightarrow> \<not> is_c0_or_space (hd user)) \<and>
     to_lower_ascii user \<notin> set specialSchemes \<and> \<not> equal_fold_ascii user ''mailto''"

definition bare_rest :: "string \<Rightarrow> bool" where
  "bare_rest r \<longleftrightarrow> no_tabs r \<and>
     CHR ''@'' \<notin> set (takeWhile (\<lambda>c. c \<notin> {CHR ''/'', CHR 0x5C, CHR ''?'', CHR ''#''}) r)"

inductive ref_alike :: "string \<Rightarrow> string \<Rightarrow> bool" where
  ref_url: "url_alike u v \<Longrightarrow> ref_alike u v"
| ref_bare: "\<lbrakk>bare_user user; url_userinfo pw; bare_user user'; url_userinfo pw'; bare_rest r\<rbrakk> \<Longrightarrow>
     ref_alike (user @ '':'' @ pw @ ''@'' @ r) (user' @ '':'' @ pw' @ ''@'' @ r)"

text \<open>Maps with the same keys in which the values may differ in what \<open>P\<close> allows, and the records
  that differ only in secrets: userinfo in the four endpoints and their templates and in target
  references, the settings of a channel and the credential values.\<close>

definition map_alike :: "(string \<Rightarrow> string \<Rightarrow> bool) \<Rightarrow> gomap \<Rightarrow> gomap \<Rightarrow> bool" where
  "map_alike P m m' \<longleftrightarrow> rel_option (list_all2 (rel_prod (=) P)) m m'"

definition endpoint_alike :: "Endpoint \<Rightarrow> Endpoint \<Rightarrow> bool" where
  "endpoint_alike e e' \<longleftrightarrow> url_alike (ep_BaseURL e) (ep_BaseURL e') \<and>
     url_alike (ep_Endpoint e) (ep_Endpoint e') \<and>
     map_alike url_alike (ep_DashboardTemplates e) (ep_DashboardTemplates e') \<and>
     map_alike url_alike (ep_DeepLinkTemplates e) (ep_DeepLinkTemplates e')"

definition channel_alike :: "NotificationChannel \<Rightarrow> NotificationChannel \<Rightarrow> bool" where
  "channel_alike n n' \<longleftrightarrow> n' = n\<lparr>nc_TargetRef := nc_TargetRef n', nc_Config := nc_Config n'\<rparr> \<and>
     ref_alike (nc_TargetRef n) (nc_TargetRef n') \<and>
     map_alike (\<lambda>_ _. True) (nc_Config n) (nc_Config n')"

definition config_alike :: "RuntimeConfig \<Rightarrow> RuntimeConfig \<Rightarrow> bool" where
  "config_alike c c' \<longleftrightarrow>
     c' = c\<lparr>cfg_Dashboards := cfg_Dashboards c', cfg_Logs := cfg_Logs c', cfg_Alerting := cfg_Alerting c',
       cfg_OpenTelemetry := cfg_OpenTelemetry c', cfg_NotificationChannels := cfg_NotificationChannels c',
       cfg_CredentialRefs := cfg_CredentialRefs c'\<rparr> \<and>
     endpoint_alike (cfg_Dashboards c) (cfg_Dashboards c') \<and> endpoint_alike (cfg_Logs c) (cfg_Logs c') \<and>
     endpoint_alike (cfg_Alerting c) (cfg_Alerting c') \<and>
     endpoint_alike (cfg_OpenTelemetry c) (cfg_OpenTelemetry c') \<and>
     list_all2 channel_alike (cfg_NotificationChannels c) (cfg_NotificationChannels c') \<and>
     list_all2 (rel_prod (=) (\<lambda>_ _. True)) (entries (cfg_CredentialRefs c)) (entries (cfg_CredentialRefs c'))"

lemma no_tabs_removeTabs: "no_tabs s \<Longrightarrow> removeTabsAndNewlines s = s"
  by (auto simp: no_tabs_def removeTabsAndNewlines_def)

lemma no_tabs_append [simp]: "no_tabs (s @ t) \<longleftrightarrow> no_tabs s \<and> no_tabs t"
  by (auto simp: no_tabs_def)

lemma no_tabs_Cons [simp]: "no_tabs (c # t) \<longleftrightarrow> byte c \<notin> {9, 10, 13} \<and> no_tabs t"
  by (auto simp: no_tabs_def)

lemma url_scheme_no_tabs: "url_scheme s \<Longrightarrow> no_tabs s"
  by (auto simp: url_scheme_def no_tabs_def ascii_letter_def ascii_digit_def byte_def)

lemma last_index_at: "CHR ''@'' \<notin> set t \<Longrightarrow>
    last_index_of (\<lambda>c. c = CHR ''@'') (s @ CHR ''@'' # t) = Some (length s)"
proof (induction s)
  case Nil
  then have "last_index_of (\<lambda>c. c = CHR ''@'') t = None" by (simp add: last_index_of_None) blast
  then show ?case by simp
qed simp

lemma takeWhile_subset: "(\<And>c. P c \<Longrightarrow> Q c) \<Longrightarrow> set (takeWhile P xs) \<subseteq> set (takeWhile Q xs)"
  by (induction xs) auto

lemma scheme_end:
  assumes "\<forall>c \<in> set s. ascii_letter c \<or> ascii_digit c \<or> c \<in> {CHR ''+'', CHR ''-'', CHR ''.''}"
    and "0 < k \<or> (s \<noteq> [] \<and> ascii_letter (hd s))"
  shows "schemeEnd_from k (s @ CHR '':'' # t) = Some (k + length s)"
  using assms
proof (induction s arbitrary: k)
  case Nil
  then show ?case by (auto simp: ascii_letter_def ascii_digit_def byte_def)
qed auto

lemma scheme_before_colon:
  "CHR '':'' \<notin> set s \<Longrightarrow>
     schemeEnd_from k (s @ CHR '':'' # t) = None \<or> schemeEnd_from k (s @ CHR '':'' # t) = Some (k + length s)"
proof (induction s arbitrary: k)
  case Nil
  then show ?case by (simp add: ascii_letter_def ascii_digit_def byte_def)
next
  case (Cons a s)
  with Cons.IH [of "Suc k"] show ?case by auto
qed

lemma index_at: "CHR '':'' \<notin> set s \<Longrightarrow> index_of (\<lambda>c. c = CHR '':'') (s @ CHR '':'' # t) = Some (length s)"
  by (induction s) auto

lemma authority_of_url:
  assumes "url_scheme s"
  shows "\<exists>d. authority_at (s @ ''://'' @ x) = Some (Suc (length s), d) \<and> set ''/?#'' \<subseteq> set d \<and>
    set d \<subseteq> {CHR ''/'', CHR 0x5C, CHR ''?'', CHR ''#''}"
proof -
  have "dropWhile is_c0_or_space (s @ ''://'' @ x) = s @ ''://'' @ x"
    using assms by (cases s) (auto simp: url_scheme_def is_c0_or_space_def ascii_letter_def)
  moreover have "schemeEnd (s @ ''://'' @ x) = Some (length s)"
    using scheme_end [of s 0 "''//'' @ x"] assms by (auto simp: schemeEnd_def url_scheme_def)
  ultimately show ?thesis
    by (auto simp: authority_at_def Let_def has_prefix_def)
qed

lemma userinfoSpan_url:
  assumes "url_scheme s" and "x \<noteq> [] \<longrightarrow> \<not> isSlash (hd x)"
  obtains d where "set ''/?#'' \<subseteq> set d" and "set d \<subseteq> {CHR ''/'', CHR 0x5C, CHR ''?'', CHR ''#''}"
    and "userinfoSpan (s @ ''://'' @ x) =
      (case last_index_of (\<lambda>c. c = CHR ''@'') (takeWhile (\<lambda>c. c \<notin> set d) x) of None \<Rightarrow> None
       | Some k \<Rightarrow> Some (length s + 3, length s + 3 + k + 1))"
proof -
  obtain d where d: "authority_at (s @ ''://'' @ x) = Some (Suc (length s), d)" "set ''/?#'' \<subseteq> set d"
      "set d \<subseteq> {CHR ''/'', CHR 0x5C, CHR ''?'', CHR ''#''}"
    using authority_of_url [OF assms(1)] by blast
  have "takeWhile isSlash x = []" using assms(2) by (cases x) auto
  then have t: "takeWhile isSlash (drop (Suc (length s)) (s @ ''://'' @ x)) = ''//''"
    by (simp add: isSlash_def)
  have "userinfoSpan (s @ ''://'' @ x) =
      (case last_index_of (\<lambda>c. c = CHR ''@'') (takeWhile (\<lambda>c. c \<notin> set d) x) of None \<Rightarrow> None
       | Some k \<Rightarrow> Some (length s + 3, length s + 3 + k + 1))"
    unfolding userinfoSpan_def d(1) option.case prod.case Let_def t by (simp split: option.split)
  with d(2,3) show thesis by (rule that)
qed

lemma no_at_in_authority:
  assumes "url_rest r" and "set ''/?#'' \<subseteq> set d"
  shows "CHR ''@'' \<notin> set (takeWhile (\<lambda>c. c \<notin> set d) r)"
  using assms takeWhile_subset [of "\<lambda>c. c \<notin> set d" "\<lambda>c. c \<notin> set ''/?#''" r]
  unfolding url_rest_def by blast

lemma strip_url_info:
  assumes "url_scheme s" and "url_userinfo info" and "url_rest r"
  shows "stripUserinfo (s @ ''://'' @ info @ ''@'' @ r) = s @ ''://'' @ r"
proof -
  have tabs: "no_tabs s" "no_tabs info" "no_tabs r"
    using assms by (auto simp: url_scheme_no_tabs url_userinfo_def url_rest_def)
  let ?x = "info @ ''@'' @ r"
  have "?x \<noteq> [] \<longrightarrow> \<not> isSlash (hd ?x)"
    using assms(2) by (cases info) (auto simp: url_userinfo_def isSlash_def)
  then obtain d where
      d: "set ''/?#'' \<subseteq> set d" "set d \<subseteq> {CHR ''/'', CHR 0x5C, CHR ''?'', CHR ''#''}"
    and sp: "userinfoSpan (s @ ''://'' @ ?x) =
      (case last_index_of (\<lambda>c. c = CHR ''@'') (takeWhile (\<lambda>c. c \<notin> set d) ?x) of None \<Rightarrow> None
       | Some k \<Rightarrow> Some (length s + 3, length s + 3 + k + 1))" by (rule userinfoSpan_url [OF assms(1)])
  have tw: "takeWhile (\<lambda>c. c \<notin> set d) ?x = info @ CHR ''@'' # takeWhile (\<lambda>c. c \<notin> set d) r"
    using assms(2) d(2) by (subst takeWhile_append2) (auto simp: url_userinfo_def)
  have "userinfoSpan (s @ ''://'' @ ?x) = Some (length s + 3, length s + 3 + length info + 1)"
    unfolding sp tw last_index_at [OF no_at_in_authority [OF assms(3) d(1)]] by simp
  moreover have "removeTabsAndNewlines (s @ ''://'' @ ?x) = s @ ''://'' @ ?x"
    using tabs by (intro no_tabs_removeTabs) (simp add: byte_def)
  moreover have "drop (length s + 3 + length info + 1) (s @ ''://'' @ ?x) = r"
    by (simp add: eval_nat_numeral)
  moreover have "take (length s + 3) (s @ ''://'' @ ?x) = s @ ''://''" by simp
  ultimately show "stripUserinfo (s @ ''://'' @ ?x) = s @ ''://'' @ r"
    by (simp only: stripUserinfo_def Let_def option.case prod.case append_assoc)
qed

lemma strip_url_plain:
  assumes "url_scheme s" and "url_rest r"
  shows "stripUserinfo (s @ ''://'' @ r) = s @ ''://'' @ r"
proof -
  have "r \<noteq> [] \<longrightarrow> \<not> isSlash (hd r)" using assms(2) by (simp add: url_rest_def)
  then obtain d where d: "set ''/?#'' \<subseteq> set d" "set d \<subseteq> {CHR ''/'', CHR 0x5C, CHR ''?'', CHR ''#''}"
    and sp: "userinfoSpan (s @ ''://'' @ r) =
      (case last_index_of (\<lambda>c. c = CHR ''@'') (takeWhile (\<lambda>c. c \<notin> set d) r) of None \<Rightarrow> None
       | Some k \<Rightarrow> Some (length s + 3, length s + 3 + k + 1))" by (rule userinfoSpan_url [OF assms(1)])
  from no_at_in_authority [OF assms(2) d(1)]
  have "last_index_of (\<lambda>c. c = CHR ''@'') (takeWhile (\<lambda>c. c \<notin> set d) r) = None"
    by (simp only: last_index_of_None) blast
  with sp have "userinfoSpan (s @ ''://'' @ r) = None" by simp
  moreover have "no_tabs (s @ ''://'' @ r)"
    using assms by (simp add: byte_def url_scheme_no_tabs url_rest_def)
  ultimately show ?thesis by (simp add: stripUserinfo_def no_tabs_removeTabs)
qed

lemma carries_strip: "carries u w \<Longrightarrow> stripUserinfo u = stripUserinfo w"
  by (induction rule: carries.induct) (simp_all add: strip_url_info [simplified] strip_url_plain [simplified])

lemma url_alike_strip: "url_alike u v \<Longrightarrow> stripUserinfo u = stripUserinfo v"
  using carries_strip by (auto simp: url_alike_def)

text \<open>A bare reference is cut after its credentials.\<close>

lemma bare_ref:
  assumes "bare_user user" and "url_userinfo pw" and "bare_rest r"
  shows "redactTargetRef (user @ '':'' @ pw @ ''@'' @ r) = r"
proof -
  let ?ref = "user @ '':'' @ pw @ ''@'' @ r" and ?P = "\<lambda>c. c \<notin> {CHR ''/'', CHR 0x5C, CHR ''?'', CHR ''#''}"
  have tabs: "removeTabsAndNewlines ?ref = ?ref"
    using assms by (intro no_tabs_removeTabs) (auto simp: bare_user_def url_userinfo_def bare_rest_def byte_def)
  have c0: "dropWhile is_c0_or_space ?ref = ?ref"
    using assms(1) by (cases user) (auto simp: bare_user_def is_c0_or_space_def byte_def)
  have colon: "schemeEnd ?ref = None \<or> schemeEnd ?ref = Some (length user)"
    using assms(1) scheme_before_colon [of user 0 "pw @ ''@'' @ r"] by (auto simp: schemeEnd_def bare_user_def)
  have nosl: "\<not> isSlash (?ref ! 0)" "\<not> has_prefix (drop (Suc (length user)) ?ref) ''//''"
    using assms(1,2) by (cases user; cases pw; auto simp: bare_user_def url_userinfo_def isSlash_def has_prefix_def)+
  have "authority_at ?ref = None"
    using colon nosl assms(1) c0 by (auto simp: authority_at_def Let_def bare_user_def)
  then have strip: "stripUserinfo ?ref = ?ref"
    unfolding stripUserinfo_def tabs by (simp add: userinfoSpan_def)
  have tw: "takeWhile ?P ?ref = (user @ '':'' @ pw) @ CHR ''@'' # takeWhile ?P r"
  proof -
    have "\<forall>c \<in> set (user @ '':'' @ pw). ?P c" using assms(1,2) by (auto simp: bare_user_def url_userinfo_def)
    then have "takeWhile ?P ((user @ '':'' @ pw) @ ''@'' @ r) = (user @ '':'' @ pw) @ takeWhile ?P (''@'' @ r)"
      by (intro takeWhile_append2) blast
    then show ?thesis by simp
  qed
  have li: "last_index_of (\<lambda>c. c = CHR ''@'') (takeWhile ?P ?ref) = Some (length user + 1 + length pw)"
    unfolding tw using assms(3) by (subst last_index_at) (simp_all add: bare_rest_def)
  have ix: "index_of (\<lambda>c. c = CHR '':'') (user @ CHR '':'' # pw) = Some (length user)"
    using assms(1) by (auto simp: bare_user_def intro: index_at)
  have "bareUserinfoEnd ?ref = Some (length user + 1 + length pw + 1)"
    unfolding bareUserinfoEnd_def Let_def tabs c0 li option.case
    using assms(1) by (simp add: tw [simplified] ix bare_user_def)
  then show ?thesis by (simp add: redactTargetRef_def strip [simplified])
qed

lemma ref_alike_redact: "ref_alike u v \<Longrightarrow> redactTargetRef u = redactTargetRef v"
proof (induction rule: ref_alike.induct)
  case (ref_url u v)
  then show ?case by (simp add: redactTargetRef_def url_alike_strip)
next
  case (ref_bare user pw user' pw' r)
  then show ?case using bare_ref by metis
qed

lemma map_alike_entries:
  "(\<And>u v. P u v \<Longrightarrow> f u = f v) \<Longrightarrow> map_alike P m m' \<Longrightarrow> map_entries f m = map_entries f m'"
  by (auto simp: map_alike_def map_entries_def option.rel_sel list_all2_conv_all_nth intro!: nth_equalityI
      split: prod.splits) (metis nth_mem rel_prod_inject)+

lemma map_alike_copy: "map_alike P m m' \<Longrightarrow> map_alike P (copyStringMap m) (copyStringMap m')"
  by (auto simp: map_alike_def copyStringMap_def split: option.splits)

lemma endpoint_alike_redact: "endpoint_alike e e' \<Longrightarrow> redactEndpoint e = redactEndpoint e'"
  using map_alike_entries [OF url_alike_strip map_alike_copy]
  by (auto simp: endpoint_alike_def redactEndpoint_def cloneEndpoint_def Let_def url_alike_strip)

lemma channel_alike_redact: "channel_alike n n' \<Longrightarrow> redactChannel n = redactChannel n'"
  using map_alike_entries [of "\<lambda>_ _. True" "\<lambda>_. redactedValue" "nc_Config n" "nc_Config n'"]
    ref_alike_redact [of "nc_TargetRef n" "nc_TargetRef n'"]
  by (cases n; cases n') (simp add: channel_alike_def redactChannel_def)

lemma keys_alike:
  "list_all2 (rel_prod (=) (\<lambda>_ _. True)) l l' \<Longrightarrow>
     map (\<lambda>(key, _). (key, v)) l = map (\<lambda>(key, _). (key, v)) l'"
  by (induction rule: list_all2_induct) auto

lemma config_alike_redact:
  assumes "config_alike c c'"
  shows "Redacted c = Redacted c'"
proof -
  have "map redactChannel (cfg_NotificationChannels c) = map redactChannel (cfg_NotificationChannels c')"
    using assms channel_alike_redact
    by (auto simp: config_alike_def list_all2_conv_all_nth intro!: nth_equalityI)
  then show ?thesis
    using assms endpoint_alike_redact keys_alike [of "entries (cfg_CredentialRefs c)" "entries (cfg_CredentialRefs c')"]
    by (cases c; cases c') (simp add: config_alike_def Redacted_def)
qed

text \<open>Redaction keeps everything a reader needs to tell the parts apart, and the secret references
  themselves with a mark.\<close>

definition shown_collector :: "CollectorRuntimeConfig \<Rightarrow> _" where
  "shown_collector c =
     (coll_ID c, coll_Kind c, coll_Enabled c, coll_Environment c, coll_TargetNames c, coll_ScrapeInterval c,
      map (\<lambda>t. (target_Name t, target_Probes t)) (coll_Targets c), coll_Probes c, coll_OutSystemsLogs c)"

lemma Redacted_keeps:
  "cfg_Version (Redacted cfg) = cfg_Version cfg \<and> cfg_Platform (Redacted cfg) = cfg_Platform cfg \<and>
   map shown_collector (cfg_Collectors (Redacted cfg)) = map shown_collector (cfg_Collectors cfg) \<and>
   map coll_CredentialRef (cfg_Collectors (Redacted cfg)) = map (redactRef \<circ> coll_CredentialRef) (cfg_Collectors cfg) \<and>
   map (\<lambda>n. (nc_ID n, nc_ChannelType n, map fst (entries (nc_Config n)))) (cfg_NotificationChannels (Redacted cfg)) =
     map (\<lambda>n. (nc_ID n, nc_ChannelType n, map fst (entries (nc_Config n)))) (cfg_NotificationChannels cfg) \<and>
   map fst (entries (cfg_CredentialRefs (Redacted cfg))) = map fst (entries (cfg_CredentialRefs cfg))"
  by (simp add: Redacted_def redactCollector_def redactChannel_def shown_collector_def comp_def split_beta)

lemma Redacted_urls:
  "ep_BaseURL (cfg_Dashboards (Redacted cfg)) = stripUserinfo (ep_BaseURL (cfg_Dashboards cfg)) \<and>
   ep_BaseURL (cfg_Logs (Redacted cfg)) = stripUserinfo (ep_BaseURL (cfg_Logs cfg)) \<and>
   ep_BaseURL (cfg_Alerting (Redacted cfg)) = stripUserinfo (ep_BaseURL (cfg_Alerting cfg)) \<and>
   ep_Endpoint (cfg_OpenTelemetry (Redacted cfg)) = stripUserinfo (ep_Endpoint (cfg_OpenTelemetry cfg))"
  by (simp add: Redacted_def redactEndpoint_def cloneEndpoint_def Let_def)

text \<open>C5: the diagnostics copy says nothing of the secrets in a configuration, accepted or not: two
  configurations that differ only in the userinfo (any, or none) of their endpoint URLs and URL
  templates, in the userinfo or the \<open>user:password@\<close> of a channel's target reference, in the
  settings of a channel and in the credential values have the same copy; and the copy keeps the
  version, the platform, the collectors with their targets and probes, their marked secret
  references, the channels with the names of their settings, and the names of the credentials.  The
  logs endpoint copied into a log collector is one of the fields kept, so it has to be equal.\<close>

theorem Redacted_hides_secrets:
  assumes "config_alike cfg cfg'"
  shows "Redacted cfg = Redacted cfg' \<and>
    cfg_Version (Redacted cfg) = cfg_Version cfg \<and> cfg_Platform (Redacted cfg) = cfg_Platform cfg \<and>
    map shown_collector (cfg_Collectors (Redacted cfg)) = map shown_collector (cfg_Collectors cfg) \<and>
    map coll_CredentialRef (cfg_Collectors (Redacted cfg)) = map (redactRef \<circ> coll_CredentialRef) (cfg_Collectors cfg) \<and>
    map (\<lambda>n. (nc_ID n, nc_ChannelType n, map fst (entries (nc_Config n)))) (cfg_NotificationChannels (Redacted cfg)) =
      map (\<lambda>n. (nc_ID n, nc_ChannelType n, map fst (entries (nc_Config n)))) (cfg_NotificationChannels cfg) \<and>
    map fst (entries (cfg_CredentialRefs (Redacted cfg))) = map fst (entries (cfg_CredentialRefs cfg))"
  using config_alike_redact [OF assms] Redacted_keeps [of cfg] by (rule conjI)

definition secret_endpoint :: "string \<Rightarrow> Endpoint" where
  "secret_endpoint info = \<lparr>ep_BaseURL = ''https://'' @ info @ ''@ops/x'', ep_Endpoint = [],
     ep_DashboardTemplates = Some [(''a'', ''https://'' @ info @ ''@ops/a'')], ep_DeepLinkTemplates = None\<rparr>"

definition secret_config :: "string \<Rightarrow> string \<Rightarrow> RuntimeConfig" where
  "secret_config info key = sample_config\<lparr>cfg_Logs := secret_endpoint info,
     cfg_NotificationChannels := [\<lparr>nc_ID = ''n'', nc_ChannelType = ''webhook'', nc_TargetRef = ''ops:'' @ info @ ''@hook'',
       nc_CredentialRef = ''kv/hook'', nc_Config = Some [(''key'', key)]\<rparr>],
     cfg_CredentialRefs := Some [(''kv/hook'', key)]\<rparr>"

lemma url_alike_refl: "url_alike u u"
  by (auto simp: url_alike_def intro: carries_same)

lemma endpoint_alike_refl: "endpoint_alike e e"
  by (auto simp: endpoint_alike_def map_alike_def url_alike_refl option.rel_refl list.rel_refl prod.rel_refl)

lemma secret_urls:
  "url_alike ''https://u:a@ops/x'' ''https://u:bb@ops/x''" "url_alike ''https://u:a@ops/a'' ''https://u:bb@ops/a''"
proof -
  have ok: "url_scheme ''https''" "url_userinfo ''u:a''" "url_userinfo ''u:bb''" "url_rest ''ops/x''" "url_rest ''ops/a''"
    by code_simp+
  show "url_alike ''https://u:a@ops/x'' ''https://u:bb@ops/x''"
    using carries_info [OF ok(1,2,4)] carries_info [OF ok(1,3,4)] unfolding url_alike_def by auto
  show "url_alike ''https://u:a@ops/a'' ''https://u:bb@ops/a''"
    using carries_info [OF ok(1,2,5)] carries_info [OF ok(1,3,5)] unfolding url_alike_def by auto
qed

lemma secret_configs_alike: "config_alike (secret_config ''u:a'' ''k1'') (secret_config ''u:bb'' ''k2'')"
proof -
  have ok: "bare_user ''ops''" "url_userinfo ''u:a''" "url_userinfo ''u:bb''" "bare_rest ''hook''" by code_simp+
  have "ref_alike ''ops:u:a@hook'' ''ops:u:bb@hook''"
    using ref_bare [OF ok(1,2,1,3,4)] by simp
  then show ?thesis
    using secret_urls endpoint_alike_refl url_alike_refl
    by (simp add: config_alike_def secret_config_def channel_alike_def map_alike_def endpoint_alike_def
        secret_endpoint_def)
qed

theorem Redacted_hides_secrets_witness:
  "Redacted (secret_config ''u:a'' ''k1'') = Redacted (secret_config ''u:bb'' ''k2'') \<and>
   ep_BaseURL (cfg_Logs (Redacted (secret_config ''u:a'' ''k1''))) = ''https://ops/x''"
proof
  show "Redacted (secret_config ''u:a'' ''k1'') = Redacted (secret_config ''u:bb'' ''k2'')"
    by (rule conjunct1 [OF Redacted_hides_secrets [OF secret_configs_alike]])
  show "ep_BaseURL (cfg_Logs (Redacted (secret_config ''u:a'' ''k1''))) = ''https://ops/x''" by code_simp
qed

text \<open>The comment on \<open>Redacted\<close> promises that userinfo is stripped from every URL-bearing field; the
  logs endpoint a log collector carries is left as it is.\<close>

lemma Redacted_leaves_logs_endpoint:
  "map (logs_LogsEndpoint \<circ> coll_OutSystemsLogs) (cfg_Collectors (Redacted cfg)) =
     map (logs_LogsEndpoint \<circ> coll_OutSystemsLogs) (cfg_Collectors cfg)"
  by (simp add: Redacted_def redactCollector_def)

end
