(* ===== verification/GoTime.thy ===== *)
theory GoTime
  imports GoStrings
begin

text \<open>
  What the collector uses of Go's package \<open>time\<close>.  A time is the number of nanoseconds since the zero
  time, midnight of 1 January of year 1; the calendar is the proleptic Gregorian one.  The theory
  holds truncation, Unix time and the formatting and parsing of wall clocks with the layout of the
  watermark files (\<open>wallLayout\<close> in \<open>watermark.go\<close>), \<open>2006-01-02T15:04:05.9999999\<close>.
\<close>

text \<open>\<open>Time.Sub\<close> saturates.\<close>

definition time_sub :: "gotime \<Rightarrow> gotime \<Rightarrow> duration" where
  "time_sub t u = max (- (2 ^ 63)) (min (2 ^ 63 - 1) (t - u))"

definition time_truncate :: "gotime \<Rightarrow> duration \<Rightarrow> gotime" where
  "time_truncate t d = t - t mod d"

lemma time_truncate_le: "0 < d \<Longrightarrow> time_truncate t d \<le> t \<and> t < time_truncate t d + d"
  using pos_mod_bound [of d t] pos_mod_sign [of d t] by (simp add: time_truncate_def)

lemma time_truncate_mono: "0 < d \<Longrightarrow> s \<le> t \<Longrightarrow> time_truncate s d \<le> time_truncate t d"
  by (simp add: time_truncate_def minus_mod_eq_mult_div zdiv_mono1)

lemma time_truncate_dvd: "d dvd time_truncate t d"
  by (simp add: time_truncate_def minus_mod_eq_mult_div)

text \<open>The Unix epoch, and \<open>Time.UnixNano\<close>, whose result is an \<open>int64\<close>.\<close>

definition unix_epoch :: gotime where "unix_epoch = 62135596800 * ns_second"

definition UnixNano :: "gotime \<Rightarrow> int" where "UnixNano t = int64 (t - unix_epoch)"

section \<open>Decimal numerals\<close>

definition digit :: "nat \<Rightarrow> char" where "digit n = char_of (48 + n)"

definition digit_value :: "char \<Rightarrow> nat option" where
  "digit_value c = (if 48 \<le> byte c \<and> byte c \<le> 57 then Some (byte c - 48) else None)"

lemma digit_value_digit [simp]: "n < 10 \<Longrightarrow> digit_value (digit n) = Some n"
  by (simp add: digit_value_def digit_def byte_def)

text \<open>The last \<open>w\<close> digits of a number, padded with zeros.\<close>

fun pad :: "nat \<Rightarrow> nat \<Rightarrow> string" where
  "pad 0 n = []"
| "pad (Suc w) n = pad w (n div 10) @ [digit (n mod 10)]"

text \<open>All digits of a number.\<close>

fun decimal :: "nat \<Rightarrow> string" where
  "decimal n = (if n < 10 then [digit n] else decimal (n div 10) @ [digit (n mod 10)])"

declare decimal.simps [simp del]

text \<open>\<open>appendInt\<close> of the package: at least \<open>w\<close> digits.\<close>

definition append_int :: "nat \<Rightarrow> nat \<Rightarrow> string" where
  "append_int w n = (if n < 10 ^ w then pad w n else decimal n)"

definition value_step :: "char \<Rightarrow> nat option \<Rightarrow> nat option" where
  "value_step c acc = (case (acc, digit_value c) of (Some a, Some d) \<Rightarrow> Some (10 * a + d) | _ \<Rightarrow> None)"

definition decimal_value :: "string \<Rightarrow> nat option" where
  "decimal_value s = fold value_step s (Some 0)"

lemma decimal_value_Nil [simp]: "decimal_value [] = Some 0"
  by (simp add: decimal_value_def)

lemma decimal_value_snoc:
  "decimal_value (s @ [c]) =
    (case (decimal_value s, digit_value c) of (Some a, Some d) \<Rightarrow> Some (10 * a + d) | _ \<Rightarrow> None)"
  by (simp add: decimal_value_def value_step_def)

lemma length_pad [simp]: "length (pad w n) = w"
  by (induction w arbitrary: n) auto

lemma decimal_value_pad: "n < 10 ^ w \<Longrightarrow> decimal_value (pad w n) = Some n"
proof (induction w arbitrary: n)
  case (Suc w)
  then have "n div 10 < 10 ^ w" by (simp add: less_mult_imp_div_less mult.commute)
  from Suc.IH [OF this] show ?case by (simp add: decimal_value_snoc)
qed simp

lemma pad_digits: "c \<in> set (pad w n) \<Longrightarrow> digit_value c \<noteq> None"
  by (induction w arbitrary: n) auto

lemma decimal_value_zeros: "decimal_value s = Some a \<Longrightarrow> decimal_value (s @ replicate j (CHR ''0'')) = Some (a * 10 ^ j)"
proof (induction j)
  case (Suc j)
  have "s @ replicate (Suc j) (CHR ''0'') = (s @ replicate j (CHR ''0'')) @ [CHR ''0'']"
    by (simp add: replicate_append_same)
  with Suc show ?case
    by (simp add: decimal_value_snoc digit_value_def byte_def del: append_assoc)
qed simp

section \<open>The calendar\<close>

definition leap :: "nat \<Rightarrow> bool" where
  "leap y \<longleftrightarrow> 4 dvd y \<and> (\<not> 100 dvd y \<or> 400 dvd y)"

definition year_days :: "nat \<Rightarrow> nat" where "year_days y = (if leap y then 366 else 365)"

definition month_days :: "nat \<Rightarrow> nat list" where
  "month_days y = [31, if leap y then 29 else 28, 31, 30, 31, 30, 31, 31, 30, 31, 30, 31]"

lemma sum_month_days: "sum_list (month_days y) = year_days y"
  by (simp add: month_days_def year_days_def)

text \<open>The year \<open>d\<close> days after the start of year \<open>y\<close>, and the days left in it.\<close>

function split_year :: "nat \<Rightarrow> nat \<Rightarrow> nat \<times> nat" where
  "split_year y d = (if d < year_days y then (y, d) else split_year (y + 1) (d - year_days y))"
  by auto
termination by (relation "measure snd") (auto simp: year_days_def split: if_splits)

declare split_year.simps [simp del]

text \<open>The month, counted from \<open>m\<close>, and the day of the month, counted from 0.\<close>

fun split_month :: "nat \<Rightarrow> nat list \<Rightarrow> nat \<Rightarrow> nat \<times> nat" where
  "split_month m [] d = (m, d)"
| "split_month m (n # ns) d = (if d < n then (m, d) else split_month (m + 1) ns (d - n))"

definition days_before_year :: "nat \<Rightarrow> nat" where
  "days_before_year y = sum_list (map year_days [1..<y])"

definition civil :: "nat \<Rightarrow> nat \<times> nat \<times> nat" where
  "civil days = (case split_year 1 days of (y, r) \<Rightarrow> case split_month 1 (month_days y) r of (m, d) \<Rightarrow> (y, m, d + 1))"

definition days_of :: "nat \<Rightarrow> nat \<Rightarrow> nat \<Rightarrow> nat" where
  "days_of y m d = days_before_year y + sum_list (take (m - 1) (month_days y)) + (d - 1)"

lemma split_year_spec:
  assumes "1 \<le> y" and "split_year y d = (y', r)"
  shows "y \<le> y' \<and> r < year_days y' \<and> days_before_year y' + r = days_before_year y + d"
  using assms
proof (induction y d rule: split_year.induct)
  case (1 y d)
  show ?case
  proof (cases "d < year_days y")
    case True
    with 1(3) show ?thesis by (simp add: split_year.simps)
  next
    case False
    from 1(3) False have "split_year (y + 1) (d - year_days y) = (y', r)" by (subst (asm) split_year.simps) simp
    from 1(1) [OF False _ this] 1(2) False show ?thesis
      by (simp add: days_before_year_def)
  qed
qed

lemma split_month_spec:
  assumes "d < sum_list ns" and "split_month m ns d = (m', r)"
  shows "m \<le> m' \<and> m' - m < length ns \<and> r < ns ! (m' - m) \<and> sum_list (take (m' - m) ns) + r = d"
  using assms
proof (induction m ns d rule: split_month.induct)
  case (2 m n ns d)
  show ?case
  proof (cases "d < n")
    case True
    with 2(3) show ?thesis by auto
  next
    case False
    with 2 have ih: "m + 1 \<le> m' \<and> m' - (m + 1) < length ns \<and> r < ns ! (m' - (m + 1)) \<and>
      sum_list (take (m' - (m + 1)) ns) + r = d - n" by simp
    then have "m + 1 \<le> m'" by blast
    then have "m' - m = Suc (m' - (m + 1))" by simp
    with ih False show ?thesis by auto
  qed
qed simp

lemma civil_spec:
  assumes "civil days = (y, m, d)"
  shows "1 \<le> y \<and> 1 \<le> m \<and> m \<le> 12 \<and> 1 \<le> d \<and> d \<le> month_days y ! (m - 1) \<and> days_of y m d = days"
proof -
  obtain y' r where y: "split_year 1 days = (y', r)" by (metis surj_pair)
  obtain m' d' where m: "split_month 1 (month_days y') r = (m', d')" by (metis surj_pair)
  have eq: "y = y'" "m = m'" "d = d' + 1" using assms y m by (simp_all add: civil_def)
  note ys = split_year_spec [OF _ y]
  from ys have "r < sum_list (month_days y')" by (simp add: sum_month_days)
  from split_month_spec [OF this m] ys show ?thesis
    by (auto simp: eq days_of_def month_days_def days_before_year_def)
qed

lemma month_days_le: "i < 12 \<Longrightarrow> month_days y ! i \<le> 31"
  by (auto simp: month_days_def less_Suc_eq nth_Cons' numeral_eq_Suc)

section \<open>Wall clocks as text\<close>

definition day_ns :: int where "day_ns = 24 * ns_hour"

definition strip_zeros :: "string \<Rightarrow> string" where
  "strip_zeros s = rev (dropWhile (\<lambda>c. c = CHR ''0'') (rev s))"

text \<open>Fractional seconds with layout \<open>.9999999\<close>: seven digits, without the zeros at the end.\<close>

definition format_frac :: "nat \<Rightarrow> string" where
  "format_frac ns = (let f = strip_zeros (pad 7 (ns div 100)) in if f = [] then [] else CHR ''.'' # f)"

definition format_wall :: "gotime \<Rightarrow> string" where
  "format_wall t =
     (case civil (nat (t div day_ns)) of (y, m, d) \<Rightarrow>
        let ns = nat (t mod day_ns); sec = ns div 1000000000 in
        append_int 4 y @ ''-'' @ append_int 2 m @ ''-'' @ append_int 2 d @ ''T'' @
        append_int 2 (sec div 3600) @ '':'' @ append_int 2 (sec div 60 mod 60) @ '':'' @ append_int 2 (sec mod 60) @
        format_frac (ns mod 1000000000))"

text \<open>Parsing: a number of exactly \<open>w\<close> digits, an hour of one or two digits, a literal character, and
  fractional seconds of any number of digits, nine of which count.\<close>

definition take_num :: "nat \<Rightarrow> string \<Rightarrow> (nat \<times> string) option" where
  "take_num w s = (if length s < w then None
     else case decimal_value (take w s) of None \<Rightarrow> None | Some n \<Rightarrow> Some (n, drop w s))"

definition take_hour :: "string \<Rightarrow> (nat \<times> string) option" where
  "take_hour s = (case take_num 2 s of None \<Rightarrow> take_num 1 s | Some r \<Rightarrow> Some r)"

definition skip :: "char \<Rightarrow> string \<Rightarrow> string option" where
  "skip c s = (case s of [] \<Rightarrow> None | x # xs \<Rightarrow> if x = c then Some xs else None)"

definition is_digit_char :: "char \<Rightarrow> bool" where "is_digit_char c \<longleftrightarrow> digit_value c \<noteq> None"

definition take_frac :: "string \<Rightarrow> nat \<times> string" where
  "take_frac s =
     (case s of
        p # c # _ \<Rightarrow>
          if (p = CHR ''.'' \<or> p = CHR '','') \<and> is_digit_char c then
            let f = take 9 (takeWhile is_digit_char (tl s)) in
            (the (decimal_value f) * 10 ^ (9 - length f), dropWhile is_digit_char (tl s))
          else (0, s)
      | _ \<Rightarrow> (0, s))"

definition days_since :: "nat \<Rightarrow> nat \<Rightarrow> nat \<Rightarrow> int" where
  "days_since y m d = (if y = 0 then -366 + int (days_of 0 m d) else int (days_of y m d))"

definition parse_wall :: "string \<Rightarrow> gotime option" where
  "parse_wall s =
     Option.bind (take_num 4 s) (\<lambda>(y, s). Option.bind (skip (CHR ''-'') s) (\<lambda>s.
     Option.bind (take_num 2 s) (\<lambda>(m, s). Option.bind (skip (CHR ''-'') s) (\<lambda>s.
     Option.bind (take_num 2 s) (\<lambda>(d, s). Option.bind (skip (CHR ''T'') s) (\<lambda>s.
     Option.bind (take_hour s) (\<lambda>(h, s). Option.bind (skip (CHR '':'') s) (\<lambda>s.
     Option.bind (take_num 2 s) (\<lambda>(mi, s). Option.bind (skip (CHR '':'') s) (\<lambda>s.
     Option.bind (take_num 2 s) (\<lambda>(sec, s).
       case take_frac s of (ns, s) \<Rightarrow>
         if s = [] \<and> 1 \<le> m \<and> m \<le> 12 \<and> 1 \<le> d \<and> d \<le> month_days y ! (m - 1) \<and> h < 24 \<and> mi < 60 \<and> sec < 60 then
           Some (days_since y m d * day_ns + int ((h * 60 + mi) * 60 + sec) * ns_second + int ns)
         else None)))))))))))"

lemma take_num_pad [simp]: "n < 10 ^ w \<Longrightarrow> take_num w (append_int w n @ s) = Some (n, s)"
  by (simp add: take_num_def append_int_def decimal_value_pad)

lemma take_hour_pad [simp]: "n < 100 \<Longrightarrow> take_hour (append_int 2 n @ s) = Some (n, s)"
  by (simp add: take_hour_def)

lemma skip_Cons [simp]: "skip c (c # s) = Some s"
  by (simp add: skip_def)

lemma strip_zeros_split: "\<exists>j. s = strip_zeros s @ replicate j (CHR ''0'')"
proof -
  let ?z = "takeWhile (\<lambda>c. c = CHR ''0'') (rev s)"
  have "?z = replicate (length ?z) (CHR ''0'')"
    by (rule sym, rule replicate_length_same) (auto dest: set_takeWhileD)
  moreover have "rev s = ?z @ dropWhile (\<lambda>c. c = CHR ''0'') (rev s)" by simp
  ultimately have "s = strip_zeros s @ replicate (length ?z) (CHR ''0'')"
    unfolding strip_zeros_def by (metis rev_append rev_replicate rev_rev_ident)
  then show ?thesis ..
qed

lemma take_frac_format:
  assumes "ns < 1000000000"
  shows "take_frac (format_frac ns) = (ns div 100 * 100, [])"
proof -
  let ?p = "pad 7 (ns div 100)"
  obtain j where j: "?p = strip_zeros ?p @ replicate j (CHR ''0'')" using strip_zeros_split by blast
  have digits: "c \<in> set (strip_zeros ?p) \<Longrightarrow> is_digit_char c" for c
    using pad_digits [of c 7 "ns div 100"] j unfolding is_digit_char_def by (metis UnCI set_append)
  have len: "length (strip_zeros ?p) + j = 7" using arg_cong [OF j, of length] by simp
  have v: "decimal_value ?p = Some (ns div 100)" using assms by (intro decimal_value_pad) simp
  obtain a where a: "decimal_value (strip_zeros ?p) = Some a"
  proof (cases "decimal_value (strip_zeros ?p)")
    case None
    have "decimal_value (strip_zeros ?p @ replicate k (CHR ''0'')) = None" for k
    proof (induction k)
      case (Suc k)
      have "strip_zeros ?p @ replicate (Suc k) (CHR ''0'') = (strip_zeros ?p @ replicate k (CHR ''0'')) @ [CHR ''0'']"
        by (simp add: replicate_append_same)
      with Suc show ?case by (simp add: decimal_value_snoc del: append_assoc)
    qed (simp add: None)
    with v j show ?thesis by (metis option.distinct(1))
  qed blast
  have val: "ns div 100 = a * 10 ^ j"
    using decimal_value_zeros [OF a, of j] v by (metis j option.inject)
  show ?thesis
  proof (cases "strip_zeros ?p")
    case Nil
    with a val show ?thesis by (simp add: format_frac_def take_frac_def)
  next
    case (Cons c cs)
    have len9: "9 - length (c # cs) = j + 2" using len unfolding Cons by simp
    have "length (c # cs) \<le> 9" using len unfolding Cons by simp
    have tw: "takeWhile is_digit_char cs = cs" "dropWhile is_digit_char cs = []"
      using digits unfolding Cons takeWhile_eq_all_conv dropWhile_eq_Nil_conv by simp_all
    moreover have "is_digit_char c" using digits unfolding Cons by simp
    ultimately show ?thesis
      using a val len9 unfolding format_frac_def Let_def take_frac_def Cons by (simp add: power_add tw)
  qed
qed

lemma time_parts:
  fixes sec :: nat
  shows "(sec div 3600 * 60 + sec div 60 mod 60) * 60 + sec mod 60 = sec"
proof -
  have "sec div 3600 = sec div 60 div 60" by (simp add: div_mult2_eq [symmetric])
  then have "sec div 3600 * 60 + sec div 60 mod 60 = sec div 60" by simp
  then show ?thesis by simp
qed

text \<open>Parsing a formatted wall clock gives it back to the 100 ns the layout holds.\<close>

lemma parse_format_wall:
  assumes "0 \<le> t" and "fst (civil (nat (t div day_ns))) < 10000"
  shows "parse_wall (format_wall t) = Some (time_truncate t 100)"
proof -
  obtain y m d where c: "civil (nat (t div day_ns)) = (y, m, d)" by (metis prod_cases3)
  note cs = civil_spec [OF c]
  have y: "y < 10000" using assms(2) c by simp
  have "m - 1 < 12" using cs by auto
  from month_days_le [OF this, of y] have dle: "d \<le> 31" using cs by linarith
  define ns where "ns = nat (t mod day_ns)"
  define sec where "sec = ns div 1000000000"
  have tmod: "0 \<le> t mod day_ns" "t mod day_ns < day_ns" by (simp_all add: day_ns_def ns_hour_def)
  have ns: "ns < 86400000000000" using tmod by (simp add: ns_def day_ns_def ns_hour_def)
  then have sec: "sec < 86400" by (simp add: sec_def)
  have h: "sec div 3600 < 24" "sec div 60 mod 60 < 60" "sec mod 60 < 60" using sec by simp_all
  have f: "take_frac (format_frac (ns mod 1000000000)) = (ns mod 1000000000 div 100 * 100, [])"
    by (rule take_frac_format) simp
  have days: "days_since y m d = t div day_ns"
    using cs assms(1) by (simp add: days_since_def day_ns_def ns_hour_def pos_imp_zdiv_nonneg_iff)
  have parsed: "parse_wall (format_wall t) = Some (t div day_ns * day_ns + int sec * ns_second + int (ns mod 1000000000 div 100 * 100))"
    using cs y dle h f time_parts [of sec] unfolding parse_wall_def format_wall_def c ns_def [symmetric]
    by (simp add: Let_def sec_def [symmetric] days)
  have parts: "int sec * ns_second + int (ns mod 1000000000 div 100 * 100) = int ns - int ns mod 100"
  proof -
    have "ns = sec * 1000000000 + ns mod 1000000000" by (simp add: sec_def)
    moreover have "ns mod 1000000000 div 100 * 100 = ns mod 1000000000 - ns mod 1000000000 mod 100"
      by (simp add: minus_mod_eq_div_mult)
    moreover have "ns mod 1000000000 mod 100 = ns mod 100" by (simp add: mod_mod_cancel)
    moreover have "ns mod 100 \<le> ns mod 1000000000" by (metis \<open>ns mod 1000000000 mod 100 = ns mod 100\<close> mod_less_eq_dividend)
    ultimately have "sec * 1000000000 + ns mod 1000000000 div 100 * 100 + ns mod 100 = ns" by linarith
    then have "int sec * 1000000000 + int (ns mod 1000000000 div 100 * 100) + int (ns mod 100) = int ns" by linarith
    then show ?thesis by (simp add: ns_second_def zmod_int)
  qed
  have p: "parse_wall (format_wall t) = Some (t div day_ns * day_ns + (int ns - int ns mod 100))"
    unfolding parsed add.assoc parts ..
  have n: "int ns = t mod day_ns" using tmod by (simp add: ns_def)
  moreover have "int ns mod 100 = t mod 100" unfolding n by (simp add: day_ns_def ns_hour_def mod_mod_cancel)
  moreover have "t div day_ns * day_ns + t mod day_ns = t" by simp
  ultimately have "t div day_ns * day_ns + (int ns - int ns mod 100) = t - t mod 100" by linarith
  with p show ?thesis by (simp add: time_truncate_def)
qed

end
