(* ===== verification/Float64.thy ===== *)
theory Float64
  imports Complex_Main Prelude
begin

text \<open>
  What the collectors use of Go's \<open>float64\<close>: a finite value is a rational number, arithmetic is exact
  and then rounded to 53 significant bits, ties to even, with the smallest exponent of a subnormal
  and overflow to infinity.  The sign of zero is not kept.  Operations are rounded one by one.
\<close>

fun ilog2 :: "nat \<Rightarrow> nat" where
  "ilog2 n = (if n < 2 then 0 else Suc (ilog2 (n div 2)))"

declare ilog2.simps [simp del]

lemma ilog2_bounds: "0 < n \<Longrightarrow> 2 ^ ilog2 n \<le> n \<and> n < 2 ^ Suc (ilog2 n)"
proof (induction n rule: ilog2.induct)
  case (1 n)
  show ?case
  proof (cases "n < 2")
    case True
    with 1(2) show ?thesis by (simp add: ilog2.simps [of n])
  next
    case False
    with 1(1) have "2 ^ ilog2 (n div 2) \<le> n div 2 \<and> n div 2 < 2 ^ Suc (ilog2 (n div 2))" by simp
    with False show ?thesis by (simp add: ilog2.simps [of n]) linarith
  qed
qed

lemma ilog2_less:
  assumes "n < 2 ^ Suc k"
  shows "ilog2 n \<le> k"
proof (cases "n = 0")
  case False
  with ilog2_bounds [of n] assms have "(2::nat) ^ ilog2 n < 2 ^ Suc k" by linarith
  then show ?thesis by (simp add: power_strict_increasing_iff del: power_Suc)
qed (simp add: ilog2.simps)

text \<open>The binary exponent of a positive number: \<open>2 ^ e \<le> x < 2 ^ (e + 1)\<close>.\<close>

definition exponent :: "rat \<Rightarrow> int" where
  "exponent x = (if 1 \<le> x then int (ilog2 (nat \<lfloor>x\<rfloor>)) else - int (Suc (ilog2 (nat (\<lceil>1 / x\<rceil> - 1)))))"

definition pow2 :: "int \<Rightarrow> rat" where
  "pow2 e = (if 0 \<le> e then 2 ^ nat e else 1 / 2 ^ nat (- e))"

lemma pow2_pos [simp]: "0 < pow2 e"
  by (simp add: pow2_def)

definition round_even :: "rat \<Rightarrow> int" where
  "round_even x =
     (let n = \<lfloor>x\<rfloor>; d = x - of_int n in
      if d < 1 / 2 then n else if 1 / 2 < d then n + 1 else if even n then n else n + 1)"

lemma round_even_ge: "of_int m \<le> x \<Longrightarrow> m \<le> round_even x"
proof -
  assume "of_int m \<le> x"
  then have "m \<le> \<lfloor>x\<rfloor>" by (simp add: le_floor_iff)
  then show ?thesis by (auto simp: round_even_def Let_def)
qed

lemma round_even_le:
  assumes "x \<le> of_int m"
  shows "round_even x \<le> m"
proof (cases "x = of_int m")
  case True
  then show ?thesis by (simp add: round_even_def)
next
  case False
  with assms have "\<lfloor>x\<rfloor> < m" by (simp add: floor_less_iff)
  then show ?thesis by (auto simp: round_even_def Let_def)
qed

definition round_pos :: "rat \<Rightarrow> rat" where
  "round_pos x = (let s = pow2 (min (52 - exponent x) 1074) in of_int (round_even (x * s)) / s)"

definition round64 :: "rat \<Rightarrow> rat" where
  "round64 x = (if x = 0 then 0 else if 0 < x then round_pos x else - round_pos (- x))"

text \<open>Rounding never crosses an integer of at most 53 bits.\<close>

lemma scale_int:
  assumes "0 < x" and "x < 2 ^ 53"
  shows "\<exists>k. pow2 (min (52 - exponent x) 1074) = of_int (2 ^ k)"
proof -
  have "exponent x \<le> 52"
  proof (cases "1 \<le> x")
    case True
    from assms(2) have "\<lfloor>x\<rfloor> < 2 ^ 53" by (simp add: floor_less_iff)
    then have "nat \<lfloor>x\<rfloor> < nat (2 ^ 53)" by (rule nat_mono_iff [THEN iffD2, rotated]) simp
    then have "nat \<lfloor>x\<rfloor> < 2 ^ Suc 52" by simp
    then have "ilog2 (nat \<lfloor>x\<rfloor>) \<le> 52" by (rule ilog2_less)
    with True show ?thesis by (simp add: exponent_def)
  qed (simp add: exponent_def)
  then have "0 \<le> min (52 - exponent x) 1074" by simp
  then show ?thesis unfolding pow2_def by (intro exI [of _ "nat (min (52 - exponent x) 1074)"]) simp
qed

lemma round_pos_ge:
  assumes "of_int n \<le> x" and "0 < x" and "n \<le> 2 ^ 53"
  shows "of_int n \<le> round_pos x"
proof (cases "x < 2 ^ 53")
  case True
  from scale_int [OF assms(2) True] obtain k
    where k: "pow2 (min (52 - exponent x) 1074) = of_int (2 ^ k)" ..
  have "of_int (n * 2 ^ k) \<le> x * of_int (2 ^ k)" using assms(1) by simp
  then have "n * 2 ^ k \<le> round_even (x * of_int (2 ^ k))" by (rule round_even_ge)
  then have "(of_int (n * 2 ^ k) :: rat) \<le> of_int (round_even (x * of_int (2 ^ k)))" by (simp only: of_int_le_iff)
  then show ?thesis unfolding round_pos_def Let_def k by (simp add: pos_le_divide_eq)
next
  case False
  define e where "e = ilog2 (nat \<lfloor>x\<rfloor>)"
  from False have x: "2 ^ 53 \<le> x" by simp
  then have fl: "(2::int) ^ 53 \<le> \<lfloor>x\<rfloor>" by (simp add: le_floor_iff)
  then have "nat \<lfloor>x\<rfloor> < 2 ^ Suc e" "(2::nat) ^ e \<le> nat \<lfloor>x\<rfloor>" "(2::nat) ^ 53 \<le> nat \<lfloor>x\<rfloor>"
    using ilog2_bounds [of "nat \<lfloor>x\<rfloor>"] by (simp_all add: e_def le_nat_iff)
  then have "(2::nat) ^ 53 < 2 ^ Suc e" by linarith
  then have "53 < Suc e" by (rule power_less_imp_less_exp [rotated]) simp
  then have e: "53 \<le> e" by simp
  have "(2::int) ^ e \<le> \<lfloor>x\<rfloor>" using \<open>2 ^ e \<le> nat \<lfloor>x\<rfloor>\<close> fl by (simp add: le_nat_iff)
  then have xe: "2 ^ e \<le> x" by (simp add: le_floor_iff)
  have ex: "exponent x = int e" using x by (simp add: exponent_def e_def)
  have s: "pow2 (min (52 - exponent x) 1074) = 1 / 2 ^ (e - 52)"
    using e unfolding ex by (simp add: pow2_def nat_diff_distrib)
  have p: "(2::rat) ^ e = 2 ^ 52 * 2 ^ (e - 52)" 
  proof -
    have "(2::rat) ^ e = 2 ^ (52 + (e - 52))" using e by simp
    then show ?thesis by (simp only: power_add)
  qed
  have "of_int (2 ^ 52) \<le> x * (1 / 2 ^ (e - 52))" using xe by (simp add: p pos_le_divide_eq)
  then have "2 ^ 52 \<le> round_even (x * (1 / 2 ^ (e - 52)))" by (rule round_even_ge)
  then have "(of_int (2 ^ 52) :: rat) \<le> of_int (round_even (x * (1 / 2 ^ (e - 52))))" by (simp only: of_int_le_iff)
  then have "2 ^ 52 * 2 ^ (e - 52) \<le> round_pos x" unfolding round_pos_def Let_def s
    by (simp add: mult_right_mono)
  moreover have "(2::rat) ^ 53 \<le> 2 ^ e" using e by (intro power_increasing) simp_all
  moreover have "(of_int n :: rat) \<le> 2 ^ 53" using assms(3) by (metis of_int_le_iff of_int_numeral of_int_power)
  ultimately show ?thesis by (simp add: p)
qed

lemma round_pos_le:
  assumes "x \<le> of_int n" and "0 < x" and "n < 2 ^ 53"
  shows "round_pos x \<le> of_int n"
proof -
  have "(of_int n :: rat) < 2 ^ 53" using assms(3) by (metis of_int_less_iff of_int_numeral of_int_power)
  with assms(1) have "x < 2 ^ 53" by simp
  from scale_int [OF assms(2) this] obtain k
    where k: "pow2 (min (52 - exponent x) 1074) = of_int (2 ^ k)" ..
  have "x * of_int (2 ^ k) \<le> of_int (n * 2 ^ k)" using assms(1) by simp
  then have "round_even (x * of_int (2 ^ k)) \<le> n * 2 ^ k" by (rule round_even_le)
  then have "(of_int (round_even (x * of_int (2 ^ k))) :: rat) \<le> of_int (n * 2 ^ k)" by (simp only: of_int_le_iff)
  then show ?thesis unfolding round_pos_def Let_def k by (simp add: pos_divide_le_eq)
qed

lemma round64_ge:
  assumes "of_int n \<le> x" and "0 \<le> n" and "n \<le> 2 ^ 53"
  shows "of_int n \<le> round64 x"
proof (cases "x = 0")
  case True
  with assms show ?thesis by (simp add: round64_def)
next
  case False
  have "(0 :: rat) \<le> of_int n" using assms(2) by simp
  with assms(1) False have "0 < x" by linarith
  with round_pos_ge [OF assms(1) _ assms(3)] show ?thesis by (simp add: round64_def)
qed

lemma round64_le:
  assumes "x \<le> of_int n" and "0 \<le> x" and "n < 2 ^ 53"
  shows "round64 x \<le> of_int n"
  using assms round_pos_le [of x n] by (cases "x = 0") (auto simp: round64_def)

lemma round64_int: "0 \<le> n \<Longrightarrow> n < 2 ^ 53 \<Longrightarrow> round64 (of_int n) = of_int n"
  by (intro order_antisym round64_le round64_ge) simp_all

section \<open>Values\<close>

datatype float64 = Finite rat | Infinity bool | NaN

definition fl :: "rat \<Rightarrow> float64" where
  "fl x = (let r = round64 x in if 2 ^ 1024 \<le> \<bar>r\<bar> then Infinity (0 < r) else Finite r)"

definition fl_int :: "int \<Rightarrow> float64" where
  "fl_int n = fl (of_int n)"

fun fl_mult :: "float64 \<Rightarrow> float64 \<Rightarrow> float64" where
  "fl_mult (Finite x) (Finite y) = fl (x * y)"
| "fl_mult (Finite x) (Infinity s) = (if x = 0 then NaN else Infinity ((0 < x) = s))"
| "fl_mult (Infinity s) (Finite x) = (if x = 0 then NaN else Infinity ((0 < x) = s))"
| "fl_mult (Infinity s) (Infinity t) = Infinity (s = t)"
| "fl_mult _ _ = NaN"

text \<open>The comparison \<open>v >= 0\<close>, false for NaN.\<close>

fun nonneg :: "float64 \<Rightarrow> bool" where
  "nonneg (Finite x) = (0 \<le> x)"
| "nonneg (Infinity s) = s"
| "nonneg NaN = False"

text \<open>\<open>Duration.Seconds\<close>: whole seconds plus the rest, each rounded.\<close>

definition seconds :: "duration \<Rightarrow> float64" where
  "seconds d =
     (let s = (if 0 \<le> d then d div ns_second else - ((- d) div ns_second)); r = d - s * ns_second in
      fl (round64 (of_int s) + round64 (round64 (of_int r) / 1000000000)))"

end
