(* ===== verification/Readiness.thy ===== *)
theory Readiness
  imports Reload ConfigRedact GoTime Float64
begin

text \<open>
  Readiness and the HTTP surface of the db-collector (\<open>app/app.go\<close>, \<open>app/admin.go\<close>): the rules that
  make the pod ready, the report of collectors and targets, the bearer token of the admin endpoints and
  the routes.  Reasons are values instead of texts; the text of a probe error, SHA-256 and the page the
  metrics registry serves are parameters.
\<close>

section \<open>The report\<close>

definition statusReady :: string where "statusReady = ''ready''"
definition statusNotReady :: string where "statusNotReady = ''not_ready''"

datatype readinessReason =
    NotReconciled
  | RollbackDiverged
  | PollerDown string phase nat
  | NoFirstCycle string
  | StaleCollector string duration duration

record probeReport =
  prr_Name :: string
  prr_State :: ProbeState
  prr_ConsecutiveFailures :: nat
  prr_NextAttempt :: "gotime option"
  prr_Error :: string

record targetReport =
  tgr_Name :: string
  tgr_State :: TargetState
  tgr_ConsecutiveFailures :: nat
  tgr_LastSuccess :: "gotime option"
  tgr_NextAttempt :: "gotime option"
  tgr_Error :: string
  tgr_Probes :: "probeReport list"

record collectorReport =
  cpr_ID :: string
  cpr_Phase :: phase
  cpr_Ready :: bool
  cpr_StartedAt :: gotime
  cpr_LastCycleFinished :: "gotime option"
  cpr_CycleAgeSeconds :: "float64 option"
  cpr_StaleAfterSeconds :: float64
  cpr_Restarts :: nat
  cpr_ConsecutiveCrashes :: nat
  cpr_NextRestart :: "gotime option"
  cpr_TargetsTotal :: nat
  cpr_TargetsOK :: nat
  cpr_TargetsFailed :: nat
  cpr_TargetsBackoff :: nat
  cpr_TargetsBlocked :: nat
  cpr_TargetsDegraded :: nat
  cpr_Targets :: "targetReport list"

record 'e readinessReport =
  rr_Status :: string
  rr_Reasons :: "readinessReason list"
  rr_ConfigVersion :: string
  rr_LastReloadAt :: gotime
  rr_LastReloadErr :: "'e reloadError option"
  rr_RuntimeDiverged :: bool
  rr_Collectors :: "collectorReport list"

definition httpStatus :: "'e readinessReport \<Rightarrow> nat" where
  "httpStatus r = (if rr_Status r = statusReady then 200 else 503)"

record 'e readinessInput =
  ri_initialized :: bool
  ri_warm :: bool
  ri_snapshot :: "'e Snapshot"
  ri_collectors :: "pollerEntry list"
  ri_grace :: duration
  ri_now :: gotime
  ri_withErrors :: bool

definition optionalTime :: "gotime \<Rightarrow> gotime option" where
  "optionalTime t = (if t = 0 then None else Some t)"

text \<open>\<open>error_text\<close> is the text of a joined error; nil gives none.\<close>

definition report_probe :: "(probeError list \<Rightarrow> string) \<Rightarrow> bool \<Rightarrow> ProbeResult \<Rightarrow> probeReport" where
  "report_probe error_text withErrors p =
     \<lparr>prr_Name = pr_Probe p, prr_State = pr_State p, prr_ConsecutiveFailures = pr_ConsecutiveFailures p,
      prr_NextAttempt = optionalTime (pr_NextAttempt p),
      prr_Error = (if withErrors \<and> pr_Err p \<noteq> [] then error_text (pr_Err p) else [])\<rparr>"

definition count_target :: "TargetState \<Rightarrow> collectorReport \<Rightarrow> collectorReport" where
  "count_target st r = (case st of
     TargetOK \<Rightarrow> r\<lparr>cpr_TargetsOK := cpr_TargetsOK r + 1\<rparr>
   | TargetFailed \<Rightarrow> r\<lparr>cpr_TargetsFailed := cpr_TargetsFailed r + 1\<rparr>
   | TargetBackoff \<Rightarrow> r\<lparr>cpr_TargetsBackoff := cpr_TargetsBackoff r + 1\<rparr>
   | TargetBlocked \<Rightarrow> r\<lparr>cpr_TargetsBlocked := cpr_TargetsBlocked r + 1\<rparr>
   | TargetDegraded \<Rightarrow> r\<lparr>cpr_TargetsDegraded := cpr_TargetsDegraded r + 1\<rparr>)"

definition add_target :: "(probeError list \<Rightarrow> string) \<Rightarrow> bool \<Rightarrow> TargetResult \<Rightarrow> collectorReport \<Rightarrow> collectorReport" where
  "add_target error_text withErrors t r =
     (let r = count_target (tr_State t) (r\<lparr>cpr_TargetsTotal := cpr_TargetsTotal r + 1\<rparr>) in
      r\<lparr>cpr_Targets := cpr_Targets r @
         [\<lparr>tgr_Name = tr_Target t, tgr_State = tr_State t, tgr_ConsecutiveFailures = tr_ConsecutiveFailures t,
           tgr_LastSuccess = optionalTime (tr_LastSuccess t), tgr_NextAttempt = optionalTime (tr_NextAttempt t),
           tgr_Error = (if withErrors \<and> tr_Err t \<noteq> [] then error_text (tr_Err t) else []),
           tgr_Probes = map (report_probe error_text withErrors) (tr_Probes t)\<rparr>]\<rparr>)"

definition addTargets :: "(probeError list \<Rightarrow> string) \<Rightarrow> TargetResult list \<Rightarrow> bool \<Rightarrow> collectorReport \<Rightarrow> collectorReport" where
  "addTargets error_text targets withErrors r = fold (add_target error_text withErrors) targets r"

section \<open>The rules\<close>

definition judged :: "phase \<Rightarrow> bool" where
  "judged p \<longleftrightarrow> p \<noteq> phaseDraining \<and> p \<noteq> phaseStopping \<and> p \<noteq> phaseRestarting"

definition staleAfter :: "'e readinessInput \<Rightarrow> pollerEntry \<Rightarrow> duration" where
  "staleAfter inp e = int64 (int64 (2 * coll_ScrapeInterval (pe_collector e)) + ri_grace inp)"

definition collectorReadiness :: "(probeError list \<Rightarrow> string) \<Rightarrow> pollerEntry \<Rightarrow> 'e readinessInput \<Rightarrow>
    collectorReport \<times> readinessReason option" where
  "collectorReadiness error_text st inp =
     (let cid = coll_ID (pe_collector st);
          limit = staleAfter inp st;
          report = \<lparr>cpr_ID = cid, cpr_Phase = pe_phase st, cpr_Ready = False, cpr_StartedAt = pe_started st,
            cpr_LastCycleFinished = None, cpr_CycleAgeSeconds = None, cpr_StaleAfterSeconds = seconds limit,
            cpr_Restarts = pe_restarts st, cpr_ConsecutiveCrashes = pe_crashes st, cpr_NextRestart = optionalTime (pe_nextRestart st),
            cpr_TargetsTotal = 0, cpr_TargetsOK = 0, cpr_TargetsFailed = 0, cpr_TargetsBackoff = 0, cpr_TargetsBlocked = 0,
            cpr_TargetsDegraded = 0, cpr_Targets = []\<rparr>;
          report = (if pe_hasCycle st then
              let finished = cr_Finished (pe_lastCycle st) in
              addTargets error_text (cr_Targets (pe_lastCycle st)) (ri_withErrors inp)
                (report\<lparr>cpr_LastCycleFinished := Some finished,
                  cpr_CycleAgeSeconds := Some (seconds (time_sub (ri_now inp) finished))\<rparr>)
            else report);
          reason =
            (if pe_phase st = phaseBackingOff \<or> pe_phase st = phaseFailed then Some (PollerDown cid (pe_phase st) (pe_crashes st))
             else if \<not> judged (pe_phase st) then None
             else if \<not> ri_warm inp \<and> \<not> pe_hasCycle st then Some (NoFirstCycle cid)
             else if pe_phase st = phaseRunning then
               let since = (if pe_hasCycle st \<and> cr_Finished (pe_lastCycle st) > pe_started st then cr_Finished (pe_lastCycle st)
                     else pe_started st);
                   idle = time_sub (ri_now inp) since in
               if idle > limit then Some (StaleCollector cid idle limit) else None
             else None) in
      (report\<lparr>cpr_Ready := (reason = None)\<rparr>, reason))"

text \<open>One turn of the loop over the collectors.\<close>

definition add_collector :: "(probeError list \<Rightarrow> string) \<Rightarrow> 'e readinessInput \<Rightarrow> pollerEntry \<Rightarrow>
    'e readinessReport \<times> bool \<Rightarrow> 'e readinessReport \<times> bool" where
  "add_collector error_text inp st = (\<lambda>(report, allCycled).
     case collectorReadiness error_text st inp of (collector, reason) \<Rightarrow>
       (report\<lparr>rr_Reasons := rr_Reasons report @ (case reason of None \<Rightarrow> [] | Some x \<Rightarrow> [x]),
          rr_Collectors := rr_Collectors report @ [collector]\<rparr>,
        if judged (pe_phase st) \<and> \<not> pe_hasCycle st then False else allCycled))"

definition evaluateReadiness :: "(probeError list \<Rightarrow> string) \<Rightarrow> 'e readinessInput \<Rightarrow> 'e readinessReport \<times> bool" where
  "evaluateReadiness error_text inp =
     (let snap = ri_snapshot inp;
          report = \<lparr>rr_Status = [], rr_Reasons = [], rr_ConfigVersion = cfg_Version (sn_Config snap),
            rr_LastReloadAt = sn_LastReloadAt snap, rr_LastReloadErr = sn_LastReloadErr snap,
            rr_RuntimeDiverged = sn_RuntimeDiverged snap, rr_Collectors = []\<rparr>;
          report = (if \<not> ri_initialized inp then report\<lparr>rr_Reasons := rr_Reasons report @ [NotReconciled]\<rparr> else report);
          report = (if sn_RuntimeDiverged snap then report\<lparr>rr_Reasons := rr_Reasons report @ [RollbackDiverged]\<rparr> else report);
          (report, allCycled) = fold (add_collector error_text inp) (ri_collectors inp) (report, True) in
      (report\<lparr>rr_Status := (if rr_Reasons report \<noteq> [] then statusNotReady else statusReady)\<rparr>, allCycled))"

section \<open>The service\<close>

record timeouts =
  to_reload :: duration
  to_rollback :: duration
  to_staleGrace :: duration

record adminAuth =
  au_enabled :: bool
  au_digest :: string

record startupWarning =
  sw_Code :: string
  sw_Message :: string

record service =
  sv_snapshot :: "lifecycleError Snapshot"
  sv_lifecycle :: pollerLifecycle
  sv_auth :: adminAuth
  sv_timeouts :: timeouts
  sv_warnings :: "startupWarning list"
  sv_initialized :: bool
  sv_warm :: bool
  sv_lastReady :: string

text \<open>What a request meets: the time, and for a reload its context, the lock, the candidate and the
  schedule of its steps.\<close>

record request_world =
  qw_now :: gotime
  qw_error_text :: "probeError list \<Rightarrow> string"
  qw_ctx :: op_context
  qw_withTimeout :: "op_context \<Rightarrow> duration \<Rightarrow> op_context"
  qw_sched :: "nat \<Rightarrow> nat \<Rightarrow> nat list"
  qw_acquired :: bool
  qw_loaded :: "(loadError, RuntimeConfig) result"
  qw_metrics :: string

definition logReadinessTransition :: "'e readinessReport \<Rightarrow> service \<Rightarrow> service" where
  "logReadinessTransition report s = s\<lparr>sv_lastReady := rr_Status report\<rparr>"

definition readiness :: "request_world \<Rightarrow> lifecycleError Snapshot \<Rightarrow> bool \<Rightarrow> service \<Rightarrow>
    service \<times> lifecycleError readinessReport" where
  "readiness w snap withErrors s =
     (case evaluateReadiness (qw_error_text w)
          \<lparr>ri_initialized = sv_initialized s, ri_warm = sv_warm s, ri_snapshot = snap, ri_collectors = states (sv_lifecycle s),
           ri_grace = to_staleGrace (sv_timeouts s), ri_now = qw_now w, ri_withErrors = withErrors\<rparr> of
        (report, allCycled) \<Rightarrow>
          (logReadinessTransition report (if sv_initialized s \<and> allCycled then s\<lparr>sv_warm := True\<rparr> else s), report))"

section \<open>Admin endpoints\<close>

definition newAdminAuth :: "(string \<Rightarrow> string) \<Rightarrow> string \<Rightarrow> adminAuth" where
  "newAdminAuth sha token =
     (let t = trim_space token in
      if t = [] then \<lparr>au_enabled = False, au_digest = []\<rparr> else \<lparr>au_enabled = True, au_digest = sha t\<rparr>)"

record request =
  rq_Method :: string
  rq_Path :: string
  rq_Authorization :: "string list"

definition authorized :: "(string \<Rightarrow> string) \<Rightarrow> adminAuth \<Rightarrow> request \<Rightarrow> bool" where
  "authorized sha a r =
     (if \<not> au_enabled a then False
      else case rq_Authorization r of
        [value] \<Rightarrow>
          (case index_of (\<lambda>c. c = CHR '' '') value of
             None \<Rightarrow> False
           | Some i \<Rightarrow>
               let scheme = take i value; token = drop (Suc i) value in
               if \<not> equal_fold_ascii scheme ''bearer'' \<or> token = [] then False
               else sha token = au_digest a)
      | _ \<Rightarrow> False)"

record adminConfigResponse =
  ac_Version :: string
  ac_LoadedAt :: gotime
  ac_LastReloadAt :: gotime
  ac_LastReloadErr :: "lifecycleError reloadError option"
  ac_RuntimeDiverged :: bool
  ac_RollbackErr :: "lifecycleError applyError option"
  ac_Warnings :: "startupWarning list"
  ac_Readiness :: "lifecycleError readinessReport"
  ac_Config :: RuntimeConfig

datatype reloadResult = reloadNotReady | reloadOK | reloadInvalidCandidate | reloadBusy | reloadApplyFailed

definition reload_result :: "'e reloadError option \<Rightarrow> reloadResult" where
  "reload_result err = (case err of
     None \<Rightarrow> reloadOK
   | Some (ErrInvalidCandidate _) \<Rightarrow> reloadInvalidCandidate
   | Some ErrReloadBusy \<Rightarrow> reloadBusy
   | Some (ErrReloadApply _) \<Rightarrow> reloadApplyFailed)"

datatype responseError = ReconcileIncomplete | ReloadFailed "lifecycleError reloadError"

record reloadResponse =
  rl_Result :: reloadResult
  rl_Error :: "responseError option"
  rl_RolledBack :: "bool option"
  rl_Summary :: reloadSummary
  rl_Readiness :: "lifecycleError readinessReport"

datatype body = NoBody | TextBody string | StatusBody string | ConfigBody adminConfigResponse | ReloadBody reloadResponse

record reply =
  rp_Status :: nat
  rp_Headers :: "(string \<times> string) list"
  rp_Body :: body

definition write_json :: "nat \<Rightarrow> body \<Rightarrow> reply" where
  "write_json status b = \<lparr>rp_Status = status, rp_Headers = [(''Content-Type'', ''application/json'')], rp_Body = b\<rparr>"

type_synonym handler = "request_world \<Rightarrow> request \<Rightarrow> service \<Rightarrow> service \<times> reply"

definition requireAdmin :: "(string \<Rightarrow> string) \<Rightarrow> string \<Rightarrow> handler \<Rightarrow> handler" where
  "requireAdmin sha method nxt w r s =
     (if \<not> authorized sha (sv_auth s) r then
        (s, \<lparr>rp_Status = 401, rp_Headers = [(''Cache-Control'', ''no-store''),
           (''WWW-Authenticate'', ''Bearer realm=\"heartbeat-db-collector\"'')], rp_Body = NoBody\<rparr>)
      else if rq_Method r \<noteq> method then
        (s, \<lparr>rp_Status = 405, rp_Headers = [(''Cache-Control'', ''no-store''), (''Allow'', method)], rp_Body = NoBody\<rparr>)
      else case nxt w r s of (s', rp) \<Rightarrow> (s', rp\<lparr>rp_Headers := (''Cache-Control'', ''no-store'') # rp_Headers rp\<rparr>))"

definition handleConfig :: handler where
  "handleConfig w r s =
     (let snap = sv_snapshot s in
      case readiness w snap True s of (s, report) \<Rightarrow>
        (s, write_json 200 (ConfigBody
          \<lparr>ac_Version = cfg_Version (sn_Config snap), ac_LoadedAt = sn_LoadedAt snap, ac_LastReloadAt = sn_LastReloadAt snap,
           ac_LastReloadErr = sn_LastReloadErr snap, ac_RuntimeDiverged = sn_RuntimeDiverged snap, ac_RollbackErr = sn_RollbackErr snap,
           ac_Warnings = sv_warnings s, ac_Readiness = report, ac_Config = Redacted (sn_Config snap)\<rparr>)))"

definition no_summary :: reloadSummary where
  "no_summary = \<lparr>rs_Added = 0, rs_Updated = 0, rs_Removed = 0, rs_Unchanged = 0, rs_Restarted = 0\<rparr>"

definition handleReload :: handler where
  "handleReload w r s =
     (if \<not> sv_initialized s then
        (case readiness w (sv_snapshot s) True s of (s, report) \<Rightarrow>
          (s, write_json 503 (ReloadBody \<lparr>rl_Result = reloadNotReady, rl_Error = Some ReconcileIncomplete, rl_RolledBack = None,
            rl_Summary = no_summary, rl_Readiness = report\<rparr>)))
      else case reload (qw_sched w) (qw_withTimeout w) (qw_withTimeout w (qw_ctx w) (to_reload (sv_timeouts s)))
          (to_rollback (sv_timeouts s)) (qw_acquired w) (qw_loaded w) (sv_snapshot s) (sv_lifecycle s) of
        (snap, (l, summary), err) \<Rightarrow>
          let s = s\<lparr>sv_snapshot := snap, sv_lifecycle := l\<rparr> in
          (case readiness w snap True s of (s, report) \<Rightarrow>
            (case reload_response True err of (status, rolledBack) \<Rightarrow>
              (s, write_json status (ReloadBody \<lparr>rl_Result = reload_result err, rl_Error = map_option ReloadFailed err, rl_RolledBack = rolledBack,
                rl_Summary = summary, rl_Readiness = report\<rparr>)))))"

definition handleReady :: handler where
  "handleReady w r s =
     (case readiness w (sv_snapshot s) False s of (s, report) \<Rightarrow> (s, write_json (httpStatus report) (StatusBody (rr_Status report))))"

definition handleHealth :: handler where
  "handleHealth w r s = (s, \<lparr>rp_Status = 200, rp_Headers = [], rp_Body = TextBody ''ok''\<rparr>)"

text \<open>The mux: exact paths; it answers any other itself.\<close>

definition routes :: "(string \<Rightarrow> string) \<Rightarrow> handler" where
  "routes sha w r s =
     (if rq_Path r = ''/metrics'' then (s, \<lparr>rp_Status = 200, rp_Headers = [], rp_Body = TextBody (qw_metrics w)\<rparr>)
      else if rq_Path r = ''/healthz'' \<or> rq_Path r = ''/healthcheck'' then handleHealth w r s
      else if rq_Path r = ''/readyz'' then handleReady w r s
      else if rq_Path r = ''/admin/config'' then requireAdmin sha ''GET'' handleConfig w r s
      else if rq_Path r = ''/admin/config/reload'' then requireAdmin sha ''POST'' handleReload w r s
      else (s, \<lparr>rp_Status = 404, rp_Headers = [], rp_Body = NoBody\<rparr>))"

section \<open>What readiness means\<close>

definition collector_fine :: "'e readinessInput \<Rightarrow> pollerEntry \<Rightarrow> bool" where
  "collector_fine inp e \<longleftrightarrow> pe_phase e \<noteq> phaseBackingOff \<and> pe_phase e \<noteq> phaseFailed \<and>
     (judged (pe_phase e) \<longrightarrow> (ri_warm inp \<or> pe_hasCycle e) \<and>
       (pe_phase e = phaseRunning \<longrightarrow>
         time_sub (ri_now inp) (if pe_hasCycle e then max (pe_started e) (cr_Finished (pe_lastCycle e)) else pe_started e)
           \<le> staleAfter inp e))"

definition all_fine :: "'e readinessInput \<Rightarrow> bool" where
  "all_fine inp \<longleftrightarrow> ri_initialized inp \<and> \<not> sn_RuntimeDiverged (ri_snapshot inp) \<and> list_all (collector_fine inp) (ri_collectors inp)"

definition cycled :: "pollerEntry \<Rightarrow> bool" where
  "cycled e \<longleftrightarrow> judged (pe_phase e) \<longrightarrow> pe_hasCycle e"

definition counts_add_up :: "collectorReport \<Rightarrow> bool" where
  "counts_add_up r \<longleftrightarrow> cpr_TargetsTotal r = length (cpr_Targets r) \<and>
     cpr_TargetsTotal r = cpr_TargetsOK r + cpr_TargetsFailed r + cpr_TargetsBackoff r + cpr_TargetsBlocked r + cpr_TargetsDegraded r"

lemma collectorReadiness_reason: "snd (collectorReadiness error_text e inp) = None \<longleftrightarrow> collector_fine inp e"
  by (auto simp: collectorReadiness_def collector_fine_def Let_def max_def not_less)

lemma collectorReadiness_ready: "cpr_Ready (fst (collectorReadiness error_text e inp)) \<longleftrightarrow> snd (collectorReadiness error_text e inp) = None"
  by (simp add: collectorReadiness_def Let_def)

lemma addTargets_counts: "counts_add_up r \<Longrightarrow> counts_add_up (addTargets error_text ts withErrors r)"
  unfolding addTargets_def
proof (induction ts arbitrary: r)
  case (Cons t ts)
  have "counts_add_up (add_target error_text withErrors t r)"
    using Cons.prems by (cases "tr_State t") (simp_all add: add_target_def count_target_def counts_add_up_def Let_def)
  with Cons.IH show ?case by simp
qed simp

lemma collectorReadiness_counts: "counts_add_up (fst (collectorReadiness error_text e inp))"
proof -
  have "counts_add_up (r\<lparr>cpr_Ready := b\<rparr>) = counts_add_up r" for r b by (simp add: counts_add_up_def)
  moreover have "counts_add_up r" if "cpr_TargetsTotal r = 0" "cpr_TargetsOK r = 0" "cpr_TargetsFailed r = 0" "cpr_TargetsBackoff r = 0"
    "cpr_TargetsBlocked r = 0" "cpr_TargetsDegraded r = 0" "cpr_Targets r = []" for r
    using that by (simp add: counts_add_up_def)
  ultimately show ?thesis by (simp add: collectorReadiness_def Let_def addTargets_counts)
qed

lemma fold_collectors:
  fixes report :: "'e readinessReport"
  assumes "fold (add_collector error_text inp) es (report, a) = (report', b)"
  shows "(rr_Reasons report' = [] \<longleftrightarrow> rr_Reasons report = [] \<and> list_all (collector_fine inp) es) \<and>
    map cpr_Ready (rr_Collectors report') = map cpr_Ready (rr_Collectors report) @ map (collector_fine inp) es \<and>
    (list_all counts_add_up (rr_Collectors report) \<longrightarrow> list_all counts_add_up (rr_Collectors report')) \<and>
    (b \<longleftrightarrow> a \<and> list_all cycled es)"
  using assms
proof (induction es arbitrary: report a)
  case (Cons e es)
  obtain c reason where cr: "collectorReadiness error_text e inp = (c, reason)" by fastforce
  have c: "cpr_Ready c = collector_fine inp e" "(reason = None) = collector_fine inp e" "counts_add_up c"
    using collectorReadiness_ready [of error_text e inp] collectorReadiness_reason [of error_text e inp]
      collectorReadiness_counts [of error_text e inp] by (simp_all add: cr)
  let ?r = "report\<lparr>rr_Reasons := rr_Reasons report @ (case reason of None \<Rightarrow> [] | Some x \<Rightarrow> [x]), rr_Collectors := rr_Collectors report @ [c]\<rparr>"
  let ?a = "if judged (pe_phase e) \<and> \<not> pe_hasCycle e then False else a"
  have step: "add_collector error_text inp e (report, a) = (?r, ?a)" by (simp add: add_collector_def cr)
  have "(rr_Reasons ?r = []) = (rr_Reasons report = [] \<and> collector_fine inp e)" using c(2) by (auto split: option.splits)
  with Cons.IH [OF Cons.prems [unfolded fold_simps step]] c(1,3) show ?case by (auto simp: cycled_def)
qed simp

text \<open>C13: the pod is ready exactly when the initial reconcile is done, the runtime has not diverged and
  every collector does its job: none crashed, each judged one warm and not stale.  Failing targets never
  matter.  Each collector's own flag says whether it is the cause, its target counts add up, and warm-up
  ends when every judged collector has cycled.\<close>

theorem readiness_iff:
  "case evaluateReadiness error_text inp of (report, allCycled) \<Rightarrow>
     (httpStatus report = 200) = all_fine inp \<and>
     map cpr_Ready (rr_Collectors report) = map (collector_fine inp) (ri_collectors inp) \<and>
     list_all counts_add_up (rr_Collectors report) \<and>
     allCycled = list_all cycled (ri_collectors inp)"
proof -
  define r where "r = \<lparr>rr_Status = [], rr_Reasons = (if ri_initialized inp then [] else [NotReconciled]) @
      (if sn_RuntimeDiverged (ri_snapshot inp) then [RollbackDiverged] else []),
    rr_ConfigVersion = cfg_Version (sn_Config (ri_snapshot inp)), rr_LastReloadAt = sn_LastReloadAt (ri_snapshot inp),
    rr_LastReloadErr = sn_LastReloadErr (ri_snapshot inp), rr_RuntimeDiverged = sn_RuntimeDiverged (ri_snapshot inp), rr_Collectors = []\<rparr>"
  obtain r' b where f: "fold (add_collector error_text inp) (ri_collectors inp) (r, True) = (r', b)" by fastforce
  have e: "evaluateReadiness error_text inp =
      (r'\<lparr>rr_Status := (if rr_Reasons r' \<noteq> [] then statusNotReady else statusReady)\<rparr>, b)"
    using f by (auto simp: evaluateReadiness_def Let_def r_def split: if_splits)
  have g: "rr_Reasons r' = [] \<longleftrightarrow> rr_Reasons r = [] \<and> list_all (collector_fine inp) (ri_collectors inp)"
    "map cpr_Ready (rr_Collectors r') = map cpr_Ready (rr_Collectors r) @ map (collector_fine inp) (ri_collectors inp)"
    "list_all counts_add_up (rr_Collectors r')" "b \<longleftrightarrow> list_all cycled (ri_collectors inp)"
    using fold_collectors [OF f] by (auto simp: r_def)
  have "rr_Reasons r' = [] \<longleftrightarrow> all_fine inp" using g(1) by (simp add: r_def all_fine_def)
  with g show ?thesis by (auto simp: e r_def httpStatus_def statusReady_def statusNotReady_def)
qed

section \<open>What a request can learn\<close>

definition presents :: "request \<Rightarrow> string \<Rightarrow> bool" where
  "presents r tok \<longleftrightarrow> tok \<noteq> [] \<and>
     (\<exists>scheme. rq_Authorization r = [scheme @ '' '' @ tok] \<and> equal_fold_ascii scheme ''bearer'')"

lemma authorized_presents:
  assumes "authorized sha (newAdminAuth sha token) r"
  shows "\<exists>tok. presents r tok \<and> sha tok = sha (trim_space token) \<and> trim_space token \<noteq> []"
proof -
  from assms have t: "trim_space token \<noteq> []" by (auto simp: authorized_def newAdminAuth_def Let_def split: if_splits)
  with assms obtain v i where v: "rq_Authorization r = [v]" "index_of (\<lambda>c. c = CHR '' '') v = Some i"
    "equal_fold_ascii (take i v) ''bearer''" "drop (Suc i) v \<noteq> []" "sha (drop (Suc i) v) = sha (trim_space token)"
    by (auto simp: authorized_def newAdminAuth_def Let_def split: list.splits option.splits if_splits)
  have "v = take i v @ '' '' @ drop (Suc i) v"
    using index_of_SomeD [OF v(2)] id_take_nth_drop [of i v] by simp
  with v t show ?thesis unfolding presents_def by (intro exI [of _ "drop (Suc i) v"]) auto
qed

definition refused :: reply where
  "refused = \<lparr>rp_Status = 401, rp_Headers = [(''Cache-Control'', ''no-store''),
     (''WWW-Authenticate'', ''Bearer realm=\"heartbeat-db-collector\"'')], rp_Body = NoBody\<rparr>"

definition admin_path :: "string \<Rightarrow> bool" where
  "admin_path p \<longleftrightarrow> p = ''/admin/config'' \<or> p = ''/admin/config/reload''"

text \<open>What a body may show to whoever gets it.\<close>

definition public_body :: "body \<Rightarrow> bool" where
  "public_body b = (case b of StatusBody st \<Rightarrow> st = statusReady \<or> st = statusNotReady | NoBody \<Rightarrow> True | TextBody _ \<Rightarrow> True | _ \<Rightarrow> False)"

definition admin_body :: "body \<Rightarrow> bool" where
  "admin_body b = (case b of ConfigBody c \<Rightarrow> showable (ac_Config c) | ReloadBody _ \<Rightarrow> True | NoBody \<Rightarrow> True | _ \<Rightarrow> False)"

lemma readiness_status: "rr_Status (snd (readiness w snap e s)) = statusReady \<or> rr_Status (snd (readiness w snap e s)) = statusNotReady"
  by (simp add: readiness_def evaluateReadiness_def Let_def split_beta)

lemma refused_unless_authorized:
  assumes "admin_path (rq_Path r)" and "\<not> authorized sha (sv_auth s) r"
  shows "routes sha w r s = (s, refused)"
  using assms by (auto simp: routes_def admin_path_def requireAdmin_def refused_def)

lemma public_routes: "\<not> admin_path (rq_Path r) \<Longrightarrow> public_body (rp_Body (snd (routes sha w r s)))"
  using readiness_status [of w "sv_snapshot s" False s]
  by (auto simp: routes_def admin_path_def public_body_def handleHealth_def handleReady_def write_json_def split: prod.splits)

lemma admin_routes:
  assumes "admin_path (rq_Path r)" and "showable (Redacted (sn_Config (sv_snapshot s)))"
  shows "admin_body (rp_Body (snd (routes sha w r s)))"
proof -
  have "admin_body (rp_Body (snd (handleConfig w r s)))" "admin_body (rp_Body (snd (handleReload w r s)))"
    using assms(2) by (auto simp: handleConfig_def handleReload_def admin_body_def write_json_def Let_def split: prod.splits)
  then show ?thesis using assms(1) by (auto simp: routes_def admin_path_def requireAdmin_def admin_body_def split: prod.splits)
qed

text \<open>C14: the HTTP surface is closed: a request to an admin path that does not present the configured
  token, or any such request while none is configured, gets one fixed refusal that depends on nothing and
  changes nothing; paths without authentication show at most the readiness status, the health text and
  the metrics page; and what an authenticated request sees of an accepted configuration carries no
  credential.\<close>

theorem http_closed:
  assumes "sv_auth s = newAdminAuth sha token" and "valid_config env (sn_Config (sv_snapshot s))"
  shows "if admin_path (rq_Path r) then
      (if \<exists>tok. presents r tok \<and> sha tok = sha (trim_space token) \<and> trim_space token \<noteq> []
       then admin_body (rp_Body (snd (routes sha w r s)))
       else routes sha w r s = (s, refused))
    else public_body (rp_Body (snd (routes sha w r s)))"
  using public_routes [of r sha w s] admin_routes [OF _ Redacted_shown [OF assms(2)], of r sha w]
    refused_unless_authorized [of r sha s w] authorized_presents [of sha token r] assms(1)
  by auto

text \<open>A service with the token \<open>t0ken\<close>: a request without it is refused, a request with it sees the
  configuration with its credentials masked.\<close>

definition example_service :: service where
  "example_service = \<lparr>sv_snapshot = fresh_snapshot sample_config 0, sv_lifecycle = newPollerLifecycle,
     sv_auth = newAdminAuth (\<lambda>s. s) ''t0ken'', sv_timeouts = \<lparr>to_reload = 0, to_rollback = 0, to_staleGrace = 0\<rparr>, sv_warnings = [],
     sv_initialized = True, sv_warm = False, sv_lastReady = []\<rparr>"

theorem http_closed_witness:
  "\<forall>w. routes (\<lambda>s. s) w \<lparr>rq_Method = ''GET'', rq_Path = ''/admin/config'', rq_Authorization = []\<rparr> example_service =
     (example_service, refused) \<and>
   admin_body (rp_Body (snd (routes (\<lambda>s. s) w \<lparr>rq_Method = ''GET'', rq_Path = ''/admin/config'',
     rq_Authorization = [''Bearer t0ken'']\<rparr> example_service)))"
proof
  fix w
  have a: "sv_auth example_service = newAdminAuth (\<lambda>s. s) ''t0ken''" by (simp add: example_service_def)
  have v: "valid_config sample_env (sn_Config (sv_snapshot example_service))"
    using sample_config_valid by (simp add: example_service_def fresh_snapshot_def)
  have t: "trim_space ''t0ken'' = ''t0ken''" by code_simp
  have n: "\<not> presents \<lparr>rq_Method = ''GET'', rq_Path = ''/admin/config'', rq_Authorization = []\<rparr> tok" for tok by (simp add: presents_def)
  have "equal_fold_ascii ''Bearer'' ''bearer''" by code_simp
  then have p: "presents \<lparr>rq_Method = ''GET'', rq_Path = ''/admin/config'', rq_Authorization = [''Bearer t0ken'']\<rparr> ''t0ken''"
    unfolding presents_def by (intro conjI exI [of _ "''Bearer''"]) simp_all
  show "routes (\<lambda>s. s) w \<lparr>rq_Method = ''GET'', rq_Path = ''/admin/config'', rq_Authorization = []\<rparr> example_service =
     (example_service, refused) \<and>
   admin_body (rp_Body (snd (routes (\<lambda>s. s) w \<lparr>rq_Method = ''GET'', rq_Path = ''/admin/config'',
     rq_Authorization = [''Bearer t0ken'']\<rparr> example_service)))"
    using http_closed [OF a v, of "\<lparr>rq_Method = ''GET'', rq_Path = ''/admin/config'', rq_Authorization = []\<rparr>" w] n
      http_closed [OF a v, of "\<lparr>rq_Method = ''GET'', rq_Path = ''/admin/config'', rq_Authorization = [''Bearer t0ken'']\<rparr>" w] p t
    by (auto simp: admin_path_def)
qed

end
