(* ===== verification/ProbeTypes.thy ===== *)
theory ProbeTypes
  imports Float64 CycleTypes
begin

text \<open>
  The data that flows between configuration, collection and export (packages \<open>metadata\<close> and
  \<open>export\<close>), the expansion of a collector into its scheduled probes and their limits
  (\<open>runner.go\<close>: \<open>scheduledProbes\<close>, \<open>groupByTarget\<close>, \<open>probeTimeout\<close>, \<open>maxRowsFor\<close>).
\<close>

record DatabaseTarget =
  dt_ID :: string
  dt_EnvironmentSlug :: string
  dt_Name :: string
  dt_Engine :: string
  dt_Host :: string
  dt_Port :: int
  dt_DatabaseName :: string
  dt_CredentialRef :: string

record ProbeDefinition =
  pdef_ID :: string
  pdef_Name :: string
  pdef_Category :: string
  pdef_QueryTemplate :: string
  pdef_TimeoutMS :: int
  pdef_MaxRows :: int
  pdef_Lag :: duration

record ProbeAssignment =
  pa_ID :: string
  pa_IntervalSeconds :: int

record ScheduledProbe =
  sp_CollectorID :: string
  sp_Target :: DatabaseTarget
  sp_Definition :: ProbeDefinition
  sp_Assignment :: ProbeAssignment
  sp_OutSystemsLogs :: OutSystemsLogsConfig

record Evidence =
  ev_Kind :: string
  ev_Title :: string
  ev_Metadata :: labels

datatype MetricType = Gauge | Counter

record Sample =
  sm_Metric :: string
  sm_Help :: string
  sm_Value :: float64
  sm_Type :: MetricType
  sm_Labels :: labels

record Scope =
  sc_Collector :: string
  sc_Target :: string
  sc_Probe :: string

abbreviation probe_name :: "ScheduledProbe \<Rightarrow> string" where
  "probe_name item \<equiv> pdef_Name (sp_Definition item)"

abbreviation target_name :: "ScheduledProbe \<Rightarrow> string" where
  "target_name item \<equiv> dt_Name (sp_Target item)"

section \<open>The work of a collector\<close>

text \<open>Truncated division of durations, as Go's \<open>/\<close>.\<close>

definition quot :: "int \<Rightarrow> int \<Rightarrow> int" where
  "quot a b = (if 0 \<le> a then a div b else - ((- a) div b))"

definition selected :: "CollectorRuntimeConfig \<Rightarrow> TargetRuntimeConfig \<Rightarrow> bool" where
  "selected c target \<longleftrightarrow> \<not> (coll_TargetNames c \<noteq> [] \<and> target_Name target \<notin> set (coll_TargetNames c))"

definition scheduled :: "CollectorRuntimeConfig \<Rightarrow> TargetRuntimeConfig \<Rightarrow> ProbeRuntimeConfig \<Rightarrow> ScheduledProbe" where
  "scheduled c target probe =
     \<lparr>sp_CollectorID = coll_ID c,
      sp_Target = \<lparr>dt_ID = [], dt_EnvironmentSlug = target_EnvironmentSlug target, dt_Name = target_Name target,
        dt_Engine = target_Engine target, dt_Host = target_Host target, dt_Port = target_Port target,
        dt_DatabaseName = target_DatabaseName target, dt_CredentialRef = target_CredentialRef target\<rparr>,
      sp_Definition = \<lparr>pdef_ID = [], pdef_Name = probe_Name probe, pdef_Category = [],
        pdef_QueryTemplate = probe_QueryTemplate probe, pdef_TimeoutMS = probe_TimeoutMS probe,
        pdef_MaxRows = probe_MaxRows probe, pdef_Lag = probe_Lag probe\<rparr>,
      sp_Assignment = \<lparr>pa_ID = [], pa_IntervalSeconds = quot (coll_ScrapeInterval c) ns_second\<rparr>,
      sp_OutSystemsLogs = coll_OutSystemsLogs c\<rparr>"

definition scheduledProbes :: "CollectorRuntimeConfig \<Rightarrow> ScheduledProbe list" where
  "scheduledProbes c =
     concat (map (\<lambda>target. map (scheduled c target) (target_Probes target))
       (filter (selected c) (coll_Targets c)))"

record targetGroup =
  tg_name :: string
  tg_environment :: string
  tg_items :: "ScheduledProbe list"

text \<open>One turn of the loop of \<open>groupByTarget\<close>: the group of the item's target, created at the end
  when there is none, gets the item.  The index of the code maps a name to the position of the
  one group with that name.\<close>

fun add_to_group :: "ScheduledProbe \<Rightarrow> targetGroup list \<Rightarrow> targetGroup list" where
  "add_to_group item [] =
     [\<lparr>tg_name = target_name item, tg_environment = dt_EnvironmentSlug (sp_Target item), tg_items = [item]\<rparr>]"
| "add_to_group item (g # gs) =
     (if tg_name g = target_name item then g\<lparr>tg_items := tg_items g @ [item]\<rparr> # gs
      else g # add_to_group item gs)"

definition groupByTarget :: "ScheduledProbe list \<Rightarrow> targetGroup list" where
  "groupByTarget items = fold add_to_group items []"

definition concurrency :: "int \<Rightarrow> int" where
  "concurrency maxConcurrent = (if maxConcurrent < 1 then 8 else maxConcurrent)"

lemma add_to_group_names:
  "set (map tg_name (add_to_group item gs)) = insert (target_name item) (set (map tg_name gs))"
  by (induction item gs rule: add_to_group.induct) auto

lemma add_to_group_distinct: "distinct (map tg_name gs) \<Longrightarrow> distinct (map tg_name (add_to_group item gs))"
  using add_to_group_names by (induction item gs rule: add_to_group.induct) auto

text \<open>What the groups hold: the items of their target, in order.\<close>

definition groups_hold :: "ScheduledProbe list \<Rightarrow> targetGroup list \<Rightarrow> bool" where
  "groups_hold items gs \<longleftrightarrow> distinct (map tg_name gs) \<and> set (map tg_name gs) = set (map target_name items) \<and>
     list_all (\<lambda>g. tg_items g = filter (\<lambda>item. target_name item = tg_name g) items) gs"

lemma add_to_group_items:
  assumes "distinct (map tg_name gs)"
    and "list_all (\<lambda>g. tg_items g = filter (\<lambda>i. target_name i = tg_name g) items) gs"
    and "target_name item \<notin> set (map tg_name gs) \<Longrightarrow> filter (\<lambda>i. target_name i = target_name item) items = []"
  shows "list_all (\<lambda>g. tg_items g = filter (\<lambda>i. target_name i = tg_name g) (items @ [item])) (add_to_group item gs)"
  using assms
proof (induction item gs rule: add_to_group.induct)
  case (2 item g gs)
  show ?case
  proof (cases "tg_name g = target_name item")
    case True
    have "list_all (\<lambda>g. tg_items g = filter (\<lambda>i. target_name i = tg_name g) (items @ [item])) gs"
      unfolding list_all_iff
    proof
      fix h
      assume h: "h \<in> set gs"
      with 2(2) True have "tg_name h \<noteq> target_name item" by force
      with 2(3) h show "tg_items h = filter (\<lambda>i. target_name i = tg_name h) (items @ [item])"
        by (simp add: list_all_iff)
    qed
    with True 2(3) show ?thesis by simp
  next
    case False
    with 2 show ?thesis by simp
  qed
qed simp

lemma groups_hold_step:
  assumes "groups_hold items gs"
  shows "groups_hold (items @ [item]) (add_to_group item gs)"
proof -
  from assms have d: "distinct (map tg_name gs)" and n: "set (map tg_name gs) = set (map target_name items)"
    and i: "list_all (\<lambda>g. tg_items g = filter (\<lambda>i. target_name i = tg_name g) items) gs"
    unfolding groups_hold_def by blast+
  have "filter (\<lambda>i. target_name i = target_name item) items = []"
    if "target_name item \<notin> set (map tg_name gs)"
    using that [unfolded n] unfolding filter_empty_conv set_map by (metis imageI)
  note items = add_to_group_items [OF d i this]
  have "set (map tg_name (add_to_group item gs)) = set (map target_name (items @ [item]))"
    unfolding add_to_group_names n by auto
  with add_to_group_distinct [OF d] items show ?thesis unfolding groups_hold_def by blast
qed

lemma groupByTarget_holds: "groups_hold items (groupByTarget items)"
proof -
  have "groups_hold (pre @ items) (fold add_to_group items gs)" if "groups_hold pre gs" for pre gs
    using that
  proof (induction items arbitrary: pre gs)
    case (Cons item items)
    from Cons.IH [OF groups_hold_step [OF Cons.prems, of item]] show ?case by simp
  qed simp
  from this [of "[]" "[]"] show ?thesis by (simp add: groupByTarget_def groups_hold_def)
qed

text \<open>Grouping keeps every scheduled probe: there is one group for each target that has one, and
  it holds exactly the probes of that target in their configured order.\<close>

theorem groupByTarget_spec: "groups_hold items (groupByTarget items)"
  by (rule groupByTarget_holds)

section \<open>Limits of a probe\<close>

definition maxDefaultProbeTimeout :: duration where "maxDefaultProbeTimeout = 10 * ns_second"
definition fallbackProbeTimeout :: duration where "fallbackProbeTimeout = 5 * ns_second"

definition probeTimeout :: "int \<Rightarrow> duration \<Rightarrow> duration" where
  "probeTimeout timeoutMS interval =
     (if timeoutMS > 0 then
        let timeout = min (int64 (timeoutMS * ns_millisecond)) MaxProbeTimeout in
        if interval > 0 \<and> timeout > interval then interval else timeout
      else if interval \<le> 0 then fallbackProbeTimeout
      else min (quot interval 2) maxDefaultProbeTimeout)"

definition timeoutFor :: "ScheduledProbe \<Rightarrow> duration" where
  "timeoutFor item = probeTimeout (pdef_TimeoutMS (sp_Definition item))
     (int64 (pa_IntervalSeconds (sp_Assignment item) * ns_second))"

definition maxRowsFor :: "ScheduledProbe \<Rightarrow> int" where
  "maxRowsFor item =
     (if pdef_MaxRows (sp_Definition item) \<le> 0 then DefaultProbeMaxRows
      else min (pdef_MaxRows (sp_Definition item)) MaxProbeMaxRows)"

text \<open>The timeout of a probe is never longer than \<open>MaxProbeTimeout\<close>, which the sockets of the
  connectors outlast, nor than a positive scrape interval, and it is positive, for every interval
  of at least two nanoseconds and every timeout whose nanoseconds fit in 64 bits.\<close>

lemma probeTimeout_bounds:
  assumes "timeoutMS * ns_millisecond < 2 ^ 63" and "interval \<le> 0 \<or> 2 \<le> interval"
  shows "0 < probeTimeout timeoutMS interval \<and> probeTimeout timeoutMS interval \<le> MaxProbeTimeout \<and>
    (interval \<le> 0 \<or> probeTimeout timeoutMS interval \<le> interval)"
proof (cases "timeoutMS > 0")
  case True
  with assms(1) have "int64 (timeoutMS * ns_millisecond) = timeoutMS * ns_millisecond"
    by (intro int64_id) (simp_all add: ns_millisecond_def)
  with True assms(2) show ?thesis
    by (auto simp: probeTimeout_def Let_def MaxProbeTimeout_def duration_units)
next
  case False
  with assms(2) show ?thesis
    by (auto simp: probeTimeout_def quot_def MaxProbeTimeout_def fallbackProbeTimeout_def
        maxDefaultProbeTimeout_def duration_units)
qed

end
