(* ===== verification/Backoff.thy ===== *)
theory Backoff
  imports ProbeTypes
begin

text \<open>
  The backoff of targets and probes (\<open>runner.go\<close>: \<open>targetTracker\<close>, \<open>backoffFor\<close>).  The tracker's maps
  are functions; a value that is read from a map without an entry is the zero value.  The clock and
  the random number of an operation are its arguments.
\<close>

definition maxBackoff :: duration where "maxBackoff = 5 * ns_minute"

definition backoffJitter :: rat where "backoffJitter = round64 (1 / 5)"

text \<open>The loop of \<open>backoffFor\<close>, with the number of doublings left.\<close>

fun double_delay :: "nat \<Rightarrow> duration \<Rightarrow> duration" where
  "double_delay 0 d = d"
| "double_delay (Suc n) d = (if d < maxBackoff then double_delay n (int64 (d * 2)) else d)"

definition backoffFor :: "duration \<Rightarrow> nat \<Rightarrow> rat \<Rightarrow> duration" where
  "backoffFor interval failures jitter =
     (if failures \<le> 1 then 0
      else
        let delay = (if interval \<le> 0 then fallbackProbeTimeout else interval);
            delay = min (double_delay (failures - 2) delay) maxBackoff;
            factor = round64 (1 + round64 (backoffJitter * jitter)) in
        \<lfloor>round64 (round64 (of_int delay) * factor)\<rfloor>)"

record targetState =
  ts_consecutiveFailures :: nat
  ts_lastSuccess :: gotime
  ts_nextAttempt :: gotime
  ts_lastErr :: "probeError list"

record probeState =
  ps_consecutiveFailures :: nat
  ps_nextAttempt :: gotime
  ps_lastErr :: "probeError list"

record targetTracker =
  tk_targets :: "string \<Rightarrow> targetState option"
  tk_probes :: "string \<times> string \<Rightarrow> probeState option"
  tk_lastCycleStart :: gotime

definition zero_target :: targetState where
  "zero_target = \<lparr>ts_consecutiveFailures = 0, ts_lastSuccess = 0, ts_nextAttempt = 0, ts_lastErr = []\<rparr>"

definition zero_probe :: probeState where
  "zero_probe = \<lparr>ps_consecutiveFailures = 0, ps_nextAttempt = 0, ps_lastErr = []\<rparr>"

definition newTargetTracker :: targetTracker where
  "newTargetTracker = \<lparr>tk_targets = \<lambda>_. None, tk_probes = \<lambda>_. None, tk_lastCycleStart = 0\<rparr>"

definition get :: "string \<Rightarrow> targetTracker \<Rightarrow> targetState" where
  "get target t = (case tk_targets t target of None \<Rightarrow> zero_target | Some s \<Rightarrow> s)"

definition get_probe :: "string \<Rightarrow> string \<Rightarrow> targetTracker \<Rightarrow> probeState" where
  "get_probe target probe t = (case tk_probes t (target, probe) of None \<Rightarrow> zero_probe | Some s \<Rightarrow> s)"

definition probeWaiting :: "string \<Rightarrow> string \<Rightarrow> gotime \<Rightarrow> targetTracker \<Rightarrow> probeState option" where
  "probeWaiting target probe cycleStart t =
     (case tk_probes t (target, probe) of
        None \<Rightarrow> None
      | Some s \<Rightarrow> if cycleStart < ps_nextAttempt s then Some s else None)"

definition probeFail :: "string \<Rightarrow> string \<Rightarrow> gotime \<Rightarrow> duration \<Rightarrow> rat \<Rightarrow> probeError \<Rightarrow> targetTracker \<Rightarrow>
    targetTracker \<times> probeState" where
  "probeFail target probe cycleStart interval jitter err t =
     (let s = get_probe target probe t;
          failures = ps_consecutiveFailures s + 1;
          s = \<lparr>ps_consecutiveFailures = failures,
            ps_nextAttempt = cycleStart + backoffFor interval failures jitter, ps_lastErr = [err]\<rparr> in
      (t\<lparr>tk_probes := (tk_probes t)((target, probe) := Some s)\<rparr>, s))"

definition probeSucceed :: "string \<Rightarrow> string \<Rightarrow> targetTracker \<Rightarrow> targetTracker \<times> nat" where
  "probeSucceed target probe t =
     (t\<lparr>tk_probes := (tk_probes t)((target, probe) := None)\<rparr>,
      ps_consecutiveFailures (get_probe target probe t))"

definition resetProbes :: "string \<Rightarrow> targetTracker \<Rightarrow> targetTracker" where
  "resetProbes target t = t\<lparr>tk_probes := (\<lambda>key. if fst key = target then None else tk_probes t key)\<rparr>"

definition succeed :: "string \<Rightarrow> gotime \<Rightarrow> targetTracker \<Rightarrow> targetTracker \<times> targetState \<times> targetState" where
  "succeed target now t =
     (let current = zero_target\<lparr>ts_lastSuccess := now\<rparr> in
      (t\<lparr>tk_targets := (tk_targets t)(target := Some current)\<rparr>, get target t, current))"

definition fail :: "string \<Rightarrow> gotime \<Rightarrow> duration \<Rightarrow> rat \<Rightarrow> probeError list \<Rightarrow> targetTracker \<Rightarrow>
    targetTracker \<times> targetState" where
  "fail target cycleStart interval jitter err t =
     (let s = get target t;
          failures = ts_consecutiveFailures s + 1;
          s = s\<lparr>ts_consecutiveFailures := failures,
            ts_nextAttempt := cycleStart + backoffFor interval failures jitter, ts_lastErr := err\<rparr> in
      (t\<lparr>tk_targets := (tk_targets t)(target := Some s)\<rparr>, s))"

section \<open>The delay\<close>

lemma double_delay_min:
  assumes "0 < d" and "d < 2 ^ 63"
  shows "0 < double_delay n d \<and> min (double_delay n d) maxBackoff = min (d * 2 ^ n) maxBackoff"
  using assms
proof (induction n arbitrary: d)
  case (Suc n)
  show ?case
  proof (cases "d < maxBackoff")
    case True
    then have d2: "d * 2 < 2 ^ 63" by (simp add: maxBackoff_def ns_minute_def)
    with Suc.prems have "int64 (d * 2) = d * 2" by (intro int64_id) simp_all
    with Suc.IH [of "d * 2"] Suc.prems d2 True show ?thesis by (simp add: mult.assoc)
  next
    case False
    have "(1 :: int) \<le> 2 ^ Suc n" by (rule one_le_power) simp
    then have "d * 1 \<le> d * 2 ^ Suc n" using Suc.prems by (intro mult_left_mono) simp_all
    with False have "maxBackoff \<le> d * 2 ^ Suc n" by linarith
    with False Suc.prems show ?thesis by (simp add: min.absorb2 del: power_Suc)
  qed
qed simp

lemma jitter_factor:
  assumes "0 \<le> jitter" and "jitter \<le> 1"
  shows "1 \<le> round64 (1 + round64 (backoffJitter * jitter)) \<and>
    round64 (1 + round64 (backoffJitter * jitter)) \<le> 2"
proof -
  have j: "0 \<le> backoffJitter" "backoffJitter \<le> 1"
    unfolding backoffJitter_def using round64_ge [of 0 "1/5"] round64_le [of "1/5" 1] by simp_all
  with assms have x: "0 \<le> backoffJitter * jitter" "backoffJitter * jitter \<le> 1"
    by (simp_all add: mult_le_one)
  then have r: "0 \<le> round64 (backoffJitter * jitter)" "round64 (backoffJitter * jitter) \<le> 1"
    using round64_ge [of 0 "backoffJitter * jitter"] round64_le [of "backoffJitter * jitter" 1] by simp_all
  then show ?thesis
    using round64_ge [of 1 "1 + round64 (backoffJitter * jitter)"]
      round64_le [of "1 + round64 (backoffJitter * jitter)" 2] by simp
qed

lemma backoff_bounds:
  assumes "0 < interval" and "interval < 2 ^ 63" and "0 \<le> jitter" and "jitter \<le> 1"
    and "2 \<le> failures"
  shows "min (interval * 2 ^ (failures - 2)) maxBackoff \<le> backoffFor interval failures jitter"
    and "backoffFor interval failures jitter \<le> 2 * min (interval * 2 ^ (failures - 2)) maxBackoff"
proof -
  define d where "d = min (interval * 2 ^ (failures - 2)) maxBackoff"
  define f where "f = round64 (1 + round64 (backoffJitter * jitter))"
  from jitter_factor [OF assms(3,4)] have f: "1 \<le> f" "f \<le> 2" by (simp_all add: f_def)
  have "0 < d" "d < 2 ^ 52" using assms(1) by (auto simp: d_def maxBackoff_def ns_minute_def)
  then have rd: "round64 (of_int d) = of_int d" by (intro round64_int) simp_all
  have b: "backoffFor interval failures jitter = \<lfloor>round64 (of_int d * f)\<rfloor>"
    using double_delay_min [OF assms(1,2), of "failures - 2"] assms(1,5)
    by (simp add: backoffFor_def Let_def d_def [symmetric] f_def [symmetric] rd)
  have "(of_int d :: rat) * 1 \<le> of_int d * f" using f \<open>0 < d\<close> by (intro mult_left_mono) simp_all
  then have "of_int d \<le> round64 (of_int d * f)" using \<open>0 < d\<close> \<open>d < 2 ^ 52\<close> by (intro round64_ge) simp_all
  then show "min (interval * 2 ^ (failures - 2)) maxBackoff \<le> backoffFor interval failures jitter"
    unfolding b d_def [symmetric] by (simp add: le_floor_iff)
  have "(of_int d :: rat) * f \<le> of_int d * 2" using f \<open>0 < d\<close> by (intro mult_left_mono) simp_all
  then have "round64 (of_int d * f) \<le> of_int (2 * d)"
    using f \<open>0 < d\<close> \<open>d < 2 ^ 52\<close> by (intro round64_le) simp_all
  then show "backoffFor interval failures jitter \<le> 2 * min (interval * 2 ^ (failures - 2)) maxBackoff"
    unfolding b d_def [symmetric] by linarith
qed

text \<open>C22: the first failure of a target retries on the next cycle; from the second on the backoff is
  at least the interval doubled for every further failure, capped at five minutes, so it always
  skips the next cycle, and jitter never makes it more than twice that, the rounding of the
  floating-point arithmetic included.\<close>

theorem backoffFor_bounds:
  assumes "0 < interval" and "interval < 2 ^ 63" and "0 \<le> jitter" and "jitter \<le> 1"
  shows "backoffFor interval 1 jitter = 0 \<and>
    min (interval * 2 ^ n) maxBackoff \<le> backoffFor interval (n + 2) jitter \<and>
    backoffFor interval (n + 2) jitter \<le> 2 * min (interval * 2 ^ n) maxBackoff"
  using backoff_bounds [OF assms, of "n + 2"] by (simp add: backoffFor_def)

theorem backoffFor_bounds_witness:
  "30 * ns_second \<le> backoffFor (15 * ns_second) 3 (1 / 3) \<and> backoffFor (15 * ns_second) 3 (1 / 3) \<le> ns_minute"
  using backoffFor_bounds [of "15 * ns_second" "1 / 3" 1]
  by (simp add: duration_units maxBackoff_def numeral_3_eq_3 numeral_2_eq_2)

end
