(* ===== verification/ProbeCalls.thy ===== *)
theory ProbeCalls
  imports ProbeTypes
begin

text \<open>
  The executor calls in flight (\<open>runner.go\<close>: \<open>probeCalls\<close>, \<open>callExecutor\<close>).  A call is a pointer in the
  code, so calls live in a list and a call is its position; the map from a collector's target to its
  call holds positions.  The step relation lets the goroutines that run the executor and the ones
  that wait for it interleave: the waiter receives the result, or the grace expires and it abandons
  the call, which goes on in the background.
\<close>

type_synonym probeCallKey = "string \<times> string"

record probeCall =
  pc_probe :: string
  pc_started :: gotime
  pc_abandoned :: bool
  pc_finished :: bool

record probeCalls =
  pcs_heap :: "probeCall list"
  pcs_calls :: "probeCallKey \<Rightarrow> nat option"

definition newProbeCalls :: probeCalls where
  "newProbeCalls = \<lparr>pcs_heap = [], pcs_calls = \<lambda>_. None\<rparr>"

definition callKey :: "ScheduledProbe \<Rightarrow> probeCallKey" where
  "callKey item = (sp_CollectorID item, target_name item)"

text \<open>\<open>start\<close>: the call in flight (on the left) or the new call.\<close>

definition start :: "ScheduledProbe \<Rightarrow> gotime \<Rightarrow> probeCalls \<Rightarrow> probeCalls \<times> (probeCall, nat) result" where
  "start item now c =
     (case pcs_calls c (callKey item) of
        Some a \<Rightarrow> (c, Inl (pcs_heap c ! a))
      | None \<Rightarrow>
         (c\<lparr>pcs_heap := pcs_heap c @ [\<lparr>pc_probe = probe_name item, pc_started = now, pc_abandoned = False,
              pc_finished = False\<rparr>],
            pcs_calls := (pcs_calls c)(callKey item := Some (length (pcs_heap c)))\<rparr>,
          Inr (length (pcs_heap c))))"

definition abandon :: "nat \<Rightarrow> probeCalls \<Rightarrow> probeCalls \<times> bool" where
  "abandon a c =
     (if pc_finished (pcs_heap c ! a) then (c, False)
      else (c\<lparr>pcs_heap := (pcs_heap c)[a := (pcs_heap c ! a)\<lparr>pc_abandoned := True\<rparr>]\<rparr>, True))"

definition finish :: "ScheduledProbe \<Rightarrow> nat \<Rightarrow> probeCalls \<Rightarrow> probeCalls \<times> bool" where
  "finish item a c =
     (let calls = (if pcs_calls c (callKey item) = Some a then (pcs_calls c)(callKey item := None)
        else pcs_calls c) in
      (c\<lparr>pcs_heap := (pcs_heap c)[a := (pcs_heap c ! a)\<lparr>pc_finished := True\<rparr>], pcs_calls := calls\<rparr>,
       pc_abandoned (pcs_heap c ! a)))"

section \<open>Callers and executors\<close>

datatype waiter = Waiting | Received | GaveUp

record call_system =
  cs_calls :: probeCalls
  cs_items :: "ScheduledProbe list"
  cs_waiters :: "waiter list"

abbreviation calls_heap :: "call_system \<Rightarrow> probeCall list" where
  "calls_heap s \<equiv> pcs_heap (cs_calls s)"

definition in_flight :: "call_system \<Rightarrow> nat \<Rightarrow> bool" where
  "in_flight s a \<longleftrightarrow> a < length (calls_heap s) \<and> \<not> pc_finished (calls_heap s ! a)"

inductive call_step :: "call_system \<Rightarrow> call_system \<Rightarrow> bool" where
  call_start: "start item now (cs_calls s) = (c, Inr a) \<Longrightarrow>
    call_step s (s\<lparr>cs_calls := c, cs_items := cs_items s @ [item], cs_waiters := cs_waiters s @ [Waiting]\<rparr>)"
| call_finish: "in_flight s a \<Longrightarrow> finish (cs_items s ! a) a (cs_calls s) = (c, was) \<Longrightarrow>
    call_step s (s\<lparr>cs_calls := c\<rparr>)"
| call_receive: "a < length (cs_waiters s) \<Longrightarrow> cs_waiters s ! a = Waiting \<Longrightarrow> pc_finished (calls_heap s ! a) \<Longrightarrow>
    call_step s (s\<lparr>cs_waiters := (cs_waiters s)[a := Received]\<rparr>)"
| call_grace: "a < length (cs_waiters s) \<Longrightarrow> cs_waiters s ! a = Waiting \<Longrightarrow> abandon a (cs_calls s) = (c, still) \<Longrightarrow>
    call_step s (s\<lparr>cs_calls := c, cs_waiters := (cs_waiters s)[a := if still then GaveUp else Waiting]\<rparr>)"

definition call_init :: call_system where
  "call_init = \<lparr>cs_calls = newProbeCalls, cs_items = [], cs_waiters = []\<rparr>"

definition calls_reachable :: "call_system \<Rightarrow> bool" where
  "calls_reachable s \<longleftrightarrow> call_step\<^sup>*\<^sup>* call_init s"

text \<open>The registry holds exactly the calls in flight, and a call is marked abandoned exactly when
  its waiter gave up.\<close>

definition calls_inv :: "call_system \<Rightarrow> bool" where
  "calls_inv s \<longleftrightarrow>
     length (cs_items s) = length (calls_heap s) \<and> length (cs_waiters s) = length (calls_heap s) \<and>
     (\<forall>k a. pcs_calls (cs_calls s) k = Some a \<longleftrightarrow> in_flight s a \<and> callKey (cs_items s ! a) = k) \<and>
     (\<forall>a < length (calls_heap s). pc_abandoned (calls_heap s ! a) \<longleftrightarrow> cs_waiters s ! a = GaveUp)"

lemma calls_invI:
  assumes "length (cs_items s) = length (calls_heap s)" and "length (cs_waiters s) = length (calls_heap s)"
    and "\<And>k a. pcs_calls (cs_calls s) k = Some a \<longleftrightarrow> in_flight s a \<and> callKey (cs_items s ! a) = k"
    and "\<And>a. a < length (calls_heap s) \<Longrightarrow> pc_abandoned (calls_heap s ! a) \<longleftrightarrow> cs_waiters s ! a = GaveUp"
  shows "calls_inv s"
  using assms unfolding calls_inv_def by blast

lemma calls_invD:
  assumes "calls_inv s"
  shows "length (cs_items s) = length (calls_heap s)" and "length (cs_waiters s) = length (calls_heap s)"
    and "pcs_calls (cs_calls s) k = Some a \<longleftrightarrow> in_flight s a \<and> callKey (cs_items s ! a) = k"
    and "a < length (calls_heap s) \<Longrightarrow> pc_abandoned (calls_heap s ! a) \<longleftrightarrow> cs_waiters s ! a = GaveUp"
  using assms unfolding calls_inv_def by blast+

lemma inv_start:
  assumes "calls_inv s" and "start item now (cs_calls s) = (c, Inr a)"
  shows "calls_inv (s\<lparr>cs_calls := c, cs_items := cs_items s @ [item], cs_waiters := cs_waiters s @ [Waiting]\<rparr>)"
    (is "calls_inv ?t")
proof (rule calls_invI)
  let ?n = "length (calls_heap s)"
  from assms(2) have none: "pcs_calls (cs_calls s) (callKey item) = None"
    and h: "pcs_heap c = calls_heap s @ [\<lparr>pc_probe = probe_name item, pc_started = now, pc_abandoned = False,
              pc_finished = False\<rparr>]"
    and m: "pcs_calls c = (pcs_calls (cs_calls s))(callKey item := Some ?n)"
    by (auto simp: start_def split: option.splits)
  note l = calls_invD(1,2) [OF assms(1)] and inv = calls_invD(3) [OF assms(1)] and ab = calls_invD(4) [OF assms(1)]
  show "length (cs_items ?t) = length (calls_heap ?t)" "length (cs_waiters ?t) = length (calls_heap ?t)"
    using l h by simp_all
  fix k b
  show "pcs_calls (cs_calls ?t) k = Some b \<longleftrightarrow> in_flight ?t b \<and> callKey (cs_items ?t ! b) = k"
  proof (cases "b < ?n")
    case True
    have "in_flight ?t b = in_flight s b" using True h by (simp add: in_flight_def nth_append)
    with True inv [of k b] inv [of "callKey item" b] none m l show ?thesis
      by (auto simp: nth_append)
  next
    case False
    then have "\<not> in_flight s b" by (simp add: in_flight_def)
    with False inv [of k b] m h l show ?thesis by (auto simp: in_flight_def nth_append)
  qed
  assume "b < length (calls_heap ?t)"
  with ab [of b] h l show "pc_abandoned (calls_heap ?t ! b) \<longleftrightarrow> cs_waiters ?t ! b = GaveUp"
    by (auto simp: nth_append)
qed

lemma inv_finish:
  assumes "calls_inv s" and "in_flight s a" and "finish (cs_items s ! a) a (cs_calls s) = (c, was)"
  shows "calls_inv (s\<lparr>cs_calls := c\<rparr>)" (is "calls_inv ?t")
proof (rule calls_invI)
  let ?n = "length (calls_heap s)"
  note l = calls_invD(1,2) [OF assms(1)] and inv = calls_invD(3) [OF assms(1)] and ab = calls_invD(4) [OF assms(1)]
  from assms(2) have a: "a < ?n" by (simp add: in_flight_def)
  from inv [of "callKey (cs_items s ! a)" a] assms(2)
  have reg: "pcs_calls (cs_calls s) (callKey (cs_items s ! a)) = Some a" by simp
  with assms(3) have h: "pcs_heap c = (calls_heap s)[a := (calls_heap s ! a)\<lparr>pc_finished := True\<rparr>]"
    and m: "pcs_calls c = (pcs_calls (cs_calls s))(callKey (cs_items s ! a) := None)"
    by (auto simp: finish_def Let_def)
  show "length (cs_items ?t) = length (calls_heap ?t)" "length (cs_waiters ?t) = length (calls_heap ?t)"
    using l h by simp_all
  fix k b
  have fl: "in_flight ?t b \<longleftrightarrow> in_flight s b \<and> b \<noteq> a"
    using h a by (auto simp: in_flight_def nth_list_update)
  show "pcs_calls (cs_calls ?t) k = Some b \<longleftrightarrow> in_flight ?t b \<and> callKey (cs_items ?t ! b) = k"
    unfolding fl using inv [of k b] reg m by auto
  assume "b < length (calls_heap ?t)"
  with ab [of b] h a show "pc_abandoned (calls_heap ?t ! b) \<longleftrightarrow> cs_waiters ?t ! b = GaveUp"
    by (auto simp: nth_list_update)
qed

lemma inv_waiter:
  assumes "calls_inv s" and "a < length (cs_waiters s)" and "cs_waiters s ! a = Waiting"
  shows "calls_inv (s\<lparr>cs_waiters := (cs_waiters s)[a := Received]\<rparr>)"
    and "abandon a (cs_calls s) = (c, still) \<Longrightarrow>
      calls_inv (s\<lparr>cs_calls := c, cs_waiters := (cs_waiters s)[a := if still then GaveUp else Waiting]\<rparr>)"
proof -
  show "calls_inv (s\<lparr>cs_waiters := (cs_waiters s)[a := Received]\<rparr>)"
  proof (rule calls_invI)
    let ?t = "s\<lparr>cs_waiters := (cs_waiters s)[a := Received]\<rparr>"
    fix k b
    show "pcs_calls (cs_calls ?t) k = Some b \<longleftrightarrow> in_flight ?t b \<and> callKey (cs_items ?t ! b) = k"
      using calls_invD(3) [OF assms(1), of k b] by (simp add: in_flight_def)
    assume "b < length (calls_heap ?t)"
    then show "pc_abandoned (calls_heap ?t ! b) \<longleftrightarrow> cs_waiters ?t ! b = GaveUp"
      using calls_invD(4) [OF assms(1), of b] assms(2,3) by (auto simp: nth_list_update)
  qed (use calls_invD(1,2) [OF assms(1)] in simp_all)
  have same: "xs[i := xs ! i] = xs" for xs :: "waiter list" and i by simp
  assume ab: "abandon a (cs_calls s) = (c, still)"
  show "calls_inv (s\<lparr>cs_calls := c, cs_waiters := (cs_waiters s)[a := if still then GaveUp else Waiting]\<rparr>)"
  proof (cases still)
    case True
    with ab have h: "c = (cs_calls s)\<lparr>pcs_heap := (calls_heap s)[a := (calls_heap s ! a)\<lparr>pc_abandoned := True\<rparr>]\<rparr>"
      by (auto simp: abandon_def split: if_splits)
    let ?t = "s\<lparr>cs_calls := c, cs_waiters := (cs_waiters s)[a := if still then GaveUp else Waiting]\<rparr>"
    have a: "a < length (calls_heap s)" using assms(2) calls_invD(2) [OF assms(1)] by simp
    have fl: "in_flight ?t = in_flight s"
      using a by (auto simp: h fun_eq_iff in_flight_def nth_list_update)
    show ?thesis
    proof (rule calls_invI)
      fix k b
      show "pcs_calls (cs_calls ?t) k = Some b \<longleftrightarrow> in_flight ?t b \<and> callKey (cs_items ?t ! b) = k"
        unfolding fl using calls_invD(3) [OF assms(1), of k b] by (simp add: h)
      assume "b < length (calls_heap ?t)"
      then show "pc_abandoned (calls_heap ?t ! b) \<longleftrightarrow> cs_waiters ?t ! b = GaveUp"
        using calls_invD(4) [OF assms(1), of b] a assms(2) True by (auto simp: h nth_list_update)
    qed (use calls_invD(1,2) [OF assms(1)] in \<open>simp_all add: h\<close>)
  next
    case False
    with ab have "c = cs_calls s" by (auto simp: abandon_def split: if_splits)
    with False assms same [of "cs_waiters s" a] show ?thesis by simp
  qed
qed

lemma call_step_inv: "call_step s s' \<Longrightarrow> calls_inv s \<Longrightarrow> calls_inv s'"
  by (induction rule: call_step.induct) (blast intro: inv_start inv_finish inv_waiter)+

lemma calls_reachable_inv: "calls_reachable s \<Longrightarrow> calls_inv s"
  unfolding calls_reachable_def
proof (induction rule: rtranclp_induct)
  case base
  then show ?case by (simp add: calls_inv_def call_init_def newProbeCalls_def in_flight_def)
next
  case (step s s')
  then show ?case using call_step_inv by blast
qed

text \<open>C20: a collector holds at most one executor call per target at any time, abandoned calls
  included, however long they keep running: a second call starts exactly when none is in flight,
  and is otherwise refused with the call that is.\<close>

theorem one_call_per_target:
  assumes "calls_reachable s"
  shows "(in_flight s a \<and> in_flight s b \<and> callKey (cs_items s ! a) = callKey (cs_items s ! b) \<longrightarrow> a = b) \<and>
    ((\<exists>n. snd (start item now (cs_calls s)) = Inr n) \<longleftrightarrow>
       \<not> (\<exists>x. in_flight s x \<and> callKey (cs_items s ! x) = callKey item))"
proof -
  note reg = calls_invD(3) [OF calls_reachable_inv [OF assms]]
  show ?thesis
  proof
    show "in_flight s a \<and> in_flight s b \<and> callKey (cs_items s ! a) = callKey (cs_items s ! b) \<longrightarrow> a = b"
      using reg [of "callKey (cs_items s ! a)" a] reg [of "callKey (cs_items s ! a)" b] by auto
    show "(\<exists>n. snd (start item now (cs_calls s)) = Inr n) \<longleftrightarrow>
       \<not> (\<exists>x. in_flight s x \<and> callKey (cs_items s ! x) = callKey item)"
      using reg [of "callKey item"] by (cases "pcs_calls (cs_calls s) (callKey item)") (auto simp: start_def)
  qed
qed

text \<open>A call that outlives its grace.\<close>

definition sample_probe :: ScheduledProbe where
  "sample_probe = \<lparr>sp_CollectorID = ''c'',
     sp_Target = \<lparr>dt_ID = [], dt_EnvironmentSlug = [], dt_Name = ''t'', dt_Engine = [], dt_Host = [], dt_Port = 1433,
       dt_DatabaseName = [], dt_CredentialRef = []\<rparr>,
     sp_Definition = \<lparr>pdef_ID = [], pdef_Name = ''waits'', pdef_Category = [], pdef_QueryTemplate = [],
       pdef_TimeoutMS = 0, pdef_MaxRows = 0, pdef_Lag = 0\<rparr>,
     sp_Assignment = \<lparr>pa_ID = [], pa_IntervalSeconds = 15\<rparr>, sp_OutSystemsLogs = zero_logs\<rparr>"

definition sample_started :: call_system where
  "sample_started = \<lparr>cs_calls = fst (start sample_probe 7 newProbeCalls), cs_items = [sample_probe],
     cs_waiters = [Waiting]\<rparr>"

definition sample_abandoned :: call_system where
  "sample_abandoned = sample_started\<lparr>cs_calls := fst (abandon 0 (cs_calls sample_started)), cs_waiters := [GaveUp]\<rparr>"

lemma sample_abandoned_reachable: "calls_reachable sample_abandoned"
proof -
  have "start sample_probe 7 (cs_calls call_init) = (fst (start sample_probe 7 newProbeCalls), Inr 0)"
    by (simp add: start_def call_init_def newProbeCalls_def)
  from call_start [OF this] have 1: "call_step call_init sample_started"
    by (simp add: sample_started_def call_init_def)
  have "abandon 0 (cs_calls sample_started) = (fst (abandon 0 (cs_calls sample_started)), True)"
    by (simp add: abandon_def sample_started_def start_def newProbeCalls_def)
  from call_grace [OF _ _ this] have 2: "call_step sample_started sample_abandoned"
    by (simp add: sample_abandoned_def sample_started_def)
  from 1 2 show ?thesis unfolding calls_reachable_def
    by (rule rtranclp.rtrancl_into_rtrancl [OF r_into_rtranclp [of call_step]])
qed

theorem one_call_per_target_witness:
  "\<not> (\<exists>n. snd (start sample_probe 9 (cs_calls sample_abandoned)) = Inr n)"
proof -
  have "in_flight sample_abandoned 0 \<and> callKey (cs_items sample_abandoned ! 0) = callKey sample_probe"
    by (simp add: in_flight_def sample_abandoned_def sample_started_def start_def newProbeCalls_def abandon_def)
  with one_call_per_target [OF sample_abandoned_reachable, of 0 0 sample_probe 9] show ?thesis by blast
qed

end
