(* ===== verification/Exporter.thy ===== *)
theory Exporter
  imports ProbeTypes CollectorDiff
begin

text \<open>
  Scoped recording of series (package \<open>export\<close>, \<open>exporter.go\<close>): the contract of a
  \<open>ScopedRecorder\<close> as a locale, what it gives its clients, and the in-memory exporter with its
  \<open>scopeTracker\<close>.  The Prometheus exporter, which keeps ownership on its series, is a theory of its
  own and implements the same contract.
\<close>

section \<open>The contract\<close>

text \<open>\<open>owned s\<close> are the series each scope reports, \<open>exported s\<close> the series a scrape shows.  A write
  replaces the series of its scope and deletes those that no scope reports any more; clearing a
  scope and forgetting a collector delete the series only they reported.\<close>

lemma replaced_union:
  assumes "\<And>x. x \<noteq> a \<Longrightarrow> f' x = f x"
  shows "((\<Union>x. f x) \<union> f' a) - (f a - (\<Union>x. f' x)) = (\<Union>x. f' x)"
proof (intro equalityI subsetI)
  fix k
  assume k: "k \<in> ((\<Union>x. f x) \<union> f' a) - (f a - (\<Union>x. f' x))"
  then consider "k \<in> f' a" | x where "k \<in> f x" by blast
  then show "k \<in> (\<Union>x. f' x)"
  proof cases
    case 2
    with k assms [of x] show ?thesis by (cases "x = a") blast+
  qed blast
next
  fix k
  assume "k \<in> (\<Union>x. f' x)"
  then obtain x where x: "k \<in> f' x" by blast
  with assms [of x] show "k \<in> ((\<Union>x. f x) \<union> f' a) - (f a - (\<Union>x. f' x))"
    by (cases "x = a") blast+
qed

locale scope_clearing =
  fixes good :: "'s \<Rightarrow> bool"
    and exported :: "'s \<Rightarrow> 'k set"
    and owned :: "'s \<Rightarrow> Scope \<Rightarrow> 'k set"
    and clearScope :: "Scope \<Rightarrow> 's \<Rightarrow> 's"
  assumes good_clear: "good s \<Longrightarrow> good (clearScope sc s)"
    and clear_owned: "good s \<Longrightarrow> owned (clearScope sc s) = (owned s)(sc := {})"
    and clear_exported: "good s \<Longrightarrow> exported (clearScope sc s) =
      exported s - (owned s sc - (\<Union>sc'. owned (clearScope sc s) sc'))"
begin

text \<open>Clearing several scopes one after the other.\<close>

definition clear_all :: "(Scope \<Rightarrow> bool) \<Rightarrow> Scope list \<Rightarrow> 's \<Rightarrow> 's" where
  "clear_all P scs s = fold (\<lambda>sc s. if P sc then clearScope sc s else s) scs s"

lemma clear_all_simps [simp]:
  "clear_all P [] s = s"
  "clear_all P (sc # scs) s = clear_all P scs (if P sc then clearScope sc s else s)"
  by (simp_all add: clear_all_def)

lemma clear_all_owned:
  "good s \<Longrightarrow> good (clear_all P scs s) \<and>
     owned (clear_all P scs s) sc = (if P sc \<and> sc \<in> set scs then {} else owned s sc)"
  by (induction scs arbitrary: s) (auto simp: good_clear clear_owned)

lemma clear_all_exported:
  assumes "good s"
  shows "exported (clear_all P scs s) =
    exported s - ((\<Union>sc \<in> {sc \<in> set scs. P sc}. owned s sc) - (\<Union>sc'. owned (clear_all P scs s) sc'))"
  using assms
proof (induction scs arbitrary: s)
  case (Cons sc scs)
  show ?case
  proof (cases "P sc")
    case True
    let ?s = "clearScope sc s" and ?t = "clear_all P scs (clearScope sc s)"
    have g: "good ?s" using Cons.prems by (rule good_clear)
    have o: "owned ?s = (owned s)(sc := {})" using Cons.prems by (rule clear_owned)
    have t: "owned ?t x = (if P x \<and> x \<in> set scs then {} else owned ?s x)" for x
      using clear_all_owned [OF g, of P scs x] ..
    have "exported ?t = exported ?s - ((\<Union>x \<in> {x \<in> set scs. P x}. owned ?s x) - (\<Union>x. owned ?t x))"
      by (rule Cons.IH [OF g])
    also have "\<dots> = exported s - ((\<Union>x \<in> {x \<in> set (sc # scs). P x}. owned s x) - (\<Union>x. owned ?t x))"
      unfolding clear_exported [OF Cons.prems] t o using True by (auto split: if_splits)
    finally show ?thesis using True by simp
  next
    case False
    then have "{x \<in> set (sc # scs). P x} = {x \<in> set scs. P x}" by auto
    with False Cons show ?thesis by simp
  qed
qed simp

end

locale scoped_recorder = scope_clearing good exported owned clearScope
  for good :: "'s \<Rightarrow> bool" and exported :: "'s \<Rightarrow> 'k set" and owned :: "'s \<Rightarrow> Scope \<Rightarrow> 'k set"
    and clearScope :: "Scope \<Rightarrow> 's \<Rightarrow> 's" +
  fixes recordScope :: "Scope \<Rightarrow> Sample list \<Rightarrow> 's \<Rightarrow> 's"
    and forgetCollector :: "string \<Rightarrow> 's \<Rightarrow> 's"
    and scopes :: "'s \<Rightarrow> Scope list"
  assumes good_record: "good s \<Longrightarrow> good (recordScope sc xs s)"
    and record_frame: "good s \<Longrightarrow> sc' \<noteq> sc \<Longrightarrow> owned (recordScope sc xs s) sc' = owned s sc'"
    and record_exported: "good s \<Longrightarrow> exported (recordScope sc xs s) =
      (exported s \<union> owned (recordScope sc xs s) sc) -
      (owned s sc - (\<Union>sc'. owned (recordScope sc xs s) sc'))"
    and scopes_all: "good s \<Longrightarrow> owned s sc \<noteq> {} \<Longrightarrow> sc \<in> set (scopes s)"
    and forget_all: "good s \<Longrightarrow>
      forgetCollector c s = clear_all (\<lambda>sc. sc_Collector sc = c) (scopes s) s"
begin

text \<open>Nothing stale: every exported series is reported by some scope.\<close>

definition clean :: "'s \<Rightarrow> bool" where
  "clean s \<longleftrightarrow> exported s = (\<Union>sc. owned s sc)"

lemma good_forget: "good s \<Longrightarrow> good (forgetCollector c s)"
  using clear_all_owned by (simp add: forget_all)

lemma forget_owned:
  assumes "good s"
  shows "owned (forgetCollector c s) sc = (if sc_Collector sc = c then {} else owned s sc)"
proof -
  have "owned (forgetCollector c s) sc = (if sc_Collector sc = c \<and> sc \<in> set (scopes s) then {} else owned s sc)"
    using clear_all_owned [OF assms] by (simp add: forget_all [OF assms])
  with scopes_all [OF assms, of sc] show ?thesis by (cases "sc \<in> set (scopes s)") auto
qed

lemma forget_exported:
  assumes "good s"
  shows "exported (forgetCollector c s) =
    exported s - ((\<Union>sc \<in> {sc. sc_Collector sc = c}. owned s sc) - (\<Union>sc'. owned (forgetCollector c s) sc'))"
proof -
  have "(\<Union>sc \<in> {sc \<in> set (scopes s). sc_Collector sc = c}. owned s sc) =
      (\<Union>sc \<in> {sc. sc_Collector sc = c}. owned s sc)"
    using scopes_all [OF assms] by blast
  with clear_all_exported [OF assms, of "\<lambda>sc. sc_Collector sc = c" "scopes s"]
  show ?thesis by (simp add: forget_all [OF assms])
qed

lemma clean_record:
  assumes "good s" and "clean s"
  shows "clean (recordScope sc xs s)"
  using assms(2) replaced_union [of sc "owned (recordScope sc xs s)" "owned s", OF record_frame [OF assms(1)]]
  unfolding clean_def record_exported [OF assms(1)] by simp

lemma clean_clear:
  assumes "good s" and "clean s"
  shows "clean (clearScope sc s)"
  using assms(2) replaced_union [of sc "owned (clearScope sc s)" "owned s"]
  unfolding clean_def clear_exported [OF assms(1)] by (simp add: clear_owned [OF assms(1)])

lemma clean_forget:
  assumes "good s" and "clean s"
  shows "clean (forgetCollector c s)"
  using assms(2) unfolding clean_def forget_exported [OF assms(1)] forget_owned [OF assms(1)]
  by (auto split: if_splits)

end

text \<open>The scoped operations as values, and a run of them.\<close>

datatype scope_op = OpRecord Scope "Sample list" | OpClear Scope | OpForget string

context scoped_recorder
begin

definition run_op :: "scope_op \<Rightarrow> 's \<Rightarrow> 's" where
  "run_op op s = (case op of
     OpRecord sc xs \<Rightarrow> recordScope sc xs s
   | OpClear sc \<Rightarrow> clearScope sc s
   | OpForget c \<Rightarrow> forgetCollector c s)"

lemma run_op_clean: "good s \<Longrightarrow> clean s \<Longrightarrow> good (run_op op s) \<and> clean (run_op op s)"
  by (cases op) (simp_all add: run_op_def good_record good_clear good_forget clean_record clean_clear clean_forget)

lemma run_ops_clean: "good s \<Longrightarrow> clean s \<Longrightarrow> good (fold run_op ops s) \<and> clean (fold run_op ops s)"
  by (induction ops arbitrary: s) (simp_all add: run_op_clean)

text \<open>After any run, a collector that was forgotten last shows nothing of its own.\<close>

lemma forgotten:
  assumes "good s" and "clean s"
  shows "exported (forgetCollector c (fold run_op ops s)) =
    (\<Union>sc \<in> {sc. sc_Collector sc \<noteq> c}. owned (fold run_op ops s) sc)"
proof -
  let ?s = "fold run_op ops s"
  have g: "good ?s" "clean ?s" using run_ops_clean [OF assms] by blast+
  have "exported (forgetCollector c ?s) = (\<Union>sc. owned (forgetCollector c ?s) sc)"
    using clean_forget [OF g] by (simp add: clean_def)
  then show ?thesis unfolding forget_owned [OF g(1)] by (auto split: if_splits)
qed

end

section \<open>Series keys\<close>

definition sortedKeys :: "labels \<Rightarrow> string list" where
  "sortedKeys labels = sort (map fst labels)"

definition label :: "labels \<Rightarrow> string \<Rightarrow> string" where
  "label labels k = (case map_of labels k of None \<Rightarrow> [] | Some v \<Rightarrow> v)"

definition seriesKey :: "string \<Rightarrow> labels \<Rightarrow> string" where
  "seriesKey metric labels =
     metric @ concat (map (\<lambda>key. CHR 0x00 # key @ CHR ''='' # label labels key) (sortedKeys labels))"

record seriesRef =
  sr_metric :: string
  sr_labels :: labels

definition newSeriesRef :: "Sample \<Rightarrow> seriesRef" where
  "newSeriesRef sample = \<lparr>sr_metric = sm_Metric sample, sr_labels = sm_Labels sample\<rparr>"

section \<open>The scope tracker\<close>

text \<open>The map of scopes is iterated by \<open>forgetCollector\<close>, and the maps of series by \<open>replace\<close>: they
  are association lists.  A counter that is not in the map of owners reads as zero.\<close>

record scopeTracker =
  st_scopes :: "(Scope \<times> (string \<times> seriesRef) list) list"
  st_owners :: "string \<Rightarrow> int"

definition newScopeTracker :: scopeTracker where
  "newScopeTracker = \<lparr>st_scopes = [], st_owners = \<lambda>_. 0\<rparr>"

definition scope_series :: "Scope \<Rightarrow> scopeTracker \<Rightarrow> (string \<times> seriesRef) list" where
  "scope_series scope t = (case map_of (st_scopes t) scope of None \<Rightarrow> [] | Some m \<Rightarrow> m)"

definition count_new :: "(string \<times> seriesRef) list \<Rightarrow> string \<times> seriesRef \<Rightarrow> (string \<Rightarrow> int) \<Rightarrow> string \<Rightarrow> int" where
  "count_new previous = (\<lambda>(key, ref) owners.
     if map_of previous key = None then owners(key := owners key + 1) else owners)"

definition drop_old :: "(string \<times> seriesRef) list \<Rightarrow> string \<times> seriesRef \<Rightarrow> (string \<Rightarrow> int) \<times> seriesRef list \<Rightarrow>
    (string \<Rightarrow> int) \<times> seriesRef list" where
  "drop_old current = (\<lambda>(key, ref) (owners, stale).
     if map_of current key \<noteq> None then (owners, stale)
     else
       let n = owners key - 1 in
       if n \<le> 0 then (owners(key := 0), stale @ [ref]) else (owners(key := n), stale))"

definition replace :: "Scope \<Rightarrow> (string \<times> seriesRef) list \<Rightarrow> scopeTracker \<Rightarrow> scopeTracker \<times> seriesRef list" where
  "replace scope current t =
     (let previous = scope_series scope t;
          owners = fold (count_new previous) current (st_owners t) in
      case fold (drop_old current) previous (owners, []) of
        (owners, stale) \<Rightarrow>
          (\<lparr>st_scopes = (if current = [] then filter (\<lambda>(s, _). s \<noteq> scope) (st_scopes t)
              else put scope current (st_scopes t)),
            st_owners = owners\<rparr>, stale))"

definition tracker_forgetCollector :: "string \<Rightarrow> scopeTracker \<Rightarrow> scopeTracker \<times> seriesRef list" where
  "tracker_forgetCollector collectorID t =
     fold (\<lambda>scope (t, stale).
        if sc_Collector scope = collectorID then
          (case replace scope [] t of (t', dropped) \<Rightarrow> (t', stale @ dropped))
        else (t, stale)) (map fst (st_scopes t)) (t, [])"

section \<open>The in-memory exporter\<close>

record InMemoryExporter =
  im_values :: "string \<Rightarrow> float64 option"
  im_types :: "string \<Rightarrow> MetricType option"
  im_series :: "string \<Rightarrow> float64 option"
  im_scopes :: scopeTracker

definition NewInMemoryExporter :: InMemoryExporter where
  "NewInMemoryExporter = \<lparr>im_values = \<lambda>_. None, im_types = \<lambda>_. None, im_series = \<lambda>_. None,
     im_scopes = newScopeTracker\<rparr>"

definition sample_key :: "Sample \<Rightarrow> string" where
  "sample_key sample = seriesKey (sm_Metric sample) (sm_Labels sample)"

definition setLocked :: "Sample \<Rightarrow> InMemoryExporter \<Rightarrow> InMemoryExporter" where
  "setLocked sample e =
     e\<lparr>im_values := (im_values e)(sm_Metric sample \<mapsto> sm_Value sample),
       im_types := (im_types e)(sm_Metric sample \<mapsto> sm_Type sample),
       im_series := (im_series e)(sample_key sample \<mapsto> sm_Value sample)\<rparr>"

definition deleteLocked :: "seriesRef list \<Rightarrow> InMemoryExporter \<Rightarrow> InMemoryExporter" where
  "deleteLocked stale e =
     fold (\<lambda>ref e. e\<lparr>im_series := (im_series e)(seriesKey (sr_metric ref) (sr_labels ref) := None)\<rparr>) stale e"

definition im_Record :: "Sample list \<Rightarrow> InMemoryExporter \<Rightarrow> InMemoryExporter" where
  "im_Record samples e = fold setLocked samples e"

text \<open>The loop of \<open>RecordScope\<close>: the exporter, the series of the scope so far and the duplicates.\<close>

definition record_sample :: "Sample \<Rightarrow> InMemoryExporter \<times> (string \<times> seriesRef) list \<times> Sample list \<Rightarrow>
    InMemoryExporter \<times> (string \<times> seriesRef) list \<times> Sample list" where
  "record_sample sample = (\<lambda>(e, current, errs).
     (setLocked sample e, put (sample_key sample) (newSeriesRef sample) current,
      if map_of current (sample_key sample) \<noteq> None then errs @ [sample] else errs))"

definition im_replace :: "Scope \<Rightarrow> (string \<times> seriesRef) list \<Rightarrow> InMemoryExporter \<Rightarrow> InMemoryExporter" where
  "im_replace scope current e =
     (case replace scope current (im_scopes e) of (t, stale) \<Rightarrow> deleteLocked stale (e\<lparr>im_scopes := t\<rparr>))"

definition im_RecordScope :: "Scope \<Rightarrow> Sample list \<Rightarrow> InMemoryExporter \<Rightarrow> InMemoryExporter \<times> Sample list" where
  "im_RecordScope scope samples e =
     (case fold record_sample samples (e, [], []) of
        (e, current, errs) \<Rightarrow> (im_replace scope current e, errs))"

definition im_ClearScope :: "Scope \<Rightarrow> InMemoryExporter \<Rightarrow> InMemoryExporter" where
  "im_ClearScope scope e = im_replace scope [] e"

definition im_ForgetCollector :: "string \<Rightarrow> InMemoryExporter \<Rightarrow> InMemoryExporter" where
  "im_ForgetCollector collectorID e =
     (case tracker_forgetCollector collectorID (im_scopes e) of
        (t, stale) \<Rightarrow> deleteLocked stale (e\<lparr>im_scopes := t\<rparr>))"

definition Value :: "string \<Rightarrow> labels \<Rightarrow> InMemoryExporter \<Rightarrow> float64 option" where
  "Value metric labels e = im_series e (seriesKey metric labels)"

definition Type :: "string \<Rightarrow> InMemoryExporter \<Rightarrow> MetricType option" where
  "Type metric e = im_types e metric"

definition LastValue :: "string \<Rightarrow> InMemoryExporter \<Rightarrow> float64" where
  "LastValue metric e = (case im_values e metric of None \<Rightarrow> Finite 0 | Some v \<Rightarrow> v)"

section \<open>The tracker implements ownership\<close>

definition keys :: "(string \<times> 'r) list \<Rightarrow> string set" where
  "keys m = fst ` set m"

definition tracked :: "scopeTracker \<Rightarrow> Scope \<Rightarrow> string set" where
  "tracked t sc = keys (scope_series sc t)"

text \<open>The maps have distinct keys, a series is stored under its own key, and the number of owners of
  a series is the number of scopes that report it.\<close>

definition series_ok :: "(string \<times> seriesRef) list \<Rightarrow> bool" where
  "series_ok m \<longleftrightarrow> distinct (map fst m) \<and> list_all (\<lambda>(k, r). seriesKey (sr_metric r) (sr_labels r) = k) m"

definition tracker_ok :: "scopeTracker \<Rightarrow> bool" where
  "tracker_ok t \<longleftrightarrow> distinct (map fst (st_scopes t)) \<and> list_all (\<lambda>(sc, m). series_ok m) (st_scopes t) \<and>
     (\<forall>k. st_owners t k = int (card {sc. k \<in> tracked t sc}))"

lemma map_of_keys: "map_of m k \<noteq> None \<longleftrightarrow> k \<in> keys m"
  by (simp add: keys_def map_of_eq_None_iff)

lemma keys_simps [simp]: "keys [] = {}" "keys ((k, r) # m) = insert k (keys m)"
  by (simp_all add: keys_def)

lemma scope_series_ok: "tracker_ok t \<Longrightarrow> series_ok (scope_series sc t)"
  by (auto simp: tracker_ok_def scope_series_def list_all_iff series_ok_def split: option.split dest: map_of_SomeD)

lemma tracked_scopes: "tracked t sc \<noteq> {} \<Longrightarrow> sc \<in> set (map fst (st_scopes t))"
  by (auto simp: tracked_def scope_series_def split: option.splits dest: map_of_SomeD) (force dest: map_of_SomeD)

lemma tracked_finite: "finite {sc. k \<in> tracked t sc}"
  by (rule finite_subset [of _ "set (map fst (st_scopes t))"]) (use tracked_scopes in auto)

lemma card_update:
  assumes "finite {x. k \<in> f x}"
  shows "int (card {x. k \<in> (f(a := C)) x}) =
    int (card {x. k \<in> f x}) + (if k \<in> C then 1 else 0) - (if k \<in> f a then 1 else 0)"
proof -
  let ?rest = "{x. k \<in> f x} - {a}"
  have "{x. k \<in> (f(a := C)) x} = (if k \<in> C then insert a ?rest else ?rest)" by auto
  moreover have "{x. k \<in> f x} = (if k \<in> f a then insert a ?rest else ?rest)" by auto
  moreover have "finite ?rest" using assms by simp
  ultimately show ?thesis by (smt (verit, best) Diff_iff card_insert_disjoint insertI1 of_nat_Suc)
qed

lemma count_new_fold:
  "distinct (map fst current) \<Longrightarrow>
     fold (count_new previous) current owners k = owners k + (if k \<in> keys current - keys previous then 1 else 0)"
proof (induction current arbitrary: owners)
  case (Cons x current)
  obtain key ref where x: "x = (key, ref)" by (cases x)
  from Cons.prems x have "key \<notin> keys current" by (simp add: keys_def)
  with Cons x map_of_keys [of previous key] show ?case by (auto simp: count_new_def)
qed simp

text \<open>The second loop, when every old key has an owner left to drop.\<close>

lemma drop_old_fold:
  assumes "distinct (map fst previous)" and "\<forall>k \<in> keys previous - keys current. 1 \<le> owners k"
  shows "fold (drop_old current) previous (owners, stale) =
    (\<lambda>k. owners k - (if k \<in> keys previous - keys current then 1 else 0),
     stale @ map snd (filter (\<lambda>(k, r). k \<notin> keys current \<and> owners k = 1) previous))"
  using assms
proof (induction previous arbitrary: owners stale)
  case (Cons x previous)
  obtain key ref where x: "x = (key, ref)" by (cases x)
  from Cons.prems(1) x have new: "key \<notin> keys previous" and d: "distinct (map fst previous)"
    by (simp_all add: keys_def)
  show ?case
  proof (cases "key \<in> keys current")
    case True
    with Cons.IH [OF d, of owners stale] Cons.prems(2) x map_of_keys [of current key]
    show ?thesis by (auto simp: drop_old_def fun_eq_iff)
  next
    case False
    let ?o = "owners(key := owners key - 1)" and ?s = "if owners key = 1 then stale @ [ref] else stale"
    have one: "1 \<le> owners key" using Cons.prems(2) x False by simp
    then have step: "drop_old current x (owners, stale) = (?o, ?s)"
      using False x map_of_keys [of current key] by (auto simp: drop_old_def Let_def)
    have "\<forall>k \<in> keys previous - keys current. 1 \<le> ?o k" using Cons.prems(2) x new by auto
    note ih = Cons.IH [OF d this, of ?s]
    have ne: "k \<noteq> key" if "(k, r) \<in> set previous" for k r
      using new that by (metis fst_conv imageI keys_def)
    have flt: "filter (\<lambda>(k, r). k \<notin> keys current \<and> ?o k = 1) previous =
        filter (\<lambda>(k, r). k \<notin> keys current \<and> owners k = 1) previous"
      using ne by (intro filter_cong refl) auto
    have "fold (drop_old current) (x # previous) (owners, stale) = fold (drop_old current) previous (?o, ?s)"
      by (simp only: fold_simps step)
    then show ?thesis unfolding ih flt using x False new by (auto simp: fun_eq_iff)
  qed
qed simp

lemma filter_delete: "map_of (filter (\<lambda>(s, _). s \<noteq> a) m) x = (if x = a then None else map_of m x)"
  by (induction m) auto

text \<open>What \<open>replace\<close> does: the scope reports \<open>current\<close>, and the stale series are those no scope
  reports any more.\<close>

lemma replace_spec:
  assumes ok: "tracker_ok t" and cur: "series_ok current" and r: "replace scope current t = (t', stale)"
  shows "tracker_ok t'" and "tracked t' = (tracked t)(scope := keys current)"
    and "(\<lambda>r. seriesKey (sr_metric r) (sr_labels r)) ` set stale = tracked t scope - (\<Union>sc. tracked t' sc)"
proof -
  let ?prev = "scope_series scope t"
  let ?o1 = "fold (count_new ?prev) current (st_owners t)"
  have pok: "series_ok ?prev" by (rule scope_series_ok [OF ok])
  have dc: "distinct (map fst current)" and dp: "distinct (map fst ?prev)"
    using cur pok by (simp_all add: series_ok_def)
  have own: "st_owners t k = int (card {sc. k \<in> tracked t sc})" for k using ok by (simp add: tracker_ok_def)
  have o1: "?o1 k = st_owners t k + (if k \<in> keys current - tracked t scope then 1 else 0)" for k
    unfolding count_new_fold [OF dc] by (simp add: tracked_def)
  have pos: "1 \<le> st_owners t k" if "k \<in> tracked t scope" for k
    unfolding own using tracked_finite [of k t] that by (simp add: Suc_le_eq card_gt_0_iff) blast
  have "\<forall>k \<in> keys ?prev - keys current. 1 \<le> ?o1 k"
    using pos unfolding o1 by (simp add: tracked_def)
  note dr = drop_old_fold [OF dp this, of "[]"]
  have t': "t' = \<lparr>st_scopes = (if current = [] then filter (\<lambda>(s, _). s \<noteq> scope) (st_scopes t)
              else put scope current (st_scopes t)),
            st_owners = (\<lambda>k. ?o1 k - (if k \<in> tracked t scope - keys current then 1 else 0))\<rparr>"
    and stale: "stale = map snd (filter (\<lambda>(k, r). k \<notin> keys current \<and> ?o1 k = 1) ?prev)"
    using r unfolding replace_def Let_def dr prod.case tracked_def append_Nil prod.inject by blast+
  show tr: "tracked t' = (tracked t)(scope := keys current)"
  proof
    fix sc
    show "tracked t' sc = ((tracked t)(scope := keys current)) sc"
      by (cases "current = []"; cases "sc = scope") (simp_all add: t' tracked_def scope_series_def filter_delete)
  qed
  have owners': "st_owners t' k = int (card {sc. k \<in> tracked t' sc})" for k
  proof -
    have "st_owners t' k = ?o1 k - (if k \<in> tracked t scope - keys current then 1 else 0)" by (simp add: t')
    with o1 [of k] own [of k] show ?thesis unfolding tr card_update [OF tracked_finite] by auto
  qed
  have "distinct (map fst (st_scopes t'))"
    using ok unfolding t' by (auto simp: tracker_ok_def distinct_put distinct_map_filter)
  moreover have "list_all (\<lambda>(sc, m). series_ok m) (st_scopes t')"
    using ok cur unfolding t' by (auto simp: tracker_ok_def list_all_iff dest!: put_elem)
  ultimately show "tracker_ok t'" using owners' by (simp add: tracker_ok_def)
  have refs: "seriesKey (sr_metric r) (sr_labels r) = k" if "(k, r) \<in> set ?prev" for k r
    using pok that by (auto simp: series_ok_def list_all_iff)
  have last: "?o1 k = 1 \<longleftrightarrow> k \<notin> (\<Union>sc. tracked t' sc)" if "k \<in> tracked t scope" "k \<notin> keys current" for k
  proof -
    have "?o1 k - 1 = int (card {sc. k \<in> tracked t' sc})"
      using owners' [of k] that by (simp add: t')
    moreover have "card {sc. k \<in> tracked t' sc} = 0 \<longleftrightarrow> k \<notin> (\<Union>sc. tracked t' sc)"
      using tracked_finite [of k t'] by auto
    ultimately show ?thesis by linarith
  qed
  have "(\<lambda>r. seriesKey (sr_metric r) (sr_labels r)) ` set stale =
      {k \<in> keys ?prev. k \<notin> keys current \<and> ?o1 k = 1}"
  proof -
    let ?S = "{x \<in> set ?prev. case x of (k, r) \<Rightarrow> k \<notin> keys current \<and> ?o1 k = 1}"
    have "(\<lambda>x. seriesKey (sr_metric (snd x)) (sr_labels (snd x))) ` ?S = fst ` ?S"
      using refs by (intro image_cong refl) auto
    moreover have "fst ` ?S = {k \<in> keys ?prev. k \<notin> keys current \<and> ?o1 k = 1}"
      by (auto simp: keys_def image_iff)
    ultimately show ?thesis unfolding stale set_map set_filter image_image by simp
  qed
  also have "\<dots> = tracked t scope - (\<Union>sc. tracked t' sc)"
    using last tr by (auto simp: tracked_def)
  finally show "(\<lambda>r. seriesKey (sr_metric r) (sr_labels r)) ` set stale = tracked t scope - (\<Union>sc. tracked t' sc)" .
qed

section \<open>The in-memory exporter implements the contract\<close>

definition im_good :: "InMemoryExporter \<Rightarrow> bool" where
  "im_good e \<longleftrightarrow> tracker_ok (im_scopes e)"

definition im_exported :: "InMemoryExporter \<Rightarrow> string set" where
  "im_exported e = dom (im_series e)"

definition im_owned :: "InMemoryExporter \<Rightarrow> Scope \<Rightarrow> string set" where
  "im_owned e = tracked (im_scopes e)"

definition im_scope_list :: "InMemoryExporter \<Rightarrow> Scope list" where
  "im_scope_list e = map fst (st_scopes (im_scopes e))"

lemma deleteLocked_spec:
  "im_scopes (deleteLocked stale e) = im_scopes e"
  "im_series (deleteLocked stale e) =
     (\<lambda>k. if k \<in> (\<lambda>r. seriesKey (sr_metric r) (sr_labels r)) ` set stale then None else im_series e k)"
  unfolding deleteLocked_def by (induction stale arbitrary: e) (auto simp: fun_eq_iff)

lemma im_replace_spec:
  assumes "im_good e" and "series_ok current"
  shows "im_good (im_replace scope current e)"
    and "im_owned (im_replace scope current e) = (im_owned e)(scope := keys current)"
    and "im_exported (im_replace scope current e) =
      im_exported e - (im_owned e scope - (\<Union>sc. im_owned (im_replace scope current e) sc))"
proof -
  obtain t stale where r: "replace scope current (im_scopes e) = (t, stale)" by fastforce
  note spec = replace_spec [OF assms(1) [unfolded im_good_def] assms(2) r]
  have t: "im_scopes (im_replace scope current e) = t"
    by (simp add: im_replace_def r deleteLocked_spec)
  show "im_good (im_replace scope current e)"
    and "im_owned (im_replace scope current e) = (im_owned e)(scope := keys current)"
    using spec(1,2) by (simp_all add: im_good_def im_owned_def t)
  have "im_exported (im_replace scope current e) =
      im_exported e - (\<lambda>r. seriesKey (sr_metric r) (sr_labels r)) ` set stale"
    by (auto simp: im_exported_def im_replace_def r deleteLocked_spec split: if_splits)
  then show "im_exported (im_replace scope current e) =
      im_exported e - (im_owned e scope - (\<Union>sc. im_owned (im_replace scope current e) sc))"
    unfolding spec(3) im_owned_def t .
qed

lemma record_loop:
  assumes "fold record_sample samples (e, current, errs) = (e', current', errs')" and "series_ok current"
  shows "im_scopes e' = im_scopes e" and "series_ok current'"
    and "keys current' = keys current \<union> sample_key ` set samples"
    and "im_exported e' = im_exported e \<union> sample_key ` set samples"
proof -
  have "im_scopes e' = im_scopes e \<and> series_ok current' \<and>
      keys current' = keys current \<union> sample_key ` set samples \<and>
      im_exported e' = im_exported e \<union> sample_key ` set samples"
    using assms
  proof (induction samples arbitrary: e current errs)
    case (Cons x xs)
    let ?c = "put (sample_key x) (newSeriesRef x) current"
    have "series_ok ?c"
      using Cons.prems(2) by (auto simp: series_ok_def distinct_put list_all_iff newSeriesRef_def
          sample_key_def dest!: put_elem)
    moreover have "keys ?c = insert (sample_key x) (keys current)" by (simp add: keys_def keys_put)
    ultimately show ?case
      using Cons.IH [of "setLocked x e" ?c] Cons.prems(1)
      by (auto simp: record_sample_def setLocked_def im_exported_def)
  qed simp
  then show "im_scopes e' = im_scopes e" "series_ok current'"
    "keys current' = keys current \<union> sample_key ` set samples"
    "im_exported e' = im_exported e \<union> sample_key ` set samples" by blast+
qed

lemma im_RecordScope_spec:
  assumes "im_good e"
  shows "im_good (fst (im_RecordScope scope samples e))"
    and "im_owned (fst (im_RecordScope scope samples e)) = (im_owned e)(scope := sample_key ` set samples)"
    and "im_exported (fst (im_RecordScope scope samples e)) =
      (im_exported e \<union> sample_key ` set samples) -
      (im_owned e scope - (\<Union>sc. im_owned (fst (im_RecordScope scope samples e)) sc))"
proof -
  obtain e' current errs where loop: "fold record_sample samples (e, [], []) = (e', current, errs)"
    by (metis prod_cases3)
  have "series_ok []" by (simp add: series_ok_def)
  note l = record_loop [OF loop this]
  have r: "fst (im_RecordScope scope samples e) = im_replace scope current e'"
    by (simp add: im_RecordScope_def loop)
  have g: "im_good e'" and o: "im_owned e' = im_owned e" using assms l(1) by (simp_all add: im_good_def im_owned_def)
  note spec = im_replace_spec [OF g l(2), of scope]
  show "im_good (fst (im_RecordScope scope samples e))"
    "im_owned (fst (im_RecordScope scope samples e)) = (im_owned e)(scope := sample_key ` set samples)"
    using spec(1,2) l(3) unfolding r o by simp_all
  show "im_exported (fst (im_RecordScope scope samples e)) =
      (im_exported e \<union> sample_key ` set samples) -
      (im_owned e scope - (\<Union>sc. im_owned (fst (im_RecordScope scope samples e)) sc))"
    using spec(3) unfolding r o l(4) .
qed

text \<open>Forgetting a collector deletes at the end what clearing its scopes one by one deletes.\<close>

lemma deleteLocked_append: "deleteLocked (xs @ ys) e = deleteLocked ys (deleteLocked xs e)"
  by (simp add: deleteLocked_def)

lemma deleteLocked_scopes: "deleteLocked xs (e\<lparr>im_scopes := t\<rparr>) = (deleteLocked xs e)\<lparr>im_scopes := t\<rparr>"
proof (induction xs arbitrary: e)
  case (Cons x xs)
  have comm: "e\<lparr>im_scopes := t, im_series := m\<rparr> = e\<lparr>im_series := m, im_scopes := t\<rparr>" for m
    by (cases e) simp
  show ?case
    using Cons.IH [of "e\<lparr>im_series := (im_series e)(seriesKey (sr_metric x) (sr_labels x) := None)\<rparr>"]
    by (simp add: deleteLocked_def comm)
qed (simp add: deleteLocked_def)

lemma forget_loop:
  "fold (\<lambda>scope (t, stale). if P scope then
       (case replace scope [] t of (t', dropped) \<Rightarrow> (t', stale @ dropped)) else (t, stale)) scs (im_scopes e, stale) = (t, out) \<Longrightarrow>
   deleteLocked out (e\<lparr>im_scopes := t\<rparr>) =
     fold (\<lambda>sc e. if P sc then im_ClearScope sc e else e) scs (deleteLocked stale e)"
proof (induction scs arbitrary: e stale)
  case Nil
  then have "t = im_scopes e" "out = stale" by simp_all
  moreover have "e\<lparr>im_scopes := im_scopes e\<rparr> = e" by simp
  ultimately show ?case by simp
next
  case (Cons sc scs)
  show ?case
  proof (cases "P sc")
    case True
    obtain t1 dropped where r: "replace sc [] (im_scopes e) = (t1, dropped)" by fastforce
    let ?e = "e\<lparr>im_scopes := t1\<rparr>"
    have "im_ClearScope sc (deleteLocked stale e) = deleteLocked (stale @ dropped) ?e"
      by (simp add: im_ClearScope_def im_replace_def deleteLocked_spec(1) r deleteLocked_append
          deleteLocked_scopes)
    moreover have "deleteLocked out (?e\<lparr>im_scopes := t\<rparr>) =
        fold (\<lambda>sc e. if P sc then im_ClearScope sc e else e) scs (deleteLocked (stale @ dropped) ?e)"
      by (rule Cons.IH) (use Cons.prems True r in simp)
    ultimately show ?thesis using True by simp
  qed (use Cons in simp)
qed

interpretation im_scopes: scope_clearing im_good im_exported im_owned im_ClearScope
proof
  have "series_ok []" by (simp add: series_ok_def)
  fix e sc
  assume "im_good e"
  note spec = im_replace_spec [OF this \<open>series_ok []\<close>, of sc]
  show "im_good (im_ClearScope sc e)" "im_owned (im_ClearScope sc e) = (im_owned e)(sc := {})"
    "im_exported (im_ClearScope sc e) =
      im_exported e - (im_owned e sc - (\<Union>sc'. im_owned (im_ClearScope sc e) sc'))"
    using spec(1,2) spec(3) unfolding im_ClearScope_def by simp_all
qed

interpretation im: scoped_recorder im_good im_exported im_owned im_ClearScope
    "\<lambda>sc xs e. fst (im_RecordScope sc xs e)" im_ForgetCollector im_scope_list
proof
  fix e sc sc' xs c
  assume g: "im_good e"
  note spec = im_RecordScope_spec [OF g, of sc xs]
  show "im_good (fst (im_RecordScope sc xs e))" by (rule spec(1))
  show "im_owned (fst (im_RecordScope sc xs e)) sc' = im_owned e sc'" if "sc' \<noteq> sc" using spec(2) that by simp
  show "im_exported (fst (im_RecordScope sc xs e)) =
      (im_exported e \<union> im_owned (fst (im_RecordScope sc xs e)) sc) -
      (im_owned e sc - (\<Union>sc'. im_owned (fst (im_RecordScope sc xs e)) sc'))"
    using spec(3) unfolding spec(2) by simp
  show "sc \<in> set (im_scope_list e)" if "im_owned e sc \<noteq> {}"
    using tracked_scopes that unfolding im_owned_def im_scope_list_def by blast
  obtain t out where f: "tracker_forgetCollector c (im_scopes e) = (t, out)" by fastforce
  have "deleteLocked [] e = e" by (simp add: deleteLocked_def)
  with forget_loop [OF f [unfolded tracker_forgetCollector_def]]
  show "im_ForgetCollector c e = im_scopes.clear_all (\<lambda>sc. sc_Collector sc = c) (im_scope_list e) e"
    by (simp add: im_ForgetCollector_def f im_scopes.clear_all_def im_scope_list_def)
qed

lemma im_new: "im_good NewInMemoryExporter \<and> im.clean NewInMemoryExporter"
  by (simp add: im_good_def im.clean_def im_exported_def im_owned_def NewInMemoryExporter_def newScopeTracker_def
      tracker_ok_def tracked_def scope_series_def)

definition im_run :: "scope_op list \<Rightarrow> InMemoryExporter" where
  "im_run ops = fold (\<lambda>op e. case op of
       OpRecord sc xs \<Rightarrow> fst (im_RecordScope sc xs e)
     | OpClear sc \<Rightarrow> im_ClearScope sc e
     | OpForget c \<Rightarrow> im_ForgetCollector c e) ops NewInMemoryExporter"

lemma im_run_eq: "im_run ops = fold im.run_op ops NewInMemoryExporter"
  unfolding im_run_def im.run_op_def ..

text \<open>C19: whatever scopes write, are cleared and are forgotten, the in-memory exporter shows exactly
  the series some scope still reports, and forgetting a collector leaves exactly the series the
  other collectors report.\<close>

theorem im_no_stale_series:
  "im_exported (im_run ops) = (\<Union>sc. im_owned (im_run ops) sc) \<and>
   im_exported (im_ForgetCollector c (im_run ops)) = (\<Union>sc \<in> {sc. sc_Collector sc \<noteq> c}. im_owned (im_run ops) sc) \<and>
   im_owned (fst (im_RecordScope sc xs (im_run ops))) = (im_owned (im_run ops))(sc := sample_key ` set xs)"
proof -
  have g: "im_good (im_run ops) \<and> im.clean (im_run ops)"
    unfolding im_run_eq using im_new im.run_ops_clean by blast
  moreover have "im_exported (im_ForgetCollector c (im_run ops)) =
      (\<Union>sc \<in> {sc. sc_Collector sc \<noteq> c}. im_owned (im_run ops) sc)"
    unfolding im_run_eq by (rule im.forgotten [OF conjunct1 [OF im_new] conjunct2 [OF im_new]])
  ultimately show ?thesis using im_RecordScope_spec(2) by (auto simp: im.clean_def)
qed

end
