(* ===== verification/ProbeRun.thy ===== *)
theory ProbeRun
  imports Backoff ProbeCalls Exporter
begin

text \<open>
  One probe of one target (\<open>runner.go\<close>: \<open>executeProbe\<close>, \<open>runScopedProbe\<close>; \<open>metrics.go\<close>).  The
  exporter, the sink and the probe metrics never influence the runner, since their errors are only
  logged, so what the runner asks of them is recorded in order: the scoped operations, the metric
  events and the published evidence.

  What happens to a probe is the record \<open>probe_world\<close>: the error of the cycle's context when the
  probe is about to start, the clock, whether the abandoned call of the target, if there is one, has
  returned by then, and the outcome of the executor's call.
\<close>

section \<open>Metric events\<close>

datatype probeReason = ReasonTimeout | ReasonError | ReasonNotStarted | ReasonPanic

datatype cycleOutcome = CycleOnTime | CycleLate | CyclePanic

datatype metricEvent =
    ProbeObserved ScheduledProbe duration
  | ProbeErrored ScheduledProbe probeReason
  | CycleObserved string cycleOutcome duration
  | CycleCrashed string
  | StartDelayed string duration

definition failedUnlessCanceled :: "ctxError option \<Rightarrow> ScheduledProbe \<Rightarrow> probeReason \<Rightarrow> metricEvent list" where
  "failedUnlessCanceled ctx item reason = (if ctx = Some Canceled then [] else [ProbeErrored item reason])"

definition failedUnlessStopping :: "probeEnd \<Rightarrow> ScheduledProbe \<Rightarrow> probeReason \<Rightarrow> metricEvent list" where
  "failedUnlessStopping ended item reason = (if ended = probeCanceled then [] else [ProbeErrored item reason])"

definition isNetTimeout :: "execError \<Rightarrow> bool" where
  "isNetTimeout e = (case e of Blocked _ \<Rightarrow> False | ExecFailed net _ \<Rightarrow> net)"

definition failureReason :: "probeEnd \<Rightarrow> execError \<Rightarrow> probeReason" where
  "failureReason ended err =
     (if ended = probeTimedOut \<or> ended = probeCycleDeadline \<or> isNetTimeout err then ReasonTimeout else ReasonError)"

definition observeCycle :: "string \<Rightarrow> duration \<Rightarrow> duration \<Rightarrow> metricEvent" where
  "observeCycle collectorID d interval =
     CycleObserved collectorID (if interval > 0 \<and> d \<ge> interval then CycleLate else CycleOnTime) d"

definition observeStartDelay :: "string \<Rightarrow> duration \<Rightarrow> metricEvent" where
  "observeStartDelay collectorID delay = StartDelayed collectorID (max delay 0)"

section \<open>The context of a probe\<close>

text \<open>The probe's context, when it is done: its error, and whether the probe's own timer is the
  cause.\<close>

definition probeEndOf :: "(ctxError \<times> bool) option \<Rightarrow> probeEnd" where
  "probeEndOf ctx = (case ctx of
     None \<Rightarrow> probeRunning
   | Some (err, own) \<Rightarrow>
       if own then probeTimedOut
       else if err = DeadlineExceeded then probeCycleDeadline else probeCanceled)"

record probeOutcome =
  out_samples :: "Sample list"
  out_evidence :: "Evidence list"
  out_err :: "execError option"
  out_panicked :: bool
  out_elapsed :: duration
  out_end :: probeEnd
  out_abandoned :: bool

section \<open>Executing a probe\<close>

record probe_world =
  pw_ctx :: "ctxError option"
  pw_refused_ctx :: "ctxError option"
  pw_now :: gotime
  pw_freed :: bool
  pw_outcome :: "duration \<Rightarrow> probeOutcome"

text \<open>The return of an abandoned call in the background.\<close>

definition late_return :: "bool \<Rightarrow> ScheduledProbe \<Rightarrow> probeCalls \<Rightarrow> probeCalls" where
  "late_return freed item c =
     (case pcs_calls c (callKey item) of
        None \<Rightarrow> c
      | Some a \<Rightarrow> if freed then fst (finish item a c) else c)"

text \<open>The end of \<open>callExecutor\<close>: the call is unregistered when the executor returned in time, and
  stays registered when the waiter abandoned it.\<close>

definition callExecutor :: "ScheduledProbe \<Rightarrow> nat \<Rightarrow> probeOutcome \<Rightarrow> probeCalls \<Rightarrow> probeCalls" where
  "callExecutor item a out c = (if out_abandoned out then fst (abandon a c) else fst (finish item a c))"

type_synonym probe_result = "Sample list \<times> Evidence list \<times> probeError option"

text \<open>What executeProbe makes of an outcome, and the metric events of it.\<close>

definition classify :: "ScheduledProbe \<Rightarrow> probeOutcome \<Rightarrow> metricEvent list \<times> probe_result" where
  "classify item out =
     (let name = probe_name item; seen = [ProbeObserved item (out_elapsed out)] in
      if out_abandoned out then
        (seen @ failedUnlessStopping (out_end out) item ReasonTimeout, [], [], Some (Abandoned (out_end out) name))
      else if out_panicked out then (seen @ [ProbeErrored item ReasonPanic], [], [], Some (Panicked name))
      else case out_err out of
        None \<Rightarrow> (seen, out_samples out, out_evidence out, None)
      | Some (Blocked m) \<Rightarrow> (seen, out_samples out, out_evidence out, Some (BlockedError (Blocked m)))
      | Some err \<Rightarrow>
          (seen @ failedUnlessStopping (out_end out) item (failureReason (out_end out) err), [], [],
           Some (if out_end out = probeTimedOut then TimedOut name err else ProbeFailure name err)))"

definition executeProbe :: "probe_world \<Rightarrow> ScheduledProbe \<Rightarrow> duration \<Rightarrow> probeCalls \<Rightarrow>
    probeCalls \<times> metricEvent list \<times> probe_result" where
  "executeProbe w item interval c =
     (case pw_ctx w of
        Some err \<Rightarrow>
          (c, failedUnlessCanceled (pw_ctx w) item ReasonNotStarted, [], [], Some (NotStarted (probe_name item) err))
      | None \<Rightarrow>
         (case start item (pw_now w) c of
            (c, Inl busy) \<Rightarrow>
              (c, failedUnlessCanceled (pw_refused_ctx w) item ReasonNotStarted, [], [],
               Some (Busy (probe_name item) (pc_probe busy) (pc_abandoned busy)))
          | (c, Inr a) \<Rightarrow>
              let out = pw_outcome w (probeTimeout (pdef_TimeoutMS (sp_Definition item)) interval) in
              (callExecutor item a out c, classify item out)))"

section \<open>Its series\<close>

record run_state =
  rn_calls :: probeCalls
  rn_tracker :: targetTracker
  rn_ops :: "scope_op list"
  rn_metrics :: "metricEvent list"
  rn_published :: "Evidence list list"

definition probe_scope :: "string \<Rightarrow> ScheduledProbe \<Rightarrow> Scope" where
  "probe_scope collectorID item = \<lparr>sc_Collector = collectorID, sc_Target = target_name item, sc_Probe = probe_name item\<rparr>"

definition clearScope :: "Scope \<Rightarrow> run_state \<Rightarrow> run_state" where
  "clearScope scope st = st\<lparr>rn_ops := rn_ops st @ [OpClear scope]\<rparr>"

definition recordScope :: "Scope \<Rightarrow> Sample list \<Rightarrow> run_state \<Rightarrow> run_state" where
  "recordScope scope samples st = st\<lparr>rn_ops := rn_ops st @ [OpRecord scope samples]\<rparr>"

definition runScopedProbe :: "probe_world \<Rightarrow> CollectorRuntimeConfig \<Rightarrow> ScheduledProbe \<Rightarrow> run_state \<Rightarrow>
    run_state \<times> Evidence list \<times> probeError option" where
  "runScopedProbe w collector item st =
     (let scope = probe_scope (coll_ID collector) item;
          calls = late_return (pw_freed w) item (rn_calls st) in
      case executeProbe w item (coll_ScrapeInterval collector) calls of
        (calls, events, samples, evidence, err) \<Rightarrow>
          let st = st\<lparr>rn_calls := calls, rn_metrics := rn_metrics st @ events\<rparr> in
          case err of
            None \<Rightarrow> (recordScope scope samples st, evidence, None)
          | Some e \<Rightarrow>
              if is_blocked e then (recordScope scope samples st, evidence, Some e)
              else (clearScope scope st, [], Some e))"

end
