(* ===== verification/Runner.thy ===== *)
theory Runner
  imports ProbeRun GoTime "HOL-Library.Multiset"
begin

text \<open>
  Targets and cycles (\<open>runner.go\<close>: \<open>runTarget\<close>, \<open>finishTarget\<close>, \<open>failTarget\<close>, \<open>skipTarget\<close>, \<open>recordHealth\<close>,
  \<open>runCycle\<close>, \<open>cycleError\<close>, \<open>Poller.cycle\<close>, \<open>failedCycle\<close>).  The targets of a cycle are goroutines;
  they run here one after the other in an arbitrary order, the schedule of the cycle.  The
  semaphore that bounds how many run at once only delays them and is left out, and so are tracing
  and logging.

  What a cycle meets is given per target by \<open>target_world\<close>: what happens to each of its probes, the
  random numbers of the backoffs, the time it finishes and what is known of the login.
\<close>

record target_world =
  tw_probes :: "nat \<Rightarrow> probe_world"
  tw_jitter :: "nat \<Rightarrow> rat"
  tw_target_jitter :: rat
  tw_now :: gotime
  tw_sysadmin :: "bool option"

record probeRun =
  run_item :: ScheduledProbe
  run_err :: "probeError option"
  run_waiting :: "probeState option"

section \<open>Health series\<close>

definition MetricTargetUp :: string where "MetricTargetUp = ''heartbeat_collector_target_up''"
definition MetricTargetLastSuccess :: string where
  "MetricTargetLastSuccess = ''heartbeat_collector_target_last_success_timestamp_seconds''"
definition MetricTargetConsecutiveFailures :: string where
  "MetricTargetConsecutiveFailures = ''heartbeat_collector_target_consecutive_failures''"
definition MetricCycleDuration :: string where "MetricCycleDuration = ''heartbeat_collector_cycle_duration_seconds''"
definition MetricProbeUp :: string where "MetricProbeUp = ''heartbeat_collector_probe_up''"
definition MetricTargetLoginSysadmin :: string where
  "MetricTargetLoginSysadmin = ''heartbeat_collector_target_login_sysadmin''"
definition healthScopeProbe :: string where "healthScopeProbe = ''__health__''"
definition cycleScopeProbe :: string where "cycleScopeProbe = ''__cycle__''"

text \<open>A sample; the help texts are constants and left out.\<close>

definition gauge :: "string \<Rightarrow> float64 \<Rightarrow> labels \<Rightarrow> Sample" where
  "gauge metric v labels = \<lparr>sm_Metric = metric, sm_Help = [], sm_Value = v, sm_Type = Gauge, sm_Labels = labels\<rparr>"

definition health_labels :: "string \<Rightarrow> targetGroup \<Rightarrow> labels" where
  "health_labels collectorID grp =
     [(''collector'', collectorID), (''environment'', tg_environment grp), (''target'', tg_name grp)]"

definition target_up :: "TargetState \<Rightarrow> bool" where
  "target_up s \<longleftrightarrow> s = TargetOK \<or> s = TargetBlocked \<or> s = TargetDegraded"

definition health_samples :: "string \<Rightarrow> targetGroup \<Rightarrow> bool option \<Rightarrow> TargetResult \<Rightarrow> Sample list" where
  "health_samples collectorID grp sysadmin result =
     (let labels = health_labels collectorID grp;
          up = target_up (tr_State result);
          failing = map pr_Probe (tr_Probes result);
          bit = (\<lambda>b. Finite (if b then 1 else 0)) in
      [gauge MetricTargetUp (bit up) labels,
       gauge MetricTargetConsecutiveFailures (fl_int (int (tr_ConsecutiveFailures result))) labels] @
      map (\<lambda>item. gauge MetricProbeUp (bit (up \<and> probe_name item \<notin> set failing))
             (labels @ [(''probe'', probe_name item)])) (tg_items grp) @
      (if tr_LastSuccess result \<noteq> 0 then
         [gauge MetricTargetLastSuccess (fl (round64 (of_int (UnixNano (tr_LastSuccess result))) / 1000000000)) labels]
       else []) @
      (case sysadmin of
         None \<Rightarrow> []
       | Some b \<Rightarrow> if tg_items grp = [] then [] else [gauge MetricTargetLoginSysadmin (bit b) labels]))"

definition health_scope :: "string \<Rightarrow> string \<Rightarrow> Scope" where
  "health_scope collectorID target = \<lparr>sc_Collector = collectorID, sc_Target = target, sc_Probe = healthScopeProbe\<rparr>"

definition recordHealth :: "string \<Rightarrow> targetGroup \<Rightarrow> bool option \<Rightarrow> TargetResult \<Rightarrow> run_state \<Rightarrow> run_state" where
  "recordHealth collectorID grp sysadmin result st =
     recordScope (health_scope collectorID (tg_name grp)) (health_samples collectorID grp sysadmin result) st"

section \<open>One target\<close>

definition skipTarget :: "string \<Rightarrow> targetGroup \<Rightarrow> bool option \<Rightarrow> targetState \<Rightarrow> run_state \<Rightarrow>
    run_state \<times> TargetResult" where
  "skipTarget collectorID grp sysadmin state st =
     (let st = fold (\<lambda>item. clearScope (probe_scope collectorID item)) (tg_items grp) st;
          result = \<lparr>tr_Target = tg_name grp, tr_State = TargetBackoff, tr_Err = ts_lastErr state,
            tr_ConsecutiveFailures = ts_consecutiveFailures state, tr_LastSuccess = ts_lastSuccess state,
            tr_NextAttempt = ts_nextAttempt state, tr_Probes = []\<rparr> in
      (recordHealth collectorID grp sysadmin result st, result))"

text \<open>The first loop of \<open>runTarget\<close>.\<close>

definition initial_runs :: "targetGroup \<Rightarrow> gotime \<Rightarrow> targetTracker \<Rightarrow> probeRun list" where
  "initial_runs grp cycleStart t =
     map (\<lambda>item. \<lparr>run_item = item, run_err = None,
        run_waiting = probeWaiting (tg_name grp) (probe_name item) cycleStart t\<rparr>) (tg_items grp)"

text \<open>The second loop: the outcomes, the evidence and the blocked errors, in order.\<close>

fun run_probes :: "target_world \<Rightarrow> CollectorRuntimeConfig \<Rightarrow> bool \<Rightarrow> nat \<Rightarrow> probeRun list \<Rightarrow> run_state \<Rightarrow>
    run_state \<times> probeRun list \<times> Evidence list \<times> probeError list" where
  "run_probes w collector waitingAll i [] st = (st, [], [], [])"
| "run_probes w collector waitingAll i (run # runs) st =
     (let item = run_item run in
      if run_waiting run \<noteq> None \<and> \<not> waitingAll then
        (case run_probes w collector waitingAll (i + 1) runs (clearScope (probe_scope (coll_ID collector) item) st) of
           (st, runs', evidence, blocked) \<Rightarrow> (st, run # runs', evidence, blocked))
      else
        (case runScopedProbe (tw_probes w i) collector item st of
           (st, items, err) \<Rightarrow>
             (case run_probes w collector waitingAll (i + 1) runs st of
                (st, runs', evidence, blocked) \<Rightarrow>
                  let run = run\<lparr>run_waiting := None\<rparr> in
                  (case err of
                     None \<Rightarrow> (st, run # runs', items @ evidence, blocked)
                   | Some e \<Rightarrow>
                       if is_blocked e then (st, run # runs', items @ evidence, e # blocked)
                       else (st, run\<lparr>run_err := Some e\<rparr> # runs', evidence, blocked)))))"

definition publish :: "Evidence list \<Rightarrow> run_state \<Rightarrow> run_state" where
  "publish evidence st = (if evidence = [] then st else st\<lparr>rn_published := rn_published st @ [evidence]\<rparr>)"

definition failTarget :: "target_world \<Rightarrow> CollectorRuntimeConfig \<Rightarrow> targetGroup \<Rightarrow> gotime \<Rightarrow> probeError list \<Rightarrow>
    run_state \<Rightarrow> run_state \<times> TargetResult" where
  "failTarget w collector grp cycleStart err st =
     (case fail (tg_name grp) cycleStart (coll_ScrapeInterval collector) (tw_target_jitter w) err (rn_tracker st) of
        (t, state) \<Rightarrow>
          let result = \<lparr>tr_Target = tg_name grp, tr_State = TargetFailed, tr_Err = err,
            tr_ConsecutiveFailures = ts_consecutiveFailures state, tr_LastSuccess = ts_lastSuccess state,
            tr_NextAttempt = ts_nextAttempt state, tr_Probes = []\<rparr> in
          (recordHealth (coll_ID collector) grp (tw_sysadmin w) result (st\<lparr>rn_tracker := t\<rparr>), result))"

text \<open>The second loop of \<open>finishTarget\<close>: the tracker, the results of the probes that did not
  succeed, and the errors of those that wait.\<close>

fun finish_probes :: "target_world \<Rightarrow> string \<Rightarrow> gotime \<Rightarrow> duration \<Rightarrow> nat \<Rightarrow> probeRun list \<Rightarrow> targetTracker \<Rightarrow>
    targetTracker \<times> ProbeResult list \<times> probeError list" where
  "finish_probes w target cycleStart interval i [] t = (t, [], [])"
| "finish_probes w target cycleStart interval i (run # runs) t =
     (let name = probe_name (run_item run) in
      case run_waiting run of
        Some waiting \<Rightarrow>
          (case finish_probes w target cycleStart interval (i + 1) runs t of
             (t, probes, errs) \<Rightarrow>
               (t, \<lparr>pr_Probe = name, pr_State = ProbeBackoff, pr_Err = ps_lastErr waiting,
                    pr_ConsecutiveFailures = ps_consecutiveFailures waiting,
                    pr_NextAttempt = ps_nextAttempt waiting\<rparr> # probes, ps_lastErr waiting @ errs))
      | None \<Rightarrow>
         (case run_err run of
            Some err \<Rightarrow>
              (case probeFail target name cycleStart interval (tw_jitter w i) err t of
                 (t, state) \<Rightarrow>
                   (case finish_probes w target cycleStart interval (i + 1) runs t of
                      (t, probes, errs) \<Rightarrow>
                        (t, \<lparr>pr_Probe = name, pr_State = ProbeFailed, pr_Err = [err],
                             pr_ConsecutiveFailures = ps_consecutiveFailures state,
                             pr_NextAttempt = ps_nextAttempt state\<rparr> # probes, errs)))
          | None \<Rightarrow>
              finish_probes w target cycleStart interval (i + 1) runs (fst (probeSucceed target name t))))"

definition ran :: "probeRun list \<Rightarrow> probeRun list" where
  "ran runs = filter (\<lambda>run. run_waiting run = None) runs"

definition failures :: "probeRun list \<Rightarrow> probeError list" where
  "failures runs = List.map_filter run_err runs"

definition finishTarget :: "target_world \<Rightarrow> CollectorRuntimeConfig \<Rightarrow> targetGroup \<Rightarrow> gotime \<Rightarrow> probeRun list \<Rightarrow>
    probeError list \<Rightarrow> run_state \<Rightarrow> run_state \<times> TargetResult" where
  "finishTarget w collector grp cycleStart runs blocked st =
     (let errs = failures runs in
      if length errs > 0 \<and> length errs = length (ran runs) then
        failTarget w collector grp cycleStart errs
          (st\<lparr>rn_tracker := resetProbes (tg_name grp) (rn_tracker st)\<rparr>)
      else
        (case finish_probes w (tg_name grp) cycleStart (coll_ScrapeInterval collector) 0 runs (rn_tracker st) of
           (t, probes, waiting) \<Rightarrow>
             (case succeed (tg_name grp) (tw_now w) t of
                (t, previous, current) \<Rightarrow>
                  let result = \<lparr>tr_Target = tg_name grp, tr_State = TargetOK, tr_Err = [], tr_ConsecutiveFailures = 0,
                        tr_LastSuccess = ts_lastSuccess current, tr_NextAttempt = 0, tr_Probes = []\<rparr>;
                      result = (if probes \<noteq> [] then
                          result\<lparr>tr_State := TargetDegraded, tr_Err := errs @ waiting @ blocked, tr_Probes := probes\<rparr>
                        else if blocked \<noteq> [] then result\<lparr>tr_State := TargetBlocked, tr_Err := blocked\<rparr>
                        else result) in
                  (recordHealth (coll_ID collector) grp (tw_sysadmin w) result (st\<lparr>rn_tracker := t\<rparr>), result))))"

definition runTarget :: "target_world \<Rightarrow> CollectorRuntimeConfig \<Rightarrow> targetGroup \<Rightarrow> gotime \<Rightarrow> run_state \<Rightarrow>
    run_state \<times> TargetResult" where
  "runTarget w collector grp cycleStart st =
     (let runs = initial_runs grp cycleStart (rn_tracker st);
          waitingAll = list_all (\<lambda>run. run_waiting run \<noteq> None) runs in
      case run_probes w collector waitingAll 0 runs st of
        (st, runs, evidence, blocked) \<Rightarrow>
          finishTarget w collector grp cycleStart runs blocked (publish evidence st))"

section \<open>One cycle\<close>

text \<open>One target of a cycle, skipped while it backs off.\<close>

definition cycle_target :: "CollectorRuntimeConfig \<Rightarrow> gotime \<Rightarrow> target_world \<Rightarrow> targetGroup \<Rightarrow> run_state \<Rightarrow>
    run_state \<times> TargetResult" where
  "cycle_target collector started w grp st =
     (let state = get (tg_name grp) (rn_tracker st) in
      if started < ts_nextAttempt state then skipTarget (coll_ID collector) grp (tw_sysadmin w) state st
      else runTarget w collector grp started st)"

fun run_targets :: "CollectorRuntimeConfig \<Rightarrow> gotime \<Rightarrow> (nat \<Rightarrow> target_world) \<Rightarrow> targetGroup list \<Rightarrow> nat list \<Rightarrow>
    run_state \<Rightarrow> (nat \<Rightarrow> TargetResult) \<Rightarrow> run_state \<times> (nat \<Rightarrow> TargetResult)" where
  "run_targets collector started w groups [] st results = (st, results)"
| "run_targets collector started w groups (i # order) st results =
     (case cycle_target collector started (w i) (groups ! i) st of
        (st, result) \<Rightarrow> run_targets collector started w groups order st (results(i := result)))"

definition zero_result :: TargetResult where
  "zero_result = \<lparr>tr_Target = [], tr_State = TargetOK, tr_Err = [], tr_ConsecutiveFailures = 0, tr_LastSuccess = 0,
     tr_NextAttempt = 0, tr_Probes = []\<rparr>"

definition recordCycleDuration :: "string \<Rightarrow> duration \<Rightarrow> run_state \<Rightarrow> run_state" where
  "recordCycleDuration collectorID d st =
     recordScope \<lparr>sc_Collector = collectorID, sc_Target = [], sc_Probe = cycleScopeProbe\<rparr>
       [gauge MetricCycleDuration (seconds d) [(''collector'', collectorID)]] st"

record cycle_world =
  cw_started :: gotime
  cw_finished :: gotime
  cw_ctx :: "ctxError option"
  cw_targets :: "nat \<Rightarrow> target_world"
  cw_order :: "nat \<Rightarrow> nat list"

definition runCycle :: "cycle_world \<Rightarrow> CollectorRuntimeConfig \<Rightarrow> run_state \<Rightarrow> run_state \<times> CycleResult" where
  "runCycle w collector st =
     (if \<not> coll_Enabled collector then
        (st, \<lparr>cr_CollectorID = coll_ID collector, cr_Started = cw_started w, cr_Finished = cw_started w, cr_Targets = []\<rparr>)
      else
        let groups = groupByTarget (scheduledProbes collector) in
        case run_targets collector (cw_started w) (cw_targets w) groups (cw_order w (length groups)) st (\<lambda>_. zero_result) of
          (st, results) \<Rightarrow>
            let d = time_sub (cw_finished w) (cw_started w);
                st = recordCycleDuration (coll_ID collector) d st;
                st = (if cw_ctx w = Some Canceled then st
                  else st\<lparr>rn_metrics := rn_metrics st @ [observeCycle (coll_ID collector) d (coll_ScrapeInterval collector)]\<rparr>) in
            (st, \<lparr>cr_CollectorID = coll_ID collector, cr_Started = cw_started w, cr_Finished = cw_finished w,
               cr_Targets = map results [0..<length groups]\<rparr>))"

definition cycleError :: "CycleResult \<Rightarrow> (string \<times> probeError list) list" where
  "cycleError result = concat (map (\<lambda>target.
     if tr_State target = TargetDegraded then map (\<lambda>probe. (tr_Target target, pr_Err probe)) (tr_Probes target)
     else if tr_Err target \<noteq> [] \<and> tr_State target \<noteq> TargetBlocked then [(tr_Target target, tr_Err target)]
     else []) (cr_Targets result))"

definition failedCycle :: "CollectorRuntimeConfig \<Rightarrow> targetTracker \<Rightarrow> gotime \<Rightarrow> gotime \<Rightarrow> probeError list \<Rightarrow> CycleResult" where
  "failedCycle collector t started now err =
     \<lparr>cr_CollectorID = coll_ID collector, cr_Started = started, cr_Finished = now,
      cr_Targets = map (\<lambda>target.
        let state = get (target_Name target) t in
        \<lparr>tr_Target = target_Name target, tr_State = TargetFailed, tr_Err = err,
         tr_ConsecutiveFailures = ts_consecutiveFailures state, tr_LastSuccess = ts_lastSuccess state,
         tr_NextAttempt = ts_nextAttempt state, tr_Probes = []\<rparr>) (filter (selected collector) (coll_Targets collector))\<rparr>"

text \<open>One cycle of a poller: \<open>panicked\<close> says that a panic escaped the cycle, and \<open>st'\<close> is then the
  state it left behind.\<close>

definition cycle :: "cycle_world \<Rightarrow> run_state option \<Rightarrow> CollectorRuntimeConfig \<Rightarrow> run_state \<Rightarrow> run_state \<times> CycleResult" where
  "cycle w panicked collector st =
     (let started = cw_started w; t = rn_tracker st;
          st = (if tk_lastCycleStart t \<noteq> 0 then
              st\<lparr>rn_metrics := rn_metrics st @ [observeStartDelay (coll_ID collector)
                (int64 (time_sub started (tk_lastCycleStart t) - coll_ScrapeInterval collector))]\<rparr>
            else st);
          st = st\<lparr>rn_tracker := t\<lparr>tk_lastCycleStart := started\<rparr>\<rparr> in
      case panicked of
        None \<Rightarrow> runCycle w collector st
      | Some st' \<Rightarrow>
          (st'\<lparr>rn_metrics := rn_metrics st' @ [CycleCrashed (coll_ID collector)]\<rparr>,
           failedCycle collector (rn_tracker st') started (cw_finished w) [CyclePanicked]))"

definition RunOnce :: "cycle_world \<Rightarrow> CollectorRuntimeConfig \<Rightarrow> run_state \<Rightarrow>
    run_state \<times> CycleResult \<times> (string \<times> probeError list) list" where
  "RunOnce w collector st =
     (case runCycle w collector (st\<lparr>rn_tracker := newTargetTracker\<rparr>) of
        (st, result) \<Rightarrow> (st, result, cycleError result))"

section \<open>What a target's result says\<close>

lemma failures_le_ran:
  assumes "list_all (\<lambda>run. run_err run = None \<or> run_waiting run = None) runs"
  shows "length (failures runs) \<le> length (ran runs)"
  using assms by (induction runs) (auto simp: failures_def ran_def List.map_filter_simps split: option.splits)

lemma finish_probes_results:
  assumes "finish_probes w target cycleStart interval i runs t = (t', probes, errs)"
  shows "map pr_Probe probes = map (\<lambda>run. probe_name (run_item run))
    (filter (\<lambda>run. run_waiting run \<noteq> None \<or> run_err run \<noteq> None) runs)"
  using assms
proof (induction runs arbitrary: i t t' probes errs)
  case (Cons run runs)
  show ?case
  proof (cases "run_waiting run")
    case (Some waiting)
    with Cons.prems obtain probes' errs' where
      "finish_probes w target cycleStart interval (i + 1) runs t = (t', probes', errs')"
      "pr_Probe (hd probes) = probe_name (run_item run)" "probes = hd probes # probes'"
      by (auto simp: Let_def split: prod.splits)
    from Cons.IH [OF this(1)] this(2,3) Some show ?thesis by (metis (mono_tags, lifting) filter.simps(2) list.simps(9) option.distinct(1))
  next
    case None
    show ?thesis
    proof (cases "run_err run")
      case (Some err)
      with None Cons.prems obtain t1 probes' errs' where
        "finish_probes w target cycleStart interval (i + 1) runs t1 = (t', probes', errs')"
        "pr_Probe (hd probes) = probe_name (run_item run)" "probes = hd probes # probes'"
        by (auto simp: Let_def split: prod.splits)
      from Cons.IH [OF this(1)] this(2,3) Some show ?thesis by (metis (mono_tags, lifting) filter.simps(2) list.simps(9) option.distinct(1))
    next
      case e: None
      with None Cons.prems have
        "finish_probes w target cycleStart interval (i + 1) runs (fst (probeSucceed target (probe_name (run_item run)) t)) = (t', probes, errs)"
        by (simp add: Let_def)
      from Cons.IH [OF this] None e show ?thesis by simp
    qed
  qed
qed simp

lemma failTarget_result:
  "tr_State (snd (failTarget w collector grp cycleStart err st)) = TargetFailed"
  "tr_Target (snd (failTarget w collector grp cycleStart err st)) = tg_name grp"
  by (simp_all add: failTarget_def Let_def split: prod.splits)

lemma finishTarget_cases:
  fixes runs :: "probeRun list" and st blocked cycleStart grp collector w
  defines "failing \<equiv> filter (\<lambda>run. run_waiting run \<noteq> None \<or> run_err run \<noteq> None) runs"
    and "result \<equiv> snd (finishTarget w collector grp cycleStart runs blocked st)"
  shows "tr_State result =
      (if failures runs \<noteq> [] \<and> length (failures runs) = length (ran runs) then TargetFailed
       else if failing \<noteq> [] then TargetDegraded
       else if blocked \<noteq> [] then TargetBlocked else TargetOK) \<and>
    tr_Target result = tg_name grp \<and>
    (tr_State result = TargetFailed \<or> tr_ConsecutiveFailures result = 0) \<and>
    (tr_State result = TargetFailed \<or> map pr_Probe (tr_Probes result) = map (\<lambda>run. probe_name (run_item run)) failing)"
proof (cases "failures runs \<noteq> [] \<and> length (failures runs) = length (ran runs)")
  case True
  then have "result = snd (failTarget w collector grp cycleStart (failures runs)
      (st\<lparr>rn_tracker := resetProbes (tg_name grp) (rn_tracker st)\<rparr>))"
    by (simp add: result_def finishTarget_def Let_def)
  with True show ?thesis by (simp add: failTarget_result)
next
  case False
  obtain t probes errs where f: "finish_probes w (tg_name grp) cycleStart (coll_ScrapeInterval collector) 0 runs
      (rn_tracker st) = (t, probes, errs)" by (metis prod_cases3)
  note names = finish_probes_results [OF f, folded failing_def]
  then have empty: "probes = [] \<longleftrightarrow> failing = []" by (metis map_is_Nil_conv)
  let ?r = "\<lparr>tr_Target = tg_name grp, tr_State = TargetOK, tr_Err = [], tr_ConsecutiveFailures = 0,
    tr_LastSuccess = tw_now w, tr_NextAttempt = 0, tr_Probes = []\<rparr>"
  have r: "result = (if probes \<noteq> [] then
      ?r\<lparr>tr_State := TargetDegraded, tr_Err := failures runs @ errs @ blocked, tr_Probes := probes\<rparr>
      else if blocked \<noteq> [] then ?r\<lparr>tr_State := TargetBlocked, tr_Err := blocked\<rparr> else ?r)"
    using False unfolding result_def finishTarget_def Let_def f by (auto simp: succeed_def Let_def)
  show ?thesis
    using False empty names unfolding r by (cases "probes = []"; cases "blocked = []") auto
qed

text \<open>The runs of the probes that did not succeed.\<close>

definition failing :: "probeRun list \<Rightarrow> probeRun list" where
  "failing runs = filter (\<lambda>run. run_waiting run \<noteq> None \<or> run_err run \<noteq> None) runs"

text \<open>The state of a target's result says how its probes fared: it failed exactly when some probe
  ran and every probe that ran failed; otherwise it is degraded, with exactly the failing and the
  waiting probes listed, when there are any, blocked when some probe only waits for its output to
  be accepted, and else fine.\<close>

theorem finishTarget_state:
  "let result = snd (finishTarget w collector grp cycleStart runs blocked st) in
    tr_State result =
      (if failures runs \<noteq> [] \<and> length (failures runs) = length (ran runs) then TargetFailed
       else if failing runs \<noteq> [] then TargetDegraded
       else if blocked \<noteq> [] then TargetBlocked else TargetOK) \<and>
    tr_Target result = tg_name grp \<and>
    (tr_State result = TargetFailed \<or> tr_ConsecutiveFailures result = 0) \<and>
    (tr_State result = TargetFailed \<or> map pr_Probe (tr_Probes result) = map (\<lambda>run. probe_name (run_item run)) (failing runs))"
  unfolding Let_def failing_def by (rule finishTarget_cases)

section \<open>Targets do not interfere\<close>

text \<open>The call in flight for a target, if any; what a probe does depends on the registry of calls
  only through it.\<close>

definition calls_view :: "probeCalls \<Rightarrow> probeCallKey \<Rightarrow> probeCall option" where
  "calls_view c k = map_option (\<lambda>a. pcs_heap c ! a) (pcs_calls c k)"

definition calls_wf :: "probeCalls \<Rightarrow> bool" where
  "calls_wf c \<longleftrightarrow> (\<forall>k a. pcs_calls c k = Some a \<longrightarrow> a < length (pcs_heap c)) \<and>
     (\<forall>k k' a. pcs_calls c k = Some a \<longrightarrow> pcs_calls c k' = Some a \<longrightarrow> k = k')"

lemma calls_wfD:
  assumes "calls_wf c"
  shows "pcs_calls c k = Some a \<Longrightarrow> a < length (pcs_heap c)"
    and "pcs_calls c k = Some a \<Longrightarrow> pcs_calls c k' = Some a \<Longrightarrow> k = k'"
  using assms unfolding calls_wf_def by blast+

lemma calls_wfI:
  assumes "\<And>k a. pcs_calls c k = Some a \<Longrightarrow> a < length (pcs_heap c)"
    and "\<And>k k' a. pcs_calls c k = Some a \<Longrightarrow> pcs_calls c k' = Some a \<Longrightarrow> k = k'"
  shows "calls_wf c"
  using assms unfolding calls_wf_def by blast

definition new_call :: "ScheduledProbe \<Rightarrow> gotime \<Rightarrow> probeCall" where
  "new_call item now = \<lparr>pc_probe = probe_name item, pc_started = now, pc_abandoned = False, pc_finished = False\<rparr>"

lemma start_view:
  assumes "calls_wf c"
  shows "calls_view c (callKey item) = Some busy \<Longrightarrow> start item now c = (c, Inl busy)"
    and "calls_view c (callKey item) = None \<Longrightarrow> \<exists>c' a. start item now c = (c', Inr a) \<and> calls_wf c' \<and>
      pcs_calls c' (callKey item) = Some a \<and> calls_view c' = (calls_view c)(callKey item \<mapsto> new_call item now)"
proof -
  show "calls_view c (callKey item) = Some busy \<Longrightarrow> start item now c = (c, Inl busy)"
    by (auto simp: calls_view_def start_def)
  assume "calls_view c (callKey item) = None"
  then have none: "pcs_calls c (callKey item) = None" by (simp add: calls_view_def)
  let ?a = "length (pcs_heap c)"
  let ?c = "c\<lparr>pcs_heap := pcs_heap c @ [new_call item now], pcs_calls := (pcs_calls c)(callKey item := Some ?a)\<rparr>"
  have s: "start item now c = (?c, Inr ?a)" using none by (simp add: start_def new_call_def)
  have "calls_wf ?c"
  proof (rule calls_wfI)
    fix k a
    assume "pcs_calls ?c k = Some a"
    then show "a < length (pcs_heap ?c)"
      using calls_wfD(1) [OF assms, of k a] by (auto split: if_splits)
  next
    fix k k' a
    assume k: "pcs_calls ?c k = Some a" "pcs_calls ?c k' = Some a"
    have fresh: "pcs_calls c j \<noteq> Some ?a" for j using calls_wfD(1) [OF assms, of j ?a] by auto
    from k calls_wfD(2) [OF assms, of k a k'] fresh show "k = k'" by (auto split: if_splits)
  qed
  moreover have "calls_view ?c k = ((calls_view c)(callKey item \<mapsto> new_call item now)) k" for k
  proof (cases "k = callKey item")
    case False
    then show ?thesis
      using calls_wfD(1) [OF assms, of k] by (cases "pcs_calls c k") (auto simp: calls_view_def nth_append)
  qed (simp add: calls_view_def)
  then have "calls_view ?c = (calls_view c)(callKey item \<mapsto> new_call item now)" ..
  ultimately show "\<exists>c' a. start item now c = (c', Inr a) \<and> calls_wf c' \<and>
      pcs_calls c' (callKey item) = Some a \<and> calls_view c' = (calls_view c)(callKey item \<mapsto> new_call item now)"
    using s by (intro exI [of _ ?c] exI [of _ ?a]) simp
qed

lemma finish_view:
  assumes "calls_wf c" and "pcs_calls c (callKey item) = Some a"
  shows "calls_wf (fst (finish item a c))"
    and "calls_view (fst (finish item a c)) = (calls_view c)(callKey item := None)"
proof -
  have h: "pcs_heap (fst (finish item a c)) = (pcs_heap c)[a := (pcs_heap c ! a)\<lparr>pc_finished := True\<rparr>]"
    and m: "pcs_calls (fst (finish item a c)) = (pcs_calls c)(callKey item := None)"
    using assms(2) by (simp_all add: finish_def Let_def)
  show "calls_wf (fst (finish item a c))"
  proof (rule calls_wfI)
    fix k b
    assume "pcs_calls (fst (finish item a c)) k = Some b"
    then show "b < length (pcs_heap (fst (finish item a c)))"
      using calls_wfD(1) [OF assms(1), of k b] unfolding h m by (auto split: if_splits)
  next
    fix k k' b
    assume "pcs_calls (fst (finish item a c)) k = Some b" "pcs_calls (fst (finish item a c)) k' = Some b"
    then show "k = k'" using calls_wfD(2) [OF assms(1), of k b k'] unfolding m by (auto split: if_splits)
  qed
  have "calls_view (fst (finish item a c)) k = ((calls_view c)(callKey item := None)) k" for k
  proof (cases "k = callKey item")
    case False
    then have "pcs_calls c k \<noteq> Some a" using calls_wfD(2) [OF assms, of k] by blast
    with False show ?thesis by (cases "pcs_calls c k") (auto simp: calls_view_def h m)
  qed (simp add: calls_view_def m)
  then show "calls_view (fst (finish item a c)) = (calls_view c)(callKey item := None)" ..
qed

lemma abandon_view:
  assumes "calls_wf c" and "pcs_calls c (callKey item) = Some a" and "\<not> pc_finished (pcs_heap c ! a)"
  shows "calls_wf (fst (abandon a c))"
    and "calls_view (fst (abandon a c)) = (calls_view c)(callKey item \<mapsto> (pcs_heap c ! a)\<lparr>pc_abandoned := True\<rparr>)"
proof -
  have h: "pcs_heap (fst (abandon a c)) = (pcs_heap c)[a := (pcs_heap c ! a)\<lparr>pc_abandoned := True\<rparr>]"
    and m: "pcs_calls (fst (abandon a c)) = pcs_calls c"
    using assms(3) by (simp_all add: abandon_def)
  show "calls_wf (fst (abandon a c))" using assms(1) by (simp add: calls_wf_def h m)
  have "calls_view (fst (abandon a c)) k =
      ((calls_view c)(callKey item \<mapsto> (pcs_heap c ! a)\<lparr>pc_abandoned := True\<rparr>)) k" for k
  proof (cases "k = callKey item")
    case False
    then have "pcs_calls c k \<noteq> Some a" using calls_wfD(2) [OF assms(1,2), of k] by blast
    with False show ?thesis by (cases "pcs_calls c k") (auto simp: calls_view_def h m)
  next
    case True
    then show ?thesis using assms(2) calls_wfD(1) [OF assms(1,2)] by (simp add: calls_view_def h m)
  qed
  then show "calls_view (fst (abandon a c)) =
      (calls_view c)(callKey item \<mapsto> (pcs_heap c ! a)\<lparr>pc_abandoned := True\<rparr>)" ..
qed

text \<open>A probe seen through the call of its target.\<close>

definition probe_step :: "probe_world \<Rightarrow> ScheduledProbe \<Rightarrow> duration \<Rightarrow> probeCall option \<Rightarrow>
    probeCall option \<times> metricEvent list \<times> probe_result" where
  "probe_step w item interval v =
     (case pw_ctx w of
        Some err \<Rightarrow>
          (v, failedUnlessCanceled (pw_ctx w) item ReasonNotStarted, [], [], Some (NotStarted (probe_name item) err))
      | None \<Rightarrow>
         (case v of
            Some busy \<Rightarrow>
              (v, failedUnlessCanceled (pw_refused_ctx w) item ReasonNotStarted, [], [],
               Some (Busy (probe_name item) (pc_probe busy) (pc_abandoned busy)))
          | None \<Rightarrow>
              let out = pw_outcome w (probeTimeout (pdef_TimeoutMS (sp_Definition item)) interval) in
              (if out_abandoned out then Some (new_call item (pw_now w)\<lparr>pc_abandoned := True\<rparr>) else None,
               classify item out)))"

lemma executeProbe_view:
  assumes wf: "calls_wf c" and r: "executeProbe w item interval c = (c', ev, res)"
  shows "calls_wf c' \<and> (calls_view c' (callKey item), ev, res) = probe_step w item interval (calls_view c (callKey item)) \<and>
    (\<forall>k. k \<noteq> callKey item \<longrightarrow> calls_view c' k = calls_view c k)"
proof (cases "pw_ctx w")
  case (Some err)
  with assms show ?thesis by (auto simp: executeProbe_def probe_step_def)
next
  case ctx: None
  show ?thesis
  proof (cases "calls_view c (callKey item)")
    case (Some busy)
    with ctx r start_view(1) [OF wf Some, of "pw_now w"] wf show ?thesis
      by (auto simp: executeProbe_def probe_step_def)
  next
    case None
    define out where "out = pw_outcome w (probeTimeout (pdef_TimeoutMS (sp_Definition item)) interval)"
    from start_view(2) [OF wf None, of "pw_now w"] obtain c1 a where st: "start item (pw_now w) c = (c1, Inr a)"
      and wf1: "calls_wf c1" and reg: "pcs_calls c1 (callKey item) = Some a"
      and v1: "calls_view c1 = (calls_view c)(callKey item \<mapsto> new_call item (pw_now w))" by blast
    have call: "pcs_heap c1 ! a = new_call item (pw_now w)"
      using fun_cong [OF v1, of "callKey item"] reg by (simp add: calls_view_def)
    from r ctx st have c': "c' = callExecutor item a out c1" and res: "(ev, res) = classify item out"
      by (simp_all add: executeProbe_def out_def Let_def)
    have p: "probe_step w item interval (calls_view c (callKey item)) =
        (if out_abandoned out then Some (new_call item (pw_now w)\<lparr>pc_abandoned := True\<rparr>) else None, ev, res)"
      using ctx None res by (simp add: probe_step_def out_def Let_def)
    show ?thesis
    proof (cases "out_abandoned out")
      case True
      have nf: "\<not> pc_finished (pcs_heap c1 ! a)" by (simp add: call new_call_def)
      from abandon_view [OF wf1 reg nf] True p v1 call show ?thesis by (simp add: c' callExecutor_def)
    next
      case False
      from finish_view [OF wf1 reg] False p v1 show ?thesis by (simp add: c' callExecutor_def)
    qed
  qed
qed

lemma late_return_view:
  assumes "calls_wf c"
  shows "calls_wf (late_return freed item c) \<and>
    calls_view (late_return freed item c) = (if freed then (calls_view c)(callKey item := None) else calls_view c)"
proof (cases "pcs_calls c (callKey item)")
  case None
  then have "(calls_view c)(callKey item := None) = calls_view c" by (auto simp: calls_view_def fun_eq_iff)
  with None assms show ?thesis by (simp add: late_return_def)
next
  case (Some a)
  with finish_view [OF assms Some] assms show ?thesis by (simp add: late_return_def)
qed

text \<open>What a target sees of the shared state.\<close>

definition tracker_view :: "targetTracker \<Rightarrow> string \<Rightarrow> targetState option \<times> (string \<Rightarrow> probeState option)" where
  "tracker_view t name = (tk_targets t name, \<lambda>p. tk_probes t (name, p))"

definition same_view :: "probeCallKey \<Rightarrow> run_state \<Rightarrow> run_state \<Rightarrow> bool" where
  "same_view k a b \<longleftrightarrow> calls_view (rn_calls a) k = calls_view (rn_calls b) k \<and>
     tracker_view (rn_tracker a) (snd k) = tracker_view (rn_tracker b) (snd k)"

lemma same_view_refl [simp]: "same_view k a a"
  by (simp add: same_view_def)

lemma same_view_trans: "same_view k a b \<Longrightarrow> same_view k b c \<Longrightarrow> same_view k a c"
  by (simp add: same_view_def)

lemma effects_simps [simp]:
  "rn_calls (clearScope sc st) = rn_calls st" "rn_tracker (clearScope sc st) = rn_tracker st"
  "rn_calls (recordScope sc xs st) = rn_calls st" "rn_tracker (recordScope sc xs st) = rn_tracker st"
  "rn_calls (publish ev st) = rn_calls st" "rn_tracker (publish ev st) = rn_tracker st"
  "rn_calls (recordHealth c g sa r st) = rn_calls st" "rn_tracker (recordHealth c g sa r st) = rn_tracker st"
  by (simp_all add: clearScope_def recordScope_def publish_def recordHealth_def)

lemma runScopedProbe_view:
  assumes wf: "calls_wf (rn_calls st)" and r: "runScopedProbe w collector item st = (st', ev, err)"
  defines "k \<equiv> callKey item"
  shows "calls_wf (rn_calls st')" and "rn_tracker st' = rn_tracker st"
    and "k' \<noteq> k \<Longrightarrow> calls_view (rn_calls st') k' = calls_view (rn_calls st) k'"
    and "\<exists>events samples evidence. probe_step w item (coll_ScrapeInterval collector)
        (if pw_freed w then None else calls_view (rn_calls st) k) =
        (calls_view (rn_calls st') k, events, samples, evidence, err) \<and>
      ev = (if err = None \<or> is_blocked (the err) then evidence else [])"
proof -
  let ?c = "late_return (pw_freed w) item (rn_calls st)"
  obtain c' events samples evidence err' where x: "executeProbe w item (coll_ScrapeInterval collector) ?c =
      (c', events, samples, evidence, err')" by (metis prod_cases5)
  note l = late_return_view [OF wf, of "pw_freed w" item]
  note e = executeProbe_view [OF conjunct1 [OF l] x]
  have st': "rn_calls st' = c'" "rn_tracker st' = rn_tracker st" "err = err'"
    "ev = (if err = None \<or> is_blocked (the err) then evidence else [])"
    using r unfolding runScopedProbe_def Let_def x by (auto split: option.splits if_splits)
  show "calls_wf (rn_calls st')" "rn_tracker st' = rn_tracker st" using e st' by simp_all
  have vk: "calls_view ?c k = (if pw_freed w then None else calls_view (rn_calls st) k)" using l by (simp add: k_def)
  show "k' \<noteq> k \<Longrightarrow> calls_view (rn_calls st') k' = calls_view (rn_calls st) k'"
  proof -
    assume k': "k' \<noteq> k"
    with e have "calls_view c' k' = calls_view ?c k'" unfolding k_def by blast
    with k' l st'(1) show ?thesis by (simp add: k_def)
  qed
  show "\<exists>events samples evidence. probe_step w item (coll_ScrapeInterval collector)
        (if pw_freed w then None else calls_view (rn_calls st) k) =
        (calls_view (rn_calls st') k, events, samples, evidence, err) \<and>
      ev = (if err = None \<or> is_blocked (the err) then evidence else [])"
  proof (intro exI conjI)
    have "probe_step w item (coll_ScrapeInterval collector) (calls_view ?c k) =
        (calls_view c' k, events, samples, evidence, err')"
      unfolding k_def by (rule sym [OF conjunct1 [OF conjunct2 [OF e]]])
    then show "probe_step w item (coll_ScrapeInterval collector) (if pw_freed w then None else calls_view (rn_calls st) k) =
        (calls_view (rn_calls st') k, events, samples, evidence, err)"
      unfolding vk st'(1,3) .
    show "ev = (if err = None \<or> is_blocked (the err) then evidence else [])" by (rule st'(4))
  qed
qed

lemma run_probes_view:
  assumes "calls_wf (rn_calls a)" and "calls_wf (rn_calls b)" and "calls_view (rn_calls a) k = calls_view (rn_calls b) k"
    and "list_all (\<lambda>run. callKey (run_item run) = k) runs"
    and "run_probes w collector waitingAll i runs a = (a', ra)" and "run_probes w collector waitingAll i runs b = (b', rb)"
  shows "ra = rb \<and> calls_wf (rn_calls a') \<and> calls_view (rn_calls a') k = calls_view (rn_calls b') k \<and>
    rn_tracker a' = rn_tracker a \<and> (\<forall>k'. k' \<noteq> k \<longrightarrow> calls_view (rn_calls a') k' = calls_view (rn_calls a) k')"
  using assms
proof (induction runs arbitrary: a b i a' ra b' rb)
  case (Cons run runs)
  let ?item = "run_item run"
  have key: "callKey ?item = k" and rest: "list_all (\<lambda>run. callKey (run_item run) = k) runs"
    using Cons.prems(4) by simp_all
  show ?case
  proof (cases "run_waiting run \<noteq> None \<and> \<not> waitingAll")
    case True
    let ?a = "clearScope (probe_scope (coll_ID collector) ?item) a"
      and ?b = "clearScope (probe_scope (coll_ID collector) ?item) b"
    obtain a1 ra1 where ra1: "run_probes w collector waitingAll (i + 1) runs ?a = (a1, ra1)" by (metis surj_pair)
    obtain b1 rb1 where rb1: "run_probes w collector waitingAll (i + 1) runs ?b = (b1, rb1)" by (metis surj_pair)
    from Cons.IH [of ?a ?b "i + 1" a1 ra1 b1 rb1] Cons.prems(1-3) rest ra1 rb1
    have ih: "ra1 = rb1 \<and> calls_wf (rn_calls a1) \<and> calls_view (rn_calls a1) k = calls_view (rn_calls b1) k \<and>
      rn_tracker a1 = rn_tracker a \<and> (\<forall>k'. k' \<noteq> k \<longrightarrow> calls_view (rn_calls a1) k' = calls_view (rn_calls a) k')" by simp
    have "a' = a1" "ra = (case ra1 of (r, e, bl) \<Rightarrow> (run # r, e, bl))"
      "b' = b1" "rb = (case rb1 of (r, e, bl) \<Rightarrow> (run # r, e, bl))"
      using Cons.prems(5,6) True ra1 rb1 by (auto simp: Let_def split: prod.splits)
    with ih show ?thesis by simp
  next
    case False
    obtain a1 ea xa where pa: "runScopedProbe (tw_probes w i) collector ?item a = (a1, ea, xa)" by (metis prod_cases3)
    obtain b1 eb xb where pb: "runScopedProbe (tw_probes w i) collector ?item b = (b1, eb, xb)" by (metis prod_cases3)
    note va = runScopedProbe_view [OF Cons.prems(1) pa, unfolded key]
    note vb = runScopedProbe_view [OF Cons.prems(2) pb, unfolded key]
    have same: "calls_view (rn_calls a1) k = calls_view (rn_calls b1) k" "ea = eb" "xa = xb"
    proof -
      obtain ev1 sm1 ed1 where 1: "probe_step (tw_probes w i) ?item (coll_ScrapeInterval collector)
          (if pw_freed (tw_probes w i) then None else calls_view (rn_calls b) k) =
          (calls_view (rn_calls a1) k, ev1, sm1, ed1, xa)"
        "ea = (if xa = None \<or> is_blocked (the xa) then ed1 else [])"
        using va(4) unfolding Cons.prems(3) by blast
      obtain ev2 sm2 ed2 where 2: "probe_step (tw_probes w i) ?item (coll_ScrapeInterval collector)
          (if pw_freed (tw_probes w i) then None else calls_view (rn_calls b) k) =
          (calls_view (rn_calls b1) k, ev2, sm2, ed2, xb)"
        "eb = (if xb = None \<or> is_blocked (the xb) then ed2 else [])"
        using vb(4) by blast
      from trans [OF sym [OF 1(1)] 2(1)] 1(2) 2(2)
      show "calls_view (rn_calls a1) k = calls_view (rn_calls b1) k" "ea = eb" "xa = xb" by simp_all
    qed
    obtain a2 ra2 where ra2: "run_probes w collector waitingAll (i + 1) runs a1 = (a2, ra2)" by (metis surj_pair)
    obtain b2 rb2 where rb2: "run_probes w collector waitingAll (i + 1) runs b1 = (b2, rb2)" by (metis surj_pair)
    note ih = Cons.IH [OF va(1) vb(1) same(1) rest ra2 rb2]
    let ?out = "\<lambda>e x r. case r of (runs', evidence, blocked) \<Rightarrow>
      (case x of None \<Rightarrow> (run\<lparr>run_waiting := None\<rparr> # runs', e @ evidence, blocked)
       | Some y \<Rightarrow> if is_blocked y then (run\<lparr>run_waiting := None\<rparr> # runs', e @ evidence, y # blocked)
           else (run\<lparr>run_waiting := None, run_err := Some y\<rparr> # runs', evidence, blocked))"
    have out: "a' = a2" "ra = ?out ea xa ra2" "b' = b2" "rb = ?out eb xb rb2"
      using Cons.prems(5,6) False pa pb ra2 rb2
      by (auto simp: Let_def split: prod.splits option.splits if_splits)
    have "ra = rb" unfolding out(2,4) same(2,3) conjunct1 [OF ih] ..
    with ih va(2,3) out(1,3) show ?thesis by simp
  qed
qed simp

lemma run_probes_items:
  assumes "run_probes w collector waitingAll i runs st = (st', runs', ev, bl)"
  shows "map run_item runs' = map run_item runs"
  using assms
  by (induction runs arbitrary: i st st' runs' ev bl)
    (auto simp: Let_def split: prod.splits if_splits option.splits)

lemma tracker_ops_view:
  "n \<noteq> target \<Longrightarrow> tracker_view (fst (probeFail target p cs iv j e t)) n = tracker_view t n"
  "n \<noteq> target \<Longrightarrow> tracker_view (fst (probeSucceed target p t)) n = tracker_view t n"
  "n \<noteq> target \<Longrightarrow> tracker_view (resetProbes target t) n = tracker_view t n"
  "n \<noteq> target \<Longrightarrow> tracker_view (fst (succeed target now t)) n = tracker_view t n"
  "n \<noteq> target \<Longrightarrow> tracker_view (fst (fail target cs iv j es t)) n = tracker_view t n"
  by (simp_all add: tracker_view_def probeFail_def probeSucceed_def resetProbes_def succeed_def fail_def Let_def)

lemma tracker_ops_same:
  assumes "tracker_view a target = tracker_view b target"
  shows "snd (probeFail target p cs iv j e a) = snd (probeFail target p cs iv j e b)"
    and "tracker_view (fst (probeFail target p cs iv j e a)) target = tracker_view (fst (probeFail target p cs iv j e b)) target"
    and "tracker_view (fst (probeSucceed target p a)) target = tracker_view (fst (probeSucceed target p b)) target"
    and "tracker_view (resetProbes target a) target = tracker_view (resetProbes target b) target"
    and "tracker_view (fst (succeed target now a)) target = tracker_view (fst (succeed target now b)) target"
    and "snd (snd (succeed target now a)) = snd (snd (succeed target now b))"
    and "snd (fail target cs iv j es a) = snd (fail target cs iv j es b)"
    and "tracker_view (fst (fail target cs iv j es a)) target = tracker_view (fst (fail target cs iv j es b)) target"
    and "probeWaiting target p cs a = probeWaiting target p cs b" and "get target a = get target b"
proof -
  have t: "tk_targets a target = tk_targets b target" and p: "tk_probes a (target, q) = tk_probes b (target, q)" for q
    using assms by (auto simp: tracker_view_def dest: fun_cong)
  have u: "(\<lambda>q. ((tk_probes a)((target, p) := x)) (target, q)) = (\<lambda>q. ((tk_probes b)((target, p) := x)) (target, q))" for x
    using p by (simp add: fun_eq_iff)
  show "get target a = get target b" "probeWaiting target p cs a = probeWaiting target p cs b"
    using t p by (simp_all add: get_def probeWaiting_def)
  have g: "get_probe target p a = get_probe target p b" using p by (simp add: get_probe_def)
  show "snd (probeFail target p cs iv j e a) = snd (probeFail target p cs iv j e b)"
    using g by (simp add: probeFail_def Let_def)
  show "tracker_view (fst (probeFail target p cs iv j e a)) target = tracker_view (fst (probeFail target p cs iv j e b)) target"
    "tracker_view (fst (probeSucceed target p a)) target = tracker_view (fst (probeSucceed target p b)) target"
    using g t u by (simp_all add: probeFail_def probeSucceed_def Let_def tracker_view_def)
  show "tracker_view (resetProbes target a) target = tracker_view (resetProbes target b) target"
    "tracker_view (fst (succeed target now a)) target = tracker_view (fst (succeed target now b)) target"
    "snd (snd (succeed target now a)) = snd (snd (succeed target now b))"
    using t p by (simp_all add: resetProbes_def succeed_def Let_def tracker_view_def)
  show "snd (fail target cs iv j es a) = snd (fail target cs iv j es b)"
    "tracker_view (fst (fail target cs iv j es a)) target = tracker_view (fst (fail target cs iv j es b)) target"
    using t p by (simp_all add: fail_def get_def Let_def tracker_view_def)
qed

lemma finish_probes_view:
  assumes "tracker_view a target = tracker_view b target"
    and "finish_probes w target cs iv i runs a = (a', ra)" and "finish_probes w target cs iv i runs b = (b', rb)"
  shows "ra = rb \<and> tracker_view a' target = tracker_view b' target \<and>
    (\<forall>n. n \<noteq> target \<longrightarrow> tracker_view a' n = tracker_view a n)"
  using assms
proof (induction runs arbitrary: a b i a' ra b' rb)
  case (Cons run runs)
  let ?name = "probe_name (run_item run)"
  show ?case
  proof (cases "run_waiting run")
    case (Some x)
    obtain a1 ra1 where ra1: "finish_probes w target cs iv (i + 1) runs a = (a1, ra1)" by (metis surj_pair)
    obtain b1 rb1 where rb1: "finish_probes w target cs iv (i + 1) runs b = (b1, rb1)" by (metis surj_pair)
    note ih = Cons.IH [OF Cons.prems(1) ra1 rb1]
    with Cons.prems(2,3) Some ra1 rb1 show ?thesis by (auto simp: Let_def split: prod.splits)
  next
    case None
    show ?thesis
    proof (cases "run_err run")
      case (Some err)
      let ?a = "fst (probeFail target ?name cs iv (tw_jitter w i) err a)"
        and ?b = "fst (probeFail target ?name cs iv (tw_jitter w i) err b)"
      obtain a1 ra1 where ra1: "finish_probes w target cs iv (i + 1) runs ?a = (a1, ra1)" by (metis surj_pair)
      obtain b1 rb1 where rb1: "finish_probes w target cs iv (i + 1) runs ?b = (b1, rb1)" by (metis surj_pair)
      note same = tracker_ops_same [OF Cons.prems(1)]
      note ih = Cons.IH [OF same(2) ra1 rb1]
      from ih tracker_ops_view(1) [of _ target ?name cs iv "tw_jitter w i" err a] same(1)
        Cons.prems(2,3) None Some ra1 rb1
      show ?thesis by (auto simp: Let_def split_beta)
    next
      case e: None
      let ?a = "fst (probeSucceed target ?name a)" and ?b = "fst (probeSucceed target ?name b)"
      from Cons.prems(2,3) None e have "finish_probes w target cs iv (i + 1) runs ?a = (a', ra)"
        "finish_probes w target cs iv (i + 1) runs ?b = (b', rb)" by (simp_all add: Let_def)
      from Cons.IH [OF tracker_ops_same(3) [OF Cons.prems(1)] this] tracker_ops_view(2) [of _ target ?name a]
      show ?thesis by simp
    qed
  qed
qed simp

definition group_of :: "CollectorRuntimeConfig \<Rightarrow> targetGroup \<Rightarrow> bool" where
  "group_of collector grp \<longleftrightarrow> list_all (\<lambda>item. callKey item = (coll_ID collector, tg_name grp)) (tg_items grp)"

lemma failTarget_view:
  assumes "tracker_view (rn_tracker a) (tg_name grp) = tracker_view (rn_tracker b) (tg_name grp)"
  shows "snd (failTarget w collector grp cs err a) = snd (failTarget w collector grp cs err b)"
    and "rn_calls (fst (failTarget w collector grp cs err a)) = rn_calls a"
    and "tracker_view (rn_tracker (fst (failTarget w collector grp cs err a))) (tg_name grp) =
      tracker_view (rn_tracker (fst (failTarget w collector grp cs err b))) (tg_name grp)"
    and "n \<noteq> tg_name grp \<Longrightarrow>
      tracker_view (rn_tracker (fst (failTarget w collector grp cs err a))) n = tracker_view (rn_tracker a) n"
  using tracker_ops_same(7,8) [OF assms] tracker_ops_view(5) by (simp_all add: failTarget_def Let_def split_beta)

lemma finishTarget_view_aux:
  assumes "tracker_view (rn_tracker a) (tg_name grp) = tracker_view (rn_tracker b) (tg_name grp)"
  shows "snd (finishTarget w collector grp cs runs bl a) = snd (finishTarget w collector grp cs runs bl b) \<and>
    rn_calls (fst (finishTarget w collector grp cs runs bl a)) = rn_calls a \<and>
    tracker_view (rn_tracker (fst (finishTarget w collector grp cs runs bl a))) (tg_name grp) =
      tracker_view (rn_tracker (fst (finishTarget w collector grp cs runs bl b))) (tg_name grp) \<and>
    (n \<noteq> tg_name grp \<longrightarrow>
      tracker_view (rn_tracker (fst (finishTarget w collector grp cs runs bl a))) n = tracker_view (rn_tracker a) n)"
proof (cases "length (failures runs) > 0 \<and> length (failures runs) = length (ran runs)")
  case True
  let ?n = "tg_name grp"
  let ?a = "a\<lparr>rn_tracker := resetProbes ?n (rn_tracker a)\<rparr>" and ?b = "b\<lparr>rn_tracker := resetProbes ?n (rn_tracker b)\<rparr>"
  have "tracker_view (rn_tracker ?a) ?n = tracker_view (rn_tracker ?b) ?n"
    using tracker_ops_same(4) [OF assms] by simp
  note f = failTarget_view [OF this, where w = w and collector = collector and cs = cs and err = "failures runs"]
  have eq: "finishTarget w collector grp cs runs bl x =
      failTarget w collector grp cs (failures runs) (x\<lparr>rn_tracker := resetProbes ?n (rn_tracker x)\<rparr>)" for x
    using True by (simp add: finishTarget_def Let_def)
  show ?thesis
    unfolding eq using f tracker_ops_view(3) [of n ?n "rn_tracker a"] by simp
next
  case False
  let ?n = "tg_name grp" and ?iv = "coll_ScrapeInterval collector"
  obtain ta pa wa where fa: "finish_probes w ?n cs ?iv 0 runs (rn_tracker a) = (ta, pa, wa)" by (metis prod_cases3)
  obtain tb pb wb where fb: "finish_probes w ?n cs ?iv 0 runs (rn_tracker b) = (tb, pb, wb)" by (metis prod_cases3)
  note fp = finish_probes_view [OF assms fa fb]
  then have tv: "tracker_view ta ?n = tracker_view tb ?n" and eq: "pa = pb" "wa = wb" by simp_all
  note s = tracker_ops_same(5,6) [OF tv, of "tw_now w"]
  have r: "rn_calls (fst (finishTarget w collector grp cs runs bl a)) = rn_calls a"
    "rn_tracker (fst (finishTarget w collector grp cs runs bl a)) = fst (succeed ?n (tw_now w) ta)"
    "rn_tracker (fst (finishTarget w collector grp cs runs bl b)) = fst (succeed ?n (tw_now w) tb)"
    "snd (finishTarget w collector grp cs runs bl a) = snd (finishTarget w collector grp cs runs bl b)"
    using s(2) unfolding finishTarget_def Let_def if_not_P [OF False] fa fb eq by (simp_all add: split_beta)
  show ?thesis
    using r s(1) fp tracker_ops_view(4) [of n ?n "tw_now w" ta] by simp
qed

lemma finishTarget_view:
  assumes "tracker_view (rn_tracker a) (tg_name grp) = tracker_view (rn_tracker b) (tg_name grp)"
  shows "snd (finishTarget w collector grp cs runs bl a) = snd (finishTarget w collector grp cs runs bl b)"
    and "rn_calls (fst (finishTarget w collector grp cs runs bl a)) = rn_calls a"
    and "n \<noteq> tg_name grp \<Longrightarrow>
      tracker_view (rn_tracker (fst (finishTarget w collector grp cs runs bl a))) n = tracker_view (rn_tracker a) n"
  using finishTarget_view_aux [OF assms] by blast+

section \<open>Targets of a cycle do not interfere\<close>

text \<open>A target reads and writes its own part of the state only.\<close>

lemma initial_runs_view:
  assumes "tracker_view a (tg_name grp) = tracker_view b (tg_name grp)"
  shows "initial_runs grp cs a = initial_runs grp cs b"
  unfolding initial_runs_def using tracker_ops_same(9) [OF assms] by simp

lemma initial_runs_keys:
  "group_of collector grp \<Longrightarrow>
    list_all (\<lambda>run. callKey (run_item run) = (coll_ID collector, tg_name grp)) (initial_runs grp cs t)"
  by (simp add: group_of_def initial_runs_def list_all_iff)

lemma runTarget_view:
  assumes wf: "calls_wf (rn_calls a)" "calls_wf (rn_calls b)" and g: "group_of collector grp"
  defines "k \<equiv> (coll_ID collector, tg_name grp)"
  assumes v: "same_view k a b"
  shows "snd (runTarget w collector grp cs a) = snd (runTarget w collector grp cs b) \<and>
    calls_wf (rn_calls (fst (runTarget w collector grp cs a))) \<and>
    (\<forall>n. n \<noteq> tg_name grp \<longrightarrow> same_view (coll_ID collector, n) (fst (runTarget w collector grp cs a)) a)"
proof -
  let ?runs = "initial_runs grp cs (rn_tracker a)"
  let ?all = "list_all (\<lambda>run. run_waiting run \<noteq> None) ?runs"
  have vc: "calls_view (rn_calls a) k = calls_view (rn_calls b) k"
    and vt: "tracker_view (rn_tracker a) (tg_name grp) = tracker_view (rn_tracker b) (tg_name grp)"
    using v by (simp_all add: same_view_def k_def)
  have ib: "initial_runs grp cs (rn_tracker b) = ?runs" using initial_runs_view [OF vt] by simp
  obtain a1 ra ea ba where ra: "run_probes w collector ?all 0 ?runs a = (a1, ra, ea, ba)" by (metis prod_cases4)
  obtain b1 rb eb bb where rb: "run_probes w collector ?all 0 ?runs b = (b1, rb, eb, bb)" by (metis prod_cases4)
  note r = run_probes_view [OF wf vc initial_runs_keys [OF g, folded k_def] ra rb]
  note r' = run_probes_view [OF wf(2,1) sym [OF vc] initial_runs_keys [OF g, folded k_def] rb ra]
  have tb: "rn_tracker a1 = rn_tracker a" "rn_tracker b1 = rn_tracker b" using r r' by blast+
  have eq: "ra = rb" "ea = eb" "ba = bb" using r by simp_all
  have vt1: "tracker_view (rn_tracker (publish ea a1)) (tg_name grp) = tracker_view (rn_tracker (publish ea b1)) (tg_name grp)"
    using vt tb by simp
  note f = finishTarget_view [OF vt1, where w = w and collector = collector and cs = cs and runs = ra and bl = ba]
  have A: "runTarget w collector grp cs a = finishTarget w collector grp cs ra ba (publish ea a1)"
    unfolding runTarget_def Let_def ra by simp
  have B: "runTarget w collector grp cs b = finishTarget w collector grp cs ra ba (publish ea b1)"
    unfolding runTarget_def Let_def ib rb eq by simp
  have o: "same_view (coll_ID collector, n) (fst (runTarget w collector grp cs a)) a" if "n \<noteq> tg_name grp" for n
    using f(2) f(3) [OF that] r tb(1) that unfolding A same_view_def k_def by simp
  show ?thesis using f(1,2) r o unfolding A B by simp
qed

lemma fold_clearScope [simp]:
  "rn_calls (fold (\<lambda>item. clearScope (s item)) items st) = rn_calls st"
  "rn_tracker (fold (\<lambda>item. clearScope (s item)) items st) = rn_tracker st"
  by (induction items arbitrary: st) simp_all

lemma skipTarget_view:
  "rn_calls (fst (skipTarget c grp sa s st)) = rn_calls st" "rn_tracker (fst (skipTarget c grp sa s st)) = rn_tracker st"
  "snd (skipTarget c grp sa s st) = snd (skipTarget c grp sa s st')"
  by (simp_all add: skipTarget_def Let_def)

lemma cycle_target_view:
  assumes wf: "calls_wf (rn_calls a)" "calls_wf (rn_calls b)" and g: "group_of collector grp"
    and v: "same_view (coll_ID collector, tg_name grp) a b"
  shows "snd (cycle_target collector cs w grp a) = snd (cycle_target collector cs w grp b)"
    and "calls_wf (rn_calls (fst (cycle_target collector cs w grp a)))"
    and "n \<noteq> tg_name grp \<Longrightarrow> same_view (coll_ID collector, n) (fst (cycle_target collector cs w grp a)) a"
proof -
  have "tracker_view (rn_tracker a) (tg_name grp) = tracker_view (rn_tracker b) (tg_name grp)"
    using v by (simp add: same_view_def)
  from tracker_ops_same(10) [OF this] have s: "get (tg_name grp) (rn_tracker a) = get (tg_name grp) (rn_tracker b)" .
  note r = runTarget_view [OF wf g v, of w cs]
  show "snd (cycle_target collector cs w grp a) = snd (cycle_target collector cs w grp b)"
    using r s skipTarget_view(3) unfolding cycle_target_def Let_def s by (auto split del: if_split split: if_splits)
  show "calls_wf (rn_calls (fst (cycle_target collector cs w grp a)))"
    using r wf(1) unfolding cycle_target_def Let_def by (simp add: skipTarget_view)
  show "n \<noteq> tg_name grp \<Longrightarrow> same_view (coll_ID collector, n) (fst (cycle_target collector cs w grp a)) a"
    using r unfolding cycle_target_def Let_def by (simp add: skipTarget_view same_view_def)
qed

lemma run_targets_results:
  assumes "calls_wf (rn_calls st)" and "calls_wf (rn_calls st0)" and "distinct order"
    and "\<And>i. i \<in> set order \<Longrightarrow> group_of collector (groups ! i) \<and> same_view (coll_ID collector, tg_name (groups ! i)) st st0"
    and "inj_on (\<lambda>i. tg_name (groups ! i)) (set order)"
  shows "snd (run_targets collector cs w groups order st results) =
    (\<lambda>i. if i \<in> set order then snd (cycle_target collector cs (w i) (groups ! i) st0) else results i)"
  using assms
proof (induction order arbitrary: st results)
  case (Cons j order)
  obtain st1 r where r: "cycle_target collector cs (w j) (groups ! j) st = (st1, r)" by (metis surj_pair)
  have j: "group_of collector (groups ! j)" "same_view (coll_ID collector, tg_name (groups ! j)) st st0"
    using Cons.prems(4) by simp_all
  note c = cycle_target_view [OF Cons.prems(1,2) j, where cs = cs and w = "w j"]
  have wf1: "calls_wf (rn_calls st1)" and rj: "r = snd (cycle_target collector cs (w j) (groups ! j) st0)"
    using c(1,2) unfolding r by simp_all
  have v: "group_of collector (groups ! i) \<and> same_view (coll_ID collector, tg_name (groups ! i)) st1 st0"
    if "i \<in> set order" for i
  proof -
    have "i \<noteq> j" using Cons.prems(3) that by auto
    then have "tg_name (groups ! i) \<noteq> tg_name (groups ! j)"
      using Cons.prems(5) that by (auto simp: inj_on_def)
    from c(3) [OF this] have "same_view (coll_ID collector, tg_name (groups ! i)) st1 st" unfolding r by simp
    with Cons.prems(4) [of i] that show ?thesis by (auto intro: same_view_trans)
  qed
  have "inj_on (\<lambda>i. tg_name (groups ! i)) (set order)" "distinct order"
    using Cons.prems(3,5) by (auto simp: inj_on_def)
  note ih = Cons.IH [OF wf1 Cons.prems(2) this(2) v this(1), of "results(j := r)"]
  have "snd (run_targets collector cs w groups (j # order) st results) =
      snd (run_targets collector cs w groups order st1 (results(j := r)))" using r by simp
  also note ih
  also have "(\<lambda>i. if i \<in> set order then snd (cycle_target collector cs (w i) (groups ! i) st0) else (results(j := r)) i) =
      (\<lambda>i. if i \<in> set (j # order) then snd (cycle_target collector cs (w i) (groups ! i) st0) else results i)"
    using rj Cons.prems(3) by (auto simp: fun_eq_iff)
  finally show ?case .
qed simp

lemma scheduled_group_of:
  assumes "i < length (groupByTarget (scheduledProbes collector))"
  shows "group_of collector (groupByTarget (scheduledProbes collector) ! i)"
proof -
  let ?g = "groupByTarget (scheduledProbes collector)"
  have "tg_items (?g ! i) = filter (\<lambda>item. target_name item = tg_name (?g ! i)) (scheduledProbes collector)"
    using groupByTarget_holds [of "scheduledProbes collector"] assms by (simp add: groups_hold_def list_all_iff)
  then show ?thesis
    by (auto simp: group_of_def list_all_iff callKey_def scheduledProbes_def scheduled_def)
qed

lemma groups_inj: "inj_on (\<lambda>i. tg_name (groupByTarget items ! i)) {0..<length (groupByTarget items)}"
proof -
  have "distinct (map tg_name (groupByTarget items))"
    using groupByTarget_holds [of items] unfolding groups_hold_def by blast
  then show ?thesis by (intro inj_onI) (metis atLeastLessThan_iff distinct_conv_nth length_map nth_map)
qed

lemma runCycle_targets:
  assumes "coll_Enabled collector" and "calls_wf (rn_calls st)"
  defines "groups \<equiv> groupByTarget (scheduledProbes collector)"
  assumes "mset (cw_order w (length groups)) = mset [0..<length groups]"
  shows "cr_Targets (snd (runCycle w collector st)) =
    map (\<lambda>i. snd (cycle_target collector (cw_started w) (cw_targets w i) (groups ! i) st)) [0..<length groups]"
proof -
  let ?o = "cw_order w (length groups)"
  have o: "distinct ?o" "set ?o = {0..<length groups}"
    using mset_eq_imp_distinct_iff [OF assms(4)] mset_eq_setD [OF assms(4)] by simp_all
  have g: "group_of collector (groups ! i) \<and> same_view (coll_ID collector, tg_name (groups ! i)) st st" if "i \<in> set ?o" for i
  proof -
    from that have "i < length (groupByTarget (scheduledProbes collector))" using o(2) unfolding groups_def by simp
    from scheduled_group_of [OF this] show ?thesis unfolding groups_def by simp
  qed
  have i: "inj_on (\<lambda>i. tg_name (groups ! i)) (set ?o)" using groups_inj [of "scheduledProbes collector"] o(2) unfolding groups_def by simp
  obtain st' r where r: "run_targets collector (cw_started w) (cw_targets w) groups ?o st (\<lambda>_. zero_result) = (st', r)"
    by (metis surj_pair)
  have "r = (\<lambda>i. if i \<in> set ?o then snd (cycle_target collector (cw_started w) (cw_targets w i) (groups ! i) st) else zero_result)"
    using run_targets_results [OF assms(2,2) o(1) g i, of "cw_started w" "cw_targets w" "\<lambda>_. zero_result"] unfolding r by simp
  then have "map r [0..<length groups] =
      map (\<lambda>i. snd (cycle_target collector (cw_started w) (cw_targets w i) (groups ! i) st)) [0..<length groups]"
    unfolding o(2) by simp
  then show ?thesis using assms(1) r unfolding runCycle_def Let_def groups_def by (simp add: split_beta)
qed

text \<open>C17: the targets of a cycle do not interfere: whatever order they run in, each target's result is
  the one it would have had alone, from the state the cycle started in.\<close>

theorem cycle_targets_independent:
  fixes collector :: CollectorRuntimeConfig and w :: cycle_world and st :: run_state
  defines "groups \<equiv> groupByTarget (scheduledProbes collector)"
  assumes "coll_Enabled collector" and "calls_wf (rn_calls st)"
    and "mset (cw_order w (length groups)) = mset [0..<length groups]"
  shows "cr_Targets (snd (runCycle w collector st)) =
    map (\<lambda>i. snd (cycle_target collector (cw_started w) (cw_targets w i) (groups ! i) st)) [0..<length groups]"
  using runCycle_targets assms by blast

text \<open>Two targets, the second of which fails, run in the opposite order.\<close>

definition sample_outcome :: "execError option \<Rightarrow> probeOutcome" where
  "sample_outcome err = \<lparr>out_samples = [], out_evidence = [], out_err = err, out_panicked = False, out_elapsed = 5,
     out_end = probeRunning, out_abandoned = False\<rparr>"

definition sample_target_world :: "execError option \<Rightarrow> target_world" where
  "sample_target_world err = \<lparr>tw_probes = \<lambda>_. \<lparr>pw_ctx = None, pw_refused_ctx = None, pw_now = 100, pw_freed = False,
       pw_outcome = \<lambda>_. sample_outcome err\<rparr>, tw_jitter = \<lambda>_. 0, tw_target_jitter = 0, tw_now = 110, tw_sysadmin = None\<rparr>"

definition sample_cycle :: cycle_world where
  "sample_cycle = \<lparr>cw_started = 100, cw_finished = 120, cw_ctx = None,
     cw_targets = \<lambda>i. sample_target_world (if i = 0 then None else Some (ExecFailed False ''refused'')),
     cw_order = \<lambda>n. rev [0..<n]\<rparr>"

definition sample_target :: "string \<Rightarrow> TargetRuntimeConfig" where
  "sample_target name = \<lparr>target_Name = name, target_EnvironmentSlug = ''prod'', target_Engine = ''sqlserver'', target_Host = ''h'',
     target_Port = 1433, target_DatabaseName = ''d'', target_CredentialRef = [],
     target_Probes = [\<lparr>probe_Name = ''cpu'', probe_QueryTemplate = ''SELECT 1'', probe_TimeoutMS = 0, probe_MaxRows = 1, probe_Lag = 0\<rparr>]\<rparr>"

definition sample_collector :: CollectorRuntimeConfig where
  "sample_collector = \<lparr>coll_ID = ''c'', coll_Kind = KindSQLServer, coll_Enabled = True, coll_CredentialRef = [],
     coll_Environment = ''prod'', coll_TargetNames = [], coll_ScrapeInterval = 60000000000,
     coll_Targets = [sample_target ''a'', sample_target ''b''], coll_Probes = [], coll_OutSystemsLogs = zero_logs\<rparr>"

definition fresh_state :: run_state where
  "fresh_state = \<lparr>rn_calls = newProbeCalls, rn_tracker = newTargetTracker, rn_ops = [], rn_metrics = [], rn_published = []\<rparr>"

lemma calls_wf_fresh: "calls_wf (rn_calls fresh_state)"
  by (simp add: calls_wf_def fresh_state_def newProbeCalls_def)

theorem cycle_targets_independent_witness:
  "map tr_State (cr_Targets (snd (runCycle sample_cycle sample_collector fresh_state))) = [TargetOK, TargetFailed]"
proof -
  let ?g = "groupByTarget (scheduledProbes sample_collector)"
  have e: "coll_Enabled sample_collector" by (simp add: sample_collector_def)
  note defs = sample_collector_def sample_target_def scheduledProbes_def selected_def scheduled_def groupByTarget_def
    fresh_state_def newTargetTracker_def newProbeCalls_def get_def zero_target_def sample_target_world_def sample_outcome_def
  have n: "length ?g = 2" by (simp add: defs)
  have o: "mset (cw_order sample_cycle (length ?g)) = mset [0..<length ?g]" unfolding n by (simp add: sample_cycle_def)
  note run = cycle_target_def runTarget_def initial_runs_def probeWaiting_def runScopedProbe_def late_return_def executeProbe_def
    start_def callExecutor_def finish_def classify_def is_blocked_def finishTarget_def failures_def ran_def map_filter_simps
    succeed_def failTarget_def publish_def fail_def Let_def
  have r: "tr_State (snd (cycle_target sample_collector 100 (sample_target_world None) (?g ! 0) fresh_state)) = TargetOK"
    "tr_State (snd (cycle_target sample_collector 100 (sample_target_world (Some (ExecFailed False ''refused''))) (?g ! 1) fresh_state)) = TargetFailed"
    by (simp_all add: run defs)
  have u: "[0..<2] = [0, 1 :: nat]" by (simp add: upt_rec)
  show ?thesis using r unfolding cycle_targets_independent [OF e calls_wf_fresh o] n u by (simp add: sample_cycle_def)
qed

end
