(* ===== verification/PrometheusExporter.thy ===== *)
theory PrometheusExporter
  imports Exporter
begin

text \<open>
  The Prometheus exporter (package \<open>export\<close>, \<open>prometheus.go\<close>).  Series are pointers in the code and
  carry their ownership, so they live in a store from addresses; a family maps a series key to the
  address of its series, and a scope holds the addresses of the series it owns.  The spare arrays
  of the scopes and the key buffer only save allocations and are left out, and so is the
  conversion into client library objects at a scrape.  Whether the registry accepts a family is
  the parameter \<open>accepts\<close> (metric name, help, label names).  The generation counter is a natural number:
  the code's \<open>uint64\<close> counts the records of a process and does not wrap in its lifetime.
\<close>

section \<open>State\<close>

record series =
  se_family :: string
  se_key :: string
  se_labelPairs :: "string list"
  se_value :: float64
  se_owners :: int
  se_written :: nat
  se_owned :: nat

record family =
  fam_metricType :: MetricType
  fam_labelNames :: "string list"
  fam_series :: "string \<Rightarrow> nat option"

record PrometheusExporter =
  px_families :: "string \<Rightarrow> family option"
  px_store :: "nat \<Rightarrow> series"
  px_next :: nat
  px_scopes :: "(Scope \<times> nat list) list"
  px_generation :: nat

type_synonym registry = "string \<Rightarrow> string \<Rightarrow> string list \<Rightarrow> bool"

definition no_series :: series where
  "no_series = \<lparr>se_family = [], se_key = [], se_labelPairs = [], se_value = Finite 0, se_owners = 0,
     se_written = 0, se_owned = 0\<rparr>"

definition NewPrometheusExporter :: PrometheusExporter where
  "NewPrometheusExporter = \<lparr>px_families = \<lambda>_. None, px_store = \<lambda>_. no_series, px_next = 0, px_scopes = [],
     px_generation = 0\<rparr>"

datatype recordError =
    RegisterFailed string
  | TypeChanged string
  | CounterNegative string float64
  | LabelSetChanged string
  | LabelNotUTF8 string string
  | DuplicateSeries string labels
  | CounterOwned string labels

section \<open>Finding the series of a sample\<close>

definition labelValueSeparator :: char where "labelValueSeparator = CHR 0xFF"

fun join_values :: "string list \<Rightarrow> string" where
  "join_values [] = []"
| "join_values [v] = v"
| "join_values (v # w # vs) = v @ labelValueSeparator # join_values (w # vs)"

definition registerLocked :: "registry \<Rightarrow> Sample \<Rightarrow> PrometheusExporter \<Rightarrow>
    PrometheusExporter \<times> (recordError, family) result" where
  "registerLocked accepts sample e =
     (let help = (if sm_Help sample = [] then sm_Metric sample else sm_Help sample);
          labelNames = sortedKeys (sm_Labels sample);
          fam = \<lparr>fam_metricType = sm_Type sample, fam_labelNames = labelNames, fam_series = \<lambda>_. None\<rparr> in
      if \<not> accepts (sm_Metric sample) help labelNames then (e, Inl (RegisterFailed (sm_Metric sample)))
      else (e\<lparr>px_families := (px_families e)(sm_Metric sample \<mapsto> fam)\<rparr>, Inr fam))"

definition newSeries :: "string \<Rightarrow> family \<Rightarrow> string \<Rightarrow> labels \<Rightarrow> PrometheusExporter \<Rightarrow>
    PrometheusExporter \<times> (recordError, nat) result" where
  "newSeries name fam key labels e =
     (case find (\<lambda>n. \<not> valid_utf8 (label labels n)) (fam_labelNames fam) of
        Some n \<Rightarrow> (e, Inl (LabelNotUTF8 name n))
      | None \<Rightarrow>
          (e\<lparr>px_store := (px_store e)(px_next e := no_series\<lparr>se_family := name, se_key := key,
                 se_labelPairs := map (label labels) (fam_labelNames fam)\<rparr>),
             px_next := px_next e + 1,
             px_families := (px_families e)(name \<mapsto> fam\<lparr>fam_series := (fam_series fam)(key \<mapsto> px_next e)\<rparr>)\<rparr>,
           Inr (px_next e)))"

definition find_series :: "Sample \<Rightarrow> family \<Rightarrow> PrometheusExporter \<Rightarrow>
    PrometheusExporter \<times> (recordError, nat) result" where
  "find_series sample fam e =
     (if sm_Type sample \<noteq> fam_metricType fam then (e, Inl (TypeChanged (sm_Metric sample)))
      else if fam_metricType fam = Counter \<and> \<not> nonneg (sm_Value sample) then
        (e, Inl (CounterNegative (sm_Metric sample) (sm_Value sample)))
      else if length (sm_Labels sample) \<noteq> length (fam_labelNames fam) \<or>
          \<not> list_all (\<lambda>n. map_of (sm_Labels sample) n \<noteq> None) (fam_labelNames fam) then
        (e, Inl (LabelSetChanged (sm_Metric sample)))
      else
        let key = join_values (map (label (sm_Labels sample)) (fam_labelNames fam)) in
        case fam_series fam key of
          Some a \<Rightarrow> (e, Inr a)
        | None \<Rightarrow> newSeries (sm_Metric sample) fam key (sm_Labels sample) e)"

definition seriesLocked :: "registry \<Rightarrow> Sample \<Rightarrow> PrometheusExporter \<Rightarrow>
    PrometheusExporter \<times> (recordError, nat) result" where
  "seriesLocked accepts sample e =
     (case px_families e (sm_Metric sample) of
        Some fam \<Rightarrow> find_series sample fam e
      | None \<Rightarrow>
         (case registerLocked accepts sample e of
            (e, Inl err) \<Rightarrow> (e, Inl err)
          | (e, Inr fam) \<Rightarrow> find_series sample fam e))"

section \<open>Recording\<close>

definition set_series :: "nat \<Rightarrow> (series \<Rightarrow> series) \<Rightarrow> PrometheusExporter \<Rightarrow> PrometheusExporter" where
  "set_series a f e = e\<lparr>px_store := (px_store e)(a := f (px_store e a))\<rparr>"

definition series_type :: "PrometheusExporter \<Rightarrow> nat \<Rightarrow> MetricType" where
  "series_type e a = (case px_families e (se_family (px_store e a)) of
     None \<Rightarrow> Gauge | Some fam \<Rightarrow> fam_metricType fam)"

fun px_Record :: "registry \<Rightarrow> Sample list \<Rightarrow> PrometheusExporter \<Rightarrow> PrometheusExporter \<times> recordError option" where
  "px_Record accepts [] e = (e, None)"
| "px_Record accepts (sample # samples) e =
     (case seriesLocked accepts sample e of
        (e, Inl err) \<Rightarrow> (e, Some err)
      | (e, Inr a) \<Rightarrow>
          if series_type e a = Counter \<and> se_owners (px_store e a) > 0 then
            (e, Some (CounterOwned (sm_Metric sample) (sm_Labels sample)))
          else px_Record accepts samples (set_series a (\<lambda>s. s\<lparr>se_value := sm_Value sample\<rparr>) e))"

definition scope_list :: "PrometheusExporter \<Rightarrow> Scope \<Rightarrow> nat list" where
  "scope_list e sc = (case map_of (px_scopes e) sc of None \<Rightarrow> [] | Some l \<Rightarrow> l)"

text \<open>One turn of the loop of \<open>RecordScope\<close> over the samples.\<close>

definition record_one :: "registry \<Rightarrow> nat \<Rightarrow> Sample \<Rightarrow> PrometheusExporter \<times> nat list \<times> recordError list \<Rightarrow>
    PrometheusExporter \<times> nat list \<times> recordError list" where
  "record_one accepts generation sample = (\<lambda>(e, next, errs).
     (case seriesLocked accepts sample e of
        (e, Inl err) \<Rightarrow> (e, next, errs @ [err])
      | (e, Inr a) \<Rightarrow>
         let s = px_store e a in
         if se_written s = generation then
           (set_series a (\<lambda>s. s\<lparr>se_value := sm_Value sample\<rparr>) e, next,
            errs @ [DuplicateSeries (sm_Metric sample) (sm_Labels sample)])
         else if series_type e a = Counter \<and> se_owners s > 0 \<and> se_owned s \<noteq> generation then
           (e, next, errs @ [CounterOwned (sm_Metric sample) (sm_Labels sample)])
         else
           (set_series a (\<lambda>s. s\<lparr>se_value := sm_Value sample, se_written := generation,
                se_owners := (if se_owned s \<noteq> generation then se_owners s + 1 else se_owners s)\<rparr>) e,
            next @ [a], errs)))"

definition delete_series :: "series \<Rightarrow> PrometheusExporter \<Rightarrow> PrometheusExporter" where
  "delete_series s e = e\<lparr>px_families := (px_families e)(se_family s :=
     map_option (\<lambda>fam. fam\<lparr>fam_series := (fam_series fam)(se_key s := None)\<rparr>) (px_families e (se_family s)))\<rparr>"

definition release :: "nat \<Rightarrow> PrometheusExporter \<Rightarrow> PrometheusExporter" where
  "release a e =
     (let e = set_series a (\<lambda>s. s\<lparr>se_owners := se_owners s - 1\<rparr>) e in
      if se_owners (px_store e a) \<le> 0 then delete_series (px_store e a) e else e)"

definition px_RecordScope :: "registry \<Rightarrow> Scope \<Rightarrow> Sample list \<Rightarrow> PrometheusExporter \<Rightarrow>
    PrometheusExporter \<times> recordError list" where
  "px_RecordScope accepts scope samples e =
     (let e = e\<lparr>px_generation := px_generation e + 1\<rparr>;
          generation = px_generation e;
          previous = scope_list e scope;
          e = fold (\<lambda>a. set_series a (\<lambda>s. s\<lparr>se_owned := generation\<rparr>)) previous e in
      case fold (record_one accepts generation) samples (e, [], []) of
        (e, next, errs) \<Rightarrow>
          let e = fold (\<lambda>a e. if se_written (px_store e a) \<noteq> generation then release a e else e) previous e in
          (e\<lparr>px_scopes := (if next = [] then filter (\<lambda>(s, _). s \<noteq> scope) (px_scopes e)
              else put scope next (px_scopes e))\<rparr>, errs))"

definition clearScopeLocked :: "Scope \<Rightarrow> PrometheusExporter \<Rightarrow> PrometheusExporter" where
  "clearScopeLocked scope e =
     (case map_of (px_scopes e) scope of
        None \<Rightarrow> e
      | Some owned \<Rightarrow>
         (let e = fold release owned e in
          e\<lparr>px_scopes := filter (\<lambda>(s, _). s \<noteq> scope) (px_scopes e)\<rparr>))"

definition px_ClearScope :: "Scope \<Rightarrow> PrometheusExporter \<Rightarrow> PrometheusExporter" where
  "px_ClearScope scope e = clearScopeLocked scope e"

definition px_ForgetCollector :: "string \<Rightarrow> PrometheusExporter \<Rightarrow> PrometheusExporter" where
  "px_ForgetCollector collectorID e =
     fold (\<lambda>scope e. if sc_Collector scope = collectorID then clearScopeLocked scope e else e)
       (map fst (px_scopes e)) e"

section \<open>Ownership\<close>

text \<open>The registered series by family and key, and the identity of a series.\<close>

definition reg :: "PrometheusExporter \<Rightarrow> string \<times> string \<Rightarrow> nat option" where
  "reg e x = (case px_families e (fst x) of None \<Rightarrow> None | Some fam \<Rightarrow> fam_series fam (snd x))"

definition ref :: "PrometheusExporter \<Rightarrow> nat \<Rightarrow> string \<times> string" where
  "ref e a = (se_family (px_store e a), se_key (px_store e a))"

text \<open>The invariant, for the series \<open>L\<close> of each scope: a registered series is stored under its
  identity, the scopes own registered series, and a series counts the scopes that own it.\<close>

definition px_ok :: "PrometheusExporter \<Rightarrow> (Scope \<Rightarrow> nat set) \<Rightarrow> bool" where
  "px_ok e L \<longleftrightarrow>
     (\<forall>x a. reg e x = Some a \<longrightarrow> a < px_next e \<and> ref e a = x \<and>
        se_owners (px_store e a) = int (card {sc. a \<in> L sc})) \<and>
     (\<forall>sc a. a \<in> L sc \<longrightarrow> reg e (ref e a) = Some a) \<and>
     (\<forall>a. finite {sc. a \<in> L sc})"

lemma px_okI:
  assumes "\<And>x a. reg e x = Some a \<Longrightarrow> a < px_next e" and "\<And>x a. reg e x = Some a \<Longrightarrow> ref e a = x"
    and "\<And>x a. reg e x = Some a \<Longrightarrow> se_owners (px_store e a) = int (card {sc. a \<in> L sc})"
    and "\<And>sc a. a \<in> L sc \<Longrightarrow> reg e (ref e a) = Some a" and "\<And>a. finite {sc. a \<in> L sc}"
  shows "px_ok e L"
  using assms unfolding px_ok_def by blast

lemma px_okD:
  assumes "px_ok e L"
  shows "reg e x = Some a \<Longrightarrow> a < px_next e" and "reg e x = Some a \<Longrightarrow> ref e a = x"
    and "reg e x = Some a \<Longrightarrow> se_owners (px_store e a) = int (card {sc. a \<in> L sc})"
    and "a \<in> L sc \<Longrightarrow> reg e (ref e a) = Some a" and "finite {sc. a \<in> L sc}"
  using assms unfolding px_ok_def by blast+

lemma px_ok_less: "px_ok e L \<Longrightarrow> a \<in> L sc \<Longrightarrow> a < px_next e"
  using px_okD(1,4) by blast

lemma set_series_simps [simp]:
  "px_families (set_series a f e) = px_families e" "px_next (set_series a f e) = px_next e"
  "px_scopes (set_series a f e) = px_scopes e" "px_generation (set_series a f e) = px_generation e"
  "reg (set_series a f e) = reg e"
  "px_store (set_series a f e) b = (if b = a then f (px_store e a) else px_store e b)"
  by (simp_all add: set_series_def reg_def fun_eq_iff)

lemma px_ok_mark:
  assumes "px_ok e L" and "\<And>s. se_family (f s) = se_family s \<and> se_key (f s) = se_key s \<and> se_owners (f s) = se_owners s"
  shows "px_ok (set_series a f e) L" and "ref (set_series a f e) = ref e"
proof -
  show r: "ref (set_series a f e) = ref e" using assms(2) by (auto simp: ref_def fun_eq_iff)
  have "se_owners (px_store (set_series a f e) b) = se_owners (px_store e b)" for b using assms(2) by simp
  then show "px_ok (set_series a f e) L"
    using px_okD [OF assms(1)] by (intro px_okI) (simp_all add: r)
qed

text \<open>Looking a sample up registers at most one new series, which nobody owns yet.\<close>

definition fresh_series :: "PrometheusExporter \<Rightarrow> nat \<Rightarrow> PrometheusExporter \<Rightarrow> bool" where
  "fresh_series e a e' \<longleftrightarrow> a = px_next e \<and> px_next e' = Suc a \<and> reg e (ref e' a) = None \<and>
     reg e' = (reg e)(ref e' a \<mapsto> a) \<and> (\<forall>b. b \<noteq> a \<longrightarrow> px_store e' b = px_store e b) \<and>
     se_owners (px_store e' a) = 0 \<and> se_written (px_store e' a) = 0 \<and> se_owned (px_store e' a) = 0"

lemma find_series_spec:
  assumes "find_series sample fam e = (e', r)" and "px_families e (sm_Metric sample) = Some fam"
  shows "px_scopes e' = px_scopes e" and "px_generation e' = px_generation e"
    and "(reg e' = reg e \<and> px_store e' = px_store e \<and> px_next e' = px_next e \<and>
      (\<forall>a. r = Inr a \<longrightarrow> (\<exists>x. reg e x = Some a))) \<or> (\<exists>a. r = Inr a \<and> fresh_series e a e')"
proof -
  define key where "key = join_values (map (label (sm_Labels sample)) (fam_labelNames fam))"
  consider (err) x where "e' = e" "r = Inl x" | (found) a where "e' = e" "r = Inr a" "fam_series fam key = Some a"
    | (new) "fam_series fam key = None" "newSeries (sm_Metric sample) fam key (sm_Labels sample) e = (e', r)"
    using assms(1) by (auto simp: find_series_def key_def Let_def split: if_splits option.splits)
  then have "px_scopes e' = px_scopes e \<and> px_generation e' = px_generation e \<and>
    ((reg e' = reg e \<and> px_store e' = px_store e \<and> px_next e' = px_next e \<and>
      (\<forall>a. r = Inr a \<longrightarrow> (\<exists>x. reg e x = Some a))) \<or> (\<exists>a. r = Inr a \<and> fresh_series e a e'))"
  proof cases
    case found
    then have "reg e (sm_Metric sample, key) = Some a" using assms(2) by (simp add: reg_def)
    with found show ?thesis by blast
  next
    case new
    show ?thesis
    proof (cases "find (\<lambda>n. \<not> valid_utf8 (label (sm_Labels sample) n)) (fam_labelNames fam)")
      case None
      with new have e': "e' = e\<lparr>px_store := (px_store e)(px_next e := no_series\<lparr>se_family := sm_Metric sample, se_key := key,
                 se_labelPairs := map (label (sm_Labels sample)) (fam_labelNames fam)\<rparr>),
             px_next := px_next e + 1,
             px_families := (px_families e)(sm_Metric sample \<mapsto> fam\<lparr>fam_series := (fam_series fam)(key \<mapsto> px_next e)\<rparr>)\<rparr>"
        and r: "r = Inr (px_next e)" by (auto simp: newSeries_def)
      have "ref e' (px_next e) = (sm_Metric sample, key)" by (simp add: e' ref_def)
      moreover have "reg e (sm_Metric sample, key) = None" using new(1) assms(2) by (simp add: reg_def)
      moreover have "reg e' x = ((reg e)((sm_Metric sample, key) \<mapsto> px_next e)) x" for x
        using assms(2) by (cases x) (auto simp: reg_def e')
      then have "reg e' = (reg e)((sm_Metric sample, key) \<mapsto> px_next e)" ..
      ultimately have "fresh_series e (px_next e) e'"
        by (simp add: fresh_series_def) (simp add: e' no_series_def)
      with r e' show ?thesis by simp
    qed (use new in \<open>auto simp: newSeries_def\<close>)
  qed simp
  then show "px_scopes e' = px_scopes e" "px_generation e' = px_generation e"
    "(reg e' = reg e \<and> px_store e' = px_store e \<and> px_next e' = px_next e \<and>
      (\<forall>a. r = Inr a \<longrightarrow> (\<exists>x. reg e x = Some a))) \<or> (\<exists>a. r = Inr a \<and> fresh_series e a e')" by blast+
qed

lemma seriesLocked_spec:
  assumes "seriesLocked accepts sample e = (e', r)"
  shows "px_scopes e' = px_scopes e" and "px_generation e' = px_generation e"
    and "(reg e' = reg e \<and> px_store e' = px_store e \<and> px_next e' = px_next e \<and>
      (\<forall>a. r = Inr a \<longrightarrow> (\<exists>x. reg e x = Some a))) \<or> (\<exists>a. r = Inr a \<and> fresh_series e a e')"
proof -
  have "px_scopes e' = px_scopes e \<and> px_generation e' = px_generation e \<and>
    ((reg e' = reg e \<and> px_store e' = px_store e \<and> px_next e' = px_next e \<and>
      (\<forall>a. r = Inr a \<longrightarrow> (\<exists>x. reg e x = Some a))) \<or> (\<exists>a. r = Inr a \<and> fresh_series e a e'))"
  proof (cases "px_families e (sm_Metric sample)")
    case (Some fam)
    with assms have "find_series sample fam e = (e', r)" by (simp add: seriesLocked_def)
    from find_series_spec [OF this Some] show ?thesis by blast
  next
    case None
    obtain e1 r1 where g: "registerLocked accepts sample e = (e1, r1)" by fastforce
    have same: "px_store e1 = px_store e" "px_next e1 = px_next e" "px_scopes e1 = px_scopes e"
      "px_generation e1 = px_generation e" using g by (auto simp: registerLocked_def Let_def split: if_splits)
    have "reg e1 x = reg e x" for x
      using g None by (cases x) (auto simp: registerLocked_def Let_def reg_def split: if_splits)
    then have rg: "reg e1 = reg e" ..
    show ?thesis
    proof (cases r1)
      case (Inl err)
      with assms None g have "e' = e1" "r = Inl err" by (simp_all add: seriesLocked_def)
      with same rg show ?thesis by simp
    next
      case (Inr fam)
      with assms None g have f: "find_series sample fam e1 = (e', r)" by (simp add: seriesLocked_def)
      have "px_families e1 (sm_Metric sample) = Some fam"
        using g Inr by (auto simp: registerLocked_def Let_def split: if_splits)
      from find_series_spec [OF f this] same rg show ?thesis by (simp add: fresh_series_def)
    qed
  qed
  then show "px_scopes e' = px_scopes e" "px_generation e' = px_generation e"
    "(reg e' = reg e \<and> px_store e' = px_store e \<and> px_next e' = px_next e \<and>
      (\<forall>a. r = Inr a \<longrightarrow> (\<exists>x. reg e x = Some a))) \<or> (\<exists>a. r = Inr a \<and> fresh_series e a e')" by blast+
qed

lemma px_ok_cong:
  assumes "px_ok e L" and "reg e' = reg e" and "px_store e' = px_store e" and "px_next e' = px_next e"
  shows "px_ok e' L" and "ref e' = ref e"
  using assms by (simp_all add: px_ok_def ref_def fun_eq_iff)

lemma px_ok_fresh:
  assumes ok: "px_ok e L" and new: "fresh_series e a e'"
  shows "px_ok e' L" and "\<And>b. b < px_next e \<Longrightarrow> ref e' b = ref e b" and "a \<notin> L sc"
proof -
  from new have a: "a = px_next e" "px_next e' = Suc a" and none: "reg e (ref e' a) = None"
    and rg: "reg e' = (reg e)(ref e' a \<mapsto> a)" and st: "\<And>b. b \<noteq> a \<Longrightarrow> px_store e' b = px_store e b"
    and zero: "se_owners (px_store e' a) = 0"
    by (auto simp: fresh_series_def)
  show rf: "\<And>b. b < px_next e \<Longrightarrow> ref e' b = ref e b" using a st by (simp add: ref_def)
  have notin: "a \<notin> L sc" for sc using px_ok_less [OF ok] a by blast
  then show "a \<notin> L sc" .
  show "px_ok e' L"
  proof (rule px_okI)
    fix x b
    assume b: "reg e' x = Some b"
    consider (new) "x = ref e' a" "b = a" | (old) "x \<noteq> ref e' a" "reg e x = Some b"
      using b rg by (auto split: if_splits)
    then have "b < px_next e' \<and> ref e' b = x \<and> se_owners (px_store e' b) = int (card {sc. b \<in> L sc})"
    proof cases
      case new
      with a notin zero show ?thesis by simp
    next
      case old
      with px_okD(1-3) [OF ok, of x b] a rf [of b] st [of b] show ?thesis by auto
    qed
    then show "b < px_next e'" "ref e' b = x" "se_owners (px_store e' b) = int (card {sc. b \<in> L sc})" by auto
  next
    fix sc b
    assume b: "b \<in> L sc"
    with px_ok_less [OF ok] rf have r: "ref e' b = ref e b" by blast
    from px_okD(4) [OF ok b] none show "reg e' (ref e' b) = Some b" unfolding r rg by auto
  qed (rule px_okD(5) [OF ok])
qed

text \<open>A scope takes one more owner of a series, or lets one go.\<close>

lemma px_ok_own:
  assumes ok: "px_ok e L" and a: "reg e x = Some a" "a \<notin> L sc"
    and f: "\<And>s. se_family (f s) = se_family s \<and> se_key (f s) = se_key s \<and> se_owners (f s) = se_owners s + 1"
  shows "px_ok (set_series a f e) (L(sc := insert a (L sc)))" and "ref (set_series a f e) = ref e"
proof -
  let ?L = "L(sc := insert a (L sc))"
  show r: "ref (set_series a f e) = ref e" using f by (auto simp: ref_def fun_eq_iff)
  have card: "{sc. b \<in> ?L sc} = (if b = a then insert sc {sc. a \<in> L sc} else {sc. b \<in> L sc})" for b
    by auto
  show "px_ok (set_series a f e) ?L"
  proof (rule px_okI)
    fix y b
    assume b: "reg (set_series a f e) y = Some b"
    then show "b < px_next (set_series a f e)" "ref (set_series a f e) b = y"
      using px_okD(1,2) [OF ok] by (simp_all add: r)
    show "se_owners (px_store (set_series a f e) b) = int (card {sc. b \<in> ?L sc})"
      unfolding card using px_okD(3) [OF ok] px_okD(5) [OF ok, of a] b a f by auto
  next
    fix sc' b
    assume "b \<in> ?L sc'"
    then show "reg (set_series a f e) (ref (set_series a f e) b) = Some b"
      using px_okD(2) [OF ok a(1)] px_okD(4) [OF ok, of b sc'] a by (auto simp: r split: if_splits)
  next
    fix b
    show "finite {sc. b \<in> ?L sc}" unfolding card using px_okD(5) [OF ok] by auto
  qed
qed

lemma delete_series_simps [simp]:
  "px_next (delete_series s e) = px_next e" "px_store (delete_series s e) = px_store e"
  "px_scopes (delete_series s e) = px_scopes e" "px_generation (delete_series s e) = px_generation e"
  by (simp_all add: delete_series_def)

lemma reg_delete_series: "reg (delete_series s e) = (reg e)((se_family s, se_key s) := None)"
proof
  fix x
  show "reg (delete_series s e) x = ((reg e)((se_family s, se_key s) := None)) x"
    by (cases x) (auto simp: reg_def delete_series_def split: option.split)
qed

lemma release_simps [simp]:
  "px_next (release a e) = px_next e" "px_scopes (release a e) = px_scopes e"
  "px_generation (release a e) = px_generation e" "ref (release a e) = ref e"
  "se_written (px_store (release a e) b) = se_written (px_store e b)"
  "se_owned (px_store (release a e) b) = se_owned (px_store e b)"
  by (simp_all add: release_def Let_def ref_def fun_eq_iff)

lemma release_spec:
  assumes ok: "px_ok e L" and a: "a \<in> L sc"
  shows "px_ok (release a e) (L(sc := L sc - {a}))"
    and "dom (reg (release a e)) = dom (reg e) - (if \<exists>sc'. sc' \<noteq> sc \<and> a \<in> L sc' then {} else {ref e a})"
proof -
  let ?L = "L(sc := L sc - {a})" and ?n = "card {x. a \<in> L x}"
  have reg_a: "reg e (ref e a) = Some a" by (rule px_okD(4) [OF ok a])
  have fin: "finite {x. b \<in> L x}" for b by (rule px_okD(5) [OF ok])
  have own: "se_owners (px_store e a) = int ?n" by (rule px_okD(3) [OF ok reg_a])
  have la: "{x. a \<in> ?L x} = {x. a \<in> L x} - {sc}" by auto
  have lb: "{x. b \<in> ?L x} = {x. b \<in> L x}" if "b \<noteq> a" for b using that by auto
  have cardL: "card {x. a \<in> ?L x} = ?n - 1" unfolding la using a by (simp add: card_Diff_singleton)
  have n0: "0 < ?n" using a fin [of a] by (auto simp: card_gt_0_iff)
  have last: "int ?n - 1 \<le> 0 \<longleftrightarrow> \<not> (\<exists>sc'. sc' \<noteq> sc \<and> a \<in> L sc')"
  proof -
    have "int ?n - 1 \<le> 0 \<longleftrightarrow> card ({x. a \<in> L x} - {sc}) = 0" using cardL la n0 by auto
    also have "\<dots> \<longleftrightarrow> {x. a \<in> L x} - {sc} = {}" using fin [of a] by simp
    also have "\<dots> \<longleftrightarrow> \<not> (\<exists>sc'. sc' \<noteq> sc \<and> a \<in> L sc')" by blast
    finally show ?thesis .
  qed
  have rg: "reg (release a e) = (if int ?n - 1 \<le> 0 then (reg e)(ref e a := None) else reg e)"
    by (simp add: release_def Let_def own reg_delete_series ref_def)
  show "dom (reg (release a e)) = dom (reg e) - (if \<exists>sc'. sc' \<noteq> sc \<and> a \<in> L sc' then {} else {ref e a})"
    unfolding rg last by auto
  have other: "\<not> int ?n - 1 \<le> 0 \<or> b \<noteq> a" if "b \<in> ?L sc'" for b sc'
    using that last by (auto split: if_splits)
  have inj: "ref e b \<noteq> ref e a" if "reg e (ref e b) = Some b" "b \<noteq> a" for b
    using that reg_a by auto
  show "px_ok (release a e) ?L"
  proof (rule px_okI)
    fix x b
    assume "reg (release a e) x = Some b"
    then have b: "reg e x = Some b" and ba: "b = a \<Longrightarrow> \<not> int ?n - 1 \<le> 0"
      using px_okD(2) [OF ok, of x b] unfolding rg by (auto split: if_splits)
    from b show "b < px_next (release a e)" "ref (release a e) b = x" using px_okD(1,2) [OF ok] by simp_all
    show "se_owners (px_store (release a e) b) = int (card {sc. b \<in> ?L sc})"
    proof (cases "b = a")
      case True
      then show ?thesis using n0 unfolding True cardL by (simp add: release_def Let_def own)
    next
      case False
      with px_okD(3) [OF ok b] show ?thesis unfolding lb [OF False] by (simp add: release_def Let_def)
    qed
  next
    fix sc' b
    assume b: "b \<in> ?L sc'"
    then have "b \<in> L sc'" by (auto split: if_splits)
    from px_okD(4) [OF ok this] other [OF b] inj [of b]
    show "reg (release a e) (ref (release a e) b) = Some b" unfolding rg by auto
  next
    fix b
    show "finite {x. b \<in> ?L x}" using fin [of b] by (rule finite_subset [rotated]) auto
  qed
qed

lemma release_all:
  assumes "px_ok e L" and "distinct as" and "set as \<subseteq> L sc"
  shows "px_ok (fold release as e) (L(sc := L sc - set as))"
    and "dom (reg (fold release as e)) = dom (reg e) - ref e ` {a \<in> set as. \<forall>sc'. sc' \<noteq> sc \<longrightarrow> a \<notin> L sc'}"
    and "px_scopes (fold release as e) = px_scopes e" "px_generation (fold release as e) = px_generation e"
    and "ref (fold release as e) = ref e" "px_next (fold release as e) = px_next e"
    and "se_written (px_store (fold release as e) b) = se_written (px_store e b)"
    and "se_owned (px_store (fold release as e) b) = se_owned (px_store e b)"
proof -
  have "px_ok (fold release as e) (L(sc := L sc - set as)) \<and>
    dom (reg (fold release as e)) = dom (reg e) - ref e ` {a \<in> set as. \<forall>sc'. sc' \<noteq> sc \<longrightarrow> a \<notin> L sc'}"
    using assms
  proof (induction as arbitrary: e L)
    case (Cons a as)
    let ?L = "L(sc := L sc - {a})"
    have a: "a \<in> L sc" using Cons.prems by simp
    note one = release_spec [OF Cons.prems(1) a]
    have "distinct as" "set as \<subseteq> ?L sc" using Cons.prems by auto
    note ih = Cons.IH [OF one(1) this]
    have L: "?L(sc := ?L sc - set as) = L(sc := L sc - set (a # as))"
      by (rule ext) auto
    have others: "{x \<in> set as. \<forall>sc'. sc' \<noteq> sc \<longrightarrow> x \<notin> ?L sc'} = {x \<in> set as. \<forall>sc'. sc' \<noteq> sc \<longrightarrow> x \<notin> L sc'}"
      by auto
    have split: "{x \<in> set (a # as). \<forall>sc'. sc' \<noteq> sc \<longrightarrow> x \<notin> L sc'} =
        (if \<exists>sc'. sc' \<noteq> sc \<and> a \<in> L sc' then {} else {a}) \<union> {x \<in> set as. \<forall>sc'. sc' \<noteq> sc \<longrightarrow> x \<notin> L sc'}"
      by auto
    show ?case
      using ih unfolding L others one(2) split fold_simps release_simps image_Un by auto
  qed simp
  then show "px_ok (fold release as e) (L(sc := L sc - set as))"
    "dom (reg (fold release as e)) = dom (reg e) - ref e ` {a \<in> set as. \<forall>sc'. sc' \<noteq> sc \<longrightarrow> a \<notin> L sc'}" by blast+
  show "px_scopes (fold release as e) = px_scopes e" "px_generation (fold release as e) = px_generation e"
    "ref (fold release as e) = ref e" "px_next (fold release as e) = px_next e"
    "se_written (px_store (fold release as e) b) = se_written (px_store e b)"
    "se_owned (px_store (fold release as e) b) = se_owned (px_store e b)"
    by (induction as arbitrary: e) simp_all
qed

section \<open>One call of RecordScope\<close>

definition owned_by :: "PrometheusExporter \<Rightarrow> Scope \<Rightarrow> nat set" where
  "owned_by e sc = set (scope_list e sc)"

text \<open>The generation marks say which series the scope owned before the call (\<open>P\<close>) and which it wrote
  in it.\<close>

definition marks :: "PrometheusExporter \<Rightarrow> nat \<Rightarrow> nat set \<Rightarrow> nat set \<Rightarrow> bool" where
  "marks e gen P N \<longleftrightarrow> (\<forall>a < px_next e. (se_owned (px_store e a) = gen \<longleftrightarrow> a \<in> P) \<and>
     (se_written (px_store e a) = gen \<longleftrightarrow> a \<in> N) \<and>
     se_owned (px_store e a) \<le> gen \<and> se_written (px_store e a) \<le> gen)"

definition loop_inv :: "PrometheusExporter \<Rightarrow> Scope \<Rightarrow> nat \<Rightarrow> (Scope \<Rightarrow> nat set) \<Rightarrow> PrometheusExporter \<Rightarrow> nat list \<Rightarrow> bool" where
  "loop_inv e0 sc gen L e ns \<longleftrightarrow>
     px_ok e (L(sc := L sc \<union> set ns)) \<and> px_scopes e = px_scopes e0 \<and> px_generation e = gen \<and> distinct ns \<and>
     marks e gen (L sc) (set ns) \<and> px_next e0 \<le> px_next e \<and> (\<forall>a < px_next e0. ref e a = ref e0 a) \<and>
     dom (reg e) = dom (reg e0) \<union> ref e ` set ns"

lemma loop_lookup:
  assumes inv: "loop_inv e0 sc gen L e ns" and gen: "0 < gen" and L: "\<forall>a \<in> L sc. a < px_next e0"
    and r: "seriesLocked accepts sample e = (e1, Inr a)"
  shows "px_ok e1 (L(sc := L sc \<union> set ns))" and "px_scopes e1 = px_scopes e0" and "px_generation e1 = gen"
    and "marks e1 gen (L sc) (set ns)" and "px_next e0 \<le> px_next e1" and "\<forall>b < px_next e0. ref e1 b = ref e0 b"
    and "reg e1 (ref e1 a) = Some a" and "a < px_next e1"
    and "dom (reg e1) = insert (ref e1 a) (dom (reg e0) \<union> ref e1 ` set ns)"
    and "0 < se_owners (px_store e1 a) \<Longrightarrow> dom (reg e1) = dom (reg e0) \<union> ref e1 ` set ns"
proof -
  from inv have ok: "px_ok e (L(sc := L sc \<union> set ns))" and m: "marks e gen (L sc) (set ns)"
    and n: "px_next e0 \<le> px_next e" and rf: "\<forall>a < px_next e0. ref e a = ref e0 a"
    and d: "dom (reg e) = dom (reg e0) \<union> ref e ` set ns" by (simp_all add: loop_inv_def)
  note spec = seriesLocked_spec [OF r]
  show "px_scopes e1 = px_scopes e0" "px_generation e1 = gen" using spec(1,2) inv by (simp_all add: loop_inv_def)
  have less: "b < px_next e" if "b \<in> set ns" for b using px_ok_less [OF ok, of b sc] that by simp
  consider (same) x where "reg e1 = reg e" "px_store e1 = px_store e" "px_next e1 = px_next e" "reg e x = Some a"
    | (new) "fresh_series e a e1" using spec(3) by auto
  then have "px_ok e1 (L(sc := L sc \<union> set ns)) \<and> marks e1 gen (L sc) (set ns) \<and> px_next e \<le> px_next e1 \<and>
      (\<forall>b < px_next e. ref e1 b = ref e b) \<and> reg e1 (ref e1 a) = Some a \<and> a < px_next e1 \<and>
      dom (reg e1) = insert (ref e1 a) (dom (reg e)) \<and>
      (0 < se_owners (px_store e1 a) \<longrightarrow> dom (reg e1) = dom (reg e))"
  proof cases
    case same
    note c = px_ok_cong [OF ok same(1,2,3)]
    have "ref e a = x" "a < px_next e" using px_okD(1,2) [OF ok same(4)] by simp_all
    moreover have "marks e1 gen (L sc) (set ns)" using m same by (simp add: marks_def)
    ultimately show ?thesis using c same by auto
  next
    case new
    note f = px_ok_fresh [OF ok new]
    from new have a: "a = px_next e" "px_next e1 = Suc a" "reg e1 = (reg e)(ref e1 a \<mapsto> a)"
      and st: "\<And>b. b \<noteq> a \<Longrightarrow> px_store e1 b = px_store e b"
      and zero: "se_owners (px_store e1 a) = 0" "se_written (px_store e1 a) = 0" "se_owned (px_store e1 a) = 0"
      by (auto simp: fresh_series_def)
    have "a \<notin> L sc" "a \<notin> set ns" using L n a less by force+
    then have "marks e1 gen (L sc) (set ns)"
      using m gen zero st a unfolding marks_def by (metis gr_implies_not_zero le0 less_Suc_eq)
    with f a zero show ?thesis by auto
  qed
  moreover have "ref e1 ` set ns = ref e ` set ns" if "\<forall>b < px_next e. ref e1 b = ref e b"
    using that less by (intro image_cong refl) blast
  ultimately show "px_ok e1 (L(sc := L sc \<union> set ns))" "marks e1 gen (L sc) (set ns)" "px_next e0 \<le> px_next e1"
    "\<forall>b < px_next e0. ref e1 b = ref e0 b" "reg e1 (ref e1 a) = Some a" "a < px_next e1"
    "dom (reg e1) = insert (ref e1 a) (dom (reg e0) \<union> ref e1 ` set ns)"
    "0 < se_owners (px_store e1 a) \<Longrightarrow> dom (reg e1) = dom (reg e0) \<union> ref e1 ` set ns"
    using n rf d by auto
qed

lemma marks_set_series:
  assumes "marks e gen P N" and "se_owned (f (px_store e a)) = se_owned (px_store e a)"
    and "se_written (f (px_store e a)) = (if w then gen else se_written (px_store e a))"
  shows "marks (set_series a f e) gen P (if w then insert a N else N)"
  using assms by (auto simp: marks_def)

lemma loop_step:
  assumes inv: "loop_inv e0 sc gen L e ns" and gen: "0 < gen" and L: "\<forall>a \<in> L sc. a < px_next e0"
    and r: "record_one accepts gen sample (e, ns, errs) = (e', ns', errs')"
  shows "loop_inv e0 sc gen L e' ns'"
proof -
  obtain e1 res where q: "seriesLocked accepts sample e = (e1, res)" by fastforce
  show ?thesis
  proof (cases res)
    case (Inl err)
    with r q have e': "e' = e1" "ns' = ns" by (simp_all add: record_one_def)
    have c: "px_scopes e1 = px_scopes e" "px_generation e1 = px_generation e"
      "reg e1 = reg e" "px_store e1 = px_store e" "px_next e1 = px_next e"
      using seriesLocked_spec [OF q] Inl by auto
    have "ref e1 = ref e" using c(4) by (simp add: ref_def fun_eq_iff)
    with inv c px_ok_cong(1) [OF _ c(3-5)] show ?thesis unfolding e' loop_inv_def marks_def by auto
  next
    case (Inr a)
    note l = loop_lookup [OF inv gen L q [unfolded Inr]]
    have dn: "distinct ns" using inv by (simp add: loop_inv_def)
    let ?s = "px_store e1 a" and ?L = "L(sc := L sc \<union> set ns)"
    have m: "se_owned ?s = gen \<longleftrightarrow> a \<in> L sc" "se_written ?s = gen \<longleftrightarrow> a \<in> set ns"
      using l(4,8) by (auto simp: marks_def)
    consider (dup) "se_written ?s = gen" "ns' = ns"
        "e' = set_series a (\<lambda>s. s\<lparr>se_value := sm_Value sample\<rparr>) e1"
      | (refused) "0 < se_owners ?s" "ns' = ns" "e' = e1"
      | (kept) "se_written ?s \<noteq> gen" "ns' = ns @ [a]"
        "e' = set_series a (\<lambda>s. s\<lparr>se_value := sm_Value sample, se_written := gen,
            se_owners := (if se_owned s \<noteq> gen then se_owners s + 1 else se_owners s)\<rparr>) e1"
      using r q Inr by (auto simp: record_one_def Let_def split: if_splits)
    then show ?thesis
    proof cases
      case dup
      note k = px_ok_mark [OF l(1), of "\<lambda>s. s\<lparr>se_value := sm_Value sample\<rparr>" a]
      have "marks e' gen (L sc) (set ns)" unfolding dup(3)
        using marks_set_series [OF l(4), of "\<lambda>s. s\<lparr>se_value := sm_Value sample\<rparr>" a False] by simp
      with dup k l dn m show ?thesis unfolding loop_inv_def by auto
    next
      case refused
      with l dn show ?thesis unfolding loop_inv_def by auto
    next
      case kept
      let ?f = "\<lambda>s. s\<lparr>se_value := sm_Value sample, se_written := gen,
            se_owners := (if se_owned s \<noteq> gen then se_owners s + 1 else se_owners s)\<rparr>"
      have new: "a \<notin> set ns" using kept m by simp
      have mk: "marks e' gen (L sc) (set ns')" unfolding kept(2,3)
        using marks_set_series [OF l(4), of ?f a True] by simp
      have ok: "px_ok e' (L(sc := L sc \<union> set ns')) \<and> ref e' = ref e1"
      proof (cases "a \<in> L sc")
        case True
        let ?g = "\<lambda>s. s\<lparr>se_value := sm_Value sample, se_written := gen\<rparr>"
        have "e' = set_series a ?g e1" unfolding kept(3) set_series_def using m(1) True by simp
        moreover have "L sc \<union> set ns' = L sc \<union> set ns" using True kept(2) by auto
        ultimately show ?thesis using px_ok_mark [OF l(1), of ?g a] by simp
      next
        case False
        let ?g = "\<lambda>s. s\<lparr>se_value := sm_Value sample, se_written := gen, se_owners := se_owners s + 1\<rparr>"
        have e': "e' = set_series a ?g e1" unfolding kept(3) set_series_def using m(1) False by simp
        have "?L(sc := insert a (?L sc)) = L(sc := L sc \<union> set ns')" using kept(2) by auto
        moreover have "a \<notin> ?L sc" using False new by simp
        ultimately show ?thesis using px_ok_own [OF l(1,7), of sc ?g] e' by simp
      qed
      have "ref e1 ` set ns' = insert (ref e1 a) (ref e1 ` set ns)" using kept(2) by auto
      with ok mk l dn new kept show ?thesis unfolding loop_inv_def by auto
    qed
  qed
qed

lemma loop_run:
  assumes "loop_inv e0 sc gen L e ns" and "0 < gen" and "\<forall>a \<in> L sc. a < px_next e0"
    and "fold (record_one accepts gen) samples (e, ns, errs) = (e', ns', errs')"
  shows "loop_inv e0 sc gen L e' ns'"
  using assms(1,4)
proof (induction samples arbitrary: e ns errs)
  case (Cons sample samples)
  obtain e1 n1 x1 where one: "record_one accepts gen sample (e, ns, errs) = (e1, n1, x1)" by (metis prod_cases3)
  from loop_step [OF Cons.prems(1) assms(2,3) one] Cons.IH [of e1 n1 x1] Cons.prems(2) one show ?case by simp
qed simp

section \<open>The exporter implements the contract\<close>

definition px_good :: "PrometheusExporter \<Rightarrow> bool" where
  "px_good e \<longleftrightarrow> px_ok e (owned_by e) \<and> distinct (map fst (px_scopes e)) \<and> (\<forall>sc. distinct (scope_list e sc)) \<and>
     (\<forall>a < px_next e. se_owned (px_store e a) \<le> px_generation e \<and> se_written (px_store e a) \<le> px_generation e)"

definition px_exported :: "PrometheusExporter \<Rightarrow> (string \<times> string) set" where
  "px_exported e = dom (reg e)"

definition px_owned :: "PrometheusExporter \<Rightarrow> Scope \<Rightarrow> (string \<times> string) set" where
  "px_owned e sc = ref e ` owned_by e sc"

definition px_scope_list :: "PrometheusExporter \<Rightarrow> Scope list" where
  "px_scope_list e = map fst (px_scopes e)"

lemma px_ok_inj: "px_ok e L \<Longrightarrow> a \<in> L sc \<Longrightarrow> b \<in> L sc' \<Longrightarrow> ref e a = ref e b \<Longrightarrow> a = b"
  using px_okD(4) by (metis option.inject)

lemma scope_list_filter:
  "scope_list (e\<lparr>px_scopes := filter (\<lambda>(s, _). s \<noteq> sc) m\<rparr>) sc' =
     (if sc' = sc then [] else case map_of m sc' of None \<Rightarrow> [] | Some l \<Rightarrow> l)"
  by (simp add: scope_list_def filter_delete)

text \<open>What is left of the series when a scope drops some of its own: exactly those no scope reports
  any more are gone.\<close>

lemma dropped_series:
  assumes ok: "px_ok e L" and N: "N \<subseteq> L sc" and A: "A = L sc - N"
  shows "ref e ` {a \<in> A. \<forall>sc'. sc' \<noteq> sc \<longrightarrow> a \<notin> L sc'} = ref e ` A - (\<Union>sc'. ref e ` ((L(sc := N)) sc'))"
proof -
  define M where "M = L(sc := N)"
  have shared: "ref e a \<in> (\<Union>sc'. ref e ` M sc') \<longleftrightarrow> (\<exists>sc'. sc' \<noteq> sc \<and> a \<in> L sc')" if "a \<in> A" for a
  proof
    assume "ref e a \<in> (\<Union>sc'. ref e ` M sc')"
    then obtain sc' b where b: "b \<in> M sc'" and eq: "ref e a = ref e b" by blast
    have bL: "b \<in> L sc'" using b N by (auto simp: M_def split: if_splits)
    have aL: "a \<in> L sc" "a \<notin> N" using that A by simp_all
    from px_ok_inj [OF ok aL(1) bL eq] have "a = b" .
    with b bL aL show "\<exists>sc'. sc' \<noteq> sc \<and> a \<in> L sc'" by (cases "sc' = sc") (auto simp: M_def)
  next
    assume "\<exists>sc'. sc' \<noteq> sc \<and> a \<in> L sc'"
    then obtain sc' where "sc' \<noteq> sc" "a \<in> L sc'" by blast
    then have "a \<in> M sc'" by (simp add: M_def)
    then show "ref e a \<in> (\<Union>sc'. ref e ` M sc')" by blast
  qed
  show ?thesis
    unfolding M_def [symmetric]
  proof (intro equalityI subsetI)
    fix x
    assume "x \<in> ref e ` {a \<in> A. \<forall>sc'. sc' \<noteq> sc \<longrightarrow> a \<notin> L sc'}"
    then obtain a where "a \<in> A" "\<not> (\<exists>sc'. sc' \<noteq> sc \<and> a \<in> L sc')" "x = ref e a" by blast
    with shared [of a] show "x \<in> ref e ` A - (\<Union>sc'. ref e ` M sc')" by simp
  next
    fix x
    assume "x \<in> ref e ` A - (\<Union>sc'. ref e ` M sc')"
    then obtain a where "a \<in> A" "x = ref e a" "ref e a \<notin> (\<Union>sc'. ref e ` M sc')" by auto
    with shared [of a] show "x \<in> ref e ` {a \<in> A. \<forall>sc'. sc' \<noteq> sc \<longrightarrow> a \<notin> L sc'}" by blast
  qed
qed

lemma clear_spec:
  assumes "px_good e"
  shows "px_good (px_ClearScope sc e)" and "px_owned (px_ClearScope sc e) = (px_owned e)(sc := {})"
    and "px_exported (px_ClearScope sc e) =
      px_exported e - (px_owned e sc - (\<Union>sc'. px_owned (px_ClearScope sc e) sc'))"
proof -
  from assms have ok: "px_ok e (owned_by e)" and d: "distinct (scope_list e sc')" for sc' by (simp_all add: px_good_def)
  let ?e1 = "fold release (scope_list e sc) e"
  let ?e2 = "?e1\<lparr>px_scopes := filter (\<lambda>(s, _). s \<noteq> sc) (px_scopes e)\<rparr>"
  have sub: "set (scope_list e sc) \<subseteq> owned_by e sc" by (simp add: owned_by_def)
  note r = release_all [OF ok d [of sc] sub]
  have c: "px_ClearScope sc e = (case map_of (px_scopes e) sc of None \<Rightarrow> e | Some _ \<Rightarrow> ?e2)"
    using r(3) by (cases "map_of (px_scopes e) sc")
      (simp_all add: px_ClearScope_def clearScopeLocked_def scope_list_def Let_def)
  show "px_good (px_ClearScope sc e)" "px_owned (px_ClearScope sc e) = (px_owned e)(sc := {})"
    "px_exported (px_ClearScope sc e) =
      px_exported e - (px_owned e sc - (\<Union>sc'. px_owned (px_ClearScope sc e) sc'))"
  proof (atomize(full), cases "map_of (px_scopes e) sc")
    case None
    then have "owned_by e sc = {}" by (simp add: owned_by_def scope_list_def)
    then have "px_owned e sc = {}" by (simp add: px_owned_def)
    with None assms c show "px_good (px_ClearScope sc e) \<and> px_owned (px_ClearScope sc e) = (px_owned e)(sc := {}) \<and>
      px_exported (px_ClearScope sc e) =
        px_exported e - (px_owned e sc - (\<Union>sc'. px_owned (px_ClearScope sc e) sc'))"
      by (auto simp: fun_eq_iff)
  next
    case (Some l)
    then have e': "px_ClearScope sc e = ?e2" by (simp add: c)
    have sl: "scope_list ?e2 sc' = (if sc' = sc then [] else scope_list e sc')" for sc'
      unfolding scope_list_filter by (simp add: scope_list_def)
    then have li: "owned_by ?e2 = (owned_by e)(sc := {})" by (auto simp: owned_by_def fun_eq_iff)
    have rg: "reg ?e2 = reg ?e1" "px_store ?e2 = px_store ?e1" "px_next ?e2 = px_next ?e1"
      by (simp_all add: reg_def fun_eq_iff)
    have L: "(owned_by e)(sc := owned_by e sc - set (scope_list e sc)) = (owned_by e)(sc := {})" by (simp add: owned_by_def)
    note ok2 = px_ok_cong [OF r(1) rg, unfolded L]
    have good2: "px_good ?e2"
      using assms ok2(1) r sl li by (auto simp: px_good_def distinct_map_filter)
    have own2: "px_owned ?e2 = (px_owned e)(sc := {})"
      using ok2(2) r(5) li by (auto simp: px_owned_def fun_eq_iff)
    have "px_exported ?e2 = px_exported e - ref e ` {a \<in> owned_by e sc. \<forall>sc'. sc' \<noteq> sc \<longrightarrow> a \<notin> owned_by e sc'}"
      using r(2) by (simp add: px_exported_def rg(1) owned_by_def)
    also have "\<dots> = px_exported e - (px_owned e sc - (\<Union>sc'. px_owned ?e2 sc'))"
      using dropped_series [OF ok, of "{}" sc "owned_by e sc"] ok2(2) r(5) li by (simp add: px_owned_def)
    finally show "px_good (px_ClearScope sc e) \<and> px_owned (px_ClearScope sc e) = (px_owned e)(sc := {}) \<and>
      px_exported (px_ClearScope sc e) =
        px_exported e - (px_owned e sc - (\<Union>sc'. px_owned (px_ClearScope sc e) sc'))"
      using good2 own2 unfolding e' by blast
  qed
qed

lemma mark_all:
  fixes g :: nat
  defines "mark \<equiv> \<lambda>a. set_series a (\<lambda>s. s\<lparr>se_owned := g\<rparr>)"
  shows "px_ok e L \<Longrightarrow> px_ok (fold mark as e) L" and "reg (fold mark as e) = reg e" and "ref (fold mark as e) = ref e"
    and "px_next (fold mark as e) = px_next e" and "px_scopes (fold mark as e) = px_scopes e"
    and "px_generation (fold mark as e) = px_generation e"
    and "se_written (px_store (fold mark as e) b) = se_written (px_store e b)"
    and "se_owned (px_store (fold mark as e) b) = (if b \<in> set as then g else se_owned (px_store e b))"
proof -
  have m: "px_ok e L \<Longrightarrow> px_ok (mark a e) L" for e a unfolding mark_def by (rule px_ok_mark) simp_all
  have rf: "ref (mark a e) = ref e" for e a by (simp add: mark_def ref_def fun_eq_iff)
  show "px_ok e L \<Longrightarrow> px_ok (fold mark as e) L" using m by (induction as arbitrary: e) simp_all
  show "reg (fold mark as e) = reg e" "ref (fold mark as e) = ref e" "px_next (fold mark as e) = px_next e"
    "px_scopes (fold mark as e) = px_scopes e" "px_generation (fold mark as e) = px_generation e"
    "se_written (px_store (fold mark as e) b) = se_written (px_store e b)"
    "se_owned (px_store (fold mark as e) b) = (if b \<in> set as then g else se_owned (px_store e b))"
    using rf by (induction as arbitrary: e) (simp_all add: mark_def)
qed

lemma release_unwritten:
  "fold (\<lambda>a e. if se_written (px_store e a) \<noteq> g then release a e else e) as e =
     fold release (filter (\<lambda>a. se_written (px_store e a) \<noteq> g) as) e"
  by (induction as arbitrary: e) simp_all

lemma loop_start:
  assumes good: "px_good e"
  defines "gen \<equiv> px_generation e + 1"
  shows "loop_inv e sc gen (owned_by e)
    (fold (\<lambda>a. set_series a (\<lambda>s. s\<lparr>se_owned := gen\<rparr>)) (scope_list e sc) (e\<lparr>px_generation := gen\<rparr>)) []"
proof -
  let ?e = "e\<lparr>px_generation := gen\<rparr>"
  have same: "reg ?e = reg e" "px_store ?e = px_store e" "px_next ?e = px_next e"
    by (simp_all add: reg_def fun_eq_iff)
  from good have ok: "px_ok e (owned_by e)" by (simp add: px_good_def)
  note c = px_ok_cong [OF ok same]
  note m = mark_all [where g = gen and as = "scope_list e sc" and e = ?e]
  have "marks (fold (\<lambda>a. set_series a (\<lambda>s. s\<lparr>se_owned := gen\<rparr>)) (scope_list e sc) ?e) gen (owned_by e sc) {}"
    using good unfolding marks_def m(4,7,8) by (force simp: px_good_def gen_def owned_by_def)
  with m(1) [OF c(1)] m(2-6) same c(2) show ?thesis unfolding loop_inv_def by simp
qed

lemma diff_same: "N \<subseteq> U \<Longrightarrow> O' \<subseteq> A \<union> N \<Longrightarrow> A \<subseteq> O' \<Longrightarrow> D - (A - U) = D - (O' - U)"
  by blast

lemma record_spec:
  fixes accepts sc samples
  assumes good: "px_good e"
  defines "e' \<equiv> fst (px_RecordScope accepts sc samples e)"
  shows "px_good e'" and "sc' \<noteq> sc \<Longrightarrow> px_owned e' sc' = px_owned e sc'"
    and "px_exported e' = (px_exported e \<union> px_owned e' sc) - (px_owned e sc - (\<Union>sc'. px_owned e' sc'))"
proof -
  define gen where "gen = px_generation e + 1"
  define P where "P = scope_list e sc"
  define e2 where "e2 = fold (\<lambda>a. set_series a (\<lambda>s. s\<lparr>se_owned := gen\<rparr>)) P (e\<lparr>px_generation := gen\<rparr>)"
  obtain e3 N errs where run: "fold (record_one accepts gen) samples (e2, [], []) = (e3, N, errs)" by (metis prod_cases3)
  define A where "A = filter (\<lambda>a. se_written (px_store e3 a) \<noteq> gen) P"
  define e4 where "e4 = fold release A e3"
  from good have ok: "px_ok e (owned_by e)" and dP: "distinct P" by (simp_all add: px_good_def P_def)
  have Pl: "set P = owned_by e sc" by (simp add: P_def owned_by_def)
  have less: "\<forall>a \<in> owned_by e sc'. a < px_next e" for sc' using px_ok_less [OF ok] by blast
  have inv: "loop_inv e sc gen (owned_by e) e3 N"
    by (rule loop_run [OF _ _ less run]) (use loop_start [OF good, of sc] in \<open>simp_all add: e2_def gen_def P_def\<close>)
  then have ok3: "px_ok e3 ((owned_by e)(sc := owned_by e sc \<union> set N))" and sc3: "px_scopes e3 = px_scopes e"
    and g3: "px_generation e3 = gen" and dN: "distinct N" and m3: "marks e3 gen (owned_by e sc) (set N)"
    and n3: "px_next e \<le> px_next e3" and r3: "\<forall>a < px_next e. ref e3 a = ref e a"
    and d3: "dom (reg e3) = dom (reg e) \<union> ref e3 ` set N"
    by (simp_all add: loop_inv_def)
  let ?L = "(owned_by e)(sc := owned_by e sc \<union> set N)"
  have setA: "set A = owned_by e sc - set N"
  proof -
    have "se_written (px_store e3 a) = gen \<longleftrightarrow> a \<in> set N" if "a \<in> owned_by e sc" for a
    proof -
      from less [of sc] that n3 have "a < px_next e3" by (meson less_le_trans)
      with m3 show ?thesis unfolding marks_def by blast
    qed
    then show ?thesis unfolding A_def by (auto simp: Pl)
  qed
  have subA: "set A \<subseteq> ?L sc" using setA by auto
  note r = release_all [OF ok3 distinct_filter [OF dP] subA [unfolded A_def], folded A_def, folded e4_def]
  have L4: "?L(sc := ?L sc - set A) = (owned_by e)(sc := set N)" unfolding setA by (rule ext) auto
  have e': "e' = e4\<lparr>px_scopes := (if N = [] then filter (\<lambda>(s, _). s \<noteq> sc) (px_scopes e) else put sc N (px_scopes e))\<rparr>"
  proof -
    have g: "px_generation (e\<lparr>px_generation := gen\<rparr>) = gen" "scope_list (e\<lparr>px_generation := gen\<rparr>) sc = P"
      by (simp_all add: P_def scope_list_def)
    show ?thesis
      unfolding e'_def px_RecordScope_def Let_def gen_def [symmetric] g e2_def [symmetric] run prod.case
        release_unwritten A_def [symmetric] e4_def [symmetric] r(3) sc3 fst_conv ..
  qed
  have sl: "scope_list e' x = (if x = sc then N else scope_list e x)" for x
    unfolding e' by (cases "N = []") (simp_all add: scope_list_def filter_delete)
  then have li: "owned_by e' = (owned_by e)(sc := set N)" by (auto simp: owned_by_def fun_eq_iff)
  have same: "reg e' = reg e4" "px_store e' = px_store e4" "px_next e' = px_next e4"
    by (simp_all add: e' reg_def fun_eq_iff)
  note ok' = px_ok_cong [OF r(1) same, unfolded L4 li [symmetric]]
  have ref': "ref e' = ref e3" using ok'(2) r(5) by simp
  have dist: "distinct (map fst (px_scopes e'))"
    using good unfolding e' by (auto simp: px_good_def distinct_put distinct_map_filter)
  have "\<forall>a < px_next e'. se_owned (px_store e' a) \<le> px_generation e' \<and> se_written (px_store e' a) \<le> px_generation e'"
    using m3 r(4,6,7,8) g3 by (simp add: e' marks_def)
  with ok'(1) dist sl good dN show "px_good e'" by (auto simp: px_good_def)
  have refl: "ref e3 ` owned_by e x = ref e ` owned_by e x" for x
    using r3 less [of x] by (intro image_cong refl) blast
  show "px_owned e' sc' = px_owned e sc'" if "sc' \<noteq> sc" using that refl by (simp add: px_owned_def ref' li)
  have "px_exported e' = dom (reg e3) - ref e3 ` {a \<in> set A. \<forall>sc'. sc' \<noteq> sc \<longrightarrow> a \<notin> ?L sc'}"
    by (simp add: px_exported_def same(1) r(2))
  also have "\<dots> = dom (reg e3) - (ref e3 ` set A - (\<Union>sc'. ref e3 ` (owned_by e' sc')))"
  proof -
    have h: "set N \<subseteq> ?L sc" "set A = ?L sc - set N" unfolding setA by auto
    have u: "?L(sc := set N) = owned_by e'" unfolding li by simp
    show ?thesis unfolding dropped_series [OF ok3 h] u ..
  qed
  also have "\<dots> = dom (reg e3) - (px_owned e sc - (\<Union>sc'. px_owned e' sc'))"
  proof -
    have "ref e3 ` set N \<subseteq> (\<Union>sc'. ref e3 ` (owned_by e' sc'))" using li by (metis UN_upper UNIV_I fun_upd_same)
    moreover have "px_owned e sc \<subseteq> ref e3 ` set A \<union> ref e3 ` set N"
      unfolding px_owned_def refl [of sc, symmetric] setA by blast
    moreover have "ref e3 ` set A \<subseteq> px_owned e sc" unfolding px_owned_def refl [of sc, symmetric] setA by blast
    ultimately have "dom (reg e3) - (ref e3 ` set A - (\<Union>sc'. ref e3 ` (owned_by e' sc'))) =
        dom (reg e3) - (px_owned e sc - (\<Union>sc'. ref e3 ` (owned_by e' sc')))" by (rule diff_same)
    then show ?thesis unfolding px_owned_def [of e'] ref' .
  qed
  also have "dom (reg e3) = px_exported e \<union> px_owned e' sc"
    unfolding d3 px_exported_def px_owned_def ref' li fun_upd_same ..
  finally show "px_exported e' = (px_exported e \<union> px_owned e' sc) - (px_owned e sc - (\<Union>sc'. px_owned e' sc'))" .
qed

interpretation px_scopes: scope_clearing px_good px_exported px_owned px_ClearScope
  by unfold_locales (rule clear_spec, assumption)+

interpretation px: scoped_recorder px_good px_exported px_owned px_ClearScope
    "\<lambda>sc xs e. fst (px_RecordScope accepts sc xs e)" px_ForgetCollector px_scope_list
  for accepts
proof
  fix e sc sc' xs c
  assume g: "px_good e"
  show "px_good (fst (px_RecordScope accepts sc xs e))" by (rule record_spec(1) [OF g])
  show "px_owned (fst (px_RecordScope accepts sc xs e)) sc' = px_owned e sc'" if "sc' \<noteq> sc"
    by (rule record_spec(2) [OF g that])
  show "px_exported (fst (px_RecordScope accepts sc xs e)) =
      (px_exported e \<union> px_owned (fst (px_RecordScope accepts sc xs e)) sc) -
      (px_owned e sc - (\<Union>sc'. px_owned (fst (px_RecordScope accepts sc xs e)) sc'))"
    by (rule record_spec(3) [OF g])
  show "sc \<in> set (px_scope_list e)" if "px_owned e sc \<noteq> {}"
  proof (rule ccontr)
    assume "sc \<notin> set (px_scope_list e)"
    then have "map_of (px_scopes e) sc = None" by (simp add: px_scope_list_def map_of_eq_None_iff)
    with that show False by (simp add: px_owned_def owned_by_def scope_list_def)
  qed
  show "px_ForgetCollector c e = px_scopes.clear_all (\<lambda>sc. sc_Collector sc = c) (px_scope_list e) e"
    unfolding px_ForgetCollector_def px_scopes.clear_all_def px_scope_list_def px_ClearScope_def ..
qed

lemma px_new: "px_good NewPrometheusExporter \<and> px.clean NewPrometheusExporter"
proof -
  have "reg NewPrometheusExporter x = None" for x by (simp add: reg_def NewPrometheusExporter_def)
  then have "reg NewPrometheusExporter = Map.empty" ..
  then show ?thesis
    by (simp add: px_good_def px.clean_def px_exported_def px_owned_def px_ok_def owned_by_def scope_list_def)
      (simp add: NewPrometheusExporter_def)
qed

definition px_run :: "registry \<Rightarrow> scope_op list \<Rightarrow> PrometheusExporter" where
  "px_run accepts ops = fold (\<lambda>op e. case op of
       OpRecord sc xs \<Rightarrow> fst (px_RecordScope accepts sc xs e)
     | OpClear sc \<Rightarrow> px_ClearScope sc e
     | OpForget c \<Rightarrow> px_ForgetCollector c e) ops NewPrometheusExporter"

lemma px_run_eq: "px_run accepts ops = fold (px.run_op accepts) ops NewPrometheusExporter"
  unfolding px_run_def px.run_op_def ..

text \<open>C18: whatever scopes write, are cleared and are forgotten, and whatever the registry accepts, the
  series Prometheus scrapes are exactly those some scope still reports, and forgetting a collector
  leaves exactly the series the other collectors report: no series is ever exported stale and none
  that is still reported is lost.\<close>

theorem px_no_stale_series:
  "px_exported (px_run accepts ops) = (\<Union>sc. px_owned (px_run accepts ops) sc) \<and>
   px_exported (px_ForgetCollector c (px_run accepts ops)) =
     (\<Union>sc \<in> {sc. sc_Collector sc \<noteq> c}. px_owned (px_run accepts ops) sc) \<and>
   px_owned (px_ClearScope sc (px_run accepts ops)) = (px_owned (px_run accepts ops))(sc := {})"
proof -
  have g: "px_good (px_run accepts ops) \<and> px.clean (px_run accepts ops)"
    unfolding px_run_eq using px_new px.run_ops_clean by blast
  moreover have "px_exported (px_ForgetCollector c (px_run accepts ops)) =
      (\<Union>sc \<in> {sc. sc_Collector sc \<noteq> c}. px_owned (px_run accepts ops) sc)"
    unfolding px_run_eq by (rule px.forgotten [OF conjunct1 [OF px_new] conjunct2 [OF px_new]])
  ultimately show ?thesis using clear_spec(2) by (auto simp: px.clean_def)
qed

section \<open>Keys of series\<close>

lemma decode_rune_bytes:
  assumes "decode_rune (c # t) = (r, n)" and "\<not> (r = rune_error \<and> n = 1)" and "i < n"
  shows "byte ((c # t) ! i) \<le> 244"
proof (cases "byte c < 128")
  case True
  with assms have "i = 0" by auto
  with True show ?thesis by simp
next
  case False
  then have "decode_rune (c # t) \<noteq> (rune_error, 1)" using assms by auto
  with False obtain sz lo hi where info: "lead_info (byte c) = Some (sz, lo, hi)"
    by (auto simp: decode_rune_def Let_def split: option.splits)
  note lead = lead_info_SomeD [OF info]
  have c: "byte c \<le> 244" using lead(3) by auto
  from assms info False lead(3) have n: "n = sz"
    and b1: "byte ((c # t) ! 1) \<le> hi"
    and b2: "3 \<le> sz \<Longrightarrow> byte ((c # t) ! 2) \<le> 191" and b3: "4 \<le> sz \<Longrightarrow> byte ((c # t) ! 3) \<le> 191"
    by (auto simp: decode_rune_def Let_def continuation_def split: if_splits)
  have "i = 0 \<or> i = 1 \<or> (i = 2 \<and> 3 \<le> sz) \<or> (i = 3 \<and> 4 \<le> sz)"
    using assms(3) n lead(3) by auto
  with c b1 b2 b3 lead(2) show ?thesis by auto
qed

lemma runes_bytes:
  "(r, bs) \<in> set (runes s) \<Longrightarrow> \<not> (r = rune_error \<and> length bs = 1) \<Longrightarrow> \<forall>c \<in> set bs. byte c \<le> 244"
proof (induction s rule: runes.induct)
  case (1 s)
  obtain r' n where d: "decode_rune s = (r', n)" by fastforce
  show ?case
  proof (cases s)
    case (Cons c t)
    show ?thesis
    proof (cases "(r, bs) \<in> set (runes (drop n s))")
      case True
      with "1.IH" [of "(r', n)" r' n] d Cons 1(3) show ?thesis by simp
    next
      case False
      with "1.prems" d Cons have rb: "r = r'" "bs = take n s" by (simp_all add: runes.simps [of "c # t"])
      have n: "n \<le> length s" using decode_rune_size [of s] d Cons by simp
      with 1(3) rb have "\<not> (r' = rune_error \<and> n = 1)" by auto
      from decode_rune_bytes [OF d [unfolded Cons] this] show ?thesis
        using n unfolding rb Cons by (auto simp: in_set_conv_nth)
    qed
  qed (use "1.prems" in simp)
qed

lemma valid_utf8_separator: "valid_utf8 s \<Longrightarrow> labelValueSeparator \<notin> set s"
proof
  assume v: "valid_utf8 s" and "labelValueSeparator \<in> set s"
  then have "labelValueSeparator \<in> set (concat (map snd (runes s)))" by simp
  then obtain r bs where m: "(r, bs) \<in> set (runes s)" "labelValueSeparator \<in> set bs"
    by (auto simp del: concat_runes)
  with v have "\<not> (r = rune_error \<and> length bs = 1)" by (auto simp: valid_utf8_def list_all_iff)
  with runes_bytes [OF m(1) this] m(2) have "byte labelValueSeparator \<le> 244" by blast
  then show False by (simp add: labelValueSeparator_def byte_def)
qed

lemma split_at_separator:
  assumes "x \<notin> set v" and "x \<notin> set w" and "v @ x # p = w @ x # q"
  shows "v = w \<and> p = q"
  using assms
proof (induction v arbitrary: w)
  case Nil
  then show ?case by (cases w) auto
next
  case (Cons a v)
  then show ?case by (cases w) auto
qed

lemma join_values_inject:
  assumes "length vs = length ws" and "list_all (\<lambda>v. labelValueSeparator \<notin> set v) (vs @ ws)"
    and "join_values vs = join_values ws"
  shows "vs = ws"
  using assms
proof (induction vs arbitrary: ws rule: join_values.induct)
  case (2 v)
  then show ?case by (cases ws rule: join_values.cases) auto
next
  case (3 v w vs)
  then obtain v' w' ws' where ws: "ws = v' # w' # ws'" by (cases ws rule: join_values.cases) auto
  with 3(4) have "v @ labelValueSeparator # join_values (w # vs) =
      v' @ labelValueSeparator # join_values (w' # ws')" by simp
  from split_at_separator [OF _ _ this] 3(3) ws
  have "v = v'" "join_values (w # vs) = join_values (w' # ws')" by simp_all
  with 3(1) [of "w' # ws'"] 3(2,3) ws show ?case by simp
qed simp

text \<open>Two series of a family never share a key: label values that are valid UTF-8 are determined
  by their key, because the separating byte 0xff occurs in no valid UTF-8.\<close>

theorem series_key_inject:
  assumes "length vs = length ws" and "list_all valid_utf8 (vs @ ws)" and "join_values vs = join_values ws"
  shows "vs = ws"
proof -
  have "list_all (\<lambda>v. labelValueSeparator \<notin> set v) (vs @ ws)"
    using assms(2) valid_utf8_separator by (auto simp: list_all_iff)
  from join_values_inject [OF assms(1) this assms(3)] show ?thesis .
qed

theorem series_key_inject_witness:
  "join_values [''prod'', [CHR 0xC3, CHR 0xA9]] \<noteq> join_values [''prod'' @ [CHR 0xC3, CHR 0xA9], []]"
proof
  assume eq: "join_values [''prod'', [CHR 0xC3, CHR 0xA9]] = join_values [''prod'' @ [CHR 0xC3, CHR 0xA9], []]"
  have "list_all valid_utf8 ([''prod'', [CHR 0xC3, CHR 0xA9]] @ [''prod'' @ [CHR 0xC3, CHR 0xA9], []])"
    by code_simp
  from series_key_inject [OF _ this eq] show False by simp
qed

end
