(* ===== verification/Watermark.thy ===== *)
theory Watermark
  imports GoTime
begin

text \<open>
  The watermark store of the log extraction (\<open>collectors/outsystems/watermark.go\<close>): watermarks in
  memory and in one file per key, replaced atomically.  A file holds the JSON document it parses to,
  or text that does not parse.  What the file system does is given by \<open>write_world\<close>: the name of the
  temporary file and the step that fails, if any.
\<close>

record WatermarkKey =
  wk_Collector :: string
  wk_Target :: string
  wk_LogType :: string

record Watermark =
  wm_Instant :: gotime
  wm_InstantType :: string
  wm_Source :: string

record watermarkFile =
  wf_Version :: int
  wf_Collector :: string
  wf_Target :: string
  wf_LogType :: string
  wf_Source :: string
  wf_Instant :: string
  wf_InstantType :: string
  wf_UpdatedAt :: gotime

datatype file_content = Json watermarkFile | Garbled string

type_synonym disk = "string \<Rightarrow> file_content option"

definition watermarkVersion :: int where "watermarkVersion = 1"

record Store =
  sto_dir :: string
  sto_cache :: "WatermarkKey \<Rightarrow> Watermark option"
  sto_disk :: disk

definition NewStore :: "string \<Rightarrow> disk \<Rightarrow> Store" where
  "NewStore dir disk = \<lparr>sto_dir = dir, sto_cache = \<lambda>_. None, sto_disk = disk\<rparr>"

section \<open>Paths\<close>

definition safe_byte :: "char \<Rightarrow> bool" where
  "safe_byte c \<longleftrightarrow> (97 \<le> byte c \<and> byte c \<le> 122) \<or> (65 \<le> byte c \<and> byte c \<le> 90) \<or> (48 \<le> byte c \<and> byte c \<le> 57) \<or>
     c = CHR ''-'' \<or> c = CHR ''_''"

definition hex_digit :: "nat \<Rightarrow> char" where
  "hex_digit n = char_of (if n < 10 then 48 + n else 55 + n)"

definition escape_byte :: "char \<Rightarrow> string" where
  "escape_byte c = (if safe_byte c then [c] else [CHR ''%'', hex_digit (byte c div 16), hex_digit (byte c mod 16)])"

definition escapeName :: "string \<Rightarrow> string" where
  "escapeName name = concat (map escape_byte name)"

definition file_name :: "WatermarkKey \<Rightarrow> string" where
  "file_name key = escapeName (wk_Collector key) @ ''.'' @ escapeName (wk_Target key) @ ''.'' @
     escapeName (wk_LogType key) @ ''.json''"

text \<open>\<open>filepath.Join\<close> of a clean directory and a plain file name.\<close>

definition join_path :: "string \<Rightarrow> string \<Rightarrow> string" where
  "join_path dir name = (if dir = [] \<or> last dir = CHR ''/'' then dir @ name else dir @ ''/'' @ name)"

definition path :: "string \<Rightarrow> WatermarkKey \<Rightarrow> string" where
  "path dir key = join_path dir (file_name key)"

definition hex_value :: "char \<Rightarrow> nat" where
  "hex_value c = (if byte c < 58 then byte c - 48 else byte c - 55)"

fun unescape :: "string \<Rightarrow> string" where
  "unescape [] = []"
| "unescape [c] = [c]"
| "unescape [c, d] = [c, d]"
| "unescape (c # a # b # s) =
     (if c = CHR ''%'' then char_of (16 * hex_value a + hex_value b) # unescape s else c # unescape (a # b # s))"

lemma hex_value_digit: "n < 16 \<Longrightarrow> hex_value (hex_digit n) = n"
  by (auto simp: hex_value_def hex_digit_def byte_def)

lemma byte_less: "byte c < 256"
  by (simp add: byte_def)

lemma unescape_Cons: "c \<noteq> CHR ''%'' \<Longrightarrow> unescape (c # s) = c # unescape s"
  by (cases "c # s" rule: unescape.cases) auto

lemma unescape_escapeName: "unescape (escapeName s) = s"
proof (induction s)
  case (Cons c s)
  have "char_of (16 * hex_value (hex_digit (byte c div 16)) + hex_value (hex_digit (byte c mod 16))) = c"
    using byte_less [of c] by (simp add: hex_value_digit less_mult_imp_div_less) (simp add: byte_def)
  moreover have "safe_byte c \<Longrightarrow> c \<noteq> CHR ''%''" by (auto simp: safe_byte_def byte_def)
  ultimately show ?case
    using Cons by (auto simp: escapeName_def escape_byte_def unescape_Cons)
qed (simp add: escapeName_def)

lemma escapeName_inject: "escapeName s = escapeName t \<longleftrightarrow> s = t"
  by (metis unescape_escapeName)

lemma escapeName_plain: "c \<in> set (escapeName s) \<Longrightarrow> safe_byte c \<or> c = CHR ''%''"
proof (induction s)
  case (Cons d s)
  have h: "safe_byte (hex_digit n)" if "n < 16" for n
    using that by (auto simp: safe_byte_def hex_digit_def byte_def)
  have "byte d div 16 < 16" using byte_less [of d] by (simp add: less_mult_imp_div_less)
  with Cons h show ?case by (auto simp: escapeName_def escape_byte_def split: if_splits)
qed (simp add: escapeName_def)

lemma escapeName_no_dot: "CHR ''.'' \<notin> set (escapeName s)" "CHR ''/'' \<notin> set (escapeName s)"
  using escapeName_plain [of "CHR ''.''" s] escapeName_plain [of "CHR ''/''" s] by (auto simp: safe_byte_def byte_def)

lemma file_name_inject: "file_name k = file_name k' \<longleftrightarrow> k = k'"
proof
  assume eq: "file_name k = file_name k'"
  then have "escapeName (wk_Collector k) @ CHR ''.'' # (escapeName (wk_Target k) @ CHR ''.'' # escapeName (wk_LogType k) @ ''.json'') =
      escapeName (wk_Collector k') @ CHR ''.'' # (escapeName (wk_Target k') @ CHR ''.'' # escapeName (wk_LogType k') @ ''.json'')"
    by (simp add: file_name_def)
  note s1 = split_at_char [OF escapeName_no_dot(1) escapeName_no_dot(1) this]
  note s2 = split_at_char [OF escapeName_no_dot(1) escapeName_no_dot(1) conjunct2 [OF s1]]
  have "escapeName (wk_LogType k) = escapeName (wk_LogType k')" using conjunct2 [OF s2] by simp
  with s1 s2 have "wk_Collector k = wk_Collector k'" "wk_Target k = wk_Target k'" "wk_LogType k = wk_LogType k'"
    unfolding escapeName_inject by simp_all
  then show "k = k'" by (rule WatermarkKey.equality) simp
qed simp

lemma path_inject: "path dir k = path dir k' \<longleftrightarrow> k = k'"
  by (simp add: path_def join_path_def file_name_inject)

section \<open>Files\<close>

datatype write_fault = FailMkdir | FailCreate | FailWrite | FailSync | FailClose | FailRename | FailSyncDir

record write_world =
  ww_tmp :: string
  ww_fault :: "write_fault option"

text \<open>Temporary files are named \<open>.watermark-*.tmp\<close>.\<close>

definition tmp_ok :: "write_world \<Rightarrow> bool" where
  "tmp_ok w \<longleftrightarrow> (\<exists>s. ww_tmp w = s @ ''.tmp'')"

definition writeFileAtomic :: "write_world \<Rightarrow> string \<Rightarrow> file_content \<Rightarrow> disk \<Rightarrow> disk \<times> write_fault option" where
  "writeFileAtomic w p content d =
     (if ww_fault w = Some FailMkdir \<or> ww_fault w = Some FailCreate then (d, ww_fault w)
      else
        let d = d(ww_tmp w \<mapsto> content) in
        if ww_fault w \<in> {Some FailWrite, Some FailSync, Some FailClose, Some FailRename} then
          (d(ww_tmp w := None), ww_fault w)
        else (d(p \<mapsto> content, ww_tmp w := None), ww_fault w))"

text \<open>The states of the disk a crash can leave behind while it runs: the temporary file with any part
  of the content, or the renamed one.\<close>

definition crash_disks :: "write_world \<Rightarrow> string \<Rightarrow> file_content \<Rightarrow> disk \<Rightarrow> disk set" where
  "crash_disks w p content d =
     {d, d(ww_tmp w \<mapsto> content), d(p \<mapsto> content, ww_tmp w := None)} \<union> {d(ww_tmp w \<mapsto> Garbled part) |part. True}"

datatype loadError = ReadFailed | ParseFailed | WrongVersion int | BadInstant string

definition Load :: "bool \<Rightarrow> WatermarkKey \<Rightarrow> Store \<Rightarrow> Store \<times> (loadError, Watermark option) result" where
  "Load readable key s =
     (case sto_cache s key of
        Some w \<Rightarrow> (s, Inr (Some w))
      | None \<Rightarrow>
         (case sto_disk s (path (sto_dir s) key) of
            None \<Rightarrow> (s, Inr None)
          | Some content \<Rightarrow>
              if \<not> readable then (s, Inl ReadFailed)
              else (case content of
                 Garbled _ \<Rightarrow> (s, Inl ParseFailed)
               | Json file \<Rightarrow>
                   if wf_Version file \<noteq> watermarkVersion then (s, Inl (WrongVersion (wf_Version file)))
                   else (case parse_wall (wf_Instant file) of
                      None \<Rightarrow> (s, Inl (BadInstant (wf_Instant file)))
                    | Some t \<Rightarrow>
                        let w = \<lparr>wm_Instant = t, wm_InstantType = wf_InstantType file, wm_Source = wf_Source file\<rparr> in
                        (s\<lparr>sto_cache := (sto_cache s)(key \<mapsto> w)\<rparr>, Inr (Some w))))))"

definition Remember :: "WatermarkKey \<Rightarrow> Watermark \<Rightarrow> Store \<Rightarrow> Store" where
  "Remember key w s = s\<lparr>sto_cache := (sto_cache s)(key \<mapsto> w)\<rparr>"

definition watermark_file :: "WatermarkKey \<Rightarrow> Watermark \<Rightarrow> gotime \<Rightarrow> watermarkFile" where
  "watermark_file key w now =
     \<lparr>wf_Version = watermarkVersion, wf_Collector = wk_Collector key, wf_Target = wk_Target key,
      wf_LogType = wk_LogType key, wf_Source = wm_Source w, wf_Instant = format_wall (wm_Instant w),
      wf_InstantType = wm_InstantType w, wf_UpdatedAt = now\<rparr>"

definition Save :: "write_world \<Rightarrow> WatermarkKey \<Rightarrow> Watermark \<Rightarrow> gotime \<Rightarrow> Store \<Rightarrow> Store \<times> write_fault option" where
  "Save ww key w now s =
     (case writeFileAtomic ww (path (sto_dir s) key) (Json (watermark_file key w now)) (sto_disk s) of
        (d, e) \<Rightarrow> (s\<lparr>sto_cache := (sto_cache s)(key \<mapsto> w), sto_disk := d\<rparr>, e))"

text \<open>What a process that starts on a disk reads: nothing is in memory yet.\<close>

definition stored :: "string \<Rightarrow> disk \<Rightarrow> WatermarkKey \<Rightarrow> (loadError, Watermark option) result" where
  "stored dir d key = snd (Load True key (NewStore dir d))"

text \<open>Watermarks a file can hold: on or after the zero time, in a year of four digits.\<close>

definition storable :: "Watermark \<Rightarrow> bool" where
  "storable w \<longleftrightarrow> 0 \<le> wm_Instant w \<and> fst (civil (nat (wm_Instant w div day_ns))) < 10000"

definition round_instant :: "Watermark \<Rightarrow> Watermark" where
  "round_instant w = w\<lparr>wm_Instant := time_truncate (wm_Instant w) 100\<rparr>"

lemma path_not_tmp: "tmp_ok w \<Longrightarrow> path dir key \<noteq> ww_tmp w"
proof
  assume "tmp_ok w" and eq: "path dir key = ww_tmp w"
  then obtain s where "path dir key = s @ ''.tmp''" by (auto simp: tmp_ok_def)
  then have "last (path dir key) = CHR ''p''" by simp
  moreover have "last (path dir key) = CHR ''n''" by (simp add: path_def join_path_def file_name_def)
  ultimately show False by simp
qed

lemma stored_json:
  assumes "d (path dir key) = Some (Json (watermark_file key w now))" and "storable w"
  shows "stored dir d key = Inr (Some (round_instant w))"
  using assms parse_format_wall [of "wm_Instant w"]
  by (simp add: stored_def Load_def NewStore_def watermark_file_def storable_def round_instant_def Let_def)

lemma stored_cong: "d (path dir key) = d' (path dir key) \<Longrightarrow> stored dir d key = stored dir d' key"
  by (simp add: stored_def Load_def NewStore_def Let_def split: option.splits file_content.splits)

text \<open>C25: saving a watermark is atomic: after a save without error a restarted process reads it back,
  to the 100 ns the file holds; a save that fails before the rename leaves the old one and no
  temporary file; a crash at any point leaves the old or the new watermark, never a mix; and the
  watermarks of other keys never change.\<close>

theorem save_atomic:
  assumes "tmp_ok ww" and "storable w" and "Save ww key w now s = (s', e)"
  defines "after \<equiv> stored (sto_dir s)"
  shows "(e = None \<or> e = Some FailSyncDir \<longrightarrow> after (sto_disk s') key = Inr (Some (round_instant w))) \<and>
    (e \<noteq> None \<and> e \<noteq> Some FailSyncDir \<and> sto_disk s (ww_tmp ww) = None \<longrightarrow> sto_disk s' = sto_disk s) \<and>
    (\<forall>d \<in> crash_disks ww (path (sto_dir s) key) (Json (watermark_file key w now)) (sto_disk s).
       after d key \<in> {after (sto_disk s) key, Inr (Some (round_instant w))} \<and>
       (\<forall>k. k \<noteq> key \<longrightarrow> after d k = after (sto_disk s) k)) \<and>
    (\<forall>k. k \<noteq> key \<longrightarrow> after (sto_disk s') k = after (sto_disk s) k) \<and>
    fst (Load readable key s') = s' \<and> snd (Load readable key s') = Inr (Some w)"
proof -
  let ?p = "path (sto_dir s) key" and ?c = "Json (watermark_file key w now)" and ?t = "ww_tmp ww"
  have pt: "path (sto_dir s) k \<noteq> ?t" for k by (rule path_not_tmp [OF assms(1)])
  have pk: "k \<noteq> key \<Longrightarrow> path (sto_dir s) k \<noteq> ?p" for k by (simp add: path_inject)
  have new: "after d key = Inr (Some (round_instant w))" if "d ?p = Some ?c" for d
    unfolding after_def using stored_json [of d "sto_dir s" key w now] that assms(2) by blast
  have old: "after d k = after (sto_disk s) k" if "d (path (sto_dir s) k) = sto_disk s (path (sto_dir s) k)" for d k
    unfolding after_def using stored_cong [of d "sto_dir s" k "sto_disk s"] that by blast
  obtain d where d: "writeFileAtomic ww ?p ?c (sto_disk s) = (d, e)"
    and s': "s' = s\<lparr>sto_cache := (sto_cache s)(key \<mapsto> w), sto_disk := d\<rparr>"
    using assms(3) by (auto simp: Save_def split: prod.splits)
  have ok: "d ?p = Some ?c" if "e = None \<or> e = Some FailSyncDir"
    using d that pt [of key] unfolding writeFileAtomic_def Let_def by (auto split: if_splits)
  have bad: "d = sto_disk s" if "e \<noteq> None" "e \<noteq> Some FailSyncDir" "sto_disk s ?t = None"
    using d that unfolding writeFileAtomic_def Let_def
    by (cases e; cases "the e") (auto split: if_splits simp: fun_upd_idem)
  have others: "d (path (sto_dir s) k) = sto_disk s (path (sto_dir s) k)" if "k \<noteq> key" for k
    using d pt [of k] pk [OF that] unfolding writeFileAtomic_def Let_def by (auto split: if_splits)
  have crash: "x (path (sto_dir s) k) = sto_disk s (path (sto_dir s) k)"
    if "x \<in> crash_disks ww ?p ?c (sto_disk s)" "k \<noteq> key" for x k
    using that(1) pt [of k] pk [OF that(2)] unfolding crash_disks_def by auto
  have crash': "x ?p = sto_disk s ?p \<or> x ?p = Some ?c" if "x \<in> crash_disks ww ?p ?c (sto_disk s)" for x
    using that pt [of key] unfolding crash_disks_def by auto
  show ?thesis
  proof (intro conjI impI ballI allI)
    fix x assume x: "x \<in> crash_disks ww ?p ?c (sto_disk s)"
    show "after x key \<in> {after (sto_disk s) key, Inr (Some (round_instant w))}"
      using crash' [OF x] old [of x key] new [of x] by blast
    show "after x k = after (sto_disk s) k" if "k \<noteq> key" for k
      using old [of x k] crash [OF x that] by blast
  next
    show "after (sto_disk s') k = after (sto_disk s) k" if "k \<noteq> key" for k
      using old [of d k] others [OF that] s' by simp
  qed (use ok bad new s' in \<open>simp_all add: Load_def\<close>)
qed

text \<open>A first watermark, saved and read by a new process.\<close>

theorem save_atomic_witness:
  "stored ''/state'' (sto_disk (fst (Save \<lparr>ww_tmp = ''/state/.watermark-1.tmp'', ww_fault = None\<rparr>
      \<lparr>wk_Collector = ''logs'', wk_Target = ''prod/eu'', wk_LogType = ''error''\<rparr>
      \<lparr>wm_Instant = 86400000000123, wm_InstantType = ''DATETIME2'', wm_Source = ''h:1433/log''\<rparr> 5
      (NewStore ''/state'' (\<lambda>_. None)))))
      \<lparr>wk_Collector = ''logs'', wk_Target = ''prod/eu'', wk_LogType = ''error''\<rparr> =
    Inr (Some \<lparr>wm_Instant = 86400000000100, wm_InstantType = ''DATETIME2'', wm_Source = ''h:1433/log''\<rparr>)"
proof -
  let ?ww = "\<lparr>ww_tmp = ''/state/.watermark-1.tmp'', ww_fault = None\<rparr>"
  let ?k = "\<lparr>wk_Collector = ''logs'', wk_Target = ''prod/eu'', wk_LogType = ''error''\<rparr>"
  let ?w = "\<lparr>wm_Instant = 86400000000123, wm_InstantType = ''DATETIME2'', wm_Source = ''h:1433/log''\<rparr>"
  let ?s = "NewStore ''/state'' (\<lambda>_. None)"
  obtain s' e where r: "Save ?ww ?k ?w 5 ?s = (s', e)" by (metis surj_pair)
  have t: "tmp_ok ?ww" unfolding tmp_ok_def by (rule exI [of _ "''/state/.watermark-1''"]) simp
  have st: "storable ?w" by (simp add: storable_def day_ns_def ns_hour_def civil_def split_year.simps year_days_def leap_def month_days_def)
  have e: "e = None" using r by (simp add: Save_def writeFileAtomic_def Let_def)
  from save_atomic [OF t st r, of True] e show ?thesis unfolding r by (simp add: NewStore_def round_instant_def time_truncate_def)
qed

end
