(* ===== verification/LogBatch.thy ===== *)
theory LogBatch
  imports GoTime Float64
begin

text \<open>
  One batch of log rows (\<open>collectors/outsystems/source.go\<close> and the checks of \<open>extractor.go\<close>): reading
  the rows of a query within the row limit and the byte budget, checking them against the query
  contract, and dropping the last instant of a full batch.  The rows the driver delivers are a list;
  a row that cannot be scanned is \<open>None\<close>.
\<close>

section \<open>Values\<close>

text \<open>What the driver puts into an \<open>any\<close>: the integer types differ in width only, and a value of
  another type is known by its text.\<close>

datatype goany = ANil | ABool bool | AInt int | AFloat float64 | AText string | ABytes string | ATime gotime | AOther string

type_synonym row = "goany list"

record Column =
  col_Name :: string
  col_DatabaseType :: string

record Batch =
  b_Columns :: "Column list"
  b_Rows :: "row list"
  b_Partial :: bool
  b_Bytes :: int

record QueryParams =
  qp_From :: gotime
  qp_To :: gotime
  qp_Limit :: int
  qp_MaxBytes :: int
  qp_DateTime :: bool

definition columnInstant :: string where "columnInstant = ''Instant''"

text \<open>\<open>slices.IndexFunc\<close>.\<close>

fun index_func :: "('a \<Rightarrow> bool) \<Rightarrow> 'a list \<Rightarrow> nat option" where
  "index_func P [] = None"
| "index_func P (x # xs) = (if P x then Some 0 else map_option Suc (index_func P xs))"

lemma index_func_Some:
  "index_func P xs = Some i \<Longrightarrow> i < length xs \<and> P (xs ! i) \<and> (\<forall>j < i. \<not> P (xs ! j))"
proof (induction xs arbitrary: i)
  case (Cons x xs)
  show ?case
  proof (cases "P x")
    case False
    with Cons.prems obtain j where "index_func P xs = Some j" "i = Suc j" by auto
    with Cons.IH [of j] False show ?thesis by (auto simp: less_Suc_eq_0_disj)
  qed (use Cons.prems in auto)
qed simp

lemma index_func_None: "index_func P xs = None \<longleftrightarrow> (\<forall>x \<in> set xs. \<not> P x)"
  by (induction xs) auto

definition instant_column :: "Column list \<Rightarrow> nat option" where
  "instant_column cols = index_func (\<lambda>c. col_Name c = columnInstant) cols"

section \<open>Reading\<close>

definition value_bytes :: "goany \<Rightarrow> int" where
  "value_bytes v = (case v of AText s \<Rightarrow> int (length s) | ABytes s \<Rightarrow> int (length s) | _ \<Rightarrow> 0)"

definition rowBytes :: "row \<Rightarrow> int" where
  "rowBytes values = int (length values) * 32 + sum_list (map value_bytes values)"

definition sameInstant :: "goany \<Rightarrow> goany \<Rightarrow> bool" where
  "sameInstant a b = (case (a, b) of (ATime x, ATime y) \<Rightarrow> x = y | _ \<Rightarrow> False)"

datatype readError = ScanFailed | IterateFailed

text \<open>The loop of \<open>readRows\<close>: \<open>acc\<close> are the rows read and \<open>held\<close> their bytes; \<open>failed\<close> says that the
  driver stopped with an error.\<close>

fun read_loop :: "nat option \<Rightarrow> QueryParams \<Rightarrow> bool \<Rightarrow> row option list \<Rightarrow> row list \<Rightarrow> int \<Rightarrow>
    (readError, row list \<times> bool \<times> int) result" where
  "read_loop inst p failed [] acc held = (if int (length acc) \<le> qp_Limit p \<and> failed then Inl IterateFailed else Inr (acc, False, held))"
| "read_loop inst p failed (r # rs) acc held =
     (if qp_Limit p < int (length acc) then Inr (acc, False, held)
      else case r of
        None \<Rightarrow> Inl ScanFailed
      | Some values \<Rightarrow>
          let spent = qp_MaxBytes p > 0 \<and> held \<ge> qp_MaxBytes p in
          if spent \<and> inst \<noteq> None \<and> int (length acc) < qp_Limit p \<and>
             \<not> sameInstant (values ! the inst) (last acc ! the inst) then
            Inr (acc @ [values], True, held + rowBytes values)
          else read_loop inst p failed rs (acc @ [values]) (held + rowBytes values))"

definition readRows :: "Column list \<Rightarrow> QueryParams \<Rightarrow> bool \<Rightarrow> row option list \<Rightarrow> (readError, Batch) result" where
  "readRows cols p failed rs =
     (case read_loop (instant_column cols) p failed rs [] 0 of
        Inl e \<Rightarrow> Inl e
      | Inr (rows, partial, held) \<Rightarrow>
          Inr \<lparr>b_Columns = cols, b_Rows = rows, b_Partial = partial, b_Bytes = held\<rparr>)"

section \<open>The query contract\<close>

datatype contractError =
    NoInstantColumn
  | TooManyRows int
  | WrongType string
  | NotATime nat
  | OutsideWindow nat gotime
  | OutOfOrder nat gotime gotime

definition instant_types :: "string list" where
  "instant_types = [''DATETIME'', ''DATETIME2'', ''SMALLDATETIME'']"

fun check_rows :: "nat \<Rightarrow> gotime \<Rightarrow> gotime \<Rightarrow> nat \<Rightarrow> gotime option \<Rightarrow> row list \<Rightarrow> (contractError, gotime list) result" where
  "check_rows column from to i prev [] = Inr []"
| "check_rows column from to i prev (row # rows) =
     (case row ! column of
        ATime t \<Rightarrow>
          if \<not> from < t \<or> to < t then Inl (OutsideWindow (i + 1) t)
          else if prev \<noteq> None \<and> t < the prev then Inl (OutOfOrder (i + 1) t (the prev))
          else bind_result (check_rows column from to (i + 1) (Some t) rows) (\<lambda>ts. Inr (t # ts))
      | _ \<Rightarrow> Inl (NotATime (i + 1)))"

definition checkContract :: "Batch \<Rightarrow> gotime \<Rightarrow> gotime \<Rightarrow> int \<Rightarrow> (contractError, gotime list \<times> string) result" where
  "checkContract batch from to limit =
     (case instant_column (b_Columns batch) of
        None \<Rightarrow> Inl NoInstantColumn
      | Some column \<Rightarrow>
          if limit < int (length (b_Rows batch)) then Inl (TooManyRows limit)
          else
            let databaseType = col_DatabaseType (b_Columns batch ! column) in
            if databaseType \<notin> set instant_types then Inl (WrongType databaseType)
            else bind_result (check_rows column from to 0 None (b_Rows batch)) (\<lambda>instants. Inr (instants, databaseType)))"

section \<open>Full batches\<close>

text \<open>The rows of a batch that are sent, their instants, where the next batch starts and whether it
  was full; \<open>None\<close> is a batch whose rows all share one instant.\<close>

definition cut_batch :: "Batch \<Rightarrow> gotime list \<Rightarrow> gotime \<Rightarrow> int \<Rightarrow> (bool \<times> row list \<times> gotime list \<times> gotime) option" where
  "cut_batch batch instants to limit =
     (if int (length (b_Rows batch)) = limit \<or> b_Partial batch then
        case index_func (\<lambda>t. t = last instants) instants of
          Some (Suc k) \<Rightarrow> Some (True, take (Suc k) (b_Rows batch), take (Suc k) instants, instants ! k)
        | _ \<Rightarrow> None
      else Some (False, b_Rows batch, instants, to))"

text \<open>What a contract-abiding query returns: the first rows of the window, in order.\<close>

definition row_instant :: "nat \<Rightarrow> row \<Rightarrow> gotime" where
  "row_instant column row = (case row ! column of ATime t \<Rightarrow> t | _ \<Rightarrow> 0)"

definition in_window :: "nat \<Rightarrow> gotime \<Rightarrow> gotime \<Rightarrow> row \<Rightarrow> bool" where
  "in_window column from to row \<longleftrightarrow> from < row_instant column row \<and> row_instant column row \<le> to"

definition table_ok :: "nat \<Rightarrow> row list \<Rightarrow> bool" where
  "table_ok column table \<longleftrightarrow> sorted (map (row_instant column) table) \<and>
     (\<forall>row \<in> set table. \<exists>t. row ! column = ATime t)"

definition window_rows :: "nat \<Rightarrow> gotime \<Rightarrow> gotime \<Rightarrow> row list \<Rightarrow> row list" where
  "window_rows column from to table = filter (in_window column from to) table"

definition contract_query :: "Column list \<Rightarrow> row list \<Rightarrow> QueryParams \<Rightarrow> (readError, Batch) result" where
  "contract_query cols table p =
     readRows cols p False
       (map Some (take (nat (qp_Limit p)) (window_rows (the (instant_column cols)) (qp_From p) (qp_To p) table)))"

section \<open>What reading gives\<close>

lemma rowBytes_nonneg: "0 \<le> rowBytes values"
  by (auto simp: rowBytes_def value_bytes_def intro!: sum_list_nonneg add_nonneg_nonneg split: goany.splits)

lemma read_loop_rows:
  assumes "int (length acc + length xs) \<le> qp_Limit p" and "acc = [] \<Longrightarrow> held = 0"
  shows "\<exists>rows partial bytes. read_loop (Some c) p False (map Some xs) acc held = Inr (rows, partial, bytes) \<and>
    (if partial then \<exists>k < length xs. rows = acc @ take (Suc k) xs \<and> acc @ take k xs \<noteq> [] \<and>
         \<not> sameInstant (xs ! k ! c) (last (acc @ take k xs) ! c)
     else rows = acc @ xs)"
  using assms
proof (induction xs arbitrary: acc held)
  case (Cons x xs)
  have lim: "\<not> qp_Limit p < int (length acc)" "int (length acc) < qp_Limit p" using Cons.prems(1) by simp_all
  show ?case
  proof (cases "qp_MaxBytes p > 0 \<and> held \<ge> qp_MaxBytes p \<and> \<not> sameInstant (x ! c) (last acc ! c)")
    case True
    then have "acc \<noteq> []" using Cons.prems(2) by auto
    with True lim show ?thesis by (auto intro!: exI [of _ 0])
  next
    case False
    have "int (length (acc @ [x]) + length xs) \<le> qp_Limit p" using Cons.prems(1) by simp
    from Cons.IH [OF this, of "held + rowBytes x"] obtain rows partial bytes where
      r: "read_loop (Some c) p False (map Some xs) (acc @ [x]) (held + rowBytes x) = Inr (rows, partial, bytes)"
      and ok: "if partial then \<exists>k < length xs. rows = (acc @ [x]) @ take (Suc k) xs \<and> (acc @ [x]) @ take k xs \<noteq> [] \<and>
          \<not> sameInstant (xs ! k ! c) (last ((acc @ [x]) @ take k xs) ! c) else rows = (acc @ [x]) @ xs" by auto
    have e: "read_loop (Some c) p False (map Some (x # xs)) acc held = Inr (rows, partial, bytes)"
      using r lim False by (auto simp: Let_def)
    show ?thesis
    proof (cases partial)
      case True
      with ok obtain k where k: "k < length xs" "rows = (acc @ [x]) @ take (Suc k) xs"
        "\<not> sameInstant (xs ! k ! c) (last ((acc @ [x]) @ take k xs) ! c)" by auto
      have "Suc k < length (x # xs)" "rows = acc @ take (Suc (Suc k)) (x # xs)" "acc @ take (Suc k) (x # xs) \<noteq> []"
        "\<not> sameInstant ((x # xs) ! Suc k ! c) (last (acc @ take (Suc k) (x # xs)) ! c)"
        using k by simp_all
      with e True show ?thesis by (metis (no_types, lifting))
    next
      case False
      with ok have "rows = acc @ x # xs" by simp
      with e False show ?thesis by (intro exI [of _ rows] exI [of _ partial] exI [of _ bytes]) simp
    qed
  qed
next
  case Nil
  then show ?case by (intro exI [of _ acc] exI [of _ False] exI [of _ held]) simp
qed

lemma filter_le_take:
  fixes key :: "'a \<Rightarrow> 'b :: linorder"
  assumes "sorted (map key ys)" and "Suc i < length ys" and "key (ys ! i) < key (ys ! Suc i)"
  shows "filter (\<lambda>y. key y \<le> key (ys ! i)) ys = take (Suc i) ys"
proof -
  have le: "key y \<le> key (ys ! i)" if "y \<in> set (take (Suc i) ys)" for y
  proof -
    from that obtain j where j: "j < Suc i" "j < length ys" "y = ys ! j" by (auto simp: in_set_conv_nth)
    then have "map key ys ! j \<le> map key ys ! i" using assms(1,2) by (intro sorted_nth_mono) auto
    with j assms(2) show ?thesis by simp
  qed
  have gt: "\<not> key y \<le> key (ys ! i)" if "y \<in> set (drop (Suc i) ys)" for y
  proof -
    from that obtain j where "j < length ys - Suc i" "y = ys ! (Suc i + j)" by (auto simp: in_set_conv_nth)
    then have j: "Suc i + j < length ys" "y = ys ! (Suc i + j)" by simp_all
    then have "map key ys ! Suc i \<le> map key ys ! (Suc i + j)" using assms(1) by (intro sorted_nth_mono) auto
    with j assms(2,3) show ?thesis by simp
  qed
  have "filter (\<lambda>y. key y \<le> key (ys ! i)) ys =
      filter (\<lambda>y. key y \<le> key (ys ! i)) (take (Suc i) ys) @ filter (\<lambda>y. key y \<le> key (ys ! i)) (drop (Suc i) ys)"
    by (metis append_take_drop_id filter_append)
  also have "\<dots> = take (Suc i) ys" using le gt by (simp add: filter_True filter_False del: take_Suc)
  finally show ?thesis .
qed

lemma window_sorted: "table_ok c table \<Longrightarrow> sorted (map (row_instant c) (window_rows c from to table))"
  unfolding table_ok_def window_rows_def by (simp add: sorted_filter)

lemma window_window:
  "to' \<le> to \<Longrightarrow> filter (\<lambda>row. row_instant c row \<le> to') (window_rows c from to table) = window_rows c from to' table"
  unfolding window_rows_def filter_filter by (rule filter_cong) (auto simp: in_window_def)

lemma check_rows_ok:
  assumes "sorted (map (row_instant c) rows)" and "\<And>row. row \<in> set rows \<Longrightarrow> in_window c from to row \<and> (\<exists>t. row ! c = ATime t)"
    and "\<And>row t. row \<in> set rows \<Longrightarrow> prev = Some t \<Longrightarrow> t \<le> row_instant c row"
  shows "check_rows c from to i prev rows = Inr (map (row_instant c) rows)"
  using assms
proof (induction rows arbitrary: i prev)
  case (Cons row rows)
  obtain t where t: "row ! c = ATime t" using Cons.prems(2) [of row] by auto
  then have rt: "row_instant c row = t" by (simp add: row_instant_def)
  have w: "from < t" "t \<le> to" using Cons.prems(2) [of row] by (simp_all add: in_window_def rt)
  have p: "\<not> (prev \<noteq> None \<and> t < the prev)" using Cons.prems(3) [of row] by (cases prev) (auto simp: rt)
  have "check_rows c from to (i + 1) (Some t) rows = Inr (map (row_instant c) rows)"
    using Cons.prems(1,2) rt by (intro Cons.IH) auto
  with t w p rt show ?case by simp
qed simp

text \<open>Dropping the last instant of the first rows of a sorted list.\<close>

lemma cut_prefix:
  assumes srt: "sorted (map (row_instant c) sel)" and n: "rows = take n sel" "rows \<noteq> []"
    and ts: "ts = map (row_instant c) rows" and i: "index_func (\<lambda>t. t = last ts) ts = Some i"
  shows "i = 0 \<Longrightarrow> \<forall>t \<in> set ts. t = last ts"
    and "i = Suc k \<Longrightarrow> take (Suc k) rows = filter (\<lambda>row. row_instant c row \<le> ts ! k) sel \<and> Suc k < length rows"
proof -
  note ix = index_func_Some [OF i]
  have tsrt: "sorted ts" unfolding ts n(1) take_map [symmetric] by (rule sorted_wrt_take [OF srt])
  have ne: "ts \<noteq> []" using n(2) ts by simp
  show "\<forall>t \<in> set ts. t = last ts" if "i = 0"
  proof
    fix t assume "t \<in> set ts"
    then obtain j where j: "j < length ts" "t = ts ! j" by (auto simp: in_set_conv_nth)
    have "ts ! 0 \<le> ts ! j" "ts ! j \<le> ts ! (length ts - 1)" using tsrt j by (auto intro!: sorted_nth_mono)
    with ix that ne j show "t = last ts" by (simp add: last_conv_nth)
  qed
  show "take (Suc k) rows = filter (\<lambda>row. row_instant c row \<le> ts ! k) sel \<and> Suc k < length rows" if k: "i = Suc k"
  proof -
    have lt: "Suc k < length ts" "ts ! Suc k = last ts" "ts ! k \<noteq> last ts" using ix k by auto
    have "ts ! k \<le> ts ! Suc k" using tsrt lt(1) by (intro sorted_nth_mono) auto
    with lt have less: "ts ! k < ts ! Suc k" by simp
    have len: "Suc k < length rows" using lt(1) ts by simp
    have nth: "ts ! j = row_instant c (sel ! j)" if "j < length rows" for j using that ts n(1) by simp
    have "filter (\<lambda>row. row_instant c row \<le> row_instant c (sel ! k)) sel = take (Suc k) sel"
      using len less nth [of k] nth [of "Suc k"] n(1) by (intro filter_le_take [OF srt]) auto
    moreover have "take (Suc k) rows = take (Suc k) sel" using len n(1) by (simp add: min_def split: if_splits)
    ultimately show ?thesis using len nth [of k] by simp
  qed
qed

lemma partial_not_constant:
  assumes "k < length xs" and "rows = take (Suc k) xs" and "take k xs \<noteq> []"
    and "\<not> sameInstant (xs ! k ! c) (last (take k xs) ! c)" and "\<And>row. row \<in> set rows \<Longrightarrow> \<exists>t. row ! c = ATime t"
    and ts: "ts = map (row_instant c) rows"
  shows "\<exists>t \<in> set ts. t \<noteq> last ts"
proof -
  have rows: "rows = take k xs @ [xs ! k]" using assms(1,2) by (simp add: take_Suc_conv_app_nth)
  have "last (take k xs) \<in> set rows" using assms(3) unfolding rows by simp
  moreover have "xs ! k \<in> set rows" unfolding rows by simp
  ultimately obtain t u where "last (take k xs) ! c = ATime t" "xs ! k ! c = ATime u" using assms(5) by metis
  with assms(4) have "row_instant c (last (take k xs)) \<noteq> row_instant c (xs ! k)"
    by (simp add: sameInstant_def row_instant_def)
  moreover have "last ts = row_instant c (xs ! k)" unfolding ts rows by simp
  moreover have "row_instant c (last (take k xs)) \<in> set ts" using assms(3) unfolding ts rows by simp
  ultimately show ?thesis by (metis (full_types))
qed

lemma batch_cut:
  assumes "instant_column cols = Some c" and "col_DatabaseType (cols ! c) \<in> set instant_types" and "table_ok c table"
    and "qp_From p < qp_To p" and "0 < qp_Limit p"
  shows "\<exists>batch instants. contract_query cols table p = Inr batch \<and>
    checkContract batch (qp_From p) (qp_To p) (qp_Limit p) = Inr (instants, col_DatabaseType (cols ! c)) \<and>
    (case cut_batch batch instants (qp_To p) (qp_Limit p) of
       None \<Rightarrow> int (length instants) = qp_Limit p \<and> (\<forall>t \<in> set instants. t = last instants)
     | Some (full, rows, ts, nxt) \<Rightarrow>
         rows = window_rows c (qp_From p) nxt table \<and> ts = map (row_instant c) rows \<and>
         qp_From p < nxt \<and> nxt \<le> qp_To p \<and> (if full then rows \<noteq> [] else nxt = qp_To p))"
proof -
  let ?sel = "window_rows c (qp_From p) (qp_To p) table"
  let ?xs = "take (nat (qp_Limit p)) ?sel"
  have len: "int (length ([] :: row list) + length ?xs) \<le> qp_Limit p" using assms(5) by simp
  obtain rows partial bytes where
    r: "read_loop (Some c) p False (map Some ?xs) [] 0 = Inr (rows, partial, bytes)"
    and ok: "if partial then \<exists>k < length ?xs. rows = [] @ take (Suc k) ?xs \<and> [] @ take k ?xs \<noteq> [] \<and>
        \<not> sameInstant (?xs ! k ! c) (last ([] @ take k ?xs) ! c) else rows = [] @ ?xs"
    using read_loop_rows [OF len] by blast
  define batch where "batch = \<lparr>b_Columns = cols, b_Rows = rows, b_Partial = partial, b_Bytes = bytes\<rparr>"
  have q: "contract_query cols table p = Inr batch"
    using r by (simp add: contract_query_def readRows_def assms(1) batch_def)
  obtain n where n: "rows = take n ?sel" "n \<le> nat (qp_Limit p)"
    using ok by (cases partial) (auto simp: min_def split: if_splits)
  have srt: "sorted (map (row_instant c) ?sel)" by (rule window_sorted [OF assms(3)])
  have inw: "in_window c (qp_From p) (qp_To p) row \<and> (\<exists>t. row ! c = ATime t)" if "row \<in> set rows" for row
    using that assms(3) unfolding n(1) table_ok_def by (auto dest!: in_set_takeD simp: window_rows_def)
  have rsrt: "sorted (map (row_instant c) rows)" using srt unfolding n(1) by (simp add: take_map [symmetric] sorted_wrt_take)
  have rlen: "int (length rows) \<le> qp_Limit p" using n assms(5) by simp
  let ?ts = "map (row_instant c) rows"
  have chk: "checkContract batch (qp_From p) (qp_To p) (qp_Limit p) = Inr (?ts, col_DatabaseType (cols ! c))"
    using rlen assms(1,2) check_rows_ok [OF rsrt inw, of None 0] by (simp add: checkContract_def batch_def Let_def)
  have cut: "case cut_batch batch ?ts (qp_To p) (qp_Limit p) of
       None \<Rightarrow> int (length ?ts) = qp_Limit p \<and> (\<forall>t \<in> set ?ts. t = last ?ts)
     | Some (full, rows, ts, nxt) \<Rightarrow>
         rows = window_rows c (qp_From p) nxt table \<and> ts = map (row_instant c) rows \<and>
         qp_From p < nxt \<and> nxt \<le> qp_To p \<and> (if full then rows \<noteq> [] else nxt = qp_To p)"
  proof (cases "int (length rows) = qp_Limit p \<or> partial")
    case False
    then have "rows = ?xs" "length rows < nat (qp_Limit p)" using ok rlen by auto
    then have "rows = ?sel" by simp
    with False assms(4) show ?thesis by (simp add: cut_batch_def batch_def)
  next
    case True
    then have ne: "rows \<noteq> []" using ok assms(5) by auto
    then have "index_func (\<lambda>t. t = last ?ts) ?ts \<noteq> None" unfolding index_func_None
      by (metis last_in_set map_is_Nil_conv)
    then obtain i where i: "index_func (\<lambda>t. t = last ?ts) ?ts = Some i" by blast
    note cp = cut_prefix [OF srt n(1) ne refl i]
    show ?thesis
    proof (cases i)
      case 0
      have "\<not> partial"
      proof
        assume partial
        with ok obtain k where "k < length ?xs" "rows = take (Suc k) ?xs" "take k ?xs \<noteq> []"
          "\<not> sameInstant (?xs ! k ! c) (last (take k ?xs) ! c)" by auto
        from partial_not_constant [OF this] inw cp(1) [OF 0] show False by blast
      qed
      with True i 0 cp(1) [OF 0] show ?thesis by (simp add: cut_batch_def batch_def)
    next
      case (Suc k)
      note c2 = cp(2) [OF Suc]
      have "rows ! k \<in> set rows" using c2 by simp
      from inw [OF this] have w: "qp_From p < ?ts ! k" "?ts ! k \<le> qp_To p" using c2 by (simp_all add: in_window_def)
      have "take (Suc k) rows = window_rows c (qp_From p) (?ts ! k) table"
        using c2 window_window [OF w(2), of c "qp_From p" table] by simp
      moreover have "cut_batch batch ?ts (qp_To p) (qp_Limit p) = Some (True, take (Suc k) rows, take (Suc k) ?ts, ?ts ! k)"
        using True i Suc by (simp add: cut_batch_def batch_def)
      moreover have "take (Suc k) rows \<noteq> []" using ne by simp
      ultimately show ?thesis using w by (simp add: take_map)
    qed
  qed
  from q chk cut show ?thesis by blast
qed

text \<open>C24: a batch loses nothing and repeats nothing: reading a contract-abiding query from a watermark
  either fails because a whole batch shares one instant, or gives exactly the rows of the table after
  the watermark up to where the next batch starts, which is past the watermark and within the
  window, and its end when the batch was not full.\<close>

theorem batch_exact:
  assumes "instant_column cols = Some c" and "col_DatabaseType (cols ! c) \<in> set instant_types" and "table_ok c table"
    and "qp_From p < qp_To p" and "0 < qp_Limit p"
  shows "\<exists>batch instants. contract_query cols table p = Inr batch \<and>
    checkContract batch (qp_From p) (qp_To p) (qp_Limit p) = Inr (instants, col_DatabaseType (cols ! c)) \<and>
    (case cut_batch batch instants (qp_To p) (qp_Limit p) of
       None \<Rightarrow> int (length instants) = qp_Limit p \<and> (\<forall>t \<in> set instants. t = last instants)
     | Some (full, rows, ts, nxt) \<Rightarrow>
         rows = window_rows c (qp_From p) nxt table \<and> ts = map (row_instant c) rows \<and>
         qp_From p < nxt \<and> nxt \<le> qp_To p \<and> (if full then rows \<noteq> [] else nxt = qp_To p))"
  by (rule batch_cut [OF assms])

text \<open>A full batch of three rows, the last two at the same instant.\<close>

theorem batch_exact_witness:
  "\<exists>batch instants. contract_query [\<lparr>col_Name = ''Instant'', col_DatabaseType = ''DATETIME2''\<rparr>]
       [[ATime 1], [ATime 2], [ATime 2], [ATime 9]] \<lparr>qp_From = 0, qp_To = 5, qp_Limit = 3, qp_MaxBytes = 0, qp_DateTime = False\<rparr> = Inr batch \<and>
     checkContract batch 0 5 3 = Inr (instants, ''DATETIME2'') \<and>
     cut_batch batch instants 5 3 = Some (True, [[ATime 1]], [1], 1)"
proof -
  let ?cols = "[\<lparr>col_Name = ''Instant'', col_DatabaseType = ''DATETIME2''\<rparr>]"
  let ?table = "[[ATime 1], [ATime 2], [ATime 2], [ATime 9]]"
  let ?p = "\<lparr>qp_From = 0, qp_To = 5, qp_Limit = 3, qp_MaxBytes = 0, qp_DateTime = False\<rparr>"
  have h: "instant_column ?cols = Some 0" "col_DatabaseType (?cols ! 0) \<in> set instant_types" "table_ok 0 ?table"
    "qp_From ?p < qp_To ?p" "0 < qp_Limit ?p"
    by (simp_all add: instant_column_def columnInstant_def instant_types_def table_ok_def row_instant_def)
  obtain batch instants where b: "contract_query ?cols ?table ?p = Inr batch"
    "checkContract batch 0 5 3 = Inr (instants, ''DATETIME2'')"
    using batch_exact [OF h] by auto
  have "batch = \<lparr>b_Columns = ?cols, b_Rows = [[ATime 1], [ATime 2], [ATime 2]], b_Partial = False, b_Bytes = 96\<rparr>"
    using b(1) by (simp add: contract_query_def readRows_def h(1) window_rows_def in_window_def row_instant_def
        rowBytes_def value_bytes_def Let_def numeral_eq_Suc)
  moreover from this b(2) have "instants = [1, 2, 2]"
    by (simp add: checkContract_def instant_column_def columnInstant_def instant_types_def Let_def)
  ultimately have "cut_batch batch instants 5 3 = Some (True, [[ATime 1]], [1], 1)" by (simp add: cut_batch_def)
  with b show ?thesis by blast
qed

end
