(* ===== verification/Recount.thy ===== *)
theory Recount
  imports Watermark LogBatch SqlQuery
begin

text \<open>
  The recount (\<open>collectors/outsystems/recount.go\<close>): what each log type delivered, by minute of
  \<open>Instant\<close>, compared with what the database holds there.  The count the database returns is a
  parameter, the association list of minute numbers and counts.  Counts are far below \<open>2^63\<close> (a
  recount counts at most a million rows), so they are integers.
\<close>

definition recountEvery :: duration where "recountEvery = ns_minute"
definition RecountLimit :: int where "RecountLimit = 1000000"
definition warnEvery :: duration where "warnEvery = 5 * ns_minute"

definition minuteEnd :: "gotime \<Rightarrow> gotime" where
  "minuteEnd t = (let e = time_truncate t ns_minute in if e < t then e + ns_minute else e)"

definition newline :: string where "newline = [CHR 0x0A]"

definition recountSQL :: "string \<Rightarrow> string" where
  "recountSQL statement =
     ''SELECT b.recount_minute, COUNT_BIG(*) AS recount_rows FROM ('' @ newline @
     ''SELECT DATEDIFF(MINUTE, @from, q.Instant)'' @ newline @
     ''  + CASE WHEN q.Instant > DATEADD(MINUTE, DATEDIFF(MINUTE, @from, q.Instant), @from) THEN 1 ELSE 0 END AS recount_minute'' @ newline @
     ''FROM ('' @ newline @ statement @ newline @ '') AS q'' @ newline @
     '') AS b'' @ newline @ ''GROUP BY b.recount_minute''"

text \<open>The counts of a log type; a minute without an entry counts 0.\<close>

record recountLog =
  rl_source :: string
  rl_floor :: gotime
  rl_high :: gotime
  rl_window :: duration
  rl_delivered :: "gotime \<Rightarrow> int"
  rl_late :: "gotime \<Rightarrow> int"
  rl_duplicate :: "gotime \<Rightarrow> int"
  rl_last :: gotime
  rl_warned :: gotime
  rl_query :: string
  rl_statement :: string
  rl_statementErr :: "sqlError option"

type_synonym recountState = "WatermarkKey \<Rightarrow> recountLog option"

definition new_log :: "Watermark \<Rightarrow> duration \<Rightarrow> string \<Rightarrow> recountLog" where
  "new_log w win query =
     \<lparr>rl_source = wm_Source w, rl_floor = minuteEnd (wm_Instant w), rl_high = wm_Instant w, rl_window = win,
      rl_delivered = \<lambda>_. 0, rl_late = \<lambda>_. 0, rl_duplicate = \<lambda>_. 0, rl_last = 0, rl_warned = 0, rl_query = query,
      rl_statement = [], rl_statementErr = None\<rparr>"

definition recount_start :: "WatermarkKey \<Rightarrow> Watermark \<Rightarrow> duration \<Rightarrow> string \<Rightarrow> recountState \<Rightarrow> recountState" where
  "recount_start key w win query s =
     (case s key of
        Some lg \<Rightarrow>
          if rl_source lg = wm_Source w \<and> \<not> wm_Instant w < rl_high lg \<and> rl_window lg = win \<and> rl_query lg = query
          then s(key \<mapsto> lg\<lparr>rl_high := wm_Instant w\<rparr>)
          else s(key \<mapsto> new_log w win query)
      | None \<Rightarrow> s(key \<mapsto> new_log w win query))"

definition recount_forget :: "WatermarkKey \<Rightarrow> recountState \<Rightarrow> recountState" where
  "recount_forget key s = s(key := None)"

definition prune_counts :: "gotime \<Rightarrow> (gotime \<Rightarrow> int) \<Rightarrow> gotime \<Rightarrow> int" where
  "prune_counts oldest counts e = (if \<not> oldest < e then 0 else counts e)"

definition prune :: "gotime \<Rightarrow> recountLog \<Rightarrow> recountLog" where
  "prune oldest lg =
     lg\<lparr>rl_delivered := prune_counts oldest (rl_delivered lg), rl_late := prune_counts oldest (rl_late lg),
         rl_duplicate := prune_counts oldest (rl_duplicate lg)\<rparr>"

definition count_instant :: "gotime \<Rightarrow> recountLog \<Rightarrow> recountLog" where
  "count_instant t lg = lg\<lparr>rl_delivered := (rl_delivered lg)(minuteEnd t := rl_delivered lg (minuteEnd t) + 1)\<rparr>"

definition delivered :: "WatermarkKey \<Rightarrow> gotime list \<Rightarrow> recountState \<Rightarrow> recountState" where
  "delivered key instants s =
     (case s key of
        None \<Rightarrow> s
      | Some lg \<Rightarrow>
          if instants = [] then s
          else s(key \<mapsto> prune (minuteEnd (last instants) - rl_window lg - ns_minute) (fold count_instant instants lg)))"

definition due :: "WatermarkKey \<Rightarrow> gotime \<Rightarrow> recountState \<Rightarrow> recountState \<times> bool" where
  "due key now s =
     (let minute = time_truncate now recountEvery in
      case s key of
        None \<Rightarrow> (s, False)
      | Some lg \<Rightarrow> if \<not> rl_last lg < minute then (s, False) else (s(key \<mapsto> lg\<lparr>rl_last := minute\<rparr>), True))"

definition recount_window :: "WatermarkKey \<Rightarrow> gotime \<Rightarrow> duration \<Rightarrow> recountState \<Rightarrow> (gotime \<times> gotime) option" where
  "recount_window key w win s =
     (case s key of
        None \<Rightarrow> None
      | Some lg \<Rightarrow>
          let hi = time_truncate w ns_minute; lo = hi - win; lo = (if lo < rl_floor lg then rl_floor lg else lo) in
          if lo < hi then Some (lo, hi) else None)"

text \<open>The minutes a recount compares, by their ends.\<close>

function minute_ends :: "gotime \<Rightarrow> gotime \<Rightarrow> gotime list" where
  "minute_ends e hi = (if e \<le> hi then e # minute_ends (e + ns_minute) hi else [])"
  by auto
termination by (relation "measure (\<lambda>(e, hi). nat (hi - e + 1))") (auto simp: ns_minute_def)

declare minute_ends.simps [simp del]

type_synonym counts = "(int \<times> int) list"

definition count_at :: "counts \<Rightarrow> int \<Rightarrow> int" where
  "count_at counts k = (case map_of counts k of None \<Rightarrow> 0 | Some n \<Rightarrow> n)"

definition extra :: "counts \<Rightarrow> gotime \<Rightarrow> recountLog \<Rightarrow> gotime \<Rightarrow> int" where
  "extra counts lo lg e = count_at counts ((e - lo) div ns_minute) - rl_delivered lg e"

definition compare_minute :: "counts \<Rightarrow> gotime \<Rightarrow> gotime \<Rightarrow> recountLog \<times> int \<times> int \<Rightarrow> recountLog \<times> int \<times> int" where
  "compare_minute counts lo e = (\<lambda>(lg, late, duplicate).
     let x = extra counts lo lg e in
     if rl_late lg e < x then (lg\<lparr>rl_late := (rl_late lg)(e := x)\<rparr>, late + (x - rl_late lg e), duplicate)
     else if rl_duplicate lg e < - x then
       (lg\<lparr>rl_duplicate := (rl_duplicate lg)(e := - x)\<rparr>, late, duplicate + (- x - rl_duplicate lg e))
     else (lg, late, duplicate))"

definition compare :: "WatermarkKey \<Rightarrow> gotime \<Rightarrow> gotime \<Rightarrow> counts \<Rightarrow> recountState \<Rightarrow> recountState \<times> int \<times> int" where
  "compare key lo hi counts s =
     (case s key of
        None \<Rightarrow> (s, 0, 0)
      | Some lg \<Rightarrow>
          (case fold (compare_minute counts lo) (minute_ends (lo + ns_minute) hi) (lg, 0, 0) of
             (lg, late, duplicate) \<Rightarrow> (s(key \<mapsto> prune lo lg), late, duplicate)))"

datatype statementError = NoCounts | NotDerivable sqlError

definition statement :: "unicode_tables \<Rightarrow> WatermarkKey \<Rightarrow> recountState \<Rightarrow> recountState \<times> (statementError, string) result" where
  "statement u key s =
     (case s key of
        None \<Rightarrow> (s, Inl NoCounts)
      | Some lg \<Rightarrow>
          let lg = (if rl_statement lg = [] \<and> rl_statementErr lg = None then
                (case DerivedTable u (rl_query lg) of
                   Inl e \<Rightarrow> lg\<lparr>rl_statementErr := Some e\<rparr>
                 | Inr q \<Rightarrow> lg\<lparr>rl_statement := q\<rparr>)
              else lg) in
          (s(key \<mapsto> lg),
           case rl_statementErr lg of None \<Rightarrow> Inr (rl_statement lg) | Some e \<Rightarrow> Inl (NotDerivable e)))"

definition warn :: "WatermarkKey \<Rightarrow> gotime \<Rightarrow> recountState \<Rightarrow> recountState \<times> bool" where
  "warn key now s =
     (case s key of
        None \<Rightarrow> (s, False)
      | Some lg \<Rightarrow> if now - rl_warned lg < warnEvery then (s, False) else (s(key \<mapsto> lg\<lparr>rl_warned := now\<rparr>), True))"

datatype recountError = WatermarkUnreadable loadError | CannotCount statementError | CountFailed | TooMany

text \<open>One recount.  \<open>recounter\<close> runs the counting query; it returns \<open>None\<close> when that fails.  The result
  holds what is added to the metrics, if anything is.\<close>

definition runRecount :: "unicode_tables \<Rightarrow> (string \<Rightarrow> QueryParams \<Rightarrow> counts option) \<Rightarrow> bool \<Rightarrow> WatermarkKey \<Rightarrow> duration \<Rightarrow>
    Store \<Rightarrow> recountState \<Rightarrow> Store \<times> recountState \<times> (recountError, (int \<times> int) option) result" where
  "runRecount u recounter readable key win store s =
     (case Load readable key store of
        (store, Inl e) \<Rightarrow> (store, s, Inl (WatermarkUnreadable e))
      | (store, Inr None) \<Rightarrow> (store, s, Inr None)
      | (store, Inr (Some w)) \<Rightarrow>
         (case recount_window key (wm_Instant w) win s of
            None \<Rightarrow> (store, s, Inr None)
          | Some (lo, hi) \<Rightarrow>
             (case statement u key s of
                (s, Inl e) \<Rightarrow> (store, s, Inl (CannotCount e))
              | (s, Inr q) \<Rightarrow>
                 (case recounter (recountSQL q) \<lparr>qp_From = lo, qp_To = hi, qp_Limit = RecountLimit, qp_MaxBytes = 0,
                      qp_DateTime = (wm_InstantType w = ''DATETIME'')\<rparr> of
                    None \<Rightarrow> (store, s, Inl CountFailed)
                  | Some counts \<Rightarrow>
                      if RecountLimit \<le> sum_list (map snd counts) then (store, s, Inl TooMany)
                      else (case compare key lo hi counts s of
                        (s, late, duplicate) \<Rightarrow> (store, s, Inr (Some (late, duplicate))))))))"

datatype recountEvent = RecountRan | RecountFailed | Recounted int int

text \<open>\<open>recount\<close>: only when the recount is on, the source can count, the deadline leaves time and the log
  type is due.\<close>

definition recount :: "unicode_tables \<Rightarrow> (string \<Rightarrow> QueryParams \<Rightarrow> counts option) option \<Rightarrow> bool \<Rightarrow> bool \<Rightarrow> gotime \<Rightarrow>
    WatermarkKey \<Rightarrow> duration \<Rightarrow> Store \<Rightarrow> recountState \<Rightarrow> Store \<times> recountState \<times> recountEvent list" where
  "recount u recounter timeLeft readable now key win store s =
     (if win \<le> 0 \<or> recounter = None \<or> \<not> timeLeft then (store, s, [])
      else case due key now s of
        (s, False) \<Rightarrow> (store, s, [])
      | (s, True) \<Rightarrow>
         (case runRecount u (the recounter) readable key win store s of
            (store, s, Inr None) \<Rightarrow> (store, s, [RecountRan])
          | (store, s, Inr (Some (late, duplicate))) \<Rightarrow> (store, s, [RecountRan, Recounted late duplicate])
          | (store, s, Inl e) \<Rightarrow> (store, fst (warn key now s), [RecountRan, RecountFailed])))"

section \<open>What a recount finds\<close>

lemma minuteEnd_iff: "minuteEnd t = e \<longleftrightarrow> e - ns_minute < t \<and> t \<le> e \<and> ns_minute dvd e"
proof -
  let ?q = "time_truncate t ns_minute"
  have b: "?q \<le> t" "t < ?q + ns_minute" "ns_minute dvd ?q"
    using time_truncate_le [of ns_minute t] time_truncate_dvd [of ns_minute t] by (simp_all add: ns_minute_def)
  have near: "e = ?q \<or> e = ?q + ns_minute" if n: "e - ns_minute < t" "t \<le> e" "ns_minute dvd e"
  proof -
    obtain i j where "e = ns_minute * i" "?q = ns_minute * j" using b(3) n(3) by (auto elim!: dvdE)
    moreover have "e < ?q + ns_minute + ns_minute" "?q \<le> e" using b n by linarith+
    ultimately have "i < j + 2" "j \<le> i" by (simp_all add: ns_minute_def)
    then have "i = j \<or> i = j + 1" by linarith
    with \<open>e = ns_minute * i\<close> \<open>?q = ns_minute * j\<close> show ?thesis by (auto simp: distrib_left)
  qed
  show ?thesis
  proof (cases "?q < t")
    case True
    then have "minuteEnd t = ?q + ns_minute" by (simp add: minuteEnd_def)
    with b True near show ?thesis by (auto simp: ns_minute_def)
  next
    case False
    then have "minuteEnd t = ?q" "?q = t" using b by (simp_all add: minuteEnd_def)
    with b near show ?thesis by (auto simp: ns_minute_def)
  qed
qed

lemma set_minute_ends: "e' \<in> set (minute_ends e hi) \<Longrightarrow> e \<le> e' \<and> e' \<le> hi \<and> ns_minute dvd e' - e"
proof (induction e hi rule: minute_ends.induct)
  case (1 e hi)
  show ?case
  proof (cases "e \<le> hi")
    case True
    with 1(2) consider "e' = e" | "e' \<in> set (minute_ends (e + ns_minute) hi)" by (subst (asm) minute_ends.simps) auto
    then show ?thesis
    proof cases
      case 2
      from 1(1) [OF True this] have "ns_minute dvd e' - (e + ns_minute) + ns_minute" by (intro dvd_add) simp_all
      with 1(1) [OF True 2] show ?thesis by (simp add: ns_minute_def)
    qed (use True in simp)
  qed (use 1(2) in \<open>simp add: minute_ends.simps\<close>)
qed

lemma distinct_minute_ends: "distinct (minute_ends e hi)"
proof (induction e hi rule: minute_ends.induct)
  case (1 e hi)
  then show ?case
    using set_minute_ends [of e "e + ns_minute" hi] by (subst minute_ends.simps) (auto simp: ns_minute_def)
qed

definition log_ok :: "recountLog \<Rightarrow> bool" where
  "log_ok lg \<longleftrightarrow> (\<forall>e. 0 \<le> rl_late lg e \<and> 0 \<le> rl_duplicate lg e)"

lemma compare_minute_cases:
  assumes "log_ok lg" and "compare_minute counts lo e (lg, l, d) = (lg', l', d')"
  defines "x \<equiv> extra counts lo lg e"
  shows "log_ok lg' \<and> rl_delivered lg' = rl_delivered lg \<and>
    rl_late lg' = (rl_late lg)(e := max (rl_late lg e) x) \<and> rl_duplicate lg' = (rl_duplicate lg)(e := max (rl_duplicate lg e) (- x)) \<and>
    l' = l + max 0 (x - rl_late lg e) \<and> d' = d + max 0 (- x - rl_duplicate lg e)"
proof -
  have nn: "0 \<le> rl_late lg e" "0 \<le> rl_duplicate lg e" using assms(1) by (simp_all add: log_ok_def)
  consider "rl_late lg e < x" | "\<not> rl_late lg e < x" "rl_duplicate lg e < - x" | "\<not> rl_late lg e < x" "\<not> rl_duplicate lg e < - x"
    by blast
  then show ?thesis
  proof cases
    case 1
    then have r: "lg' = lg\<lparr>rl_late := (rl_late lg)(e := x)\<rparr>" "l' = l + (x - rl_late lg e)" "d' = d"
      using assms(2) by (simp_all add: compare_minute_def x_def Let_def)
    moreover have m: "max (rl_late lg e) x = x" "max (rl_duplicate lg e) (- x) = rl_duplicate lg e"
      "max 0 (x - rl_late lg e) = x - rl_late lg e" "max 0 (- x - rl_duplicate lg e) = 0" using 1 nn by simp_all
    moreover have "0 \<le> x" using 1 nn by linarith
    then have "log_ok lg'" unfolding r(1) log_ok_def using assms(1) [unfolded log_ok_def] by simp
    ultimately show ?thesis unfolding m by simp
  next
    case 2
    then have r: "lg' = lg\<lparr>rl_duplicate := (rl_duplicate lg)(e := - x)\<rparr>" "l' = l" "d' = d + (- x - rl_duplicate lg e)"
      using assms(2) by (simp_all add: compare_minute_def x_def Let_def)
    moreover have m: "max (rl_late lg e) x = rl_late lg e" "max (rl_duplicate lg e) (- x) = - x"
      "max 0 (x - rl_late lg e) = 0" "max 0 (- x - rl_duplicate lg e) = - x - rl_duplicate lg e" using 2 nn by simp_all
    moreover have "0 \<le> - x" using 2 nn by linarith
    then have "log_ok lg'" unfolding r(1) log_ok_def using assms(1) [unfolded log_ok_def] by simp
    ultimately show ?thesis unfolding m by simp
  next
    case 3
    then have "lg' = lg" "l' = l" "d' = d" using assms(2) by (simp_all add: compare_minute_def x_def Let_def)
    with 3 nn assms(1) show ?thesis by (simp add: max_def)
  qed
qed

lemma compare_fold:
  assumes "log_ok lg" and "distinct es" and "fold (compare_minute counts lo) es (lg, l, d) = (lg', l', d')"
  shows "log_ok lg' \<and> rl_delivered lg' = rl_delivered lg \<and>
    rl_late lg' = (\<lambda>e. if e \<in> set es then max (rl_late lg e) (extra counts lo lg e) else rl_late lg e) \<and>
    rl_duplicate lg' = (\<lambda>e. if e \<in> set es then max (rl_duplicate lg e) (- extra counts lo lg e) else rl_duplicate lg e) \<and>
    l' = l + (\<Sum>e \<leftarrow> es. max 0 (extra counts lo lg e - rl_late lg e)) \<and>
    d' = d + (\<Sum>e \<leftarrow> es. max 0 (- extra counts lo lg e - rl_duplicate lg e))"
  using assms
proof (induction es arbitrary: lg l d)
  case (Cons e es)
  obtain lg1 l1 d1 where s: "compare_minute counts lo e (lg, l, d) = (lg1, l1, d1)" by (metis prod_cases3)
  note c = compare_minute_cases [OF Cons.prems(1) s]
  have f: "fold (compare_minute counts lo) es (lg1, l1, d1) = (lg', l', d')" using Cons.prems(3) s by simp
  have x: "extra counts lo lg1 = extra counts lo lg" using c by (simp add: extra_def fun_eq_iff)
  have e: "e \<notin> set es" "distinct es" using Cons.prems(2) by simp_all
  have sums: "(\<Sum>e' \<leftarrow> es. max 0 (extra counts lo lg e' - rl_late lg1 e')) = (\<Sum>e' \<leftarrow> es. max 0 (extra counts lo lg e' - rl_late lg e'))"
    "(\<Sum>e' \<leftarrow> es. max 0 (- extra counts lo lg e' - rl_duplicate lg1 e')) = (\<Sum>e' \<leftarrow> es. max 0 (- extra counts lo lg e' - rl_duplicate lg e'))"
    using c e(1) by (auto intro!: arg_cong [where f = sum_list] map_cong)
  note ih = Cons.IH [OF conjunct1 [OF c] e(2) f, unfolded x sums]
  show ?case using ih c e(1) by (auto simp: fun_eq_iff)
qed (auto simp: fun_eq_iff)

text \<open>Comparing again finds nothing.\<close>

lemma compare_fold_stable:
  assumes "distinct es"
    and "\<And>e. e \<in> set es \<Longrightarrow> \<not> rl_late lg e < extra counts lo lg e \<and> \<not> rl_duplicate lg e < - extra counts lo lg e"
  shows "fold (compare_minute counts lo) es (lg, l, d) = (lg, l, d)"
  using assms by (induction es) (auto simp: compare_minute_def Let_def)

definition minutes :: "gotime \<Rightarrow> gotime \<Rightarrow> gotime list" where
  "minutes lo hi = minute_ends (lo + ns_minute) hi"

lemma compare_result:
  assumes "s key = Some lg" and "log_ok lg" and "compare key lo hi counts s = (s', late, duplicate)"
  shows "late = (\<Sum>e \<leftarrow> minutes lo hi. max 0 (extra counts lo lg e - rl_late lg e))"
    and "duplicate = (\<Sum>e \<leftarrow> minutes lo hi. max 0 (- extra counts lo lg e - rl_duplicate lg e))"
    and "compare key lo hi counts s' = (s', 0, 0)"
proof -
  let ?es = "minutes lo hi"
  have d: "distinct ?es" unfolding minutes_def by (rule distinct_minute_ends)
  obtain lg' l' d' where f: "fold (compare_minute counts lo) ?es (lg, 0, 0) = (lg', l', d')" by (metis prod_cases3)
  note c = compare_fold [OF assms(2) d f]
  have eq: "s' = s(key \<mapsto> prune lo lg')" "late = l'" "duplicate = d'"
    using assms(1,3) f unfolding compare_def minutes_def by auto
  show "late = (\<Sum>e \<leftarrow> ?es. max 0 (extra counts lo lg e - rl_late lg e))"
    "duplicate = (\<Sum>e \<leftarrow> ?es. max 0 (- extra counts lo lg e - rl_duplicate lg e))"
    using c eq by simp_all
  have after: "lo < e" if "e \<in> set ?es" for e
    using set_minute_ends that unfolding minutes_def by (force simp: ns_minute_def)
  have keep: "rl_delivered (prune lo lg') e = rl_delivered lg e" "rl_late (prune lo lg') e = max (rl_late lg e) (extra counts lo lg e)"
    "rl_duplicate (prune lo lg') e = max (rl_duplicate lg e) (- extra counts lo lg e)" if "e \<in> set ?es" for e
    using c that after [OF that] by (simp_all add: prune_def prune_counts_def)
  have "fold (compare_minute counts lo) ?es (prune lo lg', 0, 0) = (prune lo lg', 0, 0)"
    by (rule compare_fold_stable [OF d]) (use keep in \<open>auto simp: extra_def\<close>)
  moreover have "prune lo (prune lo lg') = prune lo lg'"
    by (simp add: prune_def prune_counts_def fun_eq_iff)
  ultimately show "compare key lo hi counts s' = (s', 0, 0)" unfolding eq(1) compare_def minutes_def by simp
qed

lemma fold_count_instant:
  "rl_delivered (fold count_instant ts lg) e = rl_delivered lg e + int (length (filter (\<lambda>t. minuteEnd t = e) ts))"
  "rl_late (fold count_instant ts lg) = rl_late lg" "rl_duplicate (fold count_instant ts lg) = rl_duplicate lg"
  "rl_window (fold count_instant ts lg) = rl_window lg" "rl_floor (fold count_instant ts lg) = rl_floor lg"
  "rl_source (fold count_instant ts lg) = rl_source lg" "rl_query (fold count_instant ts lg) = rl_query lg"
  "rl_high (fold count_instant ts lg) = rl_high lg"
  by (induction ts arbitrary: lg) (simp_all add: count_instant_def)

text \<open>Every delivered row is counted in its minute; only minutes behind the window are forgotten.\<close>

lemma delivered_counts:
  assumes "s key = Some lg" and "ts \<noteq> []" and "minuteEnd (last ts) - rl_window lg - ns_minute < e"
  shows "\<exists>lg'. delivered key ts s key = Some lg' \<and> rl_late lg' e = rl_late lg e \<and> rl_duplicate lg' e = rl_duplicate lg e \<and>
    rl_delivered lg' e = rl_delivered lg e + int (length (filter (\<lambda>t. minuteEnd t = e) ts))"
  using assms by (simp add: delivered_def prune_def prune_counts_def fold_count_instant)

text \<open>The counts of a database: the rows of a table in each minute of a window.\<close>

definition table_counts :: "nat \<Rightarrow> row list \<Rightarrow> gotime \<Rightarrow> gotime \<Rightarrow> counts" where
  "table_counts c table lo hi =
     map (\<lambda>e. ((e - lo) div ns_minute, int (length (window_rows c (e - ns_minute) e table)))) (minutes lo hi)"

lemma count_at_table:
  assumes "e \<in> set (minutes lo hi)"
  shows "count_at (table_counts c table lo hi) ((e - lo) div ns_minute) = int (length (window_rows c (e - ns_minute) e table))"
proof -
  let ?f = "\<lambda>e. (e - lo) div ns_minute" and ?n = "\<lambda>e. int (length (window_rows c (e - ns_minute) e table))"
  have dvd: "ns_minute dvd x - lo" if "x \<in> set (minutes lo hi)" for x
  proof -
    have "ns_minute dvd (x - (lo + ns_minute)) + ns_minute"
      using set_minute_ends that unfolding minutes_def by (intro dvd_add) auto
    then show ?thesis by simp
  qed
  have inj: "inj_on ?f (set (minutes lo hi))"
  proof (rule inj_onI)
    fix x y assume x: "x \<in> set (minutes lo hi)" and y: "y \<in> set (minutes lo hi)" and eq: "?f x = ?f y"
    have "x - lo = ns_minute * ?f x" "y - lo = ns_minute * ?f y" using dvd [OF x] dvd [OF y] by simp_all
    with eq show "x = y" by simp
  qed
  have "map_of (map (\<lambda>e. (?f e, ?n e)) (minutes lo hi)) (?f e) = Some (?n e)"
    using assms inj by (intro map_of_is_SomeI) (auto simp: distinct_map comp_def inj_on_def distinct_minute_ends minutes_def)
  then show ?thesis by (simp add: count_at_def table_counts_def)
qed

section \<open>A run of recounts\<close>

text \<open>What happens to the counts of one log type: an extraction begins at the stored watermark, a
  batch is delivered and the watermark moved on, and a recount compares a table, which may have
  changed since the last one.  The watermark never goes back in between, and it is not behind the
  last row delivered.\<close>

datatype recount_action = Begin | Deliver "gotime list" gotime | Recount_of "row list"

fun recount_act :: "nat \<Rightarrow> WatermarkKey \<Rightarrow> duration \<Rightarrow> string \<Rightarrow> Watermark \<Rightarrow> recount_action \<Rightarrow>
    recountState \<times> gotime \<Rightarrow> (recountState \<times> gotime) \<times> int \<times> int" where
  "recount_act c key win q w0 Begin (s, w) = ((recount_start key (w0\<lparr>wm_Instant := w\<rparr>) win q s, w), 0, 0)"
| "recount_act c key win q w0 (Deliver ts w') (s, w) = ((delivered key ts s, w'), 0, 0)"
| "recount_act c key win q w0 (Recount_of table) (s, w) =
     (case recount_window key w win s of
        None \<Rightarrow> ((s, w), 0, 0)
      | Some (lo, hi) \<Rightarrow>
          (case compare key lo hi (table_counts c table lo hi) s of (s', late, duplicate) \<Rightarrow> ((s', w), late, duplicate)))"

fun recount_run :: "nat \<Rightarrow> WatermarkKey \<Rightarrow> duration \<Rightarrow> string \<Rightarrow> Watermark \<Rightarrow> recount_action list \<Rightarrow>
    recountState \<times> gotime \<Rightarrow> (recountState \<times> gotime) \<times> int \<times> int" where
  "recount_run c key win q w0 [] x = (x, 0, 0)"
| "recount_run c key win q w0 (a # as) x =
     (case recount_act c key win q w0 a x of
        (y, late, duplicate) \<Rightarrow>
          (case recount_run c key win q w0 as y of (z, late', duplicate') \<Rightarrow> (z, late + late', duplicate + duplicate')))"

fun advancing :: "gotime \<Rightarrow> recount_action list \<Rightarrow> bool" where
  "advancing w [] = True"
| "advancing w (Deliver ts w' # as) = (w \<le> w' \<and> (ts \<noteq> [] \<longrightarrow> last ts \<le> w') \<and> advancing w' as)"
| "advancing w (_ # as) = advancing w as"

text \<open>The differences the recounts of a run see in one minute: the rows the table holds in it beyond
  those delivered by then, for every recount whose window has the minute.\<close>

definition window_lo :: "gotime \<Rightarrow> duration \<Rightarrow> gotime \<Rightarrow> gotime" where
  "window_lo base win w = max base (time_truncate w ns_minute - win)"

definition held_in :: "nat \<Rightarrow> row list \<Rightarrow> gotime \<Rightarrow> int" where
  "held_in c table e = int (length (window_rows c (e - ns_minute) e table))"

definition sent_in :: "gotime list \<Rightarrow> gotime \<Rightarrow> int" where
  "sent_in sent e = int (length (filter (\<lambda>t. e - ns_minute < t \<and> t \<le> e) sent))"

fun seen :: "nat \<Rightarrow> gotime \<Rightarrow> duration \<Rightarrow> gotime \<Rightarrow> gotime list \<Rightarrow> recount_action list \<Rightarrow> gotime \<Rightarrow> int list" where
  "seen c base win w sent [] e = []"
| "seen c base win w sent (Begin # as) e = seen c base win w sent as e"
| "seen c base win w sent (Deliver ts w' # as) e = seen c base win w' (sent @ ts) as e"
| "seen c base win w sent (Recount_of table # as) e =
     (if window_lo base win w < e \<and> e \<le> time_truncate w ns_minute then [held_in c table e - sent_in sent e] else []) @
     seen c base win w sent as e"

definition worst :: "int \<Rightarrow> int list \<Rightarrow> int" where
  "worst x xs = fold max xs x"

lemma worst_simps [simp]: "worst x [] = x" "worst x (y # ys) = worst (max x y) ys"
  by (simp_all add: worst_def max.commute)

lemma worst_ge: "x \<le> worst x xs"
  by (induction xs arbitrary: x) (simp, metis worst_simps(2) max.cobounded1 order_trans)

lemma worst_zero: "worst 0 xs = 0 \<longleftrightarrow> (\<forall>y \<in> set xs. y \<le> 0)"
proof (induction xs)
  case (Cons y ys)
  show ?case
  proof (cases "y \<le> 0")
    case True
    with Cons show ?thesis by (simp add: max_def)
  next
    case False
    with worst_ge [of y ys] show ?thesis by (auto simp: max_def)
  qed
qed simp

lemma set_minutes: "ns_minute dvd lo \<Longrightarrow> set (minutes lo hi) = {e. lo < e \<and> e \<le> hi \<and> ns_minute dvd e}"
proof (induction "lo + ns_minute" hi arbitrary: lo rule: minute_ends.induct)
  case (1 hi lo)
  show ?case
  proof (cases "lo + ns_minute \<le> hi")
    case True
    have "ns_minute dvd lo + ns_minute" using "1.prems" by simp
    note ih = "1.hyps" [OF True refl this]
    have next_end: "lo + ns_minute \<le> e" if e: "lo < e" "ns_minute dvd e" for e
    proof -
      obtain i j where "lo = ns_minute * i" "e = ns_minute * j" using "1.prems" e(2) by (auto elim!: dvdE)
      with e(1) show ?thesis by (simp add: ns_minute_def)
    qed
    have "set (minutes lo hi) = insert (lo + ns_minute) (set (minutes (lo + ns_minute) hi))"
      using True by (simp add: minutes_def minute_ends.simps [of "lo + ns_minute"])
    with ih next_end True "1.prems" show ?thesis by (auto simp: ns_minute_def le_less)
  next
    case False
    have "\<not> (lo < e \<and> e \<le> hi \<and> ns_minute dvd e)" for e
    proof
      assume e: "lo < e \<and> e \<le> hi \<and> ns_minute dvd e"
      obtain i j where "lo = ns_minute * i" "e = ns_minute * j" using "1.prems" e by (auto elim!: dvdE)
      with e False show False by (simp add: ns_minute_def)
    qed
    moreover have "minutes lo hi = []" using False by (simp add: minutes_def minute_ends.simps)
    ultimately show ?thesis by auto
  qed
qed

text \<open>What the counts mean at a watermark \<open>w\<close> after \<open>sent\<close> was delivered, in the minutes that a later
  recount may still compare: what was delivered, and what was reported.\<close>

definition counts_mean :: "WatermarkKey \<Rightarrow> gotime \<Rightarrow> duration \<Rightarrow> string \<Rightarrow> Watermark \<Rightarrow> gotime \<Rightarrow> gotime list \<Rightarrow>
    (gotime \<Rightarrow> int) \<Rightarrow> (gotime \<Rightarrow> int) \<Rightarrow> recountState \<Rightarrow> bool" where
  "counts_mean key base win q w0 w sent late duplicate s \<longleftrightarrow>
     (\<exists>lg. s key = Some lg \<and> log_ok lg \<and> rl_floor lg = base \<and> rl_window lg = win \<and> rl_source lg = wm_Source w0 \<and>
        rl_query lg = q \<and> rl_high lg \<le> w \<and>
        (\<forall>e. window_lo base win w < e \<longrightarrow> rl_delivered lg e = int (length (filter (\<lambda>t. minuteEnd t = e) sent)) \<and>
           rl_late lg e = late e \<and> rl_duplicate lg e = duplicate e))"

lemma window_lo_mono: "w \<le> w' \<Longrightarrow> window_lo base win w \<le> window_lo base win w'"
  using time_truncate_mono [of ns_minute w w'] by (auto simp: window_lo_def ns_minute_def)

lemma mean_Begin:
  assumes "counts_mean key base win q w0 w sent l d s"
  shows "counts_mean key base win q w0 w sent l d (recount_start key (w0\<lparr>wm_Instant := w\<rparr>) win q s)"
proof -
  obtain lg where lg: "s key = Some lg" "log_ok lg" "rl_floor lg = base" "rl_window lg = win" "rl_source lg = wm_Source w0"
    "rl_query lg = q" "rl_high lg \<le> w"
    and m: "\<forall>e. window_lo base win w < e \<longrightarrow> rl_delivered lg e = int (length (filter (\<lambda>t. minuteEnd t = e) sent)) \<and>
        rl_late lg e = l e \<and> rl_duplicate lg e = d e"
    using assms unfolding counts_mean_def by blast
  then have "recount_start key (w0\<lparr>wm_Instant := w\<rparr>) win q s = s(key \<mapsto> lg\<lparr>rl_high := w\<rparr>)"
    by (simp add: recount_start_def)
  with lg m show ?thesis by (simp add: counts_mean_def log_ok_def)
qed

lemma mean_Deliver:
  assumes "counts_mean key base win q w0 w sent l d s" and "w \<le> w'" and "ts \<noteq> [] \<longrightarrow> last ts \<le> w'"
  shows "counts_mean key base win q w0 w' (sent @ ts) l d (delivered key ts s)"
proof -
  obtain lg where lg: "s key = Some lg" "log_ok lg" "rl_floor lg = base" "rl_window lg = win" "rl_source lg = wm_Source w0"
    "rl_query lg = q" "rl_high lg \<le> w"
    and m: "\<forall>e. window_lo base win w < e \<longrightarrow> rl_delivered lg e = int (length (filter (\<lambda>t. minuteEnd t = e) sent)) \<and>
        rl_late lg e = l e \<and> rl_duplicate lg e = d e"
    using assms(1) unfolding counts_mean_def by blast
  note lo = window_lo_mono [OF assms(2), of base win]
  show ?thesis
  proof (cases "ts = []")
    case True
    with lg m lo assms(2) show ?thesis by (auto simp: delivered_def counts_mean_def)
  next
    case False
    let ?old = "minuteEnd (last ts) - win - ns_minute"
    have "minuteEnd (last ts) - ns_minute \<le> time_truncate (last ts) ns_minute"
      by (auto simp: minuteEnd_def Let_def ns_minute_def)
    also have "\<dots> \<le> time_truncate w' ns_minute"
      using assms(3) False by (intro time_truncate_mono) (simp_all add: ns_minute_def)
    finally have old: "?old \<le> window_lo base win w'" by (simp add: window_lo_def)
    obtain lg' where lg': "lg' = prune ?old (fold count_instant ts lg)" by blast
    have "delivered key ts s = s(key \<mapsto> lg')"
      using False lg(1,4) lg' by (simp add: delivered_def)
    moreover have "rl_delivered lg' e = int (length (filter (\<lambda>t. minuteEnd t = e) (sent @ ts))) \<and>
        rl_late lg' e = l e \<and> rl_duplicate lg' e = d e" if "window_lo base win w' < e" for e
      using that old lo m by (auto simp: lg' prune_def prune_counts_def fold_count_instant)
    moreover have "log_ok lg'" "rl_floor lg' = base" "rl_window lg' = win" "rl_source lg' = wm_Source w0"
      "rl_query lg' = q" "rl_high lg' \<le> w'"
      using lg assms(2) by (auto simp: lg' prune_def prune_counts_def fold_count_instant log_ok_def)
    ultimately show ?thesis by (simp add: counts_mean_def)
  qed
qed

lemma compare_minute_fields:
  "compare_minute counts lo e (lg, l, d) = (lg', l', d') \<Longrightarrow> rl_floor lg' = rl_floor lg \<and> rl_window lg' = rl_window lg \<and>
     rl_source lg' = rl_source lg \<and> rl_query lg' = rl_query lg \<and> rl_high lg' = rl_high lg"
  by (auto simp: compare_minute_def Let_def split: if_splits)

lemma compare_fold_fields:
  "fold (compare_minute counts lo) es (lg, l, d) = (lg', l', d') \<Longrightarrow> rl_floor lg' = rl_floor lg \<and>
     rl_window lg' = rl_window lg \<and> rl_source lg' = rl_source lg \<and> rl_query lg' = rl_query lg \<and> rl_high lg' = rl_high lg"
proof (induction es arbitrary: lg l d)
  case (Cons e es)
  obtain lg1 l1 d1 where c: "compare_minute counts lo e (lg, l, d) = (lg1, l1, d1)" by (metis prod_cases3)
  with Cons.prems have "fold (compare_minute counts lo) es (lg1, l1, d1) = (lg', l', d')" by simp
  from Cons.IH [OF this] compare_minute_fields [OF c] show ?case by simp
qed simp

lemma compare_state:
  assumes "s key = Some lg" and "log_ok lg" and "compare key lo hi counts s = (s', late, duplicate)"
  shows "\<exists>lg'. s' key = Some lg' \<and> log_ok lg' \<and> rl_floor lg' = rl_floor lg \<and> rl_window lg' = rl_window lg \<and>
    rl_source lg' = rl_source lg \<and> rl_query lg' = rl_query lg \<and> rl_high lg' = rl_high lg \<and>
    (\<forall>e. lo < e \<longrightarrow> rl_delivered lg' e = rl_delivered lg e \<and>
      rl_late lg' e = (if e \<in> set (minutes lo hi) then max (rl_late lg e) (extra counts lo lg e) else rl_late lg e) \<and>
      rl_duplicate lg' e = (if e \<in> set (minutes lo hi) then max (rl_duplicate lg e) (- extra counts lo lg e) else rl_duplicate lg e))"
proof -
  have d: "distinct (minutes lo hi)" unfolding minutes_def by (rule distinct_minute_ends)
  obtain lg1 l' d' where f: "fold (compare_minute counts lo) (minutes lo hi) (lg, 0, 0) = (lg1, l', d')" by (metis prod_cases3)
  have "s' key = Some (prune lo lg1)" using assms(1,3) f unfolding compare_def minutes_def by auto
  moreover have "log_ok (prune lo lg1)"
    using conjunct1 [OF compare_fold [OF assms(2) d f]] by (simp add: log_ok_def prune_def prune_counts_def)
  ultimately show ?thesis
    using compare_fold [OF assms(2) d f] compare_fold_fields [OF f]
    by (intro exI [of _ "prune lo lg1"]) (simp add: prune_def prune_counts_def)
qed

lemma extra_table:
  assumes "e \<in> set (minutes lo hi)" and "ns_minute dvd e"
    and "rl_delivered lg e = int (length (filter (\<lambda>t. minuteEnd t = e) sent))"
  shows "extra (table_counts c table lo hi) lo lg e = held_in c table e - sent_in sent e"
proof -
  have "filter (\<lambda>t. minuteEnd t = e) sent = filter (\<lambda>t. e - ns_minute < t \<and> t \<le> e) sent"
    using assms(2) by (intro filter_cong refl) (simp add: minuteEnd_iff)
  with assms(1,3) show ?thesis by (simp add: extra_def count_at_table held_in_def sent_in_def)
qed

text \<open>One recount reports, for every minute of its window, what it sees beyond what was reported.\<close>

lemma mean_Recount:
  assumes mean: "counts_mean key base win q w0 w sent late duplicate s" and "ns_minute dvd base" "ns_minute dvd win"
    and act: "recount_act c key win q w0 (Recount_of table) (s, w) = ((s', w'), l, d)"
  defines "x \<equiv> \<lambda>e. held_in c table e - sent_in sent e" and "hi \<equiv> time_truncate w ns_minute"
  defines "W \<equiv> {e. window_lo base win w < e \<and> e \<le> hi \<and> ns_minute dvd e}"
  shows "w' = w \<and> counts_mean key base win q w0 w sent (\<lambda>e. if e \<in> W then max (late e) (x e) else late e)
      (\<lambda>e. if e \<in> W then max (duplicate e) (- x e) else duplicate e) s' \<and>
    l = (\<Sum>e \<in> W. max (late e) (x e) - late e) \<and> d = (\<Sum>e \<in> W. max (duplicate e) (- x e) - duplicate e)"
proof -
  let ?lo = "window_lo base win w" and ?cs = "table_counts c table (window_lo base win w) hi"
  obtain lg where lg: "s key = Some lg" "log_ok lg" "rl_floor lg = base" "rl_window lg = win" "rl_source lg = wm_Source w0"
    "rl_query lg = q" "rl_high lg \<le> w"
    and m: "\<forall>e. ?lo < e \<longrightarrow> rl_delivered lg e = int (length (filter (\<lambda>t. minuteEnd t = e) sent)) \<and>
        rl_late lg e = late e \<and> rl_duplicate lg e = duplicate e"
    using mean unfolding counts_mean_def by blast
  have lo: "ns_minute dvd ?lo"
    using assms(2,3) time_truncate_dvd [of ns_minute w] by (simp add: window_lo_def max_def)
  have W: "set (minutes ?lo hi) = W" by (simp add: W_def set_minutes [OF lo])
  have win: "recount_window key w win s = (if ?lo < hi then Some (?lo, hi) else None)"
    using lg by (simp add: recount_window_def Let_def window_lo_def hi_def max_def)
  show ?thesis
  proof (cases "?lo < hi")
    case False
    then have "W = {}" by (auto simp: W_def)
    with act win False mean show ?thesis by simp
  next
    case True
    then have cmp: "compare key ?lo hi ?cs s = (s', l, d)" and w': "w' = w"
      using act win by (auto split: prod.splits)
    have ex: "extra ?cs ?lo lg e = x e" if "e \<in> W" for e
      using extra_table [of e ?lo hi lg sent c table] that m W by (simp add: W_def x_def)
    obtain lg' where lg': "s' key = Some lg'" "log_ok lg'" "rl_floor lg' = base" "rl_window lg' = win"
      "rl_source lg' = wm_Source w0" "rl_query lg' = q" "rl_high lg' \<le> w"
      and m': "\<forall>e. ?lo < e \<longrightarrow> rl_delivered lg' e = rl_delivered lg e \<and>
        rl_late lg' e = (if e \<in> W then max (rl_late lg e) (extra ?cs ?lo lg e) else rl_late lg e) \<and>
        rl_duplicate lg' e = (if e \<in> W then max (rl_duplicate lg e) (- extra ?cs ?lo lg e) else rl_duplicate lg e)"
      using compare_state [OF lg(1,2) cmp] lg(3-7) unfolding W by auto
    have "counts_mean key base win q w0 w sent (\<lambda>e. if e \<in> W then max (late e) (x e) else late e)
      (\<lambda>e. if e \<in> W then max (duplicate e) (- x e) else duplicate e) s'"
      unfolding counts_mean_def using lg' m m' ex by (intro exI [of _ lg']) simp
    moreover have "l = (\<Sum>e \<in> W. max (late e) (x e) - late e)" "d = (\<Sum>e \<in> W. max (duplicate e) (- x e) - duplicate e)"
      using compare_result(1,2) [OF lg(1,2) cmp] ex m
      unfolding W [symmetric] minutes_def by (auto simp: sum_list_distinct_conv_sum_set distinct_minute_ends
          W [unfolded minutes_def] W_def intro!: sum.cong)
    ultimately show ?thesis using w' by blast
  qed
qed

lemma advancing_le:
  "advancing w acts \<Longrightarrow> recount_run c key win q w0 acts (s, w) = ((s', w'), l, d) \<Longrightarrow> w \<le> w'"
proof (induction acts arbitrary: s w l d)
  case (Cons a acts)
  obtain s1 w1 l1 d1 where a: "recount_act c key win q w0 a (s, w) = ((s1, w1), l1, d1)" by (metis prod.collapse)
  from Cons.prems(2) a obtain l2 d2 where r: "recount_run c key win q w0 acts (s1, w1) = ((s', w'), l2, d2)"
    by (auto split: prod.splits)
  have "w \<le> w1 \<and> advancing w1 acts"
    using Cons.prems(1) a by (cases a) (auto split: option.splits prod.splits)
  with Cons.IH [OF _ r] show ?case by fastforce
qed simp

lemma reports_add:
  fixes f y :: "gotime \<Rightarrow> int"
  assumes "W \<subseteq> M" and "finite M"
  shows "(\<Sum>e \<in> W. max (f e) (y e) - f e) +
      (\<Sum>e \<in> M. worst (if e \<in> W then max (f e) (y e) else f e) (g e) - (if e \<in> W then max (f e) (y e) else f e)) =
    (\<Sum>e \<in> M. worst (f e) ((if e \<in> W then [y e] else []) @ g e) - f e)"
proof -
  have "(\<Sum>e \<in> W. max (f e) (y e) - f e) = (\<Sum>e \<in> M. (if e \<in> W then max (f e) (y e) else f e) - f e)"
    using assms by (intro sum.mono_neutral_cong_left) auto
  then show ?thesis unfolding sum.distrib [symmetric] by (simp only: sum.distrib [symmetric]) (rule sum.cong, auto)
qed

lemma run_reports:
  assumes "ns_minute dvd base" "ns_minute dvd win"
  shows "counts_mean key base win q w0 w sent late duplicate s \<Longrightarrow> advancing w acts \<Longrightarrow>
    recount_run c key win q w0 acts (s, w) = ((s', w'), l, d) \<Longrightarrow> w' \<le> top_w \<Longrightarrow>
    M = {e. base < e \<and> e \<le> time_truncate top_w ns_minute \<and> ns_minute dvd e} \<Longrightarrow>
    l = (\<Sum>e \<in> M. worst (late e) (seen c base win w sent acts e) - late e) \<and>
    d = (\<Sum>e \<in> M. worst (duplicate e) (map uminus (seen c base win w sent acts e)) - duplicate e)"
proof (induction acts arbitrary: s w sent late duplicate l d)
  case (Cons a acts)
  obtain s1 w1 l1 d1 where a: "recount_act c key win q w0 a (s, w) = ((s1, w1), l1, d1)" by (metis prod.collapse)
  from Cons.prems(3) a obtain l2 d2 where r: "recount_run c key win q w0 acts (s1, w1) = ((s', w'), l2, d2)"
    and ld: "l = l1 + l2" "d = d1 + d2" by (auto split: prod.splits)
  show ?case
  proof (cases a)
    case Begin
    with a have s1: "s1 = recount_start key (w0\<lparr>wm_Instant := w\<rparr>) win q s" "w1 = w" "l1 = 0" "d1 = 0" by auto
    have "advancing w acts" using Cons.prems(2) Begin by simp
    from Cons.IH [OF mean_Begin [OF Cons.prems(1)] this r [unfolded s1] Cons.prems(4,5)] show ?thesis
      using Begin ld s1 by simp
  next
    case (Deliver ts w2)
    with a have s1: "s1 = delivered key ts s" "w1 = w2" "l1 = 0" "d1 = 0" by auto
    have adv: "w \<le> w2" "ts \<noteq> [] \<longrightarrow> last ts \<le> w2" "advancing w2 acts" using Cons.prems(2) Deliver by simp_all
    from Cons.IH [OF mean_Deliver [OF Cons.prems(1) adv(1,2)] adv(3) r [unfolded s1] Cons.prems(4,5)] show ?thesis
      using Deliver ld s1 by simp
  next
    case (Recount_of table)
    let ?W = "{e. window_lo base win w < e \<and> e \<le> time_truncate w ns_minute \<and> ns_minute dvd e}"
    let ?x = "\<lambda>e. held_in c table e - sent_in sent e"
    let ?l = "\<lambda>e. if e \<in> ?W then max (late e) (?x e) else late e"
    let ?d = "\<lambda>e. if e \<in> ?W then max (duplicate e) (- ?x e) else duplicate e"
    note m = mean_Recount [OF Cons.prems(1) assms a [unfolded Recount_of]]
    have adv: "advancing w acts" using Cons.prems(2) Recount_of by simp
    have w1: "w1 = w" and mean: "counts_mean key base win q w0 w sent ?l ?d s1" using m by blast+
    note ih = Cons.IH [OF mean adv r [unfolded w1] Cons.prems(4,5)]
    have "w \<le> top_w" using advancing_le [OF adv r [unfolded w1]] Cons.prems(4) by simp
    then have sub: "?W \<subseteq> M"
      using time_truncate_mono [of ns_minute w top_w] by (auto simp: Cons.prems(5) window_lo_def ns_minute_def)
    have fin: "finite M"
      unfolding Cons.prems(5) by (rule finite_subset [of _ "{base..time_truncate top_w ns_minute}"]) auto
    have seen: "seen c base win w sent (a # acts) e = (if e \<in> ?W then [?x e] else []) @ seen c base win w sent acts e"
      if "e \<in> M" for e using that by (simp add: Recount_of Cons.prems(5))
    have "l = (\<Sum>e \<in> M. worst (late e) (seen c base win w sent (a # acts) e) - late e)"
      using m ih ld(1) seen reports_add [OF sub fin, of late ?x "seen c base win w sent acts"] by simp
    moreover have "d = (\<Sum>e \<in> M. worst (duplicate e) (map uminus (seen c base win w sent (a # acts) e)) - duplicate e)"
      using m ih ld(2) seen reports_add [OF sub fin, of duplicate "\<lambda>e. - ?x e" "\<lambda>e. map uminus (seen c base win w sent acts e)"]
      by (simp add: if_distrib [of "map uminus"] cong: if_cong)
    ultimately show ?thesis by blast
  qed
qed simp

text \<open>C26: recounts are exact over any run of extractions, deliveries and recounts of a log type, however
  its table changes in between and however the windows overlap: the rows reported as late are, summed
  over the minutes, the largest number of rows any recount of the minute found the table to hold beyond
  those delivered by then; the rows reported as duplicates are the largest number delivered beyond
  those held.  So no row is reported twice, and nothing is reported exactly when every recount found
  the table and the deliveries to agree.  Minutes are those between the end of the minute the counts
  started in and the last watermark.\<close>

theorem recounts_exact:
  assumes "s0 key = None" and "ns_minute dvd win" and "advancing (wm_Instant w) acts"
    and "recount_run c key win q w acts (recount_start key w win q s0, wm_Instant w) = ((s', w'), late, duplicate)"
  defines "compared \<equiv> minutes (minuteEnd (wm_Instant w)) (time_truncate w' ns_minute)"
    and "found \<equiv> seen c (minuteEnd (wm_Instant w)) win (wm_Instant w) [] acts"
  shows "late = (\<Sum>e \<leftarrow> compared. worst 0 (found e)) \<and>
    duplicate = (\<Sum>e \<leftarrow> compared. worst 0 (map uminus (found e))) \<and>
    (late = 0 \<and> duplicate = 0 \<longleftrightarrow> (\<forall>e \<in> set compared. \<forall>x \<in> set (found e). x = 0))"
proof -
  let ?b = "minuteEnd (wm_Instant w)"
  have b: "ns_minute dvd ?b" using minuteEnd_iff by blast
  have "counts_mean key ?b win q w (wm_Instant w) [] (\<lambda>_. 0) (\<lambda>_. 0) (recount_start key w win q s0)"
    using assms(1) by (simp add: counts_mean_def recount_start_def new_log_def log_ok_def)
  note run_reports [OF b assms(2) this assms(3,4) order_refl refl, folded set_minutes [OF b]]
  then have sums: "late = (\<Sum>e \<leftarrow> compared. worst 0 (found e))"
    "duplicate = (\<Sum>e \<leftarrow> compared. worst 0 (map uminus (found e)))"
    by (simp_all add: compared_def found_def minutes_def sum_list_distinct_conv_sum_set distinct_minute_ends)
  have "late = 0 \<longleftrightarrow> (\<forall>e \<in> set compared. \<forall>x \<in> set (found e). x \<le> 0)"
    "duplicate = 0 \<longleftrightarrow> (\<forall>e \<in> set compared. \<forall>x \<in> set (found e). - x \<le> 0)"
    unfolding sums by (subst sum_list_nonneg_eq_0_iff; auto simp: worst_ge worst_zero)+
  then have "late = 0 \<and> duplicate = 0 \<longleftrightarrow> (\<forall>e \<in> set compared. \<forall>x \<in> set (found e). x = 0)"
    by (auto intro: order_antisym)
  with sums show ?thesis by blast
qed

text \<open>The window is two minutes.  One row is delivered; the first recount finds another in its minute,
  the second, over a window moved on by a minute, finds a third there: each is reported once.\<close>

definition sample_recounts :: "recount_action list" where
  "sample_recounts = [Deliver [5] ns_minute, Recount_of [[ATime 5], [ATime 7]], Begin, Deliver [] (2 * ns_minute),
     Recount_of [[ATime 5], [ATime 7], [ATime 9]], Recount_of [[ATime 5], [ATime 7], [ATime 9]]]"

definition sample_log_key :: WatermarkKey where
  "sample_log_key = \<lparr>wk_Collector = ''c'', wk_Target = ''t'', wk_LogType = ''error''\<rparr>"

definition sample_mark :: Watermark where
  "sample_mark = \<lparr>wm_Instant = 0, wm_InstantType = ''DATETIME2'', wm_Source = ''h''\<rparr>"

theorem recounts_exact_witness:
  "snd (recount_run 0 sample_log_key (2 * ns_minute) ''q'' sample_mark sample_recounts
     (recount_start sample_log_key sample_mark (2 * ns_minute) ''q'' (\<lambda>_. None), 0)) = (2, 0)"
proof -
  let ?run = "recount_run 0 sample_log_key (2 * ns_minute) ''q'' sample_mark sample_recounts
     (recount_start sample_log_key sample_mark (2 * ns_minute) ''q'' (\<lambda>_. None), 0)"
  obtain s' w' l d where r: "?run = ((s', w'), l, d)" by (metis prod.collapse)
  have adv: "advancing (wm_Instant sample_mark) sample_recounts"
    by (simp add: sample_mark_def sample_recounts_def ns_minute_def)
  have w0: "wm_Instant sample_mark = 0" "minuteEnd 0 = 0" by (simp_all add: sample_mark_def minuteEnd_def time_truncate_def)
  note ex = recounts_exact [OF refl dvd_triv_right adv r [folded w0(1)], unfolded w0]
  have "w' = 2 * ns_minute"
    using r by (auto simp: sample_recounts_def split: option.splits prod.splits)
  then have "minutes 0 (time_truncate w' ns_minute) = [ns_minute, 2 * ns_minute]"
    by (simp add: minutes_def minute_ends.simps time_truncate_def ns_minute_def)
  moreover have "seen 0 0 (2 * ns_minute) 0 [] sample_recounts ns_minute = [1, 2, 2]"
    "seen 0 0 (2 * ns_minute) 0 [] sample_recounts (2 * ns_minute) = [0, 0]"
    by (simp_all add: sample_recounts_def window_lo_def time_truncate_def ns_minute_def held_in_def sent_in_def
        window_rows_def in_window_def row_instant_def)
  ultimately show ?thesis using ex r by simp
qed

end
