(* ===== verification/Fingerprint.thy ===== *)
theory Fingerprint
  imports GoStrings
begin

text \<open>
  Fingerprints of errors (\<open>collectors/outsystems/fingerprint.go\<close>).  Each regular expression is the
  matcher it stands for, which gives the length of a match at the head of the text, knowing the
  character before it for the word boundaries; the hash is a parameter.
\<close>

definition fingerprintStackLines :: nat where "fingerprintStackLines = 3"
definition fingerprintLength :: nat where "fingerprintLength = 16"

definition ascii_num :: "char \<Rightarrow> bool" where "ascii_num c \<longleftrightarrow> 48 \<le> byte c \<and> byte c \<le> 57"

definition hex_char :: "char \<Rightarrow> bool" where
  "hex_char c \<longleftrightarrow> ascii_num c \<or> (97 \<le> byte c \<and> byte c \<le> 102) \<or> (65 \<le> byte c \<and> byte c \<le> 70)"

definition word_char :: "char \<Rightarrow> bool" where
  "word_char c \<longleftrightarrow> ascii_num c \<or> (97 \<le> byte c \<and> byte c \<le> 122) \<or> (65 \<le> byte c \<and> byte c \<le> 90) \<or> c = CHR ''_''"

text \<open>\<open>\b\<close> between two characters; \<open>None\<close> is the start or the end of the text.\<close>

definition is_word :: "char option \<Rightarrow> bool" where
  "is_word c = (case c of None \<Rightarrow> False | Some c \<Rightarrow> word_char c)"

definition boundary :: "char option \<Rightarrow> char option \<Rightarrow> bool" where
  "boundary a b \<longleftrightarrow> is_word a \<noteq> is_word b"

definition head :: "string \<Rightarrow> char option" where
  "head s = (case s of [] \<Rightarrow> None | c # _ \<Rightarrow> Some c)"

type_synonym matcher = "char option \<Rightarrow> string \<Rightarrow> nat option"

text \<open>A match of \<open>n\<close> characters between two word boundaries.\<close>

definition bounded :: "char option \<Rightarrow> string \<Rightarrow> nat \<Rightarrow> bool" where
  "bounded prev s n \<longleftrightarrow> boundary prev (head s) \<and> boundary (Some (s ! (n - 1))) (head (drop n s))"

definition guid_shape :: "string \<Rightarrow> bool" where
  "guid_shape s \<longleftrightarrow> length s = 36 \<and>
     list_all (\<lambda>i. if i \<in> {8, 13, 18, 23} then s ! i = CHR ''-'' else hex_char (s ! i)) [0..<36]"

definition match_guid :: matcher where
  "match_guid prev s = (if guid_shape (take 36 s) \<and> bounded prev s 36 then Some 36 else None)"

definition match_quoted :: matcher where
  "match_quoted prev s =
     (case s of
        [] \<Rightarrow> None
      | c # rest \<Rightarrow>
          if c = CHR 0x27 \<or> c = CHR 0x22 then map_option (\<lambda>i. i + 2) (index_of (\<lambda>d. d = c) rest) else None)"

definition hex_run :: "string \<Rightarrow> nat" where "hex_run s = length (takeWhile hex_char s)"

definition match_hex :: matcher where
  "match_hex prev s =
     (if take 1 s = ''0'' \<and> (take 1 (drop 1 s) = ''x'' \<or> take 1 (drop 1 s) = ''X'') \<and> 0 < hex_run (drop 2 s) \<and>
         bounded prev s (2 + hex_run (drop 2 s)) then Some (2 + hex_run (drop 2 s))
      else if 8 \<le> hex_run s \<and> bounded prev s (hex_run s) then Some (hex_run s)
      else None)"

definition match_run :: "(char \<Rightarrow> bool) \<Rightarrow> matcher" where
  "match_run P prev s = (let n = length (takeWhile P s) in if n = 0 then None else Some n)"

definition pattern_space :: "char \<Rightarrow> bool" where "pattern_space c \<longleftrightarrow> byte c \<in> {9, 10, 12, 13, 32}"

text \<open>\<open>ReplaceAllStringFunc\<close>: matches from left to right, none overlapping.\<close>

function replace_all :: "matcher \<Rightarrow> (string \<Rightarrow> string) \<Rightarrow> char option \<Rightarrow> string \<Rightarrow> string" where
  "replace_all m f prev [] = []"
| "replace_all m f prev (c # s) =
     (case m prev (c # s) of
        Some (Suc n) \<Rightarrow>
          f (take (Suc n) (c # s)) @ replace_all m f (Some (last (take (Suc n) (c # s)))) (drop (Suc n) (c # s))
      | _ \<Rightarrow> c # replace_all m f (Some c) s)"
  by pat_completeness auto
termination by (relation "measure (\<lambda>(m, f, prev, s). length s)") auto

definition hexID :: "string \<Rightarrow> string" where
  "hexID match = (if list_ex ascii_num match then ''<hex>'' else match)"

definition normalize :: "string \<Rightarrow> string" where
  "normalize s =
     (let s = replace_all match_guid (\<lambda>_. ''<guid>'') None s;
          s = replace_all match_quoted (\<lambda>_. ''<str>'') None s;
          s = replace_all match_hex hexID None s;
          s = replace_all (match_run ascii_num) (\<lambda>_. ''<num>'') None s;
          s = replace_all (match_run pattern_space) (\<lambda>_. '' '') None s in
      trim_space s)"

text \<open>\<open>strings.Lines\<close>: the lines with their line feeds.\<close>

function text_lines :: "string \<Rightarrow> string list" where
  "text_lines s =
     (if s = [] then []
      else case index_of (\<lambda>c. byte c = 10) s of
        None \<Rightarrow> [s]
      | Some i \<Rightarrow> take (Suc i) s # text_lines (drop (Suc i) s))"
  by auto
termination by (relation "measure length") auto

declare text_lines.simps [simp del]

definition stack_part :: "string \<Rightarrow> string" where
  "stack_part stack =
     concat (map (\<lambda>line. CHR 0x0A # line)
       (take fingerprintStackLines (filter (\<lambda>line. line \<noteq> []) (map normalize (text_lines stack)))))"

text \<open>\<open>sha\<close> is the SHA-256 of a text in lower-case hex digits.\<close>

definition Fingerprint :: "(string \<Rightarrow> string) \<Rightarrow> string \<Rightarrow> string \<Rightarrow> string" where
  "Fingerprint sha message stack = take fingerprintLength (sha (normalize message @ stack_part stack))"

section \<open>Normalized text\<close>

lemma replace_run_set:
  "set (replace_all (match_run P) (\<lambda>_. t) prev s) \<subseteq> set t \<union> {c \<in> set s. \<not> P c}"
proof (induction "match_run P" "\<lambda>_ :: string. t" prev s rule: replace_all.induct)
  case (2 prev c s)
  show ?case
  proof (cases "P c")
    case True
    let ?n = "length (takeWhile P s)"
    have m: "match_run P prev (c # s) = Some (Suc ?n)" using True by (simp add: match_run_def)
    have "set (replace_all (match_run P) (\<lambda>_. t) (Some (last (take (Suc ?n) (c # s)))) (drop (Suc ?n) (c # s)))
        \<subseteq> set t \<union> {d \<in> set (drop (Suc ?n) (c # s)). \<not> P d}" using 2(3) [OF m] by simp
    moreover have "set (drop (Suc ?n) (c # s)) \<subseteq> set (c # s)" by (rule set_drop_subset)
    ultimately show ?thesis using m by auto
  next
    case False
    then have m: "match_run P prev (c # s) = None" by (simp add: match_run_def)
    have "set (replace_all (match_run P) (\<lambda>_. t) (Some c) s) \<subseteq> set t \<union> {d \<in> set s. \<not> P d}" by (rule 2(1) [OF m])
    with m False show ?thesis by auto
  qed
qed simp

lemma trim_space_subset: "set (trim_space s) \<subseteq> set s"
proof -
  have sub: "set (concat (map snd xs)) \<subseteq> set (concat (map snd ys))" if "set xs \<subseteq> set ys" for xs ys :: "(nat \<times> string) list"
    using that by auto
  have "set (rev (dropWhile P (rev (dropWhile P xs)))) \<subseteq> set xs" for P and xs :: "(nat \<times> string) list"
    by (auto dest!: set_dropWhileD)
  from sub [OF this] show ?thesis unfolding trim_space_def by (metis concat_runes)
qed

text \<open>No number survives in a fingerprinted text: the normalized message holds no decimal digit, and
  the only white space in it is the blank, so identifiers, counts and line breaks never tell two
  errors apart.\<close>

theorem normalize_plain:
  "list_all (\<lambda>c. \<not> ascii_num c \<and> (pattern_space c = (c = CHR '' ''))) (normalize s)"
proof -
  define n where "n = replace_all (match_run ascii_num) (\<lambda>_. ''<num>'') None (replace_all match_hex hexID None
    (replace_all match_quoted (\<lambda>_. ''<str>'') None (replace_all match_guid (\<lambda>_. ''<guid>'') None s)))"
  have "set n \<subseteq> set ''<num>'' \<union> {c. \<not> ascii_num c}" unfolding n_def using replace_run_set by force
  then have 1: "c \<in> set n \<Longrightarrow> \<not> ascii_num c" for c by (auto simp: ascii_num_def byte_def)
  have 2: "set (replace_all (match_run pattern_space) (\<lambda>_. '' '') None n) \<subseteq> set '' '' \<union> {c \<in> set n. \<not> pattern_space c}"
    by (rule replace_run_set)
  have "set (normalize s) \<subseteq> set (replace_all (match_run pattern_space) (\<lambda>_. '' '') None n)"
    unfolding normalize_def Let_def n_def by (rule trim_space_subset)
  then have "set (normalize s) \<subseteq> set '' '' \<union> {c \<in> set n. \<not> pattern_space c}" using 2 by blast
  then have "c \<in> set (normalize s) \<Longrightarrow> \<not> ascii_num c \<and> (pattern_space c = (c = CHR '' ''))" for c
    using 1 by (auto simp: ascii_num_def pattern_space_def byte_def)
  then show ?thesis by (simp add: list_all_iff)
qed

end
