(* ===== verification/LogRecords.thy ===== *)
theory LogRecords
  imports Fingerprint LogBatch
begin

text \<open>
  Log rows as OTLP records (\<open>collectors/outsystems/records.go\<close>).  What the model takes from outside is
  \<open>log_env\<close>: the Unicode tables, the text of floating-point and time values, the driver's GUID
  format, \<open>strconv.ParseFloat\<close>, the log time zone and SHA-256.
\<close>

record log_env =
  le_tables :: unicode_tables
  le_sprint :: "goany \<Rightarrow> string"
  le_guid :: "string \<Rightarrow> string option"
  le_parse_float :: "string \<Rightarrow> float64 option"
  le_wall :: "gotime \<Rightarrow> gotime"
  le_real :: "gotime \<Rightarrow> gotime"
  le_sha :: "string \<Rightarrow> string"

datatype AnyValue = StringValue string | BoolValue bool | IntValue int | DoubleValue float64

type_synonym attributes = "(string \<times> AnyValue) list"

record LogRecord =
  lr_TimeUnixNano :: int
  lr_ObservedTimeUnixNano :: int
  lr_SeverityNumber :: int
  lr_SeverityText :: string
  lr_Body :: "AnyValue option"
  lr_Attributes :: attributes

text \<open>One resource with its single scope.\<close>

record ResourceLogs =
  rs_Resource :: attributes
  rs_Records :: "LogRecord list"

record recordContext =
  rc_collector :: string
  rc_target :: string
  rc_environment :: string
  rc_logType :: string
  rc_observed :: gotime

definition columnMessage :: string where "columnMessage = ''Message''"
definition columnSeverity :: string where "columnSeverity = ''Severity''"
definition columnApplication :: string where "columnApplication = ''Application_Name''"
definition columnEspace :: string where "columnEspace = ''Espace_Name''"
definition columnModule :: string where "columnModule = ''Module_Name''"
definition columnStack :: string where "columnStack = ''Stack''"
definition unknownService :: string where "unknownService = ''unknown''"
definition errorLogType :: string where "errorLogType = ''error''"
definition attrFingerprint :: string where "attrFingerprint = ''error.fingerprint''"
definition attrTruncated :: string where "attrTruncated = ''outsystems.truncated''"

section \<open>Columns and text\<close>

definition index_columns :: "Column list \<Rightarrow> string \<Rightarrow> nat option" where
  "index_columns cols name = index_func (\<lambda>c. col_Name c = name) cols"

definition column_value :: "Column list \<Rightarrow> row \<Rightarrow> string \<Rightarrow> goany" where
  "column_value cols row name = (case index_columns cols name of Some i \<Rightarrow> row ! i | None \<Rightarrow> ANil)"

definition int_text :: "int \<Rightarrow> string" where
  "int_text i = (if i < 0 then CHR ''-'' # decimal (nat (- i)) else decimal (nat i))"

definition textOf :: "log_env \<Rightarrow> goany \<Rightarrow> string" where
  "textOf env v =
     (case v of
        AText s \<Rightarrow> s
      | ABytes s \<Rightarrow> s
      | ANil \<Rightarrow> ''<nil>''
      | ABool b \<Rightarrow> if b then ''true'' else ''false''
      | AInt i \<Rightarrow> int_text i
      | AOther s \<Rightarrow> s
      | _ \<Rightarrow> le_sprint env v)"

definition optionalText :: "log_env \<Rightarrow> goany \<Rightarrow> string" where
  "optionalText env v = (if v = ANil then [] else textOf env v)"

fun firstText :: "log_env \<Rightarrow> goany list \<Rightarrow> string" where
  "firstText env [] = unknownService"
| "firstText env (v # vs) =
     (if v = ANil then firstText env vs
      else let s = trim_space (textOf env v) in if s \<noteq> [] then s else firstText env vs)"

definition severities :: "(string \<times> int) list" where
  "severities = [(''TRACE'', 1), (''DEBUG'', 5), (''INFO'', 9), (''WARN'', 13), (''ERROR'', 17), (''FATAL'', 21)]"

definition default_severity :: "string \<Rightarrow> int \<times> string" where
  "default_severity logType = (if logType = errorLogType then (17, ''ERROR'') else (9, ''INFO''))"

definition severity :: "log_env \<Rightarrow> goany \<Rightarrow> string \<Rightarrow> int \<times> string" where
  "severity env raw logType =
     (if raw = ANil then default_severity logType
      else let s = to_upper (le_tables env) (trim_space (textOf env raw)) in
        case map_of severities s of Some n \<Rightarrow> (n, s) | None \<Rightarrow> default_severity logType)"

section \<open>Values\<close>

definition maxValueBytes :: nat where "maxValueBytes = 16384"

definition truncatedMarker :: string where
  "truncatedMarker = [CHR 0xE2, CHR 0x80, CHR 0xA6] @ ''[truncated]''"

definition rune_start :: "char \<Rightarrow> bool" where "rune_start c \<longleftrightarrow> \<not> continuation (byte c)"

fun back_to_start :: "string \<Rightarrow> nat \<Rightarrow> nat" where
  "back_to_start s 0 = 0"
| "back_to_start s (Suc n) = (if \<not> rune_start (s ! Suc n) then back_to_start s n else Suc n)"

definition truncate :: "string \<Rightarrow> string \<times> bool" where
  "truncate s =
     (if length s \<le> maxValueBytes then (s, False)
      else (take (back_to_start s (maxValueBytes - length truncatedMarker)) s @ truncatedMarker, True))"

text \<open>\<open>Time.Format\<close> with the layouts the attributes use.\<close>

definition format_date :: "gotime \<Rightarrow> string" where
  "format_date t = (case civil (nat (t div day_ns)) of (y, m, d) \<Rightarrow>
     append_int 4 y @ ''-'' @ append_int 2 m @ ''-'' @ append_int 2 d)"

definition format_hms :: "gotime \<Rightarrow> string" where
  "format_hms t = (let sec = nat (t mod day_ns) div 1000000000 in
     append_int 2 (sec div 3600) @ '':'' @ append_int 2 (sec div 60 mod 60) @ '':'' @ append_int 2 (sec mod 60))"

definition format_clock :: "gotime \<Rightarrow> string" where
  "format_clock t = format_hms t @ format_frac (nat (t mod ns_second))"

definition format_rfc3339 :: "gotime \<Rightarrow> string" where
  "format_rfc3339 t =
     (let f = strip_zeros (pad 9 (nat (t mod ns_second))) in
      format_date t @ ''T'' @ format_hms t @ (if f = [] then [] else CHR ''.'' # f) @ ''Z'')"

definition trim_right_blanks :: "string \<Rightarrow> string" where
  "trim_right_blanks s = rev (dropWhile (\<lambda>c. c = CHR '' '') (rev s))"

definition hex_lower :: "nat \<Rightarrow> char" where
  "hex_lower n = char_of (if n < 10 then 48 + n else 87 + n)"

definition hex_string :: "string \<Rightarrow> string" where
  "hex_string s = concat (map (\<lambda>c. [hex_lower (byte c div 16), hex_lower (byte c mod 16)]) s)"

definition attributeValue :: "log_env \<Rightarrow> goany \<Rightarrow> string \<Rightarrow> AnyValue option" where
  "attributeValue env v databaseType =
     (case v of
        ANil \<Rightarrow> None
      | ABool b \<Rightarrow> Some (BoolValue b)
      | AInt i \<Rightarrow> Some (IntValue i)
      | AFloat f \<Rightarrow> Some (DoubleValue f)
      | AText s \<Rightarrow> Some (StringValue (if databaseType = ''CHAR'' \<or> databaseType = ''NCHAR'' then trim_right_blanks s else s))
      | ATime t \<Rightarrow>
          Some (StringValue
            (if databaseType = ''DATE'' then format_date t
             else if databaseType = ''TIME'' then format_clock t
             else if databaseType = ''DATETIMEOFFSET'' then format_rfc3339 t
             else format_rfc3339 (le_real env t)))
      | ABytes s \<Rightarrow>
          (if databaseType = ''UNIQUEIDENTIFIER'' \<and> le_guid env s \<noteq> None then Some (StringValue (the (le_guid env s)))
           else if databaseType \<in> {''DECIMAL'', ''NUMERIC'', ''MONEY'', ''SMALLMONEY''} then
             Some (case le_parse_float env s of Some f \<Rightarrow> DoubleValue f | None \<Rightarrow> StringValue s)
           else Some (StringValue (hex_string s)))
      | AOther s \<Rightarrow> Some (StringValue s))"

definition unixNano :: "gotime \<Rightarrow> int" where
  "unixNano t = (if UnixNano t > 0 then UnixNano t else 0)"

section \<open>Records\<close>

definition resource :: "string \<Rightarrow> recordContext \<Rightarrow> attributes" where
  "resource service rc =
     [(''service.name'', StringValue service)] @
     (if rc_environment rc \<noteq> [] then [(''deployment.environment.name'', StringValue (rc_environment rc))] else []) @
     [(''outsystems.log_type'', StringValue (rc_logType rc)), (''heartbeat.collector'', StringValue (rc_collector rc)),
      (''heartbeat.target'', StringValue (rc_target rc))]"

definition row_service :: "log_env \<Rightarrow> Column list \<Rightarrow> row \<Rightarrow> string" where
  "row_service env cols row =
     firstText env [column_value cols row columnApplication, column_value cols row columnEspace, column_value cols row columnModule]"

text \<open>The attributes of a row, and whether one of them was cut.\<close>

fun row_attributes :: "log_env \<Rightarrow> Column list \<Rightarrow> row \<Rightarrow> attributes \<times> bool" where
  "row_attributes env (col # cols) (v # vs) =
     (case row_attributes env cols vs of (rest, shortened) \<Rightarrow>
        (if col_Name col \<in> {columnInstant, columnMessage, columnSeverity} then (rest, shortened)
         else (case attributeValue env v (col_DatabaseType col) of
            None \<Rightarrow> (rest, shortened)
          | Some (StringValue s) \<Rightarrow>
              ((col_Name col, StringValue (fst (truncate s))) # rest, snd (truncate s) \<or> shortened)
          | Some a \<Rightarrow> ((col_Name col, a) # rest, shortened))))"
| "row_attributes env _ _ = ([], False)"

definition row_record :: "log_env \<Rightarrow> recordContext \<Rightarrow> Column list \<Rightarrow> row \<Rightarrow> gotime \<Rightarrow> LogRecord" where
  "row_record env rc cols row instant =
     (let message = column_value cols row columnMessage;
          body = (if message = ANil then (None, False)
            else case truncate (textOf env message) of (s, c) \<Rightarrow> (Some (StringValue s), c));
          attrs = row_attributes env cols row;
          sev = severity env (column_value cols row columnSeverity) (rc_logType rc) in
      \<lparr>lr_TimeUnixNano = unixNano (le_real env instant), lr_ObservedTimeUnixNano = unixNano (rc_observed rc),
       lr_SeverityNumber = fst sev, lr_SeverityText = snd sev, lr_Body = fst body,
       lr_Attributes = fst attrs @
         (if rc_logType rc = errorLogType then
            [(attrFingerprint, StringValue (Fingerprint (le_sha env) (optionalText env message)
                (optionalText env (column_value cols row columnStack))))] else []) @
         (if snd body \<or> snd attrs then [(attrTruncated, BoolValue True)] else [])\<rparr>)"

text \<open>The record of a row goes to the resource of its service, which is created at the end when there
  is none; the resources are kept with their service, the key of the map \<open>scopes\<close>.\<close>

fun add_record :: "recordContext \<Rightarrow> string \<Rightarrow> LogRecord \<Rightarrow> (string \<times> ResourceLogs) list \<Rightarrow> (string \<times> ResourceLogs) list" where
  "add_record rc service r [] = [(service, \<lparr>rs_Resource = resource service rc, rs_Records = [r]\<rparr>)]"
| "add_record rc service r ((s, l) # ls) =
     (if s = service then (s, l\<lparr>rs_Records := rs_Records l @ [r]\<rparr>) # ls else (s, l) # add_record rc service r ls)"

definition build_scopes :: "log_env \<Rightarrow> recordContext \<Rightarrow> Column list \<Rightarrow> (row \<times> gotime) list \<Rightarrow> (string \<times> ResourceLogs) list" where
  "build_scopes env rc cols rows =
     fold (\<lambda>(row, t). add_record rc (row_service env cols row) (row_record env rc cols row t)) rows []"

definition buildLogs :: "log_env \<Rightarrow> Batch \<Rightarrow> row list \<Rightarrow> gotime list \<Rightarrow> recordContext \<Rightarrow> ResourceLogs list" where
  "buildLogs env batch rows instants rc = map snd (build_scopes env rc (b_Columns batch) (zip rows instants))"

section \<open>What is sent\<close>

lemma back_to_start_le: "back_to_start s n \<le> n"
  by (induction n) auto

lemma truncate_length: "length (fst (truncate s)) \<le> maxValueBytes"
  using back_to_start_le [of s "maxValueBytes - length truncatedMarker"]
  by (auto simp: truncate_def maxValueBytes_def truncatedMarker_def)

text \<open>A text that is cut ends where a character starts.\<close>

lemma back_to_start_rune: "back_to_start s n = 0 \<or> rune_start (s ! back_to_start s n)"
  by (induction n) auto

definition small :: "AnyValue \<Rightarrow> bool" where
  "small v = (case v of StringValue s \<Rightarrow> length s \<le> maxValueBytes | _ \<Rightarrow> True)"

definition small_record :: "LogRecord \<Rightarrow> bool" where
  "small_record r \<longleftrightarrow> (case lr_Body r of None \<Rightarrow> True | Some v \<Rightarrow> small v) \<and> list_all (small \<circ> snd) (lr_Attributes r)"

lemma row_attributes_small: "list_all (small \<circ> snd) (fst (row_attributes env cols row))"
  by (induction env cols row rule: row_attributes.induct)
    (auto simp: small_def truncate_length split: option.splits AnyValue.splits prod.splits)

lemma row_record_small: "small_record (row_record env rc cols row t)"
proof -
  have "small (StringValue (Fingerprint sha m st))" for sha m st
    by (simp add: small_def Fingerprint_def fingerprintLength_def maxValueBytes_def)
  then show ?thesis
    using row_attributes_small [of env cols row] truncate_length
    by (auto simp: small_record_def row_record_def Let_def small_def split_beta)
qed

text \<open>What the resources hold, service by service, in the order the services first appear in.\<close>

definition first_seen :: "'a list \<Rightarrow> 'a list" where
  "first_seen xs = rev (remdups (rev xs))"

lemma first_seen_append: "first_seen (xs @ [x]) = (if x \<in> set xs then first_seen xs else first_seen xs @ [x])"
  by (simp add: first_seen_def)

lemma first_seen_simps [simp]: "first_seen [] = []" "distinct (first_seen xs)" "set (first_seen xs) = set xs"
  by (simp_all add: first_seen_def)

definition scopes_hold :: "recordContext \<Rightarrow> (string \<times> LogRecord) list \<Rightarrow> (string \<times> ResourceLogs) list \<Rightarrow> bool" where
  "scopes_hold rc rs ls \<longleftrightarrow> map fst ls = first_seen (map fst rs) \<and>
     list_all (\<lambda>(s, l). l = \<lparr>rs_Resource = resource s rc, rs_Records = map snd (filter (\<lambda>r. fst r = s) rs)\<rparr>) ls"

lemma add_record_names:
  "map fst (add_record rc s r ls) = (if s \<in> set (map fst ls) then map fst ls else map fst ls @ [s])"
  by (induction rc s r ls rule: add_record.induct) auto

lemma add_record_items:
  assumes "distinct (map fst ls)"
    and "list_all (\<lambda>(s, l). l = \<lparr>rs_Resource = resource s rc, rs_Records = map snd (filter (\<lambda>r. fst r = s) rs)\<rparr>) ls"
    and "service \<notin> set (map fst ls) \<Longrightarrow> filter (\<lambda>r. fst r = service) rs = []"
  shows "list_all (\<lambda>(s, l). l = \<lparr>rs_Resource = resource s rc, rs_Records = map snd (filter (\<lambda>r. fst r = s) (rs @ [(service, r)]))\<rparr>)
    (add_record rc service r ls)"
  using assms
proof (induction rc service r ls rule: add_record.induct)
  case (2 rc service r s l ls)
  show ?case
  proof (cases "s = service")
    case True
    have ne: "(s', l') \<in> set ls \<Longrightarrow> s' \<noteq> service" for s' l' using True 2(2) by force
    have "list_all (\<lambda>(s, l). l = \<lparr>rs_Resource = resource s rc, rs_Records = map snd (filter (\<lambda>r. fst r = s) (rs @ [(service, r)]))\<rparr>) ls"
      unfolding list_all_iff
    proof
      fix x assume x: "x \<in> set ls"
      obtain s' l' where x': "x = (s', l')" by fastforce
      from 2(3) x have "l' = \<lparr>rs_Resource = resource s' rc, rs_Records = map snd (filter (\<lambda>r. fst r = s') rs)\<rparr>"
        unfolding list_all_iff x' by auto
      with ne [of s' l'] x show "case x of (s, l) \<Rightarrow>
          l = \<lparr>rs_Resource = resource s rc, rs_Records = map snd (filter (\<lambda>r. fst r = s) (rs @ [(service, r)]))\<rparr>"
        unfolding x' by simp
    qed
    with True 2(3) show ?thesis by simp
  next
    case False
    with 2 show ?thesis by simp
  qed
qed simp

lemma scopes_hold_step:
  assumes "scopes_hold rc rs ls"
  shows "scopes_hold rc (rs @ [(s, r)]) (add_record rc s r ls)"
proof -
  from assms have f: "map fst ls = first_seen (map fst rs)"
    and i: "list_all (\<lambda>(s, l). l = \<lparr>rs_Resource = resource s rc, rs_Records = map snd (filter (\<lambda>r. fst r = s) rs)\<rparr>) ls"
    unfolding scopes_hold_def by blast+
  have d: "distinct (map fst ls)" and n: "set (map fst ls) = set (map fst rs)" unfolding f by simp_all
  have "filter (\<lambda>r. fst r = s) rs = []" if "s \<notin> set (map fst ls)"
    using that [unfolded n] unfolding filter_empty_conv set_map by (metis imageI)
  note items = add_record_items [OF d i this]
  have "map fst (add_record rc s r ls) = first_seen (map fst (rs @ [(s, r)]))"
    unfolding add_record_names n by (simp add: first_seen_append f)
  with items show ?thesis unfolding scopes_hold_def by blast
qed

definition row_records :: "log_env \<Rightarrow> recordContext \<Rightarrow> Column list \<Rightarrow> (row \<times> gotime) list \<Rightarrow> (string \<times> LogRecord) list" where
  "row_records env rc cols rows = map (\<lambda>(row, t). (row_service env cols row, row_record env rc cols row t)) rows"

lemma build_scopes_hold: "scopes_hold rc (row_records env rc cols rows) (build_scopes env rc cols rows)"
proof -
  have "scopes_hold rc (pre @ row_records env rc cols rows)
      (fold (\<lambda>(row, t). add_record rc (row_service env cols row) (row_record env rc cols row t)) rows ls)"
    if "scopes_hold rc pre ls" for pre ls
    using that
  proof (induction rows arbitrary: pre ls)
    case (Cons x rows)
    obtain row t where x: "x = (row, t)" by fastforce
    from Cons.IH [OF scopes_hold_step [OF Cons.prems]] show ?case by (simp add: x row_records_def)
  qed (simp add: row_records_def)
  from this [of "[]" "[]"] show ?thesis by (simp add: build_scopes_def scopes_hold_def)
qed

lemma scopes_hold_eq:
  assumes "scopes_hold rc rs ls"
  shows "map snd ls = map (\<lambda>s. \<lparr>rs_Resource = resource s rc, rs_Records = map snd (filter (\<lambda>r. fst r = s) rs)\<rparr>)
    (first_seen (map fst rs))"
proof -
  have "map snd ls = map (\<lambda>s. \<lparr>rs_Resource = resource s rc, rs_Records = map snd (filter (\<lambda>r. fst r = s) rs)\<rparr>) (map fst ls)"
    using conjunct2 [OF assms [unfolded scopes_hold_def]] by (auto simp: list_all_iff)
  with assms show ?thesis by (simp add: scopes_hold_def)
qed

text \<open>C29: no row is lost, sent twice or moved on its way into the request: the logs are one resource
  per service, in the order the services first appear in the batch, and the records of a resource are
  exactly those of the rows of its service, in row order; and no body and no text attribute of a
  record is longer than the limit.  The attributes of the resources, the service name among them, are
  not cut.\<close>

theorem buildLogs_rows:
  "buildLogs env batch rows instants rc =
     map (\<lambda>s. \<lparr>rs_Resource = resource s rc,
         rs_Records = map (\<lambda>(row, t). row_record env rc (b_Columns batch) row t)
           (filter (\<lambda>(row, t). row_service env (b_Columns batch) row = s) (zip rows instants))\<rparr>)
       (first_seen (map (\<lambda>(row, t). row_service env (b_Columns batch) row) (zip rows instants))) \<and>
   list_all (\<lambda>l. list_all small_record (rs_Records l)) (buildLogs env batch rows instants rc)"
proof
  let ?rs = "row_records env rc (b_Columns batch) (zip rows instants)"
  have recs: "map snd (filter (\<lambda>r. fst r = s) ?rs) = map (\<lambda>(row, t). row_record env rc (b_Columns batch) row t)
      (filter (\<lambda>(row, t). row_service env (b_Columns batch) row = s) (zip rows instants))" for s
    by (simp add: row_records_def filter_map comp_def case_prod_beta')
  have names: "map fst ?rs = map (\<lambda>(row, t). row_service env (b_Columns batch) row) (zip rows instants)"
    by (simp add: row_records_def split_beta)
  show eq: "buildLogs env batch rows instants rc =
     map (\<lambda>s. \<lparr>rs_Resource = resource s rc,
         rs_Records = map (\<lambda>(row, t). row_record env rc (b_Columns batch) row t)
           (filter (\<lambda>(row, t). row_service env (b_Columns batch) row = s) (zip rows instants))\<rparr>)
       (first_seen (map (\<lambda>(row, t). row_service env (b_Columns batch) row) (zip rows instants)))"
    using scopes_hold_eq [OF build_scopes_hold [of rc env "b_Columns batch" "zip rows instants"]]
    by (simp only: buildLogs_def recs names)
  show "list_all (\<lambda>l. list_all small_record (rs_Records l)) (buildLogs env batch rows instants rc)"
    unfolding eq using row_record_small by (auto simp: list_all_iff)
qed

end
