(* ===== verification/LogExport.thy ===== *)
theory LogExport
  imports Recount LogRecords ProbeTypes
begin

text \<open>
  Background exports of log batches (\<open>collectors/outsystems/export.go\<close>).  An export lives at an
  address of the heap of exports, which stands for its pointer; its goroutine's captured variables
  are its \<open>export_job\<close>.  Critical sections are functions on the state; what goes on in between is
  interleaved by the step relations that use them.  A collector's context lives at an address too.
\<close>

definition DefaultMaxBatchBytes :: int where "DefaultMaxBatchBytes = 8388608"
definition DefaultMaxHeldBytes :: int where "DefaultMaxHeldBytes = 8 * DefaultMaxBatchBytes"
definition minBatchBytes :: int where "minBatchBytes = 1048576"
definition orphanGrace :: duration where "orphanGrace = ns_minute"

text \<open>Errors of a log type's call; the blocked ones wrap \<open>collectors.ErrBlocked\<close>.\<close>

datatype logError =
    UnknownLogType string
  | BadTimezone string
  | ReadFailure string
  | ContractBroken contractError
  | BatchStuck nat gotime
  | ExportFailure string
  | NotSaved bool write_fault
  | BudgetSpent int
  | StillWaiting nat string

definition blocks :: "logError \<Rightarrow> bool" where
  "blocks e = (case e of BudgetSpent _ \<Rightarrow> True | StillWaiting _ _ \<Rightarrow> True | _ \<Rightarrow> False)"

record export_job =
  job_item :: ScheduledProbe
  job_key :: WatermarkKey
  job_logs :: "ResourceLogs list"
  job_bytes :: int
  job_rows :: "row list"
  job_instants :: "gotime list"
  job_next :: Watermark

record export =
  x_endpoint :: string
  x_started :: gotime
  x_done :: bool
  x_err :: "logError option"
  x_blocked :: bool
  x_lastErr :: "string option"
  x_attempts :: int
  x_warned :: gotime
  x_job :: export_job

type_synonym targetKey = "string \<times> string"

record waitWindow =
  wait_start :: gotime
  wait_used :: duration

record collectorExports =
  ce_cancelled :: bool
  ce_orphaned :: bool

record exportState =
  xs_heap :: "export list"
  xs_pending :: "(WatermarkKey \<times> nat) list"
  xs_held :: int
  xs_contexts :: "collectorExports list"
  xs_collectors :: "string \<Rightarrow> nat option"
  xs_waits :: "targetKey \<Rightarrow> waitWindow option"
  xs_firsts :: "targetKey \<Rightarrow> string option"
  xs_cancelled :: bool

definition init_exports :: exportState where
  "init_exports = \<lparr>xs_heap = [], xs_pending = [], xs_held = 0, xs_contexts = [], xs_collectors = \<lambda>_. None,
     xs_waits = \<lambda>_. None, xs_firsts = \<lambda>_. None, xs_cancelled = False\<rparr>"

section \<open>Collectors\<close>

definition collectorContext :: "string \<Rightarrow> exportState \<Rightarrow> exportState \<times> nat" where
  "collectorContext cid s =
     (case xs_collectors s cid of
        Some a \<Rightarrow> (s, a)
      | None \<Rightarrow>
          (s\<lparr>xs_contexts := xs_contexts s @ [\<lparr>ce_cancelled = xs_cancelled s, ce_orphaned = False\<rparr>],
             xs_collectors := (xs_collectors s)(cid \<mapsto> length (xs_contexts s))\<rparr>, length (xs_contexts s)))"

definition set_context :: "nat \<Rightarrow> (collectorExports \<Rightarrow> collectorExports) \<Rightarrow> exportState \<Rightarrow> exportState" where
  "set_context a f s = s\<lparr>xs_contexts := (xs_contexts s)[a := f (xs_contexts s ! a)]\<rparr>"

definition first_types :: "CollectorRuntimeConfig \<Rightarrow> (targetKey \<times> string) list" where
  "first_types c = map (\<lambda>t. ((coll_ID c, target_Name t), probe_Name (hd (target_Probes t))))
     (filter (\<lambda>t. target_Probes t \<noteq> []) (coll_Targets c))"

definition adopt :: "CollectorRuntimeConfig \<Rightarrow> exportState \<Rightarrow> exportState" where
  "adopt c s =
     (let s = s\<lparr>xs_firsts := fold (\<lambda>(k, p) m. m(k \<mapsto> p)) (first_types c) (xs_firsts s)\<rparr> in
      case xs_collectors s (coll_ID c) of
        None \<Rightarrow> s
      | Some a \<Rightarrow> set_context a (\<lambda>x. x\<lparr>ce_orphaned := False\<rparr>) s)"

definition orphan :: "string \<Rightarrow> exportState \<Rightarrow> exportState" where
  "orphan cid s =
     (case xs_collectors s cid of None \<Rightarrow> s | Some a \<Rightarrow> set_context a (\<lambda>x. x\<lparr>ce_orphaned := True\<rparr>) s)"

text \<open>The timer of the context at \<open>a\<close> fires.\<close>

definition orphan_fire :: "string \<Rightarrow> nat \<Rightarrow> exportState \<Rightarrow> exportState" where
  "orphan_fire cid a s =
     (if xs_collectors s cid \<noteq> Some a \<or> \<not> ce_orphaned (xs_contexts s ! a) then s
      else
        let s = set_context a (\<lambda>x. x\<lparr>ce_cancelled := True\<rparr>) s in
        s\<lparr>xs_collectors := (xs_collectors s)(cid := None),
          xs_waits := (\<lambda>k. if fst k = cid then None else xs_waits s k),
          xs_firsts := (\<lambda>k. if fst k = cid then None else xs_firsts s k),
          xs_pending := filter (\<lambda>(k, x). \<not> (wk_Collector k = cid \<and> x_done (xs_heap s ! x))) (xs_pending s)\<rparr>)"

definition live :: "string \<Rightarrow> exportState \<Rightarrow> bool" where
  "live cid s = (case xs_collectors s cid of None \<Rightarrow> False | Some a \<Rightarrow> \<not> ce_orphaned (xs_contexts s ! a))"

section \<open>The held budget\<close>

definition reserve :: "int \<Rightarrow> int \<Rightarrow> exportState \<Rightarrow> exportState \<times> int" where
  "reserve want maxHeld s =
     (let grant = min want (maxHeld - xs_held s) in
      if grant < min want minBatchBytes then (s, 0) else (s\<lparr>xs_held := xs_held s + grant\<rparr>, grant))"

definition releaseHeld :: "int \<Rightarrow> exportState \<Rightarrow> exportState" where
  "releaseHeld n s = s\<lparr>xs_held := xs_held s - n\<rparr>"

section \<open>Exports\<close>

text \<open>Go's map update and deletion on the association list of pending exports.\<close>

definition put_pending :: "WatermarkKey \<Rightarrow> nat \<Rightarrow> exportState \<Rightarrow> exportState" where
  "put_pending key a s = s\<lparr>xs_pending := (key, a) # filter (\<lambda>p. fst p \<noteq> key) (xs_pending s)\<rparr>"

definition delete_pending :: "WatermarkKey \<Rightarrow> exportState \<Rightarrow> exportState" where
  "delete_pending key s = s\<lparr>xs_pending := filter (\<lambda>p. fst p \<noteq> key) (xs_pending s)\<rparr>"

abbreviation pending_of :: "exportState \<Rightarrow> WatermarkKey \<Rightarrow> nat option" where
  "pending_of s key \<equiv> map_of (xs_pending s) key"

definition set_export :: "nat \<Rightarrow> (export \<Rightarrow> export) \<Rightarrow> exportState \<Rightarrow> exportState" where
  "set_export a f s = s\<lparr>xs_heap := (xs_heap s)[a := f (xs_heap s ! a)]\<rparr>"

definition startExport :: "gotime \<Rightarrow> export_job \<Rightarrow> exportState \<Rightarrow> exportState \<times> nat" where
  "startExport now job s =
     (let x = \<lparr>x_endpoint = logs_LogsEndpoint (sp_OutSystemsLogs (job_item job)), x_started = now, x_done = False, x_err = None,
            x_blocked = False, x_lastErr = None, x_attempts = 0, x_warned = 0, x_job = job\<rparr>;
          s = fst (collectorContext (sp_CollectorID (job_item job)) s);
          a = length (xs_heap s) in
      (put_pending (job_key job) a (s\<lparr>xs_heap := xs_heap s @ [x]\<rparr>), a))"

text \<open>The last critical section of an export's goroutine.\<close>

definition end_export :: "nat \<Rightarrow> logError option \<Rightarrow> exportState \<Rightarrow> exportState" where
  "end_export a err s =
     (let x = xs_heap s ! a; job = x_job x;
          s = releaseHeld (job_bytes job) s;
          s = set_export a (\<lambda>x. x\<lparr>x_err := err, x_done := True\<rparr>) s;
          gone = (case xs_collectors s (sp_CollectorID (job_item job)) of
              None \<Rightarrow> True
            | Some c \<Rightarrow> ce_orphaned (xs_contexts s ! c)) in
      if (err = None \<or> gone) \<and> pending_of s (job_key job) = Some a then delete_pending (job_key job) s else s)"

definition attemptFailed :: "nat \<Rightarrow> int \<Rightarrow> string \<Rightarrow> bool \<Rightarrow> gotime \<Rightarrow> exportState \<Rightarrow> exportState \<times> bool" where
  "attemptFailed a attempt err timedOut now s =
     (let s = set_export a (\<lambda>x. x\<lparr>x_lastErr := Some err, x_attempts := attempt\<rparr>) s;
          warn = (\<not> timedOut \<and> now - x_warned (xs_heap s ! a) \<ge> warnEvery) in
      (if warn then set_export a (\<lambda>x. x\<lparr>x_warned := now\<rparr>) s else s, warn))"

section \<open>Waiting\<close>

definition item_target :: "ScheduledProbe \<Rightarrow> targetKey" where
  "item_target item = (sp_CollectorID item, target_name item)"

definition startCall :: "ScheduledProbe \<Rightarrow> gotime \<Rightarrow> exportState \<Rightarrow> exportState" where
  "startCall item now s =
     (if xs_firsts s (item_target item) = Some (probe_name item) then
        s\<lparr>xs_waits := (xs_waits s)(item_target item \<mapsto> \<lparr>wait_start = now, wait_used = 0\<rparr>)\<rparr>
      else s)"

definition max_duration :: duration where "max_duration = 2 ^ 63 - 1"

definition waitBudget :: "ScheduledProbe \<Rightarrow> gotime \<Rightarrow> exportState \<Rightarrow> exportState \<times> duration" where
  "waitBudget item now s =
     (let interval = pa_IntervalSeconds (sp_Assignment item) * ns_second; key = item_target item in
      if interval \<le> 0 then (s, max_duration)
      else
        let fresh = (case xs_waits s key of
              None \<Rightarrow> True
            | Some w \<Rightarrow> xs_firsts s key = None \<and> now - wait_start w \<ge> interval);
            s = (if fresh then s\<lparr>xs_waits := (xs_waits s)(key \<mapsto> \<lparr>wait_start = now, wait_used = 0\<rparr>)\<rparr> else s) in
        (s, max (interval div 2 - wait_used (the (xs_waits s key))) 0))"

text \<open>The first section of \<open>awaitExport\<close>: the pending export and how long to wait for it.\<close>

definition await_begin :: "ScheduledProbe \<Rightarrow> WatermarkKey \<Rightarrow> bool \<Rightarrow> gotime \<Rightarrow> exportState \<Rightarrow> exportState \<times> (nat \<times> duration) option" where
  "await_begin item key wait now s =
     (case pending_of s key of
        None \<Rightarrow> (s, None)
      | Some a \<Rightarrow>
          if \<not> wait then (s, Some (a, 0))
          else (case waitBudget item now s of (s, budget) \<Rightarrow>
            (s, Some (a, if list_ex (\<lambda>(k, p). k \<noteq> key \<and> x_blocked (xs_heap s ! p) \<and>
                 x_endpoint (xs_heap s ! p) = x_endpoint (xs_heap s ! a)) (xs_pending s) then 0 else budget))))"

definition await_waited :: "ScheduledProbe \<Rightarrow> duration \<Rightarrow> exportState \<Rightarrow> exportState" where
  "await_waited item spent s =
     (case xs_waits s (item_target item) of
        None \<Rightarrow> s
      | Some w \<Rightarrow> s\<lparr>xs_waits := (xs_waits s)(item_target item \<mapsto> w\<lparr>wait_used := wait_used w + spent\<rparr>)\<rparr>)"

text \<open>The last section: the result of the export, or that it still runs.\<close>

definition await_end :: "WatermarkKey \<Rightarrow> nat \<Rightarrow> exportState \<Rightarrow> exportState \<times> logError option" where
  "await_end key a s =
     (let x = xs_heap s ! a in
      if x_done x then
        (if pending_of s key = Some a then delete_pending key s else s, x_err x)
      else (set_export a (\<lambda>x. x\<lparr>x_blocked := True\<rparr>) s,
            Some (StillWaiting (length (job_rows (x_job x))) (x_endpoint x))))"

text \<open>Stopping: the exports that have not ended are cancelled.\<close>

definition close_exports :: "exportState \<Rightarrow> exportState" where
  "close_exports s = s\<lparr>xs_cancelled := True, xs_contexts := map (\<lambda>c. c\<lparr>ce_cancelled := True\<rparr>) (xs_contexts s)\<rparr>"

section \<open>What is held\<close>

text \<open>The interleaving of calls and exports as far as the budget is concerned.  \<open>hs_readers\<close> are the
  amounts the calls between their reservation and the end of \<open>extractBatch\<close> hold.\<close>

record held_system =
  hs_exports :: exportState
  hs_readers :: "int list"

inductive held_step :: "held_system \<Rightarrow> held_system \<Rightarrow> bool" where
  reserved: "reserve want maxHeld (hs_exports s) = (x, g) \<Longrightarrow> g \<noteq> 0 \<Longrightarrow>
    held_step s \<lparr>hs_exports = x, hs_readers = g # hs_readers s\<rparr>"
| read: "g \<in> set (hs_readers s) \<Longrightarrow>
    held_step s \<lparr>hs_exports = releaseHeld (g - bytes) (hs_exports s), hs_readers = bytes # remove1 g (hs_readers s)\<rparr>"
| dropped: "bytes \<in> set (hs_readers s) \<Longrightarrow>
    held_step s \<lparr>hs_exports = releaseHeld bytes (hs_exports s), hs_readers = remove1 bytes (hs_readers s)\<rparr>"
| exporting: "job_bytes job \<in> set (hs_readers s) \<Longrightarrow>
    held_step s \<lparr>hs_exports = fst (startExport now job (hs_exports s)), hs_readers = remove1 (job_bytes job) (hs_readers s)\<rparr>"
| exported: "a < length (xs_heap (hs_exports s)) \<Longrightarrow> \<not> x_done (xs_heap (hs_exports s) ! a) \<Longrightarrow>
    held_step s (s\<lparr>hs_exports := end_export a err (hs_exports s)\<rparr>)"
| adopting: "held_step s (s\<lparr>hs_exports := adopt c (hs_exports s)\<rparr>)"
| orphaning: "held_step s (s\<lparr>hs_exports := orphan cid (hs_exports s)\<rparr>)"
| orphaned: "held_step s (s\<lparr>hs_exports := orphan_fire cid a (hs_exports s)\<rparr>)"
| failing: "held_step s (s\<lparr>hs_exports := fst (attemptFailed a n err timedOut now (hs_exports s))\<rparr>)"
| calling: "held_step s (s\<lparr>hs_exports := startCall item now (hs_exports s)\<rparr>)"
| waiting: "held_step s (s\<lparr>hs_exports := fst (await_begin item key w now (hs_exports s))\<rparr>)"
| waited: "held_step s (s\<lparr>hs_exports := await_waited item spent (hs_exports s)\<rparr>)"
| answered: "held_step s (s\<lparr>hs_exports := fst (await_end key a (hs_exports s))\<rparr>)"

definition held_init :: held_system where
  "held_init = \<lparr>hs_exports = init_exports, hs_readers = []\<rparr>"

definition held_reachable :: "held_system \<Rightarrow> bool" where
  "held_reachable s \<longleftrightarrow> held_step\<^sup>*\<^sup>* held_init s"

definition running_bytes :: "export \<Rightarrow> int" where
  "running_bytes x = (if x_done x then 0 else job_bytes (x_job x))"

definition held_inv :: "held_system \<Rightarrow> bool" where
  "held_inv s \<longleftrightarrow> xs_held (hs_exports s) =
     sum_list (hs_readers s) + sum_list (map running_bytes (xs_heap (hs_exports s)))"

lemma sum_list_replace: "a < length xs \<Longrightarrow> sum_list (xs[a := y]) = sum_list xs - xs ! a + (y :: int)"
  by (induction xs arbitrary: a) (auto split: nat.splits)

lemma sum_list_remove1: "x \<in> set xs \<Longrightarrow> sum_list (remove1 x xs) = sum_list xs - (x :: int)"
  by (induction xs) auto

text \<open>Everything but the four operations on the budget leaves what is held and what runs alone.\<close>

definition same_held :: "exportState \<Rightarrow> exportState \<Rightarrow> bool" where
  "same_held s t \<longleftrightarrow> xs_held t = xs_held s \<and> map running_bytes (xs_heap t) = map running_bytes (xs_heap s)"

lemma same_held_inv: "same_held (hs_exports s) x \<Longrightarrow> held_inv s \<Longrightarrow> held_inv (s\<lparr>hs_exports := x\<rparr>)"
  by (simp add: same_held_def held_inv_def)

lemma same_held_refl [simp]: "same_held s s"
  by (simp add: same_held_def)

lemma same_held_trans: "same_held s t \<Longrightarrow> same_held t u \<Longrightarrow> same_held s u"
  by (simp add: same_held_def)

lemma set_export_held: "(\<And>x. running_bytes (f x) = running_bytes x) \<Longrightarrow> same_held s (set_export a f s)"
  by (cases "a < length (xs_heap s)")
    (simp_all add: same_held_def set_export_def map_update list_update_same_conv list_update_beyond)

lemma set_context_held: "same_held s (set_context a f s)"
  by (simp add: same_held_def set_context_def)

lemma delete_pending_held: "same_held s (delete_pending key s)"
  by (simp add: same_held_def delete_pending_def)

lemma waitBudget_held: "same_held s (fst (waitBudget item now s))"
  by (simp add: same_held_def waitBudget_def Let_def)

lemma other_steps_held:
  "same_held s (adopt c s)" "same_held s (orphan cid s)" "same_held s (orphan_fire cid a s)"
  "same_held s (fst (attemptFailed a n err timedOut now s))" "same_held s (startCall item now s)"
  "same_held s (fst (await_begin item key w now s))" "same_held s (await_waited item spent s)"
  "same_held s (fst (await_end key a s))"
proof -
  have e: "same_held s (set_export a (\<lambda>x. x\<lparr>x_warned := w\<rparr>) s)" "same_held s (set_export a (\<lambda>x. x\<lparr>x_blocked := b\<rparr>) s)"
    "same_held s (set_export a (\<lambda>x. x\<lparr>x_lastErr := l, x_attempts := m\<rparr>) s)" for a w b l m and s :: exportState
    by (rule set_export_held; simp add: running_bytes_def)+
  show "same_held s (adopt c s)" "same_held s (orphan cid s)" "same_held s (orphan_fire cid a s)"
    by (auto simp: adopt_def orphan_def orphan_fire_def set_context_def same_held_def Let_def split: option.splits)
  show "same_held s (fst (attemptFailed a n err timedOut now s))"
    unfolding attemptFailed_def Let_def using e(3) same_held_trans [OF e(3) e(1)] by simp
  show "same_held s (startCall item now s)" "same_held s (await_waited item spent s)"
    by (auto simp: startCall_def await_waited_def same_held_def split: option.splits)
  show "same_held s (fst (await_begin item key w now s))"
    unfolding await_begin_def using waitBudget_held [of s item now] by (auto split: option.splits prod.splits)
  show "same_held s (fst (await_end key a s))"
    unfolding await_end_def Let_def using e(2) delete_pending_held by auto
qed

lemma collectorContext_held: "same_held s (fst (collectorContext cid s))"
  by (auto simp: collectorContext_def same_held_def split: option.splits)

lemma startExport_held:
  "xs_held (fst (startExport now job s)) = xs_held s"
  "sum_list (map running_bytes (xs_heap (fst (startExport now job s)))) = sum_list (map running_bytes (xs_heap s)) + job_bytes job"
  using collectorContext_held [of s "sp_CollectorID (job_item job)"]
  by (simp_all add: startExport_def Let_def put_pending_def running_bytes_def same_held_def)

lemma end_export_held:
  assumes "a < length (xs_heap s)" and "\<not> x_done (xs_heap s ! a)"
  shows "xs_held (end_export a err s) = xs_held s - running_bytes (xs_heap s ! a)"
    and "sum_list (map running_bytes (xs_heap (end_export a err s))) =
      sum_list (map running_bytes (xs_heap s)) - running_bytes (xs_heap s ! a)"
proof -
  let ?x = "xs_heap s ! a"
  let ?t = "set_export a (\<lambda>x. x\<lparr>x_err := err, x_done := True\<rparr>) (releaseHeld (job_bytes (x_job ?x)) s)"
  have e: "same_held ?t (end_export a err s)"
    unfolding end_export_def Let_def using delete_pending_held by auto
  have h: "xs_held ?t = xs_held s - running_bytes ?x" using assms by (simp add: set_export_def releaseHeld_def running_bytes_def)
  have m: "map running_bytes (xs_heap ?t) = (map running_bytes (xs_heap s))[a := 0]"
    by (simp add: set_export_def releaseHeld_def map_update running_bytes_def)
  show "xs_held (end_export a err s) = xs_held s - running_bytes ?x" using e h by (simp add: same_held_def)
  show "sum_list (map running_bytes (xs_heap (end_export a err s))) = sum_list (map running_bytes (xs_heap s)) - running_bytes ?x"
    using e m assms(1) by (simp add: same_held_def sum_list_replace)
qed

lemma held_step_inv: "held_step s t \<Longrightarrow> held_inv s \<Longrightarrow> held_inv t"
proof (induction rule: held_step.induct)
  case (reserved want maxHeld s x g)
  then show ?case by (auto simp: reserve_def held_inv_def Let_def split: if_splits)
next
  case (read g s bytes)
  then show ?case by (simp add: held_inv_def releaseHeld_def sum_list_remove1)
next
  case (dropped bytes s)
  then show ?case by (simp add: held_inv_def releaseHeld_def sum_list_remove1)
next
  case (exporting job s now)
  then show ?case by (simp add: held_inv_def startExport_held sum_list_remove1)
next
  case (exported a s err)
  then show ?case by (simp add: held_inv_def end_export_held)
qed (rule same_held_inv [OF other_steps_held(1)] same_held_inv [OF other_steps_held(2)]
  same_held_inv [OF other_steps_held(3)] same_held_inv [OF other_steps_held(4)] same_held_inv [OF other_steps_held(5)]
  same_held_inv [OF other_steps_held(6)] same_held_inv [OF other_steps_held(7)] same_held_inv [OF other_steps_held(8)]; assumption)+

text \<open>C27: the memory budget never leaks and is never overdrawn by a grant: in every interleaving of
  calls, exports, reloads and waits what is held is exactly what the calls that read and the exports
  that run account for, so it is nothing once they ended; and a call is granted memory only within
  the budget, all it wants while there is room, and refused only when less than a small batch is
  left.\<close>

theorem held_accounted:
  assumes "held_reachable s"
  shows "held_inv s \<and>
    (hs_readers s = [] \<and> list_all x_done (xs_heap (hs_exports s)) \<longrightarrow> xs_held (hs_exports s) = 0) \<and>
    (case reserve want maxHeld (hs_exports s) of (x, g) \<Rightarrow>
       if g = 0 then want = 0 \<or> maxHeld - xs_held (hs_exports s) < min want minBatchBytes \<or> maxHeld = xs_held (hs_exports s)
       else xs_held x \<le> maxHeld \<and> (g = want \<or> xs_held x = maxHeld))"
proof -
  have inv: "held_inv s"
    using assms unfolding held_reachable_def
  proof (induction rule: rtranclp_induct)
    case base
    show ?case by (simp add: held_inv_def held_init_def init_exports_def)
  next
    case (step s t)
    then show ?case by (auto intro: held_step_inv)
  qed
  have "map running_bytes (xs_heap (hs_exports s)) = map (\<lambda>_. 0) (xs_heap (hs_exports s))"
    if "list_all x_done (xs_heap (hs_exports s))"
    using that by (simp add: list_all_iff running_bytes_def)
  then have idle: "xs_held (hs_exports s) = 0" if "hs_readers s = []" "list_all x_done (xs_heap (hs_exports s))"
    using that inv by (simp add: held_inv_def map_replicate_const sum_list_replicate)
  show ?thesis using inv idle by (auto simp: reserve_def Let_def min_def)
qed

text \<open>A call that was granted a whole batch.\<close>

theorem held_accounted_witness:
  "xs_held (fst (reserve DefaultMaxBatchBytes DefaultMaxHeldBytes init_exports)) = 8388608 \<and>
   held_inv \<lparr>hs_exports = fst (reserve DefaultMaxBatchBytes DefaultMaxHeldBytes init_exports), hs_readers = [8388608]\<rparr>"
proof -
  let ?r = "reserve DefaultMaxBatchBytes DefaultMaxHeldBytes init_exports"
  have r: "?r = (init_exports\<lparr>xs_held := 8388608\<rparr>, 8388608)"
    by (simp add: reserve_def init_exports_def DefaultMaxBatchBytes_def DefaultMaxHeldBytes_def minBatchBytes_def)
  have "held_step held_init \<lparr>hs_exports = fst ?r, hs_readers = [8388608]\<rparr>"
    using held_step.reserved [of DefaultMaxBatchBytes DefaultMaxHeldBytes held_init "fst ?r" 8388608] r by (simp add: held_init_def)
  then have "held_reachable \<lparr>hs_exports = fst ?r, hs_readers = [8388608]\<rparr>" by (simp add: held_reachable_def)
  from held_accounted [OF this, of 0 0] r show ?thesis by simp
qed

end
