(* ===== verification/LogExtract.thy ===== *)
theory LogExtract
  imports LogExport
begin

text \<open>
  The log executor (\<open>collectors/outsystems/extractor.go\<close> and the goroutine of \<open>startExport\<close> in
  \<open>export.go\<close>): one call of a log type reads batches from its watermark on, exports them in the
  background and moves the watermark once they are accepted.  The metrics a call sets are the
  events it appends.  The source is a parameter: what its query returns for the parameters it gets.
\<close>

datatype logEvent =
    LagSet duration
  | ExportBlockedSet bool
  | StuckCounted
  | ExportFailedCounted
  | RowsAdded nat
  | RowsObserved "row list" "gotime list"
  | LogDelaySet duration
  | RecountEvents "recountEvent list"

record executor =
  ex_store :: Store
  ex_exports :: exportState
  ex_recounts :: recountState
  ex_events :: "logEvent list"

definition new_executor :: "Store \<Rightarrow> executor" where
  "new_executor store = \<lparr>ex_store = store, ex_exports = init_exports, ex_recounts = \<lambda>_. None, ex_events = []\<rparr>"

record exec_config =
  ec_MaxBatches :: int
  ec_MaxBatchBytes :: int
  ec_MaxHeldBytes :: int

definition DefaultMaxBatches :: int where "DefaultMaxBatches = 10"

definition maxBatches :: "exec_config \<Rightarrow> int" where
  "maxBatches cfg = (if ec_MaxBatches cfg < 1 then DefaultMaxBatches else ec_MaxBatches cfg)"
definition maxBatchBytes :: "exec_config \<Rightarrow> int" where
  "maxBatchBytes cfg = (if ec_MaxBatchBytes cfg < 1 then DefaultMaxBatchBytes else ec_MaxBatchBytes cfg)"
definition maxHeldBytes :: "exec_config \<Rightarrow> int" where
  "maxHeldBytes cfg = (if ec_MaxHeldBytes cfg < 1 then DefaultMaxHeldBytes else ec_MaxHeldBytes cfg)"

definition emit :: "logEvent \<Rightarrow> executor \<Rightarrow> executor" where
  "emit ev ex = ex\<lparr>ex_events := ex_events ex @ [ev]\<rparr>"

definition on_exports :: "(exportState \<Rightarrow> exportState) \<Rightarrow> executor \<Rightarrow> executor" where
  "on_exports f ex = ex\<lparr>ex_exports := f (ex_exports ex)\<rparr>"

section \<open>Watermarks\<close>

definition key_of :: "ScheduledProbe \<Rightarrow> WatermarkKey" where
  "key_of item = \<lparr>wk_Collector = sp_CollectorID item, wk_Target = target_name item, wk_LogType = probe_name item\<rparr>"

definition source_of :: "ScheduledProbe \<Rightarrow> string" where
  "source_of item = dt_Host (sp_Target item) @ '':'' @ int_text (dt_Port (sp_Target item)) @ ''/'' @ dt_DatabaseName (sp_Target item)"

definition lag_of :: "ScheduledProbe \<Rightarrow> duration" where
  "lag_of item = (if pdef_Lag (sp_Definition item) > 0 then pdef_Lag (sp_Definition item) else logs_Lag (sp_OutSystemsLogs item))"

definition start_watermark :: "log_env \<Rightarrow> ScheduledProbe \<Rightarrow> gotime \<Rightarrow> Watermark" where
  "start_watermark env item now =
     \<lparr>wm_Instant = time_truncate (le_wall env (now - logs_InitialLookback (sp_OutSystemsLogs item))) ns_second,
      wm_InstantType = [], wm_Source = source_of item\<rparr>"

definition watermark :: "log_env \<Rightarrow> bool \<Rightarrow> WatermarkKey \<Rightarrow> ScheduledProbe \<Rightarrow> gotime \<Rightarrow> Store \<Rightarrow> Store \<times> Watermark" where
  "watermark env readable key item now store =
     (case Load readable key store of
        (store', Inr (Some w)) \<Rightarrow>
          if wm_Source w \<noteq> source_of item then (Remember key (start_watermark env item now) store', start_watermark env item now)
          else (store', w)
      | (store', _) \<Rightarrow> (Remember key (start_watermark env item now) store', start_watermark env item now))"

section \<open>One batch\<close>

text \<open>The end of the window a batch reads: whole seconds, the lag behind the clock.\<close>

definition horizon :: "log_env \<Rightarrow> ScheduledProbe \<Rightarrow> gotime \<Rightarrow> gotime" where
  "horizon env item now = time_truncate (le_wall env (now - lag_of item)) ns_second"

type_synonym source = "QueryParams \<Rightarrow> (string, Batch) result"

definition record_context :: "ScheduledProbe \<Rightarrow> gotime \<Rightarrow> recordContext" where
  "record_context item now =
     \<lparr>rc_collector = sp_CollectorID item, rc_target = target_name item, rc_environment = dt_EnvironmentSlug (sp_Target item),
      rc_logType = probe_name item, rc_observed = now\<rparr>"

definition extractBatch :: "log_env \<Rightarrow> exec_config \<Rightarrow> source \<Rightarrow> write_world \<Rightarrow> gotime \<Rightarrow> ScheduledProbe \<Rightarrow> WatermarkKey \<Rightarrow>
    Watermark \<Rightarrow> executor \<Rightarrow> executor \<times> Watermark \<times> (logError, bool) result" where
  "extractBatch env cfg src ww now item key w ex =
     (let limit = logs_BatchLimit (sp_OutSystemsLogs item); to = horizon env item now in
      if \<not> wm_Instant w < to then (emit (LagSet (now - le_real env (wm_Instant w))) ex, w, Inr False)
      else case reserve (maxBatchBytes cfg) (maxHeldBytes cfg) (ex_exports ex) of (xs, granted) \<Rightarrow>
        let ex = ex\<lparr>ex_exports := xs\<rparr> in
        if granted = 0 then (emit (ExportBlockedSet True) ex, w, Inl (BudgetSpent (xs_held xs)))
        else
          let ex = emit (ExportBlockedSet False) ex in
          case src \<lparr>qp_From = wm_Instant w, qp_To = to, qp_Limit = limit, qp_MaxBytes = granted,
                 qp_DateTime = (wm_InstantType w = ''DATETIME'')\<rparr> of
            Inl e \<Rightarrow> (on_exports (releaseHeld granted) ex, w, Inl (ReadFailure e))
          | Inr batch \<Rightarrow>
              let ex = on_exports (releaseHeld (granted - b_Bytes batch)) ex;
                  dropped = on_exports (releaseHeld (b_Bytes batch)) in
              (case checkContract batch (wm_Instant w) to limit of
                 Inl e \<Rightarrow> (dropped ex, w, Inl (ContractBroken e))
               | Inr (instants, instantType) \<Rightarrow>
                  (case cut_batch batch instants to limit of
                     None \<Rightarrow> (dropped (emit StuckCounted ex), w, Inl (BatchStuck (length (b_Rows batch)) (last instants)))
                   | Some (full, rows, ts, nxt) \<Rightarrow>
                       let w' = \<lparr>wm_Instant = nxt, wm_InstantType = instantType, wm_Source = wm_Source w\<rparr> in
                       if rows \<noteq> [] then
                         let logs = buildLogs env batch rows ts (record_context item now);
                             job = \<lparr>job_item = item, job_key = key, job_logs = logs, job_bytes = b_Bytes batch,
                               job_rows = rows, job_instants = ts, job_next = w'\<rparr> in
                         (on_exports (\<lambda>s. fst (startExport now job s)) ex, w', Inr full)
                       else
                         let ex = emit (LagSet (now - le_real env nxt)) ex in
                         (case Save ww key w' now (ex_store ex) of
                            (store, err) \<Rightarrow>
                              let ex = dropped (ex\<lparr>ex_store := store\<rparr>) in
                              (case err of
                                 None \<Rightarrow> (ex, w', Inr full)
                               | Some f \<Rightarrow> (ex, w', Inl (NotSaved False f)))))))"

section \<open>The end of an export\<close>

text \<open>The goroutine of an export after the exporter returned \<open>outcome\<close>.\<close>

definition finish_export :: "log_env \<Rightarrow> string option \<Rightarrow> write_world \<Rightarrow> gotime \<Rightarrow> nat \<Rightarrow> executor \<Rightarrow> executor" where
  "finish_export env outcome ww now a ex =
     (let x = xs_heap (ex_exports ex) ! a; job = x_job x; key = job_key job;
          alive = live (sp_CollectorID (job_item job)) (ex_exports ex);
          note = (\<lambda>evs ex. if alive then fold emit evs ex else ex) in
      case outcome of
        Some err \<Rightarrow>
          let ex = note [ExportFailedCounted] ex;
              ex = on_exports (end_export a (Some (ExportFailure err))) ex in
          if x_blocked x then note [ExportBlockedSet False] ex else ex
      | None \<Rightarrow>
          let ex = ex\<lparr>ex_recounts := delivered key (job_instants job) (ex_recounts ex)\<rparr>;
              ex = note [RowsAdded (length (job_rows job)), RowsObserved (job_rows job) (job_instants job),
                     LogDelaySet (now - le_real env (last (job_instants job))),
                     LagSet (now - le_real env (wm_Instant (job_next job)))] ex in
          (case Save ww key (job_next job) now (ex_store ex) of
             (store, err) \<Rightarrow>
               let ex = on_exports (end_export a (map_option (NotSaved True) err)) (ex\<lparr>ex_store := store\<rparr>) in
               if x_blocked x then note [ExportBlockedSet False] ex else ex))"

section \<open>A call\<close>

text \<open>What a call meets at its \<open>i\<close>-th step: the time, the source, the file system, how long it waits
  for an export, what other goroutines do meanwhile and whether its deadline leaves time.\<close>

record call_world =
  lw_now :: gotime
  lw_source :: source
  lw_write :: write_world
  lw_waited :: duration
  lw_others :: "executor \<Rightarrow> executor"
  lw_timeLeft :: bool

definition awaitExport :: "call_world \<Rightarrow> ScheduledProbe \<Rightarrow> WatermarkKey \<Rightarrow> bool \<Rightarrow> executor \<Rightarrow> executor \<times> logError option" where
  "awaitExport w item key wait ex =
     (case await_begin item key wait (lw_now w) (ex_exports ex) of
        (xs, None) \<Rightarrow> (ex\<lparr>ex_exports := xs\<rparr>, None)
      | (xs, Some (a, budget)) \<Rightarrow>
          let ex = lw_others w (ex\<lparr>ex_exports := xs\<rparr>);
              ex = (if budget > 0 then on_exports (await_waited item (lw_waited w)) ex else ex) in
          (case await_end key a (ex_exports ex) of
             (xs, err) \<Rightarrow>
               let done = x_done (xs_heap (ex_exports ex) ! a); ex = ex\<lparr>ex_exports := xs\<rparr> in
               (if done then ex else emit (ExportBlockedSet True) ex, err)))"

definition blocked_call :: "log_env \<Rightarrow> gotime \<Rightarrow> WatermarkKey \<Rightarrow> logError \<Rightarrow> executor \<Rightarrow> executor \<times> logError option" where
  "blocked_call env now key err ex =
     (if blocks err then
        (case Load True key (ex_store ex) of
           (store, Inr (Some w)) \<Rightarrow> (emit (LagSet (now - le_real env (wm_Instant w))) (ex\<lparr>ex_store := store\<rparr>), Some err)
         | (store, _) \<Rightarrow> (ex\<lparr>ex_store := store\<rparr>, Some err))
      else (ex, Some err))"

definition call_recount :: "log_env \<Rightarrow> (string \<Rightarrow> QueryParams \<Rightarrow> counts option) option \<Rightarrow> call_world \<Rightarrow> ScheduledProbe \<Rightarrow>
    WatermarkKey \<Rightarrow> executor \<Rightarrow> executor" where
  "call_recount env recounter w item key ex =
     (case recount (le_tables env) recounter (lw_timeLeft w) True (lw_now w) key (logs_RecountWindow (sp_OutSystemsLogs item))
        (ex_store ex) (ex_recounts ex) of
        (store, rs, evs) \<Rightarrow> emit (RecountEvents evs) (ex\<lparr>ex_store := store, ex_recounts := rs\<rparr>))"

text \<open>The batches of a call, of which at most \<open>left + 1\<close> are read.\<close>

fun run_batches :: "log_env \<Rightarrow> exec_config \<Rightarrow> (string \<Rightarrow> QueryParams \<Rightarrow> counts option) option \<Rightarrow> (nat \<Rightarrow> call_world) \<Rightarrow>
    ScheduledProbe \<Rightarrow> WatermarkKey \<Rightarrow> nat \<Rightarrow> nat \<Rightarrow> Watermark \<Rightarrow> executor \<Rightarrow> executor \<times> logError option" where
  "run_batches env cfg recounter world item key i left w ex =
     (let cw = world i in
      case extractBatch env cfg (lw_source cw) (lw_write cw) (lw_now cw) item key w ex of
        (ex, w, Inl err) \<Rightarrow> blocked_call env (lw_now cw) key err ex
      | (ex, w, Inr full) \<Rightarrow>
         (case awaitExport cw item key True ex of
            (ex, Some err) \<Rightarrow> blocked_call env (lw_now cw) key err ex
          | (ex, None) \<Rightarrow>
             (case left of
                0 \<Rightarrow> (call_recount env recounter cw item key ex, None)
              | Suc left \<Rightarrow>
                  if \<not> full \<or> \<not> lw_timeLeft cw then (call_recount env recounter cw item key ex, None)
                  else run_batches env cfg recounter world item key (i + 1) left w ex)))"

declare run_batches.simps [simp del]

text \<open>\<open>catalog\<close> gives the built-in query of a log type and \<open>zones\<close> the known time zones.\<close>

definition query_of :: "ScheduledProbe \<Rightarrow> string \<Rightarrow> string" where
  "query_of item builtin =
     (if pdef_QueryTemplate (sp_Definition item) \<noteq> [] then pdef_QueryTemplate (sp_Definition item) else builtin)"

definition RunProbe :: "log_env \<Rightarrow> (string \<Rightarrow> bool) \<Rightarrow> (string \<Rightarrow> string option) \<Rightarrow> exec_config \<Rightarrow>
    (string \<Rightarrow> QueryParams \<Rightarrow> counts option) option \<Rightarrow> (nat \<Rightarrow> call_world) \<Rightarrow> ScheduledProbe \<Rightarrow> executor \<Rightarrow>
    executor \<times> logError option" where
  "RunProbe env zones catalog cfg recounter world item ex =
     (let logs = sp_OutSystemsLogs item; key = key_of item; now = lw_now (world 0) in
      case catalog (probe_name item) of
        None \<Rightarrow> (ex, Some (UnknownLogType (probe_name item)))
      | Some builtin \<Rightarrow>
          let query = query_of item builtin in
          if \<not> zones (logs_LogTimezone logs) then (ex, Some (BadTimezone (logs_LogTimezone logs)))
          else
            let ex = on_exports (startCall item now) ex in
            (case awaitExport (world 0) item key False ex of
               (ex, Some err) \<Rightarrow> blocked_call env now key err ex
             | (ex, None) \<Rightarrow>
                (case watermark env True key item now (ex_store ex) of
                   (store, w) \<Rightarrow>
                     let rs = (if logs_RecountWindow logs > 0 then recount_start key w (logs_RecountWindow logs) query (ex_recounts ex)
                               else recount_forget key (ex_recounts ex)) in
                     run_batches env cfg recounter world item key 1 (nat (maxBatches cfg - 1)) w
                       (ex\<lparr>ex_store := store, ex_recounts := rs\<rparr>))))"

text \<open>\<open>timeLeft\<close>: the deadline leaves room for twice the time of the last batch.\<close>

definition timeLeft :: "bool \<Rightarrow> duration option \<Rightarrow> duration \<Rightarrow> bool" where
  "timeLeft ctxDone untilDeadline lastTook =
     (\<not> ctxDone \<and> (case untilDeadline of None \<Rightarrow> True | Some d \<Rightarrow> d > 2 * lastTook))"

definition InitCollector :: "CollectorRuntimeConfig \<Rightarrow> executor \<Rightarrow> executor" where
  "InitCollector c ex = on_exports (adopt c) ex"

definition ForgetCollector :: "string \<Rightarrow> executor \<Rightarrow> executor" where
  "ForgetCollector cid ex = on_exports (orphan cid) ex"

end
