(* ===== verification/LogDelivery.thy ===== *)
theory LogDelivery
  imports LogExtract "HOL-Library.Multiset"
begin

text \<open>
  Delivery of the rows of one log type: the interleaving of commits to the logging database, polls,
  the ends of exports, whatever other log types do, and crashes.  The rows the OTel Collector
  accepted, where the log type started and whether every export was acknowledged are kept beside the
  executor, for the statements only.
\<close>

record log_setup =
  su_env :: log_env
  su_cfg :: exec_config
  su_item :: ScheduledProbe
  su_cols :: "Column list"
  su_column :: nat

text \<open>The query returns an \<open>Instant\<close> column, the batch limit is positive and the log time zone's clock is
  never turned back.\<close>

definition setup_ok :: "log_setup \<Rightarrow> bool" where
  "setup_ok su \<longleftrightarrow> instant_column (su_cols su) = Some (su_column su) \<and>
     col_DatabaseType (su_cols su ! su_column su) \<in> set instant_types \<and>
     0 < logs_BatchLimit (sp_OutSystemsLogs (su_item su)) \<and> mono (le_wall (su_env su))"

abbreviation su_key :: "log_setup \<Rightarrow> WatermarkKey" where "su_key su \<equiv> key_of (su_item su)"
abbreviation su_source :: "log_setup \<Rightarrow> string" where "su_source su \<equiv> source_of (su_item su)"
abbreviation su_horizon :: "log_setup \<Rightarrow> gotime \<Rightarrow> gotime" where "su_horizon su now \<equiv> horizon (su_env su) (su_item su) now"

record log_system =
  sy_exec :: executor
  sy_table :: "row list"
  sy_now :: gotime
  sy_accepted :: "row list"
  sy_start :: gotime
  sy_clean :: bool

text \<open>A source that keeps the contract or fails.\<close>

definition source_ok :: "log_setup \<Rightarrow> row list \<Rightarrow> source \<Rightarrow> bool" where
  "source_ok su table src \<longleftrightarrow> (\<forall>p. (\<exists>e. src p = Inl e) \<or> (\<exists>b. contract_query (su_cols su) table p = Inr b \<and> src p = Inr b))"

definition usable :: "log_setup \<Rightarrow> bool \<Rightarrow> Store \<Rightarrow> bool" where
  "usable su readable store =
     (case snd (Load readable (su_key su) store) of Inr (Some w) \<Rightarrow> wm_Source w = su_source su | _ \<Rightarrow> False)"

text \<open>The exports of the log type, as the steps of others leave them.\<close>

definition own :: "WatermarkKey \<Rightarrow> executor \<Rightarrow> nat \<Rightarrow> bool" where
  "own key ex a \<longleftrightarrow> a < length (xs_heap (ex_exports ex)) \<and> job_key (x_job (xs_heap (ex_exports ex) ! a)) = key"

abbreviation the_export :: "executor \<Rightarrow> nat \<Rightarrow> export" where "the_export ex a \<equiv> xs_heap (ex_exports ex) ! a"

definition same_log :: "WatermarkKey \<Rightarrow> executor \<Rightarrow> executor \<Rightarrow> bool" where
  "same_log key ex ex' \<longleftrightarrow>
     (\<forall>a. own key ex' a = own key ex a \<and> (own key ex a \<longrightarrow> x_job (the_export ex' a) = x_job (the_export ex a) \<and> x_done (the_export ex' a) = x_done (the_export ex a))) \<and>
     pending_of (ex_exports ex') key = pending_of (ex_exports ex) key \<and>
     sto_dir (ex_store ex') = sto_dir (ex_store ex) \<and> sto_cache (ex_store ex') key = sto_cache (ex_store ex) key \<and>
     sto_disk (ex_store ex') (path (sto_dir (ex_store ex)) key) = sto_disk (ex_store ex) (path (sto_dir (ex_store ex)) key)"

inductive log_step :: "log_setup \<Rightarrow> log_system \<Rightarrow> log_system \<Rightarrow> bool" for su where
  commit: "row ! su_column su = ATime t \<Longrightarrow> su_horizon su (sy_now s) < t \<Longrightarrow>
    log_step su s (s\<lparr>sy_table := insort_key (row_instant (su_column su)) row (sy_table s)\<rparr>)"
| tick: "sy_now s \<le> now \<Longrightarrow> log_step su s (s\<lparr>sy_now := now\<rparr>)"
| poll: "pending_of (ex_exports (sy_exec s)) (su_key su) = None \<Longrightarrow> source_ok su (sy_table s) src \<Longrightarrow> tmp_ok ww \<Longrightarrow>
    watermark (su_env su) readable (su_key su) (su_item su) (sy_now s) (ex_store (sy_exec s)) = (store, w) \<Longrightarrow>
    extractBatch (su_env su) (su_cfg su) src ww (sy_now s) (su_item su) (su_key su) w ((sy_exec s)\<lparr>ex_store := store\<rparr>) = (ex, w', r) \<Longrightarrow>
    storable w' \<Longrightarrow>
    log_step su s (s\<lparr>sy_exec := ex,
      sy_start := (if usable su readable (ex_store (sy_exec s)) then sy_start s else wm_Instant w),
      sy_clean := (if usable su readable (ex_store (sy_exec s)) then sy_clean s else sy_accepted s = [])\<rparr>)"
| accept: "own (su_key su) (sy_exec s) a \<Longrightarrow> \<not> x_done (the_export (sy_exec s) a) \<Longrightarrow> tmp_ok ww \<Longrightarrow>
    log_step su s (s\<lparr>sy_exec := finish_export (su_env su) None ww (sy_now s) a (sy_exec s),
      sy_accepted := sy_accepted s @ job_rows (x_job (the_export (sy_exec s) a))\<rparr>)"
| reject: "own (su_key su) (sy_exec s) a \<Longrightarrow> \<not> x_done (the_export (sy_exec s) a) \<Longrightarrow>
    log_step su s (s\<lparr>sy_exec := finish_export (su_env su) (Some err) ww (sy_now s) a (sy_exec s)\<rparr>)"
| unacknowledged: "own (su_key su) (sy_exec s) a \<Longrightarrow> \<not> x_done (the_export (sy_exec s) a) \<Longrightarrow>
    log_step su s (s\<lparr>sy_exec := finish_export (su_env su) (Some err) ww (sy_now s) a (sy_exec s),
      sy_accepted := sy_accepted s @ job_rows (x_job (the_export (sy_exec s) a)), sy_clean := False\<rparr>)"
| report: "pending_of (ex_exports (sy_exec s)) (su_key su) = Some a \<Longrightarrow> x_done (the_export (sy_exec s) a) \<Longrightarrow>
    log_step su s (s\<lparr>sy_exec := on_exports (delete_pending (su_key su)) (sy_exec s)\<rparr>)"
| others: "same_log (su_key su) (sy_exec s) ex \<Longrightarrow> log_step su s (s\<lparr>sy_exec := ex\<rparr>)"
| crash: "log_step su s (s\<lparr>sy_exec := new_executor (NewStore (sto_dir (ex_store (sy_exec s))) (sto_disk (ex_store (sy_exec s)))),
    sy_clean := False\<rparr>)"

definition log_init :: "log_setup \<Rightarrow> log_system \<Rightarrow> bool" where
  "log_init su s \<longleftrightarrow> (\<exists>dir d. sy_exec s = new_executor (NewStore dir d) \<and> stored dir d (su_key su) = Inr None) \<and>
     table_ok (su_column su) (sy_table s) \<and> sy_accepted s = [] \<and>
     sy_start s = wm_Instant (start_watermark (su_env su) (su_item su) (sy_now s)) \<and> sy_clean s"

definition log_reachable :: "log_setup \<Rightarrow> log_system \<Rightarrow> bool" where
  "log_reachable su s \<longleftrightarrow> (\<exists>s0. log_init su s0 \<and> (log_step su)\<^sup>*\<^sup>* s0 s)"

section \<open>The invariant\<close>

text \<open>Every row up to \<open>t\<close> was accepted, or is among \<open>rows\<close>, as often as the table has it.\<close>

definition covers :: "log_setup \<Rightarrow> log_system \<Rightarrow> row list \<Rightarrow> gotime \<Rightarrow> bool" where
  "covers su s rows t \<longleftrightarrow> mset (window_rows (su_column su) (sy_start s) t (sy_table s)) \<subseteq># mset (sy_accepted s) + mset rows"

text \<open>The watermarks a poll may start from: the one in memory and the one a restart would read.\<close>

definition known :: "log_setup \<Rightarrow> log_system \<Rightarrow> Watermark \<Rightarrow> bool" where
  "known su s w \<longleftrightarrow> wm_Source w = su_source su \<and>
     (sto_cache (ex_store (sy_exec s)) (su_key su) = Some w \<or>
      stored (sto_dir (ex_store (sy_exec s))) (sto_disk (ex_store (sy_exec s))) (su_key su) = Inr (Some w))"

definition settled :: "log_setup \<Rightarrow> log_system \<Rightarrow> gotime \<Rightarrow> bool" where
  "settled su s t \<longleftrightarrow> t \<le> su_horizon su (sy_now s) \<or> t \<le> sy_start s"

definition running_ok :: "log_setup \<Rightarrow> log_system \<Rightarrow> nat \<Rightarrow> bool" where
  "running_ok su s a \<longleftrightarrow>
     (let job = x_job (the_export (sy_exec s) a); w = job_next job in
      pending_of (ex_exports (sy_exec s)) (su_key su) = Some a \<and> storable w \<and> wm_Source w = su_source su \<and>
      wm_Instant w \<le> su_horizon su (sy_now s) \<and> covers su s (job_rows job) (wm_Instant w) \<and>
      (sy_clean s \<longrightarrow> (\<exists>w0. sto_cache (ex_store (sy_exec s)) (su_key su) = Some w0 \<and> wm_Source w0 = su_source su \<and>
         wm_Instant w0 \<le> wm_Instant w \<and> job_rows job = window_rows (su_column su) (wm_Instant w0) (wm_Instant w) (sy_table s))))"

definition clean_ok :: "log_setup \<Rightarrow> log_system \<Rightarrow> bool" where
  "clean_ok su s \<longleftrightarrow> sy_clean s \<longrightarrow>
     (case sto_cache (ex_store (sy_exec s)) (su_key su) of
        None \<Rightarrow> sy_accepted s = [] \<and> (\<forall>w. \<not> known su s w)
      | Some w \<Rightarrow> wm_Source w = su_source su \<and> sy_start s \<le> wm_Instant w \<and>
          sy_accepted s = window_rows (su_column su) (sy_start s) (wm_Instant w) (sy_table s))"

definition log_inv :: "log_setup \<Rightarrow> log_system \<Rightarrow> bool" where
  "log_inv su s \<longleftrightarrow> table_ok (su_column su) (sy_table s) \<and>
     (\<forall>w. known su s w \<longrightarrow> covers su s [] (wm_Instant w) \<and> settled su s (wm_Instant w)) \<and>
     sy_start s \<le> wm_Instant (start_watermark (su_env su) (su_item su) (sy_now s)) \<and>
     (\<forall>a. own (su_key su) (sy_exec s) a \<and> \<not> x_done (the_export (sy_exec s) a) \<longrightarrow> running_ok su s a) \<and>
     clean_ok su s"

lemma log_invD:
  assumes "log_inv su s"
  shows "table_ok (su_column su) (sy_table s)"
    and "known su s w \<Longrightarrow> covers su s [] (wm_Instant w)"
    and "known su s w \<Longrightarrow> settled su s (wm_Instant w)"
    and "sy_start s \<le> wm_Instant (start_watermark (su_env su) (su_item su) (sy_now s))"
    and "own (su_key su) (sy_exec s) a \<Longrightarrow> \<not> x_done (the_export (sy_exec s) a) \<Longrightarrow> running_ok su s a"
    and "clean_ok su s"
  using assms unfolding log_inv_def by blast+

lemma log_invI:
  assumes "table_ok (su_column su) (sy_table s)"
    and "\<And>w. known su s w \<Longrightarrow> covers su s [] (wm_Instant w) \<and> settled su s (wm_Instant w)"
    and "sy_start s \<le> wm_Instant (start_watermark (su_env su) (su_item su) (sy_now s))"
    and "\<And>a. own (su_key su) (sy_exec s) a \<Longrightarrow> \<not> x_done (the_export (sy_exec s) a) \<Longrightarrow> running_ok su s a"
    and "clean_ok su s"
  shows "log_inv su s"
  using assms unfolding log_inv_def by blast

section \<open>Its steps\<close>

lemma horizon_mono: "mono (le_wall env) \<Longrightarrow> s \<le> t \<Longrightarrow> horizon env item s \<le> horizon env item t"
  unfolding horizon_def by (rule time_truncate_mono) (simp_all add: ns_second_def monoD)

lemma start_mono: "mono (le_wall env) \<Longrightarrow> s \<le> t \<Longrightarrow> wm_Instant (start_watermark env item s) \<le> wm_Instant (start_watermark env item t)"
  using time_truncate_mono [of ns_second "le_wall env (s - logs_InitialLookback (sp_OutSystemsLogs item))"
      "le_wall env (t - logs_InitialLookback (sp_OutSystemsLogs item))"]
  by (simp add: start_watermark_def ns_second_def monoD)

lemma window_append:
  assumes "table_ok c table" and "a \<le> b" and "b \<le> d"
  shows "window_rows c a b table @ window_rows c b d table = window_rows c a d table"
proof -
  have "filter (in_window c a b) xs @ filter (in_window c b d) xs = filter (in_window c a d) xs"
    if "sorted (map (row_instant c) xs)" for xs
    using that
  proof (induction xs)
    case (Cons x xs)
    have ge: "row_instant c x \<le> row_instant c y" if "y \<in> set xs" for y using Cons.prems that by simp
    have ih: "filter (in_window c a b) xs @ filter (in_window c b d) xs = filter (in_window c a d) xs" using Cons by simp
    show ?case
    proof (cases "row_instant c x \<le> b")
      case True
      then have "in_window c a b x = in_window c a d x" "\<not> in_window c b d x" using assms(2,3) by (auto simp: in_window_def)
      with ih show ?thesis by simp
    next
      case False
      then have x: "\<not> in_window c a b x" "in_window c b d x = in_window c a d x" using assms(2,3) by (auto simp: in_window_def)
      from False have "filter (in_window c a b) xs = []" using ge by (force simp: in_window_def filter_empty_conv)
      with ih x show ?thesis by simp
    qed
  qed simp
  then show ?thesis using assms(1) by (simp add: window_rows_def table_ok_def)
qed

lemma window_mono:
  assumes "a' \<le> a" and "b \<le> b'"
  shows "mset (window_rows c a b table) \<subseteq># mset (window_rows c a' b' table)"
proof -
  have "filter (in_window c a b) (filter (in_window c a' b') table) = filter (in_window c a b) table"
    using assms by (auto simp: in_window_def intro: filter_cong)
  then have "mset (window_rows c a b table) = filter_mset (in_window c a b) (mset (window_rows c a' b' table))"
    by (simp add: window_rows_def flip: mset_filter)
  then show ?thesis by simp
qed

lemma covers_mono:
  assumes "covers su s rows t" and "sy_table s' = sy_table s" and "sy_start s \<le> sy_start s'" and "t' \<le> t"
    and "mset (sy_accepted s) + mset rows \<subseteq># mset (sy_accepted s') + mset rows'"
  shows "covers su s' rows' t'"
  using subset_mset.order_trans [OF window_mono [OF assms(3,4)] subset_mset.order_trans [OF assms(1) [unfolded covers_def] assms(5)]]
  by (simp add: covers_def assms(2))

lemma commit_inv:
  assumes "log_inv su s" and "row ! su_column su = ATime t" and "su_horizon su (sy_now s) < t"
  shows "log_inv su (s\<lparr>sy_table := insort_key (row_instant (su_column su)) row (sy_table s)\<rparr>)" (is "log_inv su ?s")
proof (rule log_invI)
  note inv = log_invD [OF assms(1)]
  let ?c = "su_column su"
  have t: "row_instant ?c row = t" using assms(2) by (simp add: row_instant_def)
  show "table_ok ?c (sy_table ?s)"
    using inv(1) assms(2) unfolding table_ok_def by (simp add: sorted_insort_key set_insort_key)
  have win: "window_rows ?c a b (sy_table ?s) = window_rows ?c a b (sy_table s)" if "\<not> (a < t \<and> t \<le> b)" for a b
    using that t by (simp add: window_rows_def filter_insort_triv in_window_def)
  have cov: "covers su ?s xs T" if "covers su s xs T" "settled su s T" for xs T
  proof -
    have "\<not> (sy_start s < t \<and> t \<le> T)" using that(2) assms(3) unfolding settled_def by linarith
    from win [OF this] that(1) show ?thesis unfolding covers_def by simp
  qed
  have kn: "known su ?s w = known su s w" for w by (simp add: known_def)
  show "covers su ?s [] (wm_Instant w) \<and> settled su ?s (wm_Instant w)" if "known su ?s w" for w
  proof
    from that have k: "known su s w" unfolding kn .
    show "covers su ?s [] (wm_Instant w)" by (rule cov [OF inv(2,3) [OF k]])
    show "settled su ?s (wm_Instant w)" using inv(3) [OF k] by (simp add: settled_def)
  qed
  show "sy_start ?s \<le> wm_Instant (start_watermark (su_env su) (su_item su) (sy_now ?s))" using inv(4) by simp
  show "clean_ok su ?s"
  proof (cases "sto_cache (ex_store (sy_exec s)) (su_key su)")
    case None
    then show ?thesis using inv(6) by (simp add: clean_ok_def kn)
  next
    case (Some w)
    have out: "\<not> (sy_start s < t \<and> t \<le> wm_Instant w)" if "wm_Source w = su_source su"
      using inv(3) [of w] that Some assms(3) by (auto simp: known_def settled_def)
    show ?thesis using inv(6) Some win [OF out] by (simp add: clean_ok_def)
  qed
  show "running_ok su ?s a" if "own (su_key su) (sy_exec ?s) a" "\<not> x_done (the_export (sy_exec ?s) a)" for a
  proof -
    have r: "running_ok su s a" using inv(5) that by simp
    let ?job = "x_job (the_export (sy_exec s) a)"
    let ?w = "job_next ?job"
    have h: "wm_Instant ?w \<le> su_horizon su (sy_now s)" and c: "covers su s (job_rows ?job) (wm_Instant ?w)"
      using r by (simp_all add: running_ok_def Let_def)
    have "covers su ?s (job_rows ?job) (wm_Instant ?w)" using c h by (intro cov) (simp_all add: settled_def)
    moreover have "window_rows ?c x (wm_Instant ?w) (sy_table ?s) = window_rows ?c x (wm_Instant ?w) (sy_table s)" for x
      using h assms(3) by (intro win) simp
    ultimately show ?thesis using r unfolding running_ok_def Let_def by simp
  qed
qed

lemma tick_inv:
  assumes "log_inv su s" and "setup_ok su" and "sy_now s \<le> now"
  shows "log_inv su (s\<lparr>sy_now := now\<rparr>)" (is "log_inv su ?s")
proof (rule log_invI)
  note inv = log_invD [OF assms(1)]
  have m: "mono (le_wall (su_env su))" using assms(2) by (simp add: setup_ok_def)
  note h = horizon_mono [OF m assms(3), of "su_item su"] and st = start_mono [OF m assms(3), of "su_item su"]
  show "table_ok (su_column su) (sy_table ?s)" using inv(1) by simp
  show "covers su ?s [] (wm_Instant w) \<and> settled su ?s (wm_Instant w)" if "known su ?s w" for w
    using that inv(2,3) [of w] h by (auto simp: known_def covers_def settled_def)
  show "sy_start ?s \<le> wm_Instant (start_watermark (su_env su) (su_item su) (sy_now ?s))" using inv(4) st by simp
  show "running_ok su ?s a" if "own (su_key su) (sy_exec ?s) a" "\<not> x_done (the_export (sy_exec ?s) a)" for a
    using that inv(5) [of a] h by (auto simp: running_ok_def Let_def covers_def)
  have kn: "known su ?s w = known su s w" for w by (simp add: known_def)
  show "clean_ok su ?s" using inv(6) by (simp add: clean_ok_def kn split: option.splits)
qed

lemma others_inv:
  assumes "log_inv su s" and "same_log (su_key su) (sy_exec s) ex"
  shows "log_inv su (s\<lparr>sy_exec := ex\<rparr>)" (is "log_inv su ?s")
proof (rule log_invI)
  note inv = log_invD [OF assms(1)]
  note sl = assms(2) [unfolded same_log_def]
  have st: "stored (sto_dir (ex_store ex)) (sto_disk (ex_store ex)) (su_key su) =
      stored (sto_dir (ex_store (sy_exec s))) (sto_disk (ex_store (sy_exec s))) (su_key su)"
    using sl stored_cong [of "sto_disk (ex_store ex)" "sto_dir (ex_store (sy_exec s))" "su_key su" "sto_disk (ex_store (sy_exec s))"]
    by simp
  have kn: "known su ?s w = known su s w" for w using sl st by (simp add: known_def)
  have cov: "covers su ?s xs t = covers su s xs t" for xs t by (simp add: covers_def)
  have se: "settled su ?s t = settled su s t" for t by (simp add: settled_def)
  show "table_ok (su_column su) (sy_table ?s)" using inv(1) by simp
  show "covers su ?s [] (wm_Instant w) \<and> settled su ?s (wm_Instant w)" if "known su ?s w" for w
    using that inv(2,3) [of w] unfolding kn cov se by blast
  show "sy_start ?s \<le> wm_Instant (start_watermark (su_env su) (su_item su) (sy_now ?s))" using inv(4) by simp
  show "running_ok su ?s a" if "own (su_key su) (sy_exec ?s) a" "\<not> x_done (the_export (sy_exec ?s) a)" for a
  proof -
    have o: "own (su_key su) (sy_exec s) a" "x_job (the_export ex a) = x_job (the_export (sy_exec s) a)" "\<not> x_done (the_export (sy_exec s) a)"
      using that sl by auto
    from inv(5) [OF o(1,3)] sl show ?thesis unfolding running_ok_def Let_def cov by (simp add: o(2))
  qed
  show "clean_ok su ?s" using inv(6) sl by (simp add: clean_ok_def kn split: option.splits)
qed

lemma report_inv:
  assumes "log_inv su s" and "pending_of (ex_exports (sy_exec s)) (su_key su) = Some a" and "x_done (the_export (sy_exec s) a)"
  shows "log_inv su (s\<lparr>sy_exec := on_exports (delete_pending (su_key su)) (sy_exec s)\<rparr>)" (is "log_inv su ?s")
proof (rule log_invI)
  note inv = log_invD [OF assms(1)]
  have e: "ex_store (sy_exec ?s) = ex_store (sy_exec s)" "the_export (sy_exec ?s) b = the_export (sy_exec s) b"
    "own key (sy_exec ?s) b = own key (sy_exec s) b" for b key
    by (simp_all add: on_exports_def delete_pending_def own_def)
  show "table_ok (su_column su) (sy_table ?s)" using inv(1) by simp
  show "covers su ?s [] (wm_Instant w) \<and> settled su ?s (wm_Instant w)" if "known su ?s w" for w
    using that inv(2,3) [of w] unfolding known_def e(1) by (simp add: covers_def settled_def)
  show "sy_start ?s \<le> wm_Instant (start_watermark (su_env su) (su_item su) (sy_now ?s))" using inv(4) by simp
  show "running_ok su ?s b" if "own (su_key su) (sy_exec ?s) b" "\<not> x_done (the_export (sy_exec ?s) b)" for b
    using inv(5) [of b] that assms(2,3) unfolding e by (simp add: running_ok_def Let_def)
  have kn: "known su ?s w = known su s w" for w unfolding known_def e(1) ..
  show "clean_ok su ?s" using inv(6) unfolding clean_ok_def e(1) kn by (simp split: option.splits)
qed

lemma crash_inv:
  assumes "log_inv su s"
  shows "log_inv su (s\<lparr>sy_exec := new_executor (NewStore (sto_dir (ex_store (sy_exec s))) (sto_disk (ex_store (sy_exec s)))),
    sy_clean := False\<rparr>)" (is "log_inv su ?s")
proof (rule log_invI)
  note inv = log_invD [OF assms]
  have kn: "known su s w" if "known su ?s w" for w using that by (auto simp: known_def new_executor_def NewStore_def)
  show "covers su ?s [] (wm_Instant w) \<and> settled su ?s (wm_Instant w)" if "known su ?s w" for w
    using inv(2,3) [OF kn [OF that]] by (simp add: covers_def settled_def)
  show "running_ok su ?s b" if "own (su_key su) (sy_exec ?s) b" for b
    using that by (simp add: own_def new_executor_def init_exports_def)
  show "table_ok (su_column su) (sy_table ?s)" using inv(1) by simp
  show "sy_start ?s \<le> wm_Instant (start_watermark (su_env su) (su_item su) (sy_now ?s))" using inv(4) by simp
  show "clean_ok su ?s" by (simp add: clean_ok_def)
qed

subsection \<open>The end of an export\<close>

lemma emit_simps [simp]:
  "ex_store (emit ev ex) = ex_store ex" "ex_exports (emit ev ex) = ex_exports ex"
  "ex_store (fold emit evs ex) = ex_store ex" "ex_exports (fold emit evs ex) = ex_exports ex"
proof -
  show "ex_store (emit ev ex) = ex_store ex" "ex_exports (emit ev ex) = ex_exports ex" for ev ex by (simp_all add: emit_def)
  then show "ex_store (fold emit evs ex) = ex_store ex" "ex_exports (fold emit evs ex) = ex_exports ex"
    by (induction evs arbitrary: ex) simp_all
qed

lemma finish_export_exports:
  "ex_exports (finish_export env outcome ww now a ex) =
    end_export a (case outcome of Some err \<Rightarrow> Some (ExportFailure err)
      | None \<Rightarrow> map_option (NotSaved True) (snd (Save ww (job_key (x_job (the_export ex a))) (job_next (x_job (the_export ex a))) now (ex_store ex))))
      (ex_exports ex)"
  by (cases outcome) (simp_all add: finish_export_def Let_def on_exports_def split_beta)

lemma finish_export_store:
  "ex_store (finish_export env outcome ww now a ex) =
    (case outcome of Some err \<Rightarrow> ex_store ex
     | None \<Rightarrow> fst (Save ww (job_key (x_job (the_export ex a))) (job_next (x_job (the_export ex a))) now (ex_store ex)))"
  by (cases outcome) (simp_all add: finish_export_def Let_def on_exports_def split_beta)

lemma end_export_heap:
  "xs_heap (end_export a err s) = (xs_heap s)[a := (xs_heap s ! a)\<lparr>x_err := err, x_done := True\<rparr>]"
  by (simp add: end_export_def Let_def set_export_def releaseHeld_def delete_pending_def)

lemma finish_export_own:
  assumes "own key ex a"
  shows "own key (finish_export env outcome ww now a ex) b = own key ex b"
    and "own key ex b \<Longrightarrow> x_done (the_export (finish_export env outcome ww now a ex) b) = (b = a \<or> x_done (the_export ex b))"
  using assms unfolding own_def finish_export_exports end_export_heap by (auto simp: nth_list_update)

text \<open>After the only running export of the log type ended, none runs.\<close>

lemma finished_none_running:
  assumes "log_inv su s" and "own (su_key su) (sy_exec s) a" and "\<not> x_done (the_export (sy_exec s) a)"
    and "own (su_key su) (finish_export env outcome ww now a (sy_exec s)) b"
  shows "x_done (the_export (finish_export env outcome ww now a (sy_exec s)) b)"
proof -
  have b: "own (su_key su) (sy_exec s) b" using assms(4) finish_export_own(1) [OF assms(2)] by simp
  have "b = a \<or> x_done (the_export (sy_exec s) b)"
    using log_invD(5) [OF assms(1) assms(2,3)] log_invD(5) [OF assms(1) b] by (auto simp: running_ok_def Let_def)
  then show ?thesis using finish_export_own(2) [OF assms(2) b] by simp
qed

lemma reject_inv:
  assumes "log_inv su s" and "own (su_key su) (sy_exec s) a" and "\<not> x_done (the_export (sy_exec s) a)"
    and "clean \<longrightarrow> sy_clean s \<and> rows = []"
  shows "log_inv su (s\<lparr>sy_exec := finish_export env (Some err) ww now a (sy_exec s),
    sy_accepted := sy_accepted s @ rows, sy_clean := clean\<rparr>)" (is "log_inv su ?s")
proof (rule log_invI)
  note inv = log_invD [OF assms(1)]
  have st: "ex_store (sy_exec ?s) = ex_store (sy_exec s)" by (simp add: finish_export_store)
  have kn: "known su ?s w = known su s w" for w unfolding known_def st ..
  show "table_ok (su_column su) (sy_table ?s)" using inv(1) by simp
  show "covers su ?s [] (wm_Instant w) \<and> settled su ?s (wm_Instant w)" if "known su ?s w" for w
    using covers_mono [OF inv(2) [OF that [unfolded kn]], of ?s "wm_Instant w" "[]"] inv(3) [OF that [unfolded kn]]
    by (simp add: settled_def)
  show "sy_start ?s \<le> wm_Instant (start_watermark (su_env su) (su_item su) (sy_now ?s))" using inv(4) by simp
  show "running_ok su ?s b" if "own (su_key su) (sy_exec ?s) b" "\<not> x_done (the_export (sy_exec ?s) b)" for b
    using finished_none_running [OF assms(1-3)] that by simp
  show "clean_ok su ?s" using inv(6) assms(4) unfolding clean_ok_def st kn by (auto split: option.splits)
qed

text \<open>What saving a watermark makes known.\<close>

lemma save_known:
  assumes "tmp_ok ww" and "storable w" and "Save ww key w now store = (store', e)"
  shows "sto_cache store' key = Some w"
    and "stored (sto_dir store') (sto_disk store') key \<in> {stored (sto_dir store) (sto_disk store) key, Inr (Some (round_instant w))}"
proof -
  obtain d where d: "writeFileAtomic ww (path (sto_dir store) key) (Json (watermark_file key w now)) (sto_disk store) = (d, e)"
    and s': "store' = store\<lparr>sto_cache := (sto_cache store)(key \<mapsto> w), sto_disk := d\<rparr>"
    using assms(3) by (auto simp: Save_def split: prod.splits)
  show "sto_cache store' key = Some w" by (simp add: s')
  have "d (path (sto_dir store) key) \<in> {sto_disk store (path (sto_dir store) key), Some (Json (watermark_file key w now))}"
    using d path_not_tmp [OF assms(1), of "sto_dir store" key] by (auto simp: writeFileAtomic_def Let_def split: if_splits)
  then show "stored (sto_dir store') (sto_disk store') key \<in> {stored (sto_dir store) (sto_disk store) key, Inr (Some (round_instant w))}"
    using stored_json [of d "sto_dir store" key w now] assms(2) stored_cong [of d "sto_dir store" key "sto_disk store"]
    by (auto simp: s')
qed

lemma round_instant_simps: "wm_Instant (round_instant w) \<le> wm_Instant w" "wm_Source (round_instant w) = wm_Source w"
  using time_truncate_le [of 100 "wm_Instant w"] by (simp_all add: round_instant_def)

text \<open>The invariant after the watermark moved to \<open>w\<close>.\<close>

lemma saved_inv:
  assumes inv: "log_inv su s" and ww: "tmp_ok ww" and st: "storable w"
    and sv: "fst (Save ww (su_key su) w now (ex_store (sy_exec s))) = ex_store ex"
    and src: "wm_Source w = su_source su" and hz: "wm_Instant w \<le> su_horizon su (sy_now s)"
    and cov: "covers su s rows (wm_Instant w)"
    and none: "\<And>b. own (su_key su) ex b \<Longrightarrow> x_done (the_export ex b)"
    and clean: "sy_clean s \<Longrightarrow> sy_start s \<le> wm_Instant w \<and>
      sy_accepted s @ rows = window_rows (su_column su) (sy_start s) (wm_Instant w) (sy_table s)"
  shows "log_inv su (s\<lparr>sy_exec := ex, sy_accepted := sy_accepted s @ rows\<rparr>)" (is "log_inv su ?s")
proof (rule log_invI)
  note i = log_invD [OF inv]
  obtain e where sv': "Save ww (su_key su) w now (ex_store (sy_exec s)) = (ex_store ex, e)" using sv by (metis prod.collapse)
  note k = save_known [OF ww st sv']
  have cov': "covers su ?s [] t" if "t \<le> wm_Instant w" for t by (rule covers_mono [OF cov]) (use that in simp_all)
  have old: "covers su ?s [] t" if "covers su s [] t" for t by (rule covers_mono [OF that]) simp_all
  show "table_ok (su_column su) (sy_table ?s)" using i(1) by simp
  show "covers su ?s [] (wm_Instant v) \<and> settled su ?s (wm_Instant v)" if "known su ?s v" for v
  proof -
    from that k consider "v = w" | "v = round_instant w" | "known su s v" by (auto simp: known_def)
    then show ?thesis
    proof cases
      case 3
      from i(2,3) [OF this] old show ?thesis by (simp add: settled_def)
    next
      case 2
      then have "wm_Instant v \<le> wm_Instant w" by (simp add: round_instant_simps)
      with hz cov' show ?thesis by (auto simp: settled_def)
    qed (use hz cov' in \<open>auto simp: settled_def\<close>)
  qed
  show "sy_start ?s \<le> wm_Instant (start_watermark (su_env su) (su_item su) (sy_now ?s))" using i(4) by simp
  show "running_ok su ?s b" if "own (su_key su) (sy_exec ?s) b" "\<not> x_done (the_export (sy_exec ?s) b)" for b
    using none that by simp
  show "clean_ok su ?s" using clean k(1) src by (simp add: clean_ok_def)
qed

lemma accept_inv:
  assumes "log_inv su s" and "own (su_key su) (sy_exec s) a" and "\<not> x_done (the_export (sy_exec s) a)" and "tmp_ok ww"
  shows "log_inv su (s\<lparr>sy_exec := finish_export env None ww now a (sy_exec s),
    sy_accepted := sy_accepted s @ job_rows (x_job (the_export (sy_exec s) a))\<rparr>)"
proof -
  let ?job = "x_job (the_export (sy_exec s) a)"
  have r: "running_ok su s a" by (rule log_invD(5) [OF assms(1-3)])
  have key: "job_key ?job = su_key su" using assms(2) by (simp add: own_def)
  show ?thesis
  proof (rule saved_inv [OF assms(1,4), where w = "job_next ?job" and now = now])
    show "fst (Save ww (su_key su) (job_next ?job) now (ex_store (sy_exec s))) = ex_store (finish_export env None ww now a (sy_exec s))"
      by (simp add: finish_export_store key)
    show "x_done (the_export (finish_export env None ww now a (sy_exec s)) b)"
      if "own (su_key su) (finish_export env None ww now a (sy_exec s)) b" for b
      by (rule finished_none_running [OF assms(1-3) that])
    show "sy_start s \<le> wm_Instant (job_next ?job) \<and>
        sy_accepted s @ job_rows ?job = window_rows (su_column su) (sy_start s) (wm_Instant (job_next ?job)) (sy_table s)"
      if cl: "sy_clean s"
    proof -
      obtain w0 where w0: "sto_cache (ex_store (sy_exec s)) (su_key su) = Some w0" "wm_Instant w0 \<le> wm_Instant (job_next ?job)"
        "job_rows ?job = window_rows (su_column su) (wm_Instant w0) (wm_Instant (job_next ?job)) (sy_table s)"
        using r cl by (auto simp: running_ok_def Let_def)
      from log_invD(6) [OF assms(1)] cl w0(1) have "sy_start s \<le> wm_Instant w0"
        "sy_accepted s = window_rows (su_column su) (sy_start s) (wm_Instant w0) (sy_table s)" by (simp_all add: clean_ok_def)
      with window_append [OF log_invD(1) [OF assms(1)]] w0 show ?thesis by auto
    qed
  qed (use r in \<open>simp_all add: running_ok_def Let_def\<close>)
qed

subsection \<open>Polls\<close>

lemma Load_store:
  assumes "Load readable key store = (store', r)"
  shows "sto_disk store' = sto_disk store" "sto_dir store' = sto_dir store"
    and "r = Inr (Some w) \<Longrightarrow> sto_cache store' key = Some w \<and>
      (sto_cache store key = Some w \<or> sto_cache store key = None \<and> stored (sto_dir store) (sto_disk store) key = Inr (Some w))"
proof -
  show "sto_disk store' = sto_disk store" "sto_dir store' = sto_dir store"
    using assms by (auto simp: Load_def Let_def split: option.splits if_splits file_content.splits)
  show "sto_cache store' key = Some w \<and>
      (sto_cache store key = Some w \<or> sto_cache store key = None \<and> stored (sto_dir store) (sto_disk store) key = Inr (Some w))"
    if "r = Inr (Some w)"
    using assms that
    by (auto simp: Load_def Let_def stored_def NewStore_def split: option.splits if_splits file_content.splits)
qed

text \<open>The state a batch is read from: the watermark is in memory.\<close>

lemma watermark_inv:
  assumes inv: "log_inv su s" and none: "pending_of (ex_exports (sy_exec s)) (su_key su) = None"
    and wm: "watermark (su_env su) readable (su_key su) (su_item su) (sy_now s) (ex_store (sy_exec s)) = (store, w)"
  defines "ok \<equiv> usable su readable (ex_store (sy_exec s))"
  shows "log_inv su (s\<lparr>sy_exec := (sy_exec s)\<lparr>ex_store := store\<rparr>, sy_start := (if ok then sy_start s else wm_Instant w),
      sy_clean := (if ok then sy_clean s else sy_accepted s = [])\<rparr>)" (is "log_inv su ?s")
    and "sto_cache store (su_key su) = Some w" and "wm_Source w = su_source su"
proof -
  note i = log_invD [OF inv]
  let ?st = "ex_store (sy_exec s)"
  obtain st' r where l: "Load readable (su_key su) ?st = (st', r)" by (metis surj_pair)
  note ls = Load_store [OF l]
  have idle: "\<not> (own (su_key su) (sy_exec s) a \<and> \<not> x_done (the_export (sy_exec s) a))" for a
    using i(5) [of a] none by (auto simp: running_ok_def Let_def)
  have own_s: "own (su_key su) (sy_exec ?s) a = own (su_key su) (sy_exec s) a" "the_export (sy_exec ?s) a = the_export (sy_exec s) a" for a
    by (simp_all add: own_def)
  have "log_inv su ?s \<and> sto_cache store (su_key su) = Some w \<and> wm_Source w = su_source su"
  proof (cases ok)
    case True
    then have r: "r = Inr (Some w)" "store = st'" "wm_Source w = su_source su"
      using wm l by (auto simp: ok_def usable_def watermark_def split: sum.splits option.splits if_splits)
    note lc = ls(3) [OF r(1)]
    have st: "sto_disk store = sto_disk ?st" "sto_dir store = sto_dir ?st" "sto_cache store (su_key su) = Some w" using ls lc r(2) by simp_all
    have kw: "known su s w" using lc r(3) by (auto simp: known_def)
    have kn: "known su s v" if "known su ?s v" for v using that kw st by (auto simp: known_def)
    have "log_inv su ?s"
    proof (rule log_invI)
      show "covers su ?s [] (wm_Instant v) \<and> settled su ?s (wm_Instant v)" if "known su ?s v" for v
        using i(2,3) [OF kn [OF that]] True by (simp add: covers_def settled_def)
      show "running_ok su ?s a" if "own (su_key su) (sy_exec ?s) a" "\<not> x_done (the_export (sy_exec ?s) a)" for a
        using idle [of a] that unfolding own_s by simp
      show "clean_ok su ?s" using i(6) lc kw st(3) True by (auto simp: clean_ok_def split: option.splits)
    qed (use i(1,4) True in simp_all)
    with st r show ?thesis by simp
  next
    case False
    then have w: "w = start_watermark (su_env su) (su_item su) (sy_now s)" "store = Remember (su_key su) w st'"
      using wm l by (auto simp: ok_def usable_def watermark_def split: sum.splits option.splits if_splits)
    have src: "wm_Source w = su_source su" by (simp add: w(1) start_watermark_def)
    have st: "sto_disk store = sto_disk ?st" "sto_dir store = sto_dir ?st" "sto_cache store (su_key su) = Some w"
      using ls w(2) by (simp_all add: Remember_def)
    have ge: "sy_start s \<le> wm_Instant w" using i(4) w(1) by simp
    have "log_inv su ?s"
    proof (rule log_invI)
      show "covers su ?s [] (wm_Instant v) \<and> settled su ?s (wm_Instant v)" if "known su ?s v" for v
      proof -
        from that st consider "v = w" | "known su s v" by (auto simp: known_def)
        then show ?thesis
        proof cases
          case 1
          with False show ?thesis by (simp add: covers_def settled_def window_rows_def in_window_def)
        next
          case 2
          have "covers su ?s [] (wm_Instant v)" by (rule covers_mono [OF i(2) [OF 2]]) (use ge False in simp_all)
          with i(3) [OF 2] ge False show ?thesis by (auto simp: settled_def)
        qed
      qed
      show "running_ok su ?s a" if "own (su_key su) (sy_exec ?s) a" "\<not> x_done (the_export (sy_exec ?s) a)" for a
        using idle [of a] that unfolding own_s by simp
      show "clean_ok su ?s" using st(3) src False by (simp add: clean_ok_def window_rows_def in_window_def)
    qed (use i(1) w(1) False in simp_all)
    with st src show ?thesis by simp
  qed
  then show "log_inv su ?s" "sto_cache store (su_key su) = Some w" "wm_Source w = su_source su" by blast+
qed

text \<open>The three ends of a batch: nothing to do or an error, an export of the rows of a window, and an
  empty window, whose end is saved at once.\<close>

lemma exports_simps [simp]:
  "ex_exports (on_exports f ex) = f (ex_exports ex)" "ex_store (on_exports f ex) = ex_store ex"
  "xs_heap (releaseHeld n xs) = xs_heap xs" "xs_pending (releaseHeld n xs) = xs_pending xs"
  by (simp_all add: on_exports_def releaseHeld_def)

lemma reserve_keeps:
  "reserve want held xs = (xs', granted) \<Longrightarrow> xs_heap xs' = xs_heap xs \<and> xs_pending xs' = xs_pending xs"
  by (auto simp: reserve_def Let_def split: if_splits)

lemma startExport_adds:
  obtains x where "xs_heap (fst (startExport now job xs)) = xs_heap xs @ [x]" "\<not> x_done x" "x_job x = job"
    "xs_pending (fst (startExport now job xs)) = (job_key job, length (xs_heap xs)) # filter (\<lambda>p. fst p \<noteq> job_key job) (xs_pending xs)"
proof -
  have "xs_heap (fst (collectorContext cid xs)) = xs_heap xs \<and> xs_pending (fst (collectorContext cid xs)) = xs_pending xs" for cid
    by (simp add: collectorContext_def split: option.splits)
  then show thesis by (intro that, simp add: startExport_def Let_def put_pending_def)
      (simp_all add: startExport_def Let_def put_pending_def)
qed

lemma extractBatch_cases:
  assumes ok: "setup_ok su" "table_ok (su_column su) table" "source_ok su table src"
    and e: "extractBatch (su_env su) cfg src ww now (su_item su) key w ex = (ex', w', r)"
  obtains (same) "ex_store ex' = ex_store ex" "xs_heap (ex_exports ex') = xs_heap (ex_exports ex)"
      "xs_pending (ex_exports ex') = xs_pending (ex_exports ex)"
    | (started) x where "ex_store ex' = ex_store ex" "xs_heap (ex_exports ex') = xs_heap (ex_exports ex) @ [x]"
      "xs_pending (ex_exports ex') = (key, length (xs_heap (ex_exports ex))) # filter (\<lambda>p. fst p \<noteq> key) (xs_pending (ex_exports ex))"
      "\<not> x_done x" "job_key (x_job x) = key" "job_next (x_job x) = w'"
      "job_rows (x_job x) = window_rows (su_column su) (wm_Instant w) (wm_Instant w') table"
      "wm_Source w' = wm_Source w" "wm_Instant w < wm_Instant w'" "wm_Instant w' \<le> su_horizon su now"
    | (saved) "ex_store ex' = fst (Save ww key w' now (ex_store ex))" "xs_heap (ex_exports ex') = xs_heap (ex_exports ex)"
      "xs_pending (ex_exports ex') = xs_pending (ex_exports ex)"
      "window_rows (su_column su) (wm_Instant w) (wm_Instant w') table = []"
      "wm_Source w' = wm_Source w" "wm_Instant w < wm_Instant w'" "wm_Instant w' \<le> su_horizon su now"
proof (cases "wm_Instant w < su_horizon su now")
  case False
  with e have "ex' = emit (LagSet (now - le_real (su_env su) (wm_Instant w))) ex" by (auto simp: extractBatch_def Let_def)
  then show thesis by (intro same) simp_all
next
  case True
  obtain xs granted where rs: "reserve (maxBatchBytes cfg) (maxHeldBytes cfg) (ex_exports ex) = (xs, granted)" by (metis surj_pair)
  note keep = reserve_keeps [OF rs]
  define p where "p = \<lparr>qp_From = wm_Instant w, qp_To = su_horizon su now, qp_Limit = logs_BatchLimit (sp_OutSystemsLogs (su_item su)),
    qp_MaxBytes = granted, qp_DateTime = (wm_InstantType w = ''DATETIME'')\<rparr>"
  show thesis
  proof (cases "granted = 0")
    case g: True
    with e True rs have "ex' = emit (ExportBlockedSet True) (ex\<lparr>ex_exports := xs\<rparr>)" by (auto simp: extractBatch_def Let_def)
    then show thesis using keep by (intro same) simp_all
  next
    case g: False
    note run = e [unfolded extractBatch_def Let_def rs prod.case if_not_P [OF g], folded p_def]
    show thesis
    proof (cases "src p")
      case (Inl err)
      with run True have "ex' = on_exports (releaseHeld granted) (emit (ExportBlockedSet False) (ex\<lparr>ex_exports := xs\<rparr>))"
        by auto
      then show thesis using keep by (intro same) simp_all
    next
      case (Inr batch)
      then have q: "contract_query (su_cols su) table p = Inr batch"
        using ok(3) unfolding source_ok_def by (metis sum.distinct(1) sum.inject(2))
      have c: "instant_column (su_cols su) = Some (su_column su)" "col_DatabaseType (su_cols su ! su_column su) \<in> set instant_types"
        "qp_From p < qp_To p" "0 < qp_Limit p" using ok(1) True by (simp_all add: setup_ok_def p_def)
      obtain instants where ck: "checkContract batch (qp_From p) (qp_To p) (qp_Limit p) = Inr (instants, col_DatabaseType (su_cols su ! su_column su))"
        and cut: "case cut_batch batch instants (qp_To p) (qp_Limit p) of
           None \<Rightarrow> int (length instants) = qp_Limit p \<and> (\<forall>t \<in> set instants. t = last instants)
         | Some (full, rows, ts, nxt) \<Rightarrow> rows = window_rows (su_column su) (qp_From p) nxt table \<and> ts = map (row_instant (su_column su)) rows \<and>
             qp_From p < nxt \<and> nxt \<le> qp_To p \<and> (if full then rows \<noteq> [] else nxt = qp_To p)"
        using batch_cut [OF c(1,2) ok(2) c(3,4)] q by auto
      have ps: "qp_From p = wm_Instant w" "qp_To p = su_horizon su now" "qp_Limit p = logs_BatchLimit (sp_OutSystemsLogs (su_item su))"
        by (simp_all add: p_def)
      note step = run [unfolded Inr sum.case ck [unfolded ps] prod.case] and lt = True
      show thesis
      proof (cases "cut_batch batch instants (qp_To p) (qp_Limit p)")
        case None
        with step lt ps have "ex_exports ex' = releaseHeld (b_Bytes batch) (releaseHeld (granted - b_Bytes batch) xs)" "ex_store ex' = ex_store ex"
          by auto
        then show thesis using keep by (intro same) simp_all
      next
        case (Some z)
        obtain full rows ts nxt where z: "z = (full, rows, ts, nxt)" by (metis surj_pair)
        have w: "rows = window_rows (su_column su) (wm_Instant w) nxt table" "wm_Instant w < nxt" "nxt \<le> su_horizon su now"
          using cut Some z ps by auto
        show thesis
        proof (cases "rows = []")
          case True
          have "w' = \<lparr>wm_Instant = nxt, wm_InstantType = col_DatabaseType (su_cols su ! su_column su), wm_Source = wm_Source w\<rparr>"
            "ex_store ex' = fst (Save ww key w' now (ex_store ex))"
            "ex_exports ex' = releaseHeld (b_Bytes batch) (releaseHeld (granted - b_Bytes batch) xs)"
            using step lt Some z True ps by (auto split: prod.splits option.splits)
          then show thesis using keep w True by (intro saved) simp_all
        next
          case False
          have w': "w' = \<lparr>wm_Instant = nxt, wm_InstantType = col_DatabaseType (su_cols su ! su_column su), wm_Source = wm_Source w\<rparr>"
            using step lt Some z False ps by auto
          define job where "job = \<lparr>job_item = su_item su, job_key = key,
            job_logs = buildLogs (su_env su) batch rows ts (record_context (su_item su) now), job_bytes = b_Bytes batch,
            job_rows = rows, job_instants = ts, job_next = w'\<rparr>"
          have job: "ex_store ex' = ex_store ex" "job_key job = key" "job_next job = w'" "job_rows job = rows"
            "ex_exports ex' = fst (startExport now job (releaseHeld (granted - b_Bytes batch) xs))"
            using step lt Some z False ps by (auto simp: job_def)
          obtain x where x: "xs_heap (ex_exports ex') = xs_heap xs @ [x]" "\<not> x_done x" "x_job x = job"
            "xs_pending (ex_exports ex') = (key, length (xs_heap xs)) # filter (\<lambda>p. fst p \<noteq> key) (xs_pending xs)"
            using startExport_adds [of now job "releaseHeld (granted - b_Bytes batch) xs"] job(2,5) by auto
          show thesis using keep w w' job x by (intro started [of x]) simp_all
        qed
      qed
    qed
  qed
qed

lemma idle:
  "log_inv su s \<Longrightarrow> pending_of (ex_exports (sy_exec s)) (su_key su) = None \<Longrightarrow> own (su_key su) (sy_exec s) a \<Longrightarrow>
    x_done (the_export (sy_exec s) a)"
  using log_invD(5) [of su s a] by (auto simp: running_ok_def Let_def)

lemma own_heap: "xs_heap (ex_exports ex') = xs_heap (ex_exports ex) \<Longrightarrow> own key ex' a = own key ex a \<and> the_export ex' a = the_export ex a"
  by (simp add: own_def)

text \<open>Rows up to the end of a window that starts at a known watermark.\<close>

lemma window_covers:
  assumes "covers su s [] t" and "t \<le> t'" and "table_ok (su_column su) (sy_table s)"
  shows "covers su s (window_rows (su_column su) t t' (sy_table s)) t'"
proof (cases "sy_start s \<le> t")
  case True
  have "mset (window_rows (su_column su) (sy_start s) t' (sy_table s)) =
      mset (window_rows (su_column su) (sy_start s) t (sy_table s)) + mset (window_rows (su_column su) t t' (sy_table s))"
    using window_append [OF assms(3) True assms(2)] by (metis mset_append)
  with assms(1) show ?thesis by (simp add: covers_def)
next
  case False
  then have "mset (window_rows (su_column su) (sy_start s) t' (sy_table s)) \<subseteq># mset (window_rows (su_column su) t t' (sy_table s))"
    by (intro window_mono) simp_all
  then show ?thesis unfolding covers_def by (rule subset_mset.order_trans) simp
qed

lemma started_inv:
  assumes inv: "log_inv su s" and none: "pending_of (ex_exports (sy_exec s)) (su_key su) = None"
    and k: "sto_cache (ex_store (sy_exec s)) (su_key su) = Some w" "wm_Source w = su_source su"
    and ex: "ex_store ex = ex_store (sy_exec s)" "xs_heap (ex_exports ex) = xs_heap (ex_exports (sy_exec s)) @ [x]"
      "xs_pending (ex_exports ex) = (su_key su, length (xs_heap (ex_exports (sy_exec s)))) # ps"
      "job_key (x_job x) = su_key su" "job_next (x_job x) = w'"
      "job_rows (x_job x) = window_rows (su_column su) (wm_Instant w) (wm_Instant w') (sy_table s)"
    and w': "storable w'" "wm_Source w' = wm_Source w" "wm_Instant w < wm_Instant w'" "wm_Instant w' \<le> su_horizon su (sy_now s)"
  shows "log_inv su (s\<lparr>sy_exec := ex\<rparr>)" (is "log_inv su ?s")
proof (rule log_invI)
  note i = log_invD [OF inv]
  let ?n = "length (xs_heap (ex_exports (sy_exec s)))"
  have st: "ex_store (sy_exec ?s) = ex_store (sy_exec s)" using ex(1) by simp
  have kn: "known su ?s v = known su s v" for v unfolding known_def st ..
  have c: "covers su ?s rows t = covers su s rows t" "settled su ?s t = settled su s t" for rows t
    by (simp_all add: covers_def settled_def)
  show "table_ok (su_column su) (sy_table ?s)" using i(1) by simp
  show "covers su ?s [] (wm_Instant v) \<and> settled su ?s (wm_Instant v)" if "known su ?s v" for v
    using i(2,3) [of v] that unfolding kn c by blast
  show "sy_start ?s \<le> wm_Instant (start_watermark (su_env su) (su_item su) (sy_now ?s))" using i(4) by simp
  show "clean_ok su ?s" using i(6) unfolding clean_ok_def st kn by (simp split: option.splits)
  show "running_ok su ?s a" if "own (su_key su) (sy_exec ?s) a" "\<not> x_done (the_export (sy_exec ?s) a)" for a
  proof -
    have "a = ?n"
    proof (rule ccontr)
      assume "a \<noteq> ?n"
      with that ex(2) have "own (su_key su) (sy_exec s) a" "\<not> x_done (the_export (sy_exec s) a)"
        by (auto simp: own_def nth_append)
      with idle [OF inv none] show False by blast
    qed
    moreover have "covers su s [] (wm_Instant w)" using i(2) k by (simp add: known_def)
    then have "covers su ?s (job_rows (x_job x)) (wm_Instant w')" unfolding c ex(6) using w'(3) i(1) by (intro window_covers) simp_all
    ultimately show ?thesis using ex k w' by (simp add: running_ok_def Let_def)
  qed
qed

lemma batch_inv:
  assumes inv: "log_inv su s" and ok: "setup_ok su" "source_ok su (sy_table s) src" "tmp_ok ww" "storable w'"
    and none: "pending_of (ex_exports (sy_exec s)) (su_key su) = None"
    and k: "sto_cache (ex_store (sy_exec s)) (su_key su) = Some w" "wm_Source w = su_source su"
    and e: "extractBatch (su_env su) cfg src ww (sy_now s) (su_item su) (su_key su) w (sy_exec s) = (ex, w', r)"
  shows "log_inv su (s\<lparr>sy_exec := ex\<rparr>)"
proof -
  note i = log_invD [OF inv]
  show ?thesis
    using ok(1) i(1) ok(2) e
  proof (cases rule: extractBatch_cases)
    case same
    note o = own_heap [OF same(2)]
    have "same_log (su_key su) (sy_exec s) ex" unfolding same_log_def same(1,3) by (simp add: o)
    with inv show ?thesis by (rule others_inv)
  next
    case (started x)
    show ?thesis by (rule started_inv [OF inv none k started(1-3,5-7) ok(4) started(8-10)])
  next
    case saved
    have cw: "covers su s [] (wm_Instant w)" using i(2) k by (simp add: known_def)
    have "log_inv su (s\<lparr>sy_exec := ex, sy_accepted := sy_accepted s @ []\<rparr>)"
    proof (rule saved_inv [OF inv ok(3,4) saved(1) [symmetric]])
      show "covers su s [] (wm_Instant w')" using window_covers [OF cw, of "wm_Instant w'"] i(1) saved(4,6) by simp
      show "x_done (the_export ex b)" if "own (su_key su) ex b" for b
        using idle [OF inv none, of b] that own_heap [OF saved(2), of "su_key su" b] by simp
      show "sy_start s \<le> wm_Instant w' \<and> sy_accepted s @ [] = window_rows (su_column su) (sy_start s) (wm_Instant w') (sy_table s)"
        if "sy_clean s"
      proof -
        have a: "sy_start s \<le> wm_Instant w" "sy_accepted s = window_rows (su_column su) (sy_start s) (wm_Instant w) (sy_table s)"
          using i(6) that k(1) by (simp_all add: clean_ok_def)
        show ?thesis using window_append [OF i(1) a(1), of "wm_Instant w'"] a saved(4,6) by simp
      qed
      show "wm_Source w' = su_source su" "wm_Instant w' \<le> su_horizon su (sy_now s)" using saved(5,7) k(2) by simp_all
    qed
    then show ?thesis by simp
  qed
qed

lemma poll_inv:
  assumes inv: "log_inv su s" and ok: "setup_ok su" "source_ok su (sy_table s) src" "tmp_ok ww" "storable w'"
    and none: "pending_of (ex_exports (sy_exec s)) (su_key su) = None"
    and wm: "watermark (su_env su) readable (su_key su) (su_item su) (sy_now s) (ex_store (sy_exec s)) = (store, w)"
    and e: "extractBatch (su_env su) (su_cfg su) src ww (sy_now s) (su_item su) (su_key su) w ((sy_exec s)\<lparr>ex_store := store\<rparr>) = (ex, w', r)"
  shows "log_inv su (s\<lparr>sy_exec := ex,
      sy_start := (if usable su readable (ex_store (sy_exec s)) then sy_start s else wm_Instant w),
      sy_clean := (if usable su readable (ex_store (sy_exec s)) then sy_clean s else sy_accepted s = [])\<rparr>)"
proof -
  note wi = watermark_inv [OF inv none wm]
  have upd: "(s\<lparr>sy_exec := e, sy_start := a, sy_clean := b\<rparr>)\<lparr>sy_exec := ex\<rparr> = s\<lparr>sy_exec := ex, sy_start := a, sy_clean := b\<rparr>" for e a b
    by simp
  have "log_inv su ((s\<lparr>sy_exec := (sy_exec s)\<lparr>ex_store := store\<rparr>,
      sy_start := (if usable su readable (ex_store (sy_exec s)) then sy_start s else wm_Instant w),
      sy_clean := (if usable su readable (ex_store (sy_exec s)) then sy_clean s else sy_accepted s = [])\<rparr>)\<lparr>sy_exec := ex\<rparr>)"
    by (rule batch_inv [OF wi(1) ok(1) _ ok(3,4)]) (use ok(2) none wi e in simp_all)
  then show ?thesis unfolding upd .
qed

lemma log_step_inv:
  assumes "log_step su s s'" and "setup_ok su" and "log_inv su s"
  shows "log_inv su s'"
  using assms
proof (induction rule: log_step.induct)
  case (reject s a err ww)
  from reject_inv [OF reject(4) reject(1,2), where rows = "[]" and clean = "sy_clean s"] show ?case by simp
next
  case (unacknowledged s a err ww)
  from reject_inv [OF unacknowledged(4) unacknowledged(1,2), where clean = False] show ?case by simp
qed (blast intro: commit_inv tick_inv poll_inv accept_inv report_inv others_inv crash_inv)+

lemma log_init_inv:
  assumes "log_init su s"
  shows "log_inv su s"
proof (rule log_invI)
  obtain dir d where s: "sy_exec s = new_executor (NewStore dir d)" "stored dir d (su_key su) = Inr None"
    using assms by (auto simp: log_init_def)
  have kn: "\<not> known su s w" for w using s by (simp add: known_def new_executor_def NewStore_def)
  then show "covers su s [] (wm_Instant w) \<and> settled su s (wm_Instant w)" if "known su s w" for w using that by blast
  show "table_ok (su_column su) (sy_table s)" "sy_start s \<le> wm_Instant (start_watermark (su_env su) (su_item su) (sy_now s))"
    using assms by (simp_all add: log_init_def)
  show "running_ok su s a" if "own (su_key su) (sy_exec s) a" for a
    using that s(1) by (simp add: own_def new_executor_def init_exports_def)
  show "clean_ok su s" using assms kn s(1) by (simp add: clean_ok_def log_init_def new_executor_def NewStore_def)
qed

lemma log_reachable_inv: "setup_ok su \<Longrightarrow> log_reachable su s \<Longrightarrow> log_inv su s"
  unfolding log_reachable_def
  by (metis log_init_inv log_step_inv rtranclp_induct)

section \<open>Delivery\<close>


text \<open>A log type with one row, read 95 seconds later and accepted.\<close>

definition example_setup :: log_setup where
  "example_setup =
     \<lparr>su_env = \<lparr>le_tables = ascii_tables, le_sprint = \<lambda>_. [], le_guid = \<lambda>_. None, le_parse_float = \<lambda>_. None,
        le_wall = \<lambda>t. t, le_real = \<lambda>t. t, le_sha = \<lambda>s. s\<rparr>,
      su_cfg = \<lparr>ec_MaxBatches = 0, ec_MaxBatchBytes = 0, ec_MaxHeldBytes = 0\<rparr>,
      su_item = \<lparr>sp_CollectorID = ''logs'',
        sp_Target = \<lparr>dt_ID = [], dt_EnvironmentSlug = ''prod'', dt_Name = ''db'', dt_Engine = [], dt_Host = ''h'', dt_Port = 1433,
          dt_DatabaseName = ''log'', dt_CredentialRef = []\<rparr>,
        sp_Definition = \<lparr>pdef_ID = [], pdef_Name = ''error'', pdef_Category = [], pdef_QueryTemplate = [], pdef_TimeoutMS = 0,
          pdef_MaxRows = 0, pdef_Lag = 0\<rparr>,
        sp_Assignment = \<lparr>pa_ID = [], pa_IntervalSeconds = 60\<rparr>,
        sp_OutSystemsLogs = zero_logs\<lparr>logs_Lag := 10 * ns_second, logs_BatchLimit := 100, logs_InitialLookback := 100 * ns_second\<rparr>\<rparr>,
      su_cols = [\<lparr>col_Name = ''Instant'', col_DatabaseType = ''DATETIME2''\<rparr>], su_column = 0\<rparr>"

lemma example_ok: "setup_ok example_setup"
  by (simp add: setup_ok_def example_setup_def instant_column_def columnInstant_def instant_types_def zero_logs_def mono_def)

lemma example_query:
  "contract_query (su_cols example_setup) [[ATime 5000000000]]
     \<lparr>qp_From = 0, qp_To = 90000000000, qp_Limit = 100, qp_MaxBytes = 8388608, qp_DateTime = False\<rparr> =
   Inr \<lparr>b_Columns = su_cols example_setup, b_Rows = [[ATime 5000000000]], b_Partial = False, b_Bytes = 32\<rparr>"
  by (simp add: contract_query_def readRows_def example_setup_def instant_column_def columnInstant_def window_rows_def
      in_window_def row_instant_def rowBytes_def value_bytes_def Let_def)

lemma example_poll:
  assumes "src \<lparr>qp_From = 0, qp_To = 90000000000, qp_Limit = 100, qp_MaxBytes = 8388608, qp_DateTime = False\<rparr> =
    Inr \<lparr>b_Columns = su_cols example_setup, b_Rows = [[ATime 5000000000]], b_Partial = False, b_Bytes = 32\<rparr>"
  shows "\<exists>ex job. extractBatch (su_env example_setup) (su_cfg example_setup) src ww 100000000000 (su_item example_setup)
       (su_key example_setup) \<lparr>wm_Instant = 0, wm_InstantType = [], wm_Source = su_source example_setup\<rparr> (new_executor store) =
       (ex, \<lparr>wm_Instant = 90000000000, wm_InstantType = ''DATETIME2'', wm_Source = su_source example_setup\<rparr>, Inr False) \<and>
     ex_exports ex = fst (startExport 100000000000 job (releaseHeld (8388608 - 32) (init_exports\<lparr>xs_held := 8388608\<rparr>))) \<and>
     job_key job = su_key example_setup \<and> job_rows job = [[ATime 5000000000]] \<and> ex_store ex = store \<and>
     job_next job = \<lparr>wm_Instant = 90000000000, wm_InstantType = ''DATETIME2'', wm_Source = su_source example_setup\<rparr>"
proof -
  have h: "horizon (su_env example_setup) (su_item example_setup) 100000000000 = 90000000000"
    by (simp add: horizon_def example_setup_def lag_of_def zero_logs_def ns_second_def time_truncate_def)
  have r: "reserve (maxBatchBytes (su_cfg example_setup)) (maxHeldBytes (su_cfg example_setup)) init_exports =
      (init_exports\<lparr>xs_held := 8388608\<rparr>, 8388608)"
    by (simp add: reserve_def init_exports_def maxBatchBytes_def maxHeldBytes_def example_setup_def DefaultMaxBatchBytes_def
        DefaultMaxHeldBytes_def minBatchBytes_def)
  have l: "logs_BatchLimit (sp_OutSystemsLogs (su_item example_setup)) = 100" by (simp add: example_setup_def)
  have c: "checkContract \<lparr>b_Columns = su_cols example_setup, b_Rows = [[ATime 5000000000]], b_Partial = False, b_Bytes = 32\<rparr>
      0 90000000000 100 = Inr ([5000000000], ''DATETIME2'')"
    by (simp add: checkContract_def example_setup_def instant_column_def columnInstant_def instant_types_def Let_def)
  show ?thesis unfolding extractBatch_def Let_def h l new_executor_def executor.simps r prod.case
    by (simp add: assms c cut_batch_def on_exports_def emit_def) (rule exI, rule conjI, rule refl, simp)
qed

text \<open>The first poll of a log type that has no watermark.\<close>

lemma first_poll:
  assumes "pending_of (ex_exports (sy_exec s)) (su_key su) = None" and "source_ok su (sy_table s) src" and "tmp_ok ww"
    and "watermark (su_env su) readable (su_key su) (su_item su) (sy_now s) (ex_store (sy_exec s)) = (store, w)"
    and "extractBatch (su_env su) (su_cfg su) src ww (sy_now s) (su_item su) (su_key su) w ((sy_exec s)\<lparr>ex_store := store\<rparr>) = (ex, w', r)"
    and "storable w'" and "\<not> usable su readable (ex_store (sy_exec s))" and "sy_accepted s = []"
  shows "log_step su s (s\<lparr>sy_exec := ex, sy_start := wm_Instant w, sy_clean := True\<rparr>)"
  using log_step.poll [OF assms(1-6)] assms(7,8) by simp


end
