(* ===== verification/Derived.thy ===== *)
theory Derived
  imports LogRecords ProbeTypes
begin

text \<open>
  The metrics derived from delivered log rows (\<open>collectors/outsystems/derived.go\<close>): capped label
  values, the series budget of a collector and the update of every metric from a row.  The metric
  vectors are the map from a metric and its label values to the values written to that series, in
  order; which label values Prometheus accepts is the parameter \<open>accepts\<close>.
\<close>

section \<open>Names\<close>

definition MetricOperationDuration :: string where "MetricOperationDuration = ''heartbeat_outsystems_operation_duration_seconds''"
definition MetricOperations :: string where "MetricOperations = ''heartbeat_outsystems_operations_total''"
definition MetricOperationSeconds :: string where "MetricOperationSeconds = ''heartbeat_outsystems_operation_seconds_total''"
definition MetricIntegrationDuration :: string where "MetricIntegrationDuration = ''heartbeat_outsystems_integration_duration_seconds''"
definition MetricErrors :: string where "MetricErrors = ''heartbeat_outsystems_errors_total''"
definition MetricSlowEvents :: string where "MetricSlowEvents = ''heartbeat_outsystems_slow_events_total''"
definition MetricTimerDelay :: string where "MetricTimerDelay = ''heartbeat_outsystems_timer_delay_seconds''"
definition MetricScreenState :: string where "MetricScreenState = ''heartbeat_outsystems_screen_state_bytes''"
definition MetricFrontEndOperations :: string where "MetricFrontEndOperations = ''heartbeat_outsystems_front_end_operations_total''"

lemmas metric_names = MetricOperationDuration_def MetricOperations_def MetricOperationSeconds_def MetricIntegrationDuration_def
  MetricErrors_def MetricSlowEvents_def MetricTimerDelay_def MetricScreenState_def MetricFrontEndOperations_def

definition derivedMetrics :: "string list" where
  "derivedMetrics = [MetricOperationDuration, MetricOperations, MetricOperationSeconds, MetricIntegrationDuration,
     MetricErrors, MetricSlowEvents, MetricTimerDelay, MetricScreenState, MetricFrontEndOperations]"

definition maxApplications :: nat where "maxApplications = 1000"
definition maxModules :: nat where "maxModules = 100"
definition maxOperations :: nat where "maxOperations = 100"
definition maxFrontEnds :: nat where "maxFrontEnds = 50"
definition maxIntegrationTypes :: nat where "maxIntegrationTypes = 20"
definition otherValue :: string where "otherValue = ''other''"

definition outcomeSuccess :: string where "outcomeSuccess = ''success''"
definition outcomeError :: string where "outcomeError = ''error''"

definition logTypeScreen :: string where "logTypeScreen = ''screen''"
definition logTypeMobileRequest :: string where "logTypeMobileRequest = ''mobile_request''"
definition logTypeCyclicJob :: string where "logTypeCyclicJob = ''cyclic_job''"
definition logTypeIntegration :: string where "logTypeIntegration = ''integration''"
definition logTypeGeneral :: string where "logTypeGeneral = ''general''"

definition slowEventKinds :: "(string \<times> string) list" where
  "slowEventKinds = [(''SLOWSQL'', ''sql''), (''SLOWEXTENSION'', ''extension'')]"

text \<open>Series per histogram label set: the buckets, \<open>+Inf\<close>, sum and count.\<close>

definition latencyBuckets :: "rat list" where "latencyBuckets = [1/10, 1/4, 1/2, 1, 2, 3, 5, 10, 30, 60]"
definition timerDelayBuckets :: "rat list" where "timerDelayBuckets = [1, 5, 15, 30, 60, 120, 300, 600, 1800, 3600]"
definition stateBuckets :: "rat list" where "stateBuckets = map (\<lambda>i. 1024 * 4 ^ i) [0..<8]"

definition latencySeries :: int where "latencySeries = int (length latencyBuckets) + 3"
definition timerDelaySeries :: int where "timerDelaySeries = int (length timerDelayBuckets) + 3"
definition stateSeries :: int where "stateSeries = int (length stateBuckets) + 3"

section \<open>State\<close>

record heldSeries =
  held_keys :: "string set"
  held_series :: int

record seriesBudget =
  sb_limits :: "string \<Rightarrow> int option"
  sb_held :: "string \<Rightarrow> heldSeries option"

type_synonym labelCaps = "string \<Rightarrow> string list option"
type_synonym series = "string \<times> string list"

record derived =
  dr_vecs :: "series \<Rightarrow> float64 list option"
  dr_series :: "string \<Rightarrow> int option"
  dr_overflow :: "string \<times> string \<Rightarrow> nat option"
  dr_caps :: labelCaps
  dr_budget :: seriesBudget

definition newSeriesBudget :: seriesBudget where
  "newSeriesBudget = \<lparr>sb_limits = \<lambda>_. None, sb_held = \<lambda>_. None\<rparr>"

definition newDerived :: derived where
  "newDerived = \<lparr>dr_vecs = \<lambda>_. None, dr_series = \<lambda>_. None, dr_overflow = \<lambda>_. None, dr_caps = \<lambda>_. None,
     dr_budget = newSeriesBudget\<rparr>"

section \<open>The series budget\<close>

definition budget_limit :: "seriesBudget \<Rightarrow> string \<Rightarrow> int" where
  "budget_limit b cid = (case sb_limits b cid of Some n \<Rightarrow> if n > 0 then n else DefaultLogMaxDerivedSeries
     | None \<Rightarrow> DefaultLogMaxDerivedSeries)"

definition budget_used :: "seriesBudget \<Rightarrow> string \<Rightarrow> int" where
  "budget_used b cid = (case sb_held b cid of Some h \<Rightarrow> held_series h | None \<Rightarrow> 0)"

definition sep :: char where "sep = CHR 0xFF"

definition keyOf :: "string \<Rightarrow> string list \<Rightarrow> string" where
  "keyOf metric values = metric @ concat (map (\<lambda>v. sep # v) values)"

definition is_held :: "seriesBudget \<Rightarrow> string \<Rightarrow> string \<Rightarrow> bool" where
  "is_held b cid key = (case sb_held b cid of Some h \<Rightarrow> key \<in> held_keys h | None \<Rightarrow> False)"

text \<open>The bits of \<open>fresh\<close> are a list, one for each label set.\<close>

definition admit :: "string \<Rightarrow> string \<Rightarrow> int \<Rightarrow> string list list \<Rightarrow> seriesBudget \<Rightarrow> seriesBudget \<times> bool list \<times> bool" where
  "admit cid metric cost sets b =
     (let fresh = map (\<lambda>set. \<not> is_held b cid (keyOf metric set)) sets;
          need = cost * int (length (filter id fresh));
          none = map (\<lambda>_. False) sets in
      if \<not> list_ex id fresh then (b, none, True)
      else if budget_used b cid + need > budget_limit b cid then (b, none, False)
      else
        let h = (case sb_held b cid of Some h \<Rightarrow> h | None \<Rightarrow> \<lparr>held_keys = {}, held_series = 0\<rparr>);
            h = h\<lparr>held_keys := held_keys h \<union> set (map (keyOf metric \<circ> snd) (filter fst (zip fresh sets))),
                  held_series := held_series h + need\<rparr> in
        (b\<lparr>sb_held := (sb_held b)(cid \<mapsto> h)\<rparr>, fresh, True))"

definition budget_release :: "string \<Rightarrow> string \<Rightarrow> int \<Rightarrow> string list \<Rightarrow> seriesBudget \<Rightarrow> seriesBudget" where
  "budget_release cid metric cost values b =
     (case sb_held b cid of
        None \<Rightarrow> b
      | Some h \<Rightarrow>
          if keyOf metric values \<in> held_keys h then
            b\<lparr>sb_held := (sb_held b)(cid \<mapsto>
              h\<lparr>held_keys := held_keys h - {keyOf metric values}, held_series := held_series h - cost\<rparr>)\<rparr>
          else b)"

definition budget_forget :: "string \<Rightarrow> seriesBudget \<Rightarrow> seriesBudget" where
  "budget_forget cid b = \<lparr>sb_limits = (sb_limits b)(cid := None), sb_held = (sb_held b)(cid := None)\<rparr>"

section \<open>Label caps\<close>

definition scope_key :: "string list \<Rightarrow> string" where
  "scope_key scope = (case scope of [] \<Rightarrow> [] | s # ss \<Rightarrow> s @ concat (map (\<lambda>x. CHR 0x00 # x) ss))"

definition caps_value :: "nat \<Rightarrow> string \<Rightarrow> string list \<Rightarrow> labelCaps \<Rightarrow> labelCaps \<times> string" where
  "caps_value limit v scope seen =
     (let key = scope_key scope; values = (case seen key of Some vs \<Rightarrow> vs | None \<Rightarrow> []); seen = seen(key \<mapsto> values) in
      if v \<in> set values then (seen, v)
      else if limit \<le> length values then (seen, otherValue)
      else (seen(key \<mapsto> v # values), v))"

definition caps_forget :: "string \<Rightarrow> labelCaps \<Rightarrow> labelCaps" where
  "caps_forget cid seen = (\<lambda>key. if key = cid \<or> has_prefix key (cid @ [CHR 0x00]) then None else seen key)"

section \<open>Writes\<close>

type_synonym acceptance = "string \<Rightarrow> string list \<Rightarrow> bool"

definition MetricDerivedSeries :: string where "MetricDerivedSeries = ''heartbeat_outsystems_derived_series''"
definition MetricDerivedSeriesOverflow :: string where
  "MetricDerivedSeriesOverflow = ''heartbeat_outsystems_derived_series_overflow_total''"

definition setSeriesLocked :: "acceptance \<Rightarrow> string \<Rightarrow> derived \<Rightarrow> derived" where
  "setSeriesLocked accepts cid d =
     (if accepts MetricDerivedSeries [cid] then d\<lparr>dr_series := (dr_series d)(cid \<mapsto> budget_used (dr_budget d) cid)\<rparr> else d)"

definition the_overflow :: "derived \<Rightarrow> string \<Rightarrow> string \<Rightarrow> nat" where
  "the_overflow d cid metric = (case dr_overflow d (cid, metric) of Some n \<Rightarrow> n | None \<Rightarrow> 0)"

definition admitLocked :: "acceptance \<Rightarrow> string \<Rightarrow> int \<Rightarrow> string list list \<Rightarrow> derived \<Rightarrow> derived \<times> bool list \<times> bool" where
  "admitLocked accepts metric cost sets d =
     (let cid = hd (hd sets) in
      case admit cid metric cost sets (dr_budget d) of (b, fresh, ok) \<Rightarrow>
        let d = d\<lparr>dr_budget := b\<rparr> in
        (if \<not> ok then
           (if accepts MetricDerivedSeriesOverflow [cid, metric] then
              d\<lparr>dr_overflow := (dr_overflow d)((cid, metric) \<mapsto> the_overflow d cid metric + 1)\<rparr> else d)
         else if list_ex id fresh then setSeriesLocked accepts cid d else d, fresh, ok))"

definition releaseLocked :: "acceptance \<Rightarrow> string \<Rightarrow> int \<Rightarrow> bool \<Rightarrow> string list \<Rightarrow> derived \<Rightarrow> derived" where
  "releaseLocked accepts metric cost fresh values d =
     (if \<not> fresh then d
      else setSeriesLocked accepts (hd values) (d\<lparr>dr_budget := budget_release (hd values) metric cost values (dr_budget d)\<rparr>))"

text \<open>The series of a vector, created when it is missing, with values written to it.\<close>

definition write_series :: "string \<Rightarrow> string list \<Rightarrow> float64 list \<Rightarrow> derived \<Rightarrow> derived" where
  "write_series metric values vs d =
     d\<lparr>dr_vecs := (dr_vecs d)((metric, values) \<mapsto> (case dr_vecs d (metric, values) of Some old \<Rightarrow> old | None \<Rightarrow> []) @ vs)\<rparr>"

text \<open>\<open>count\<close> (cost 1) and \<open>observeValue\<close>.\<close>

definition observeValue :: "acceptance \<Rightarrow> string \<Rightarrow> int \<Rightarrow> string list \<Rightarrow> float64 \<Rightarrow> derived \<Rightarrow> derived" where
  "observeValue accepts metric cost values v d =
     (case admitLocked accepts metric cost [values] d of (d, fresh, ok) \<Rightarrow>
        if \<not> ok then d
        else if accepts metric values then write_series metric values [v] d
        else releaseLocked accepts metric cost (hd fresh) values d)"

definition count_row :: "acceptance \<Rightarrow> string \<Rightarrow> string list \<Rightarrow> float64 \<Rightarrow> derived \<Rightarrow> derived" where
  "count_row accepts metric values v d =
     (case admitLocked accepts metric 1 [values] d of (d, fresh, ok) \<Rightarrow>
        if \<not> ok then d
        else if accepts metric values then write_series metric values [v] d
        else releaseLocked accepts metric 1 (hd fresh) values d)"

definition count_set :: "acceptance \<Rightarrow> string \<Rightarrow> string \<Rightarrow> bool \<times> string list \<Rightarrow> derived \<Rightarrow> derived" where
  "count_set accepts metric outcome = (\<lambda>(fresh, set) d.
     if accepts metric set then write_series metric set (if last set = outcome then [Finite 1] else []) d
     else releaseLocked accepts metric 1 fresh set d)"

definition countOutcome :: "acceptance \<Rightarrow> string \<Rightarrow> string list \<Rightarrow> string \<Rightarrow> derived \<Rightarrow> derived" where
  "countOutcome accepts metric values outcome d =
     (let sets = [values @ [outcomeSuccess], values @ [outcomeError]] in
      case admitLocked accepts metric 1 sets d of (d, fresh, ok) \<Rightarrow>
        if \<not> ok then d else fold (count_set accepts metric outcome) (zip fresh sets) d)"

section \<open>Rows\<close>

definition column_number :: "log_env \<Rightarrow> goany \<Rightarrow> float64 option" where
  "column_number env v =
     (case v of
        AInt i \<Rightarrow> Some (fl_int i)
      | AFloat f \<Rightarrow> Some f
      | ABytes s \<Rightarrow> le_parse_float env (trim_space s)
      | AText s \<Rightarrow> le_parse_float env (trim_space s)
      | _ \<Rightarrow> None)"

text \<open>\<open>v < 0\<close>, false for NaN, and the quotient by 1000.\<close>

fun negative :: "float64 \<Rightarrow> bool" where
  "negative (Finite x) = (x < 0)"
| "negative (Infinity s) = (\<not> s)"
| "negative NaN = False"

fun per_thousand :: "float64 \<Rightarrow> float64" where
  "per_thousand (Finite x) = fl (x / 1000)"
| "per_thousand v = v"

definition duration_seconds :: "log_env \<Rightarrow> goany \<Rightarrow> float64 option" where
  "duration_seconds env v =
     (case column_number env v of None \<Rightarrow> None | Some ms \<Rightarrow> if negative ms then None else Some (per_thousand ms))"

definition labelText :: "log_env \<Rightarrow> goany \<Rightarrow> string" where
  "labelText env v = (let s = trim_space (optionalText env v) in if s \<noteq> [] then s else unknownService)"

definition is_true :: "goany \<Rightarrow> bool" where
  "is_true v = (case v of ABool b \<Rightarrow> b | _ \<Rightarrow> False)"

definition isEntryPoint :: "string \<Rightarrow> goany \<Rightarrow> bool" where
  "isEntryPoint logType isExpose =
     (if logType = logTypeScreen \<or> logType = logTypeMobileRequest \<or> logType = logTypeCyclicJob then True
      else if logType = logTypeIntegration then is_true isExpose else False)"

definition rowOutcome :: "log_env \<Rightarrow> goany \<Rightarrow> goany \<Rightarrow> string \<Rightarrow> string" where
  "rowOutcome env errorID rawSeverity logType =
     (let linked = (case errorID of ANil \<Rightarrow> False | AInt i \<Rightarrow> i \<noteq> 0
            | v \<Rightarrow> let s = trim_space (textOf env v) in s \<noteq> [] \<and> s \<noteq> ''0'') in
      if linked then outcomeError
      else if fst (severity env rawSeverity logType) \<ge> 17 then outcomeError else outcomeSuccess)"

definition on_caps :: "nat \<Rightarrow> string \<Rightarrow> string list \<Rightarrow> derived \<Rightarrow> derived \<times> string" where
  "on_caps limit v scope d = (case caps_value limit v scope (dr_caps d) of (seen, s) \<Rightarrow> (d\<lparr>dr_caps := seen\<rparr>, s))"

text \<open>The switch on the log type.\<close>

definition observe_type :: "acceptance \<Rightarrow> log_env \<Rightarrow> string \<Rightarrow> string \<Rightarrow> (string \<Rightarrow> goany) \<Rightarrow> gotime \<Rightarrow> string list \<Rightarrow>
    string \<Rightarrow> string \<Rightarrow> string \<Rightarrow> float64 option \<Rightarrow> derived \<Rightarrow> derived" where
  "observe_type accepts env cid logType val instant base application modul outcome dur d =
     (if logType = errorLogType then count_row accepts MetricErrors (base @ [modul]) (Finite 1) d
      else if logType = logTypeGeneral then
        (case map_of slowEventKinds (to_upper (le_tables env) (trim_space (optionalText env (val columnModule)))) of
           Some kind \<Rightarrow> count_row accepts MetricSlowEvents (base @ [modul, kind]) (Finite 1) d
         | None \<Rightarrow> d)
      else if logType = logTypeIntegration then
        let direction = (if is_true (val ''Is_Expose'') then ''expose'' else ''consume'') in
        (case on_caps maxIntegrationTypes (labelText env (val ''Type'')) [cid, ''type''] d of (d, kind) \<Rightarrow>
          (case dur of
             Some v \<Rightarrow> observeValue accepts MetricIntegrationDuration latencySeries (base @ [direction, kind, outcome]) v d
           | None \<Rightarrow> d))
      else if logType = logTypeCyclicJob then
        (case val ''Should_Have_Run_At'' of
           ATime planned \<Rightarrow>
             if planned = 0 then d
             else
               let delay = seconds (time_sub instant planned); delay = (if negative delay then Finite 0 else delay) in
               (case on_caps maxOperations (labelText env (val ''Action_Name'')) [cid, ''operation'', application, logType] d of (d, operation) \<Rightarrow>
                 observeValue accepts MetricTimerDelay timerDelaySeries (base @ [operation]) delay d)
         | _ \<Rightarrow> d)
      else if logType = logTypeScreen then
        fold (\<lambda>(column, kind) d.
            case column_number env (val column) of
              Some bytes \<Rightarrow> if nonneg bytes then observeValue accepts MetricScreenState stateSeries (base @ [modul, kind]) bytes d else d
            | None \<Rightarrow> d)
          [(''Session_Bytes'', ''session''), (''Viewstate_Bytes'', ''viewstate'')] d
      else d)"

text \<open>What follows the switch for entry points.\<close>

definition observe_entry :: "acceptance \<Rightarrow> log_env \<Rightarrow> string \<Rightarrow> string \<Rightarrow> (string \<Rightarrow> goany) \<Rightarrow> string list \<Rightarrow>
    string \<Rightarrow> string \<Rightarrow> string \<Rightarrow> float64 option \<Rightarrow> derived \<Rightarrow> derived" where
  "observe_entry accepts env cid logType val base application modul outcome dur d =
     (let column = (if logType = logTypeScreen then ''Screen'' else ''Action_Name'') in
      case on_caps maxOperations (labelText env (val column)) [cid, ''operation'', application, logType] d of (d, operation) \<Rightarrow>
        let d = countOutcome accepts MetricOperations (base @ [modul, logType, operation]) outcome d;
            d = (case dur of
                None \<Rightarrow> d
              | Some v \<Rightarrow>
                  count_row accepts MetricOperationSeconds (base @ [modul, logType, operation]) v
                    (observeValue accepts MetricOperationDuration latencySeries (base @ [modul, logType, outcome]) v d));
            server = labelText env (val ''Server'') in
        if server \<noteq> unknownService then
          (case on_caps maxFrontEnds server [cid, ''front_end''] d of (d, frontEnd) \<Rightarrow>
            countOutcome accepts MetricFrontEndOperations (base @ [frontEnd]) outcome d)
        else d)"

definition observe_row :: "acceptance \<Rightarrow> log_env \<Rightarrow> ScheduledProbe \<Rightarrow> Column list \<Rightarrow> row \<times> gotime \<Rightarrow> derived \<Rightarrow> derived" where
  "observe_row accepts env item cols = (\<lambda>(row, instant) d.
     let val = column_value cols row; logType = probe_name item; cid = sp_CollectorID item in
     case on_caps maxApplications (firstText env [val columnApplication, val columnEspace, val columnModule]) [cid, ''application''] d of
       (d, application) \<Rightarrow>
     (case on_caps maxModules (labelText env (val columnEspace)) [cid, ''module'', application] d of (d, modul) \<Rightarrow>
       let base = [cid, dt_EnvironmentSlug (sp_Target item), application];
           outcome = rowOutcome env (val ''Error_Id'') (val columnSeverity) logType;
           dur = duration_seconds env (val ''Duration'');
           d = observe_type accepts env cid logType val instant base application modul outcome dur d in
       if isEntryPoint logType (val ''Is_Expose'') then
         observe_entry accepts env cid logType val base application modul outcome dur d
       else d))"

definition observe :: "acceptance \<Rightarrow> log_env \<Rightarrow> ScheduledProbe \<Rightarrow> Batch \<Rightarrow> row list \<Rightarrow> gotime list \<Rightarrow> derived \<Rightarrow> derived" where
  "observe accepts env item batch rows instants d =
     fold (observe_row accepts env item (b_Columns batch)) (zip rows instants) d"

section \<open>Collectors\<close>

definition derived_init :: "acceptance \<Rightarrow> CollectorRuntimeConfig \<Rightarrow> derived \<Rightarrow> derived" where
  "derived_init accepts c d =
     (let b = dr_budget d;
          d = d\<lparr>dr_budget := b\<lparr>sb_limits := (sb_limits b)(coll_ID c \<mapsto> logs_MaxDerivedSeries (coll_OutSystemsLogs c))\<rparr>\<rparr>;
          d = setSeriesLocked accepts (coll_ID c) d in
      fold (\<lambda>m d. if accepts MetricDerivedSeriesOverflow [coll_ID c, m]
          then d\<lparr>dr_overflow := (dr_overflow d)((coll_ID c, m) \<mapsto> the_overflow d (coll_ID c) m)\<rparr> else d)
        derivedMetrics d)"

definition derived_forget :: "string \<Rightarrow> derived \<Rightarrow> derived" where
  "derived_forget cid d =
     \<lparr>dr_vecs = (\<lambda>(m, vs). if vs \<noteq> [] \<and> hd vs = cid then None else dr_vecs d (m, vs)),
      dr_series = (dr_series d)(cid := None),
      dr_overflow = (\<lambda>(c, m). if c = cid then None else dr_overflow d (c, m)),
      dr_caps = caps_forget cid (dr_caps d), dr_budget = budget_forget cid (dr_budget d)\<rparr>"

section \<open>Accounting\<close>

definition series_cost :: "string \<Rightarrow> int" where
  "series_cost m = (if m = MetricOperationDuration \<or> m = MetricIntegrationDuration then latencySeries
     else if m = MetricTimerDelay then timerDelaySeries else if m = MetricScreenState then stateSeries else 1)"

definition created :: "derived \<Rightarrow> string \<Rightarrow> series set" where
  "created d cid = {(m, vs). dr_vecs d (m, vs) \<noteq> None \<and> vs \<noteq> [] \<and> hd vs = cid}"

abbreviation series_key :: "series \<Rightarrow> string" where "series_key \<equiv> \<lambda>(m, vs). keyOf m vs"
abbreviation total_cost :: "series set \<Rightarrow> int" where "total_cost S \<equiv> \<Sum>x \<in> S. series_cost (fst x)"

definition keys_of :: "seriesBudget \<Rightarrow> string \<Rightarrow> string set" where
  "keys_of b cid = (case sb_held b cid of Some h \<Rightarrow> held_keys h | None \<Rightarrow> {})"

text \<open>The budget counts the series of a collector and those of \<open>P\<close>, which are admitted but not yet
  created or given back.\<close>

definition tally :: "derived \<Rightarrow> string \<Rightarrow> series set \<Rightarrow> bool" where
  "tally d cid P \<longleftrightarrow> (let S = created d cid \<union> P in
     finite S \<and> created d cid \<inter> P = {} \<and> inj_on series_key S \<and> keys_of (dr_budget d) cid = series_key ` S \<and>
     budget_used (dr_budget d) cid = total_cost S)"

definition plain :: "series \<Rightarrow> bool" where
  "plain x \<longleftrightarrow> sep \<notin> set (fst x) \<and> list_all (\<lambda>v. sep \<notin> set v) (snd x)"

lemma keyOf_inject:
  "plain (m, vs) \<Longrightarrow> plain (m', vs') \<Longrightarrow> keyOf m vs = keyOf m' vs' \<Longrightarrow> m = m' \<and> vs = vs'"
proof (induction vs arbitrary: m m' vs')
  case Nil
  have "sep \<notin> set (keyOf m' vs')" using Nil(1) unfolding Nil(3) [symmetric] by (simp add: keyOf_def plain_def)
  then have "vs' = []" by (cases vs') (simp_all add: keyOf_def)
  with Nil(3) show ?case by (simp add: keyOf_def)
next
  case (Cons v vs)
  have "sep \<in> set (keyOf m' vs')" unfolding Cons.prems(3) [symmetric] by (simp add: keyOf_def)
  with Cons.prems(2) obtain u us where u: "vs' = u # us" by (cases vs') (simp_all add: keyOf_def plain_def)
  have "m @ sep # keyOf v vs = m' @ sep # keyOf u us" using Cons.prems(3) u by (simp add: keyOf_def)
  from split_at_char [OF _ _ this] Cons.prems(1,2) have "m = m'" "keyOf v vs = keyOf u us" by (auto simp: plain_def)
  moreover have "plain (v, vs)" "plain (u, us)" using Cons.prems(1,2) u by (auto simp: plain_def)
  ultimately show ?case using Cons.IH u by blast
qed

lemma created_budget [simp]:
  "created (d\<lparr>dr_budget := b\<rparr>) = created d" "created (d\<lparr>dr_series := g\<rparr>) = created d" "created (d\<lparr>dr_overflow := o'\<rparr>) = created d"
  "created (d\<lparr>dr_caps := c\<rparr>) = created d"
  by (simp_all add: created_def fun_eq_iff)

lemma setSeries_simps [simp]:
  "dr_vecs (setSeriesLocked accepts cid d) = dr_vecs d" "dr_budget (setSeriesLocked accepts cid d) = dr_budget d"
  "created (setSeriesLocked accepts cid d) = created d"
  by (simp_all add: setSeriesLocked_def)

text \<open>Admission counts the new series.\<close>

lemma admit_alt:
  fixes b cid m sets
  defines "fresh \<equiv> \<lambda>vs. keyOf m vs \<notin> keys_of b cid"
  shows "admit cid m cost sets b =
    (let new = filter fresh sets in
     if new = [] then (b, map (\<lambda>_. False) sets, True)
     else if budget_used b cid + cost * int (length new) > budget_limit b cid then (b, map (\<lambda>_. False) sets, False)
     else (b\<lparr>sb_held := (sb_held b)(cid \<mapsto> \<lparr>held_keys = keys_of b cid \<union> keyOf m ` set new,
         held_series = budget_used b cid + cost * int (length new)\<rparr>)\<rparr>, map fresh sets, True))"
proof -
  have held: "is_held b cid key = (key \<in> keys_of b cid)" for key by (simp add: is_held_def keys_of_def split: option.splits)
  have len: "length (filter id (map fresh sets)) = length (filter fresh sets)" by (simp add: filter_map)
  have new: "set (map (keyOf m \<circ> snd) (filter fst (zip (map fresh sets) sets))) = keyOf m ` set (filter fresh sets)"
    by (induction sets) auto
  have ex: "list_ex id (map fresh sets) \<longleftrightarrow> filter fresh sets \<noteq> []" by (induction sets) auto
  have h: "(case sb_held b cid of Some h \<Rightarrow> h | None \<Rightarrow> \<lparr>held_keys = {}, held_series = 0\<rparr>) =
      \<lparr>held_keys = keys_of b cid, held_series = budget_used b cid\<rparr>"
    by (simp add: keys_of_def budget_used_def split: option.splits)
  have f: "(\<lambda>vs. \<not> is_held b cid (keyOf m vs)) = fresh" by (simp add: fun_eq_iff held fresh_def)
  show ?thesis unfolding admit_def Let_def f len new ex h by simp
qed

lemma admit_tally:
  assumes t: "tally d cid {}" and a: "admit cid m (series_cost m) sets (dr_budget d) = (b, fresh, True)"
    and cid: "list_all (\<lambda>vs. vs \<noteq> [] \<and> hd vs = cid) sets" and dist: "distinct (map (keyOf m) sets)"
  defines "new \<equiv> filter (\<lambda>vs. keyOf m vs \<notin> keys_of (dr_budget d) cid) sets"
  shows "tally (d\<lparr>dr_budget := b\<rparr>) cid (Pair m ` set new)"
    and "fresh = map (\<lambda>vs. vs \<in> set new) sets"
proof -
  show "fresh = map (\<lambda>vs. vs \<in> set new) sets"
    using a by (auto simp: admit_alt Let_def new_def filter_empty_conv split: if_splits)
  let ?S = "created d cid"
  have S: "finite ?S" "inj_on series_key ?S" "keys_of (dr_budget d) cid = series_key ` ?S" "budget_used (dr_budget d) cid = total_cost ?S"
    using t by (simp_all add: tally_def Let_def)
  have dn: "distinct (map (keyOf m) new)" using dist by (simp add: new_def distinct_map_filter)
  have nk: "keyOf m vs \<notin> series_key ` ?S" if "vs \<in> set new" for vs using that by (simp add: new_def S(3))
  have disj: "?S \<inter> Pair m ` set new = {}" using nk by force
  have inj: "inj_on series_key (?S \<union> Pair m ` set new)"
  proof (rule inj_on_Un [THEN iffD2], intro conjI)
    show "inj_on series_key (Pair m ` set new)" using dn by (auto simp: inj_on_def distinct_map)
    have K: "K \<inter> keyOf m ` set new = {}" if "\<And>vs. vs \<in> set new \<Longrightarrow> keyOf m vs \<notin> K" for K using that by blast
    have "series_key ` ?S \<inter> series_key ` Pair m ` set new = {}" using K [OF nk] by (simp add: image_image)
    then show "series_key ` (?S - Pair m ` set new) \<inter> series_key ` (Pair m ` set new - ?S) = {}" by blast
  qed (rule S(2))
  have cost: "total_cost (?S \<union> Pair m ` set new) = total_cost ?S + series_cost m * int (length new)"
  proof -
    have "distinct new" using dn by (simp add: distinct_map)
    then have "total_cost (Pair m ` set new) = series_cost m * int (length new)"
      by (subst sum.reindex) (simp_all add: inj_on_def distinct_card)
    then show ?thesis using S(1) disj by (subst sum.union_disjoint) simp_all
  qed
  have b: "keys_of b cid = keys_of (dr_budget d) cid \<union> keyOf m ` set new"
    "budget_used b cid = budget_used (dr_budget d) cid + series_cost m * int (length new)"
  proof -
    have set: "keys_of (c\<lparr>sb_held := (sb_held c)(cid \<mapsto> h)\<rparr>) cid = held_keys h" "budget_used (c\<lparr>sb_held := (sb_held c)(cid \<mapsto> h)\<rparr>) cid = held_series h" for c h
      by (simp_all add: keys_of_def budget_used_def)
    note a' = a [unfolded admit_alt Let_def, folded new_def]
    show "keys_of b cid = keys_of (dr_budget d) cid \<union> keyOf m ` set new"
      "budget_used b cid = budget_used (dr_budget d) cid + series_cost m * int (length new)"
      using a' set by (auto split: if_splits)
  qed
  show "tally (d\<lparr>dr_budget := b\<rparr>) cid (Pair m ` set new)"
    unfolding tally_def Let_def using S(1) disj inj cost b S(3,4) by (auto simp: image_Un image_image)
qed

lemma admit_keeps:
  assumes a: "admit cid m cost sets b = (b', fresh, ok)"
  shows "\<not> ok \<or> \<not> list_ex id fresh \<Longrightarrow> b' = b" and "c \<noteq> cid \<Longrightarrow> sb_held b' c = sb_held b c" and "sb_limits b' = sb_limits b"
    and "budget_used b cid \<le> budget_limit b cid \<Longrightarrow> budget_used b' cid \<le> budget_limit b' cid"
  using a by (auto simp: admit_alt Let_def list_ex_iff filter_empty_conv budget_used_def budget_limit_def split: if_splits option.splits)

lemma write_created:
  "vs \<noteq> [] \<Longrightarrow> hd vs = cid \<Longrightarrow> created (write_series m vs xs d) c = (if c = cid then insert (m, vs) (created d c) else created d c)"
  by (auto simp: created_def write_series_def)

lemma write_simps [simp]:
  "dr_budget (write_series m vs xs d) = dr_budget d" "dr_series (write_series m vs xs d) = dr_series d"
  by (simp_all add: write_series_def)

lemma write_tally:
  assumes "tally d cid P" and "vs \<noteq> []" "hd vs = cid" and "(m, vs) \<in> created d cid \<union> P"
  shows "tally (write_series m vs xs d) cid (P - {(m, vs)})"
proof -
  have "insert (m, vs) (created d cid) \<union> (P - {(m, vs)}) = created d cid \<union> P" using assms(4) by auto
  moreover have "insert (m, vs) (created d cid) \<inter> (P - {(m, vs)}) = {}" using assms(1) by (auto simp: tally_def Let_def)
  ultimately show ?thesis using assms(1) by (simp add: tally_def Let_def write_created assms(2,3))
qed

lemma release_tally:
  assumes t: "tally d cid P" and p: "(m, vs) \<in> P" and c: "hd vs = cid"
  shows "tally (d\<lparr>dr_budget := budget_release cid m (series_cost m) vs (dr_budget d)\<rparr>) cid (P - {(m, vs)})"
proof -
  let ?S = "created d cid \<union> P" and ?b = "budget_release cid m (series_cost m) vs (dr_budget d)"
  have S: "finite ?S" "created d cid \<inter> P = {}" "inj_on series_key ?S" "keys_of (dr_budget d) cid = series_key ` ?S"
    "budget_used (dr_budget d) cid = total_cost ?S" using t by (simp_all add: tally_def Let_def)
  have eq: "created d cid \<union> (P - {(m, vs)}) = ?S - {(m, vs)}" using S(2) p by auto
  have key: "keyOf m vs \<in> keys_of (dr_budget d) cid" unfolding S(4) using p by force
  then obtain h where h: "sb_held (dr_budget d) cid = Some h" "keyOf m vs \<in> held_keys h"
    by (auto simp: keys_of_def split: option.splits)
  have k: "keys_of ?b cid = keys_of (dr_budget d) cid - {keyOf m vs}" "budget_used ?b cid = budget_used (dr_budget d) cid - series_cost m"
    using h by (simp_all add: budget_release_def keys_of_def budget_used_def)
  have img: "series_key ` (?S - {(m, vs)}) = series_key ` ?S - {keyOf m vs}"
    using inj_on_image_set_diff [OF S(3), of ?S "{(m, vs)}"] p by auto
  have cost: "total_cost (?S - {(m, vs)}) = total_cost ?S - series_cost m" using p S(1) by (simp add: sum_diff1)
  show ?thesis unfolding tally_def Let_def created_budget eq
    using S k img cost by (auto intro: inj_on_subset)
qed

definition gauge_ok :: "acceptance \<Rightarrow> derived \<Rightarrow> string \<Rightarrow> bool" where
  "gauge_ok accepts d cid \<longleftrightarrow> dr_series d cid = None \<or>
     accepts MetricDerivedSeries [cid] \<and> dr_series d cid = Some (budget_used (dr_budget d) cid)"

definition vec_ok :: "derived \<Rightarrow> bool" where
  "vec_ok d \<longleftrightarrow> (\<forall>x vs. dr_vecs d x = Some vs \<longrightarrow> plain x \<and> list_all (\<lambda>v. \<not> negative v) vs)"

definition derived_inv :: "acceptance \<Rightarrow> derived \<Rightarrow> bool" where
  "derived_inv accepts d \<longleftrightarrow> vec_ok d \<and> (\<forall>c. tally d c {} \<and> gauge_ok accepts d c \<and>
     budget_used (dr_budget d) c \<le> budget_limit (dr_budget d) c)"

text \<open>Prometheus rejects label values that are not valid UTF-8, so none with the separator byte.\<close>

definition prom_utf8 :: "acceptance \<Rightarrow> bool" where
  "prom_utf8 accepts \<longleftrightarrow> (\<forall>m vs. accepts m vs \<longrightarrow> list_all (\<lambda>v. sep \<notin> set v) vs)"

section \<open>Writes keep the account\<close>

text \<open>The two ways a write ends for one admitted label set.\<close>

definition put :: "acceptance \<Rightarrow> string \<Rightarrow> int \<Rightarrow> (string list \<Rightarrow> float64 list) \<Rightarrow> bool \<times> string list \<Rightarrow> derived \<Rightarrow> derived" where
  "put accepts m cost xs = (\<lambda>(fresh, vs) d.
     if accepts m vs then write_series m vs (xs vs) d else releaseLocked accepts m cost fresh vs d)"

definition put_all :: "acceptance \<Rightarrow> string \<Rightarrow> int \<Rightarrow> string list list \<Rightarrow> (string list \<Rightarrow> float64 list) \<Rightarrow> derived \<Rightarrow> derived" where
  "put_all accepts m cost sets xs d =
     (case admitLocked accepts m cost sets d of (d, fresh, ok) \<Rightarrow>
        if \<not> ok then d else fold (put accepts m cost xs) (zip fresh sets) d)"

lemma admitLocked_length: "admitLocked accepts m cost sets d = (d', fresh, ok) \<Longrightarrow> length fresh = length sets"
  by (auto simp: admitLocked_def admit_def Let_def split: prod.splits if_splits)

lemma writes_put_all:
  "observeValue accepts m cost vs v d = put_all accepts m cost [vs] (\<lambda>_. [v]) d"
  "count_row accepts m vs v d = put_all accepts m 1 [vs] (\<lambda>_. [v]) d"
  "countOutcome accepts m vs outcome d = put_all accepts m 1 [vs @ [outcomeSuccess], vs @ [outcomeError]]
     (\<lambda>set. if last set = outcome then [Finite 1] else []) d"
proof -
  have one: "zip fresh [vs] = [(hd fresh, vs)]" if "admitLocked accepts m cost [vs] d = (d', fresh, ok)" for cost d' fresh ok
    using admitLocked_length [OF that] by (cases fresh) auto
  show "observeValue accepts m cost vs v d = put_all accepts m cost [vs] (\<lambda>_. [v]) d"
    "count_row accepts m vs v d = put_all accepts m 1 [vs] (\<lambda>_. [v]) d"
    by (auto simp: observeValue_def count_row_def put_all_def put_def one split: prod.splits)
  show "countOutcome accepts m vs outcome d = put_all accepts m 1 [vs @ [outcomeSuccess], vs @ [outcomeError]]
     (\<lambda>set. if last set = outcome then [Finite 1] else []) d"
    unfolding countOutcome_def put_all_def Let_def
    by (simp only: count_set_def [of accepts m outcome, folded put_def [of accepts m 1 "\<lambda>set. if last set = outcome then [Finite 1] else []"]])
qed

text \<open>The invariant while the series of \<open>P\<close> are being created.\<close>

definition mid_inv :: "acceptance \<Rightarrow> derived \<Rightarrow> string \<Rightarrow> series set \<Rightarrow> bool" where
  "mid_inv accepts d cid P \<longleftrightarrow> vec_ok d \<and> tally d cid P \<and> (\<forall>c. c \<noteq> cid \<longrightarrow> tally d c {}) \<and>
     (\<forall>c. gauge_ok accepts d c \<and> budget_used (dr_budget d) c \<le> budget_limit (dr_budget d) c)"

lemma derived_inv_mid: "derived_inv accepts d \<longleftrightarrow> mid_inv accepts d cid {}"
  unfolding derived_inv_def mid_inv_def by metis

lemma write_mid:
  assumes inv: "mid_inv accepts d cid P" and c: "vs \<noteq> []" "hd vs = cid" "(m, vs) \<in> created d cid \<union> P" "plain (m, vs)"
    and x: "list_all (\<lambda>v. \<not> negative v) xs"
  shows "mid_inv accepts (write_series m vs xs d) cid (P - {(m, vs)})"
proof -
  let ?d = "write_series m vs xs d"
  have v: "vec_ok ?d" using inv x c(4) by (auto simp: mid_inv_def vec_ok_def write_series_def split: option.splits)
  have t: "tally ?d c {}" if "c \<noteq> cid" for c
    using inv that write_created [OF c(1,2), of m xs d c] by (simp add: mid_inv_def tally_def)
  have g: "gauge_ok accepts ?d c = gauge_ok accepts d c" for c by (simp add: gauge_ok_def)
  show ?thesis using inv v t g write_tally [OF _ c(1,2,3)] by (simp add: mid_inv_def)
qed

lemma series_cost_pos: "0 < series_cost m"
  by (simp add: series_cost_def latencySeries_def timerDelaySeries_def stateSeries_def)

lemma release_other: "c \<noteq> cid \<Longrightarrow> sb_held (budget_release cid m cost vs b) c = sb_held b c"
  "sb_limits (budget_release cid m cost vs b) = sb_limits b"
  "0 \<le> cost \<Longrightarrow> budget_used (budget_release cid m cost vs b) cid \<le> budget_used b cid"
  by (auto simp: budget_release_def budget_used_def split: option.splits)

lemma tally_cong: "created d' c = created d c \<Longrightarrow> sb_held (dr_budget d') c = sb_held (dr_budget d) c \<Longrightarrow> tally d' c P = tally d c P"
  by (simp add: tally_def keys_of_def budget_used_def)

lemma release_mid:
  assumes inv: "mid_inv accepts d cid P" and c: "hd vs = cid" "(m, vs) \<in> P"
  shows "mid_inv accepts (releaseLocked accepts m (series_cost m) True vs d) cid (P - {(m, vs)})"
proof -
  let ?b = "budget_release cid m (series_cost m) vs (dr_budget d)"
  let ?e = "releaseLocked accepts m (series_cost m) True vs d"
  have e: "dr_vecs ?e = dr_vecs d" "dr_budget ?e = ?b" "created ?e = created d" by (simp_all add: releaseLocked_def c(1))
  have o: "k \<noteq> cid \<Longrightarrow> sb_held ?b k = sb_held (dr_budget d) k" "sb_limits ?b = sb_limits (dr_budget d)" for k
    by (simp_all add: release_other)
  have t: "tally ?e cid (P - {(m, vs)})"
    using release_tally [of d cid P m vs] inv c by (simp add: mid_inv_def tally_def e)
  have t': "tally ?e k {}" if "k \<noteq> cid" for k
    using inv that tally_cong [of ?e k d "{}"] o(1) by (simp add: mid_inv_def e)
  have g: "gauge_ok accepts ?e k" for k
    using inv o(1) [of k] by (auto simp: mid_inv_def gauge_ok_def releaseLocked_def setSeriesLocked_def c(1) budget_used_def)
  have l: "budget_used ?b k \<le> budget_limit ?b k" for k
  proof (cases "k = cid")
    case True
    have "budget_used ?b cid \<le> budget_used (dr_budget d) cid" using series_cost_pos [of m] by (intro release_other(3)) simp
    moreover have "budget_limit ?b cid = budget_limit (dr_budget d) cid" by (simp add: budget_limit_def release_other(2))
    moreover have "budget_used (dr_budget d) cid \<le> budget_limit (dr_budget d) cid" using inv by (simp add: mid_inv_def)
    ultimately show ?thesis using True by simp
  next
    case False
    have "budget_used (dr_budget d) k \<le> budget_limit (dr_budget d) k" using inv by (simp add: mid_inv_def)
    with o(1) [OF False] o(2) show ?thesis by (simp add: budget_used_def budget_limit_def)
  qed
  have "vec_ok ?e" using inv by (simp add: mid_inv_def vec_ok_def e)
  with t t' g l show ?thesis by (simp add: mid_inv_def e)
qed

lemma fold_put_inv:
  assumes "mid_inv accepts d cid (Pair m ` {vs. (True, vs) \<in> set zs})" and "distinct (map snd zs)" and "prom_utf8 accepts" and "sep \<notin> set m"
    and "\<And>f vs. (f, vs) \<in> set zs \<Longrightarrow> vs \<noteq> [] \<and> hd vs = cid \<and> list_all (\<lambda>v. \<not> negative v) (xs vs) \<and>
      (\<not> f \<and> accepts m vs \<longrightarrow> (m, vs) \<in> created d cid)"
  shows "mid_inv accepts (fold (put accepts m (series_cost m) xs) zs d) cid {}"
  using assms(1,2,5)
proof (induction zs arbitrary: d)
  case Nil
  then show ?case by simp
next
  case (Cons z zs)
  obtain f vs where z: "z = (f, vs)" by fastforce
  let ?P = "Pair m ` {vs. (True, vs) \<in> set (z # zs)}" and ?Q = "Pair m ` {vs. (True, vs) \<in> set zs}"
  let ?d = "put accepts m (series_cost m) xs z d"
  have v: "vs \<noteq> []" "hd vs = cid" "list_all (\<lambda>v. \<not> negative v) (xs vs)" "\<not> f \<Longrightarrow> accepts m vs \<Longrightarrow> (m, vs) \<in> created d cid"
    using Cons.prems(3) [of f vs] z by auto
  have nin: "(b, vs) \<notin> set zs" for b using Cons.prems(2) z by (force simp: image_iff)
  have Q: "?P - {(m, vs)} = ?Q" using z nin by auto
  have Q': "\<not> f \<Longrightarrow> ?P = ?Q" using z by auto
  have step: "mid_inv accepts ?d cid ?Q \<and> created d cid \<subseteq> created ?d cid"
  proof (cases "accepts m vs")
    case True
    have "plain (m, vs)" using True assms(3,4) by (simp add: plain_def prom_utf8_def)
    moreover have "(m, vs) \<in> created d cid \<union> ?P" using v(4) True z by (cases f) auto
    ultimately have "mid_inv accepts (write_series m vs (xs vs) d) cid (?P - {(m, vs)})"
      using write_mid [OF Cons.prems(1) v(1,2)] v(3) by blast
    then show ?thesis using True z v(1,2) unfolding Q by (auto simp: put_def write_created)
  next
    case False
    show ?thesis
    proof (cases f)
      case True
      have "(m, vs) \<in> ?P" using True z by simp
      from release_mid [OF Cons.prems(1) v(2) this] show ?thesis
        using False True z unfolding Q by (simp add: put_def releaseLocked_def)
    next
      case f: False
      then show ?thesis using Cons.prems(1) Q' False z by (simp add: put_def releaseLocked_def)
    qed
  qed
  show ?case unfolding fold_simps
  proof (rule Cons.IH)
    show "mid_inv accepts ?d cid ?Q" using step by blast
    show "distinct (map snd zs)" using Cons.prems(2) by simp
    show "vs \<noteq> [] \<and> hd vs = cid \<and> list_all (\<lambda>v. \<not> negative v) (xs vs) \<and> (\<not> f \<and> accepts m vs \<longrightarrow> (m, vs) \<in> created ?d cid)"
      if "(f, vs) \<in> set zs" for f vs
      using Cons.prems(3) [of f vs] that step by auto
  qed
qed

lemma put_all_inv:
  assumes inv: "derived_inv accepts d" and p: "prom_utf8 accepts" "sep \<notin> set m" and sets: "sets \<noteq> []" "distinct (map (keyOf m) sets)"
    and vs: "\<And>vs. vs \<in> set sets \<Longrightarrow> vs \<noteq> [] \<and> hd vs = cid \<and> list_all (\<lambda>v. \<not> negative v) (xs vs)"
  shows "derived_inv accepts (put_all accepts m (series_cost m) sets xs d)"
proof -
  have cid: "hd (hd sets) = cid" using vs sets(1) by (meson list.set_sel(1))
  obtain b fresh ok where a: "admit cid m (series_cost m) sets (dr_budget d) = (b, fresh, ok)" by (metis prod_cases3)
  note keep = admit_keeps [OF a]
  obtain d1 where al: "admitLocked accepts m (series_cost m) sets d = (d1, fresh, ok)"
    and d1: "dr_vecs d1 = dr_vecs d" "dr_budget d1 = b" "created d1 = created d"
      "dr_series d1 = (if ok \<and> list_ex id fresh \<and> accepts MetricDerivedSeries [cid]
         then (dr_series d)(cid \<mapsto> budget_used b cid) else dr_series d)"
    by (auto simp: admitLocked_def cid a Let_def setSeriesLocked_def)
  have t: "tally d c {}" "gauge_ok accepts d c" "budget_used (dr_budget d) c \<le> budget_limit (dr_budget d) c" for c
    using inv by (simp_all add: derived_inv_def)
  have v: "vec_ok d1" using inv by (simp add: derived_inv_def vec_ok_def d1(1))
  have g: "gauge_ok accepts d1 c" for c
    using t(2) [of c] keep(1) keep(2) [of c] by (auto simp: gauge_ok_def d1 budget_used_def)
  have l: "budget_used b c \<le> budget_limit b c" for c
    using t(3) [of c] keep(2) [of c] keep(3) keep(4) by (cases "c = cid") (simp_all add: budget_used_def budget_limit_def)
  have o: "tally d1 c {}" if "c \<noteq> cid" for c using t(1) [of c] keep(2) [OF that] tally_cong [of d1 c d "{}"] by (simp add: d1)
  show ?thesis
  proof (cases ok)
    case False
    then have "tally d1 c {}" for c using t(1) [of c] keep(1) tally_cong [of d1 c d "{}"] by (simp add: d1)
    then show ?thesis using v g l False by (simp add: put_all_def al derived_inv_def d1(2))
  next
    case True
    define new where "new = filter (\<lambda>vs. keyOf m vs \<notin> keys_of (dr_budget d) cid) sets"
    have ca: "list_all (\<lambda>vs. vs \<noteq> [] \<and> hd vs = cid) sets" using vs by (simp add: list_all_iff)
    note at = admit_tally [OF t(1) a [unfolded eqTrueI [OF True]] ca sets(2), folded new_def]
    have z: "(f, vs) \<in> set (zip fresh sets) \<longleftrightarrow> vs \<in> set sets \<and> f = (vs \<in> set new)" for f vs
      unfolding at(2) by (auto simp: zip_map1 zip_same_conv_map)
    have P: "Pair m ` {vs. (True, vs) \<in> set (zip fresh sets)} = Pair m ` set new" unfolding z by (auto simp: new_def)
    have ds: "distinct (map snd (zip fresh sets))" using sets(2) by (simp add: at(2) distinct_map)
    have t1: "tally d1 cid (Pair m ` set new)" using at(1) by (simp add: tally_def d1)
    have "mid_inv accepts d1 cid (Pair m ` set new)" using v t1 o g l by (simp add: mid_inv_def d1(2))
    moreover have "(m, vs) \<in> created d1 cid" if "vs \<in> set sets" "vs \<notin> set new" "accepts m vs" for vs
    proof -
      have "keyOf m vs \<in> series_key ` created d cid" using that(1,2) t(1) [of cid] by (simp add: new_def tally_def Let_def)
      then obtain m' vs' where x: "(m', vs') \<in> created d cid" "keyOf m vs = keyOf m' vs'" by auto
      have "plain (m', vs')" using x(1) inv by (auto simp: created_def derived_inv_def vec_ok_def)
      moreover have "plain (m, vs)" using p that(3) by (simp add: plain_def prom_utf8_def)
      ultimately show ?thesis using keyOf_inject x d1(3) by metis
    qed
    ultimately have "mid_inv accepts (fold (put accepts m (series_cost m) xs) (zip fresh sets) d1) cid {}"
      by (intro fold_put_inv [OF _ ds p]) (simp only: P, use vs z in blast)
    then show ?thesis using True by (simp add: put_all_def al derived_inv_mid [of accepts _ cid])
  qed
qed

lemma write_inv:
  assumes "derived_inv accepts d" and "prom_utf8 accepts" "sep \<notin> set m" and "vs \<noteq> []" and "\<not> negative v"
  shows "cost = series_cost m \<Longrightarrow> derived_inv accepts (observeValue accepts m cost vs v d)"
    and "1 = series_cost m \<Longrightarrow> derived_inv accepts (count_row accepts m vs v d)"
    and "1 = series_cost m \<Longrightarrow> derived_inv accepts (countOutcome accepts m vs outcome d)"
proof -
  show "cost = series_cost m \<Longrightarrow> derived_inv accepts (observeValue accepts m cost vs v d)"
    "1 = series_cost m \<Longrightarrow> derived_inv accepts (count_row accepts m vs v d)"
    using put_all_inv [OF assms(1-3), of "[vs]" "hd vs" "\<lambda>_. [v]"] assms(4,5) by (simp_all add: writes_put_all)
  have "keyOf m (vs @ [outcomeSuccess]) \<noteq> keyOf m (vs @ [outcomeError])"
    by (simp add: keyOf_def outcomeSuccess_def outcomeError_def)
  then have "derived_inv accepts (put_all accepts m (series_cost m) [vs @ [outcomeSuccess], vs @ [outcomeError]]
      (\<lambda>set. if last set = outcome then [Finite 1] else []) d)"
    by (intro put_all_inv [OF assms(1-3), where cid = "hd vs"]) (use assms(4) in auto)
  then show "1 = series_cost m \<Longrightarrow> derived_inv accepts (countOutcome accepts m vs outcome d)"
    by (simp add: writes_put_all)
qed

lemma caps_inv: "on_caps limit v scope d = (d', s) \<Longrightarrow> derived_inv accepts d \<Longrightarrow> derived_inv accepts d'"
  by (clarsimp simp: on_caps_def split: prod.splits) (simp add: derived_inv_def vec_ok_def tally_def gauge_ok_def)

text \<open>The values a row writes are never negative, so no counter panics.\<close>

lemma per_thousand_nonneg: "\<not> negative v \<Longrightarrow> \<not> negative (per_thousand v)"
proof (cases v)
  case (Finite x)
  assume "\<not> negative v"
  with Finite have "0 \<le> x / 1000" by simp
  then have "0 \<le> round64 (x / 1000)" using round64_ge [of 0 "x / 1000"] by simp
  with Finite show ?thesis by (simp add: fl_def Let_def)
qed simp_all

lemma duration_nonneg: "duration_seconds env v = Some s \<Longrightarrow> \<not> negative s"
  by (auto simp: duration_seconds_def per_thousand_nonneg split: option.splits if_splits)

lemma nonneg_not_negative: "nonneg v \<Longrightarrow> \<not> negative v"
  by (cases v) auto

lemma names_plain:
  "sep \<notin> set MetricOperationDuration" "sep \<notin> set MetricOperations" "sep \<notin> set MetricOperationSeconds"
  "sep \<notin> set MetricIntegrationDuration" "sep \<notin> set MetricErrors" "sep \<notin> set MetricSlowEvents" "sep \<notin> set MetricTimerDelay"
  "sep \<notin> set MetricScreenState" "sep \<notin> set MetricFrontEndOperations"
  by (simp_all add: metric_names sep_def)

lemma costs:
  "latencySeries = series_cost MetricOperationDuration" "latencySeries = series_cost MetricIntegrationDuration"
  "timerDelaySeries = series_cost MetricTimerDelay" "stateSeries = series_cost MetricScreenState"
  "1 = series_cost MetricOperations" "1 = series_cost MetricOperationSeconds" "1 = series_cost MetricErrors"
  "1 = series_cost MetricSlowEvents" "1 = series_cost MetricFrontEndOperations"
  by (simp_all add: series_cost_def metric_names)

section \<open>Rows keep the account\<close>

lemmas row_writes = write_inv caps_inv duration_nonneg nonneg_not_negative names_plain

lemma observe_type_inv:
  assumes inv: "derived_inv accepts d" and p: "prom_utf8 accepts" and b: "base \<noteq> []" and dur: "\<And>v. dur = Some v \<Longrightarrow> \<not> negative v"
  shows "derived_inv accepts (observe_type accepts env cid logType val instant base application modul outcome dur d)"
proof -
  have size: "derived_inv accepts (fold (\<lambda>(column, kind) d.
            case column_number env (val column) of
              Some bytes \<Rightarrow> if nonneg bytes then observeValue accepts MetricScreenState stateSeries (base @ [modul, kind]) bytes d else d
            | None \<Rightarrow> d) cs d)" if "derived_inv accepts d" for cs d
    using that
  proof (induction cs arbitrary: d)
    case (Cons c cs)
    obtain column kind where c: "c = (column, kind)" by fastforce
    have "derived_inv accepts (observeValue accepts MetricScreenState stateSeries (base @ [modul, kind]) bytes d)" if "nonneg bytes" for bytes
      using write_inv(1) [OF Cons.prems p names_plain(8) _ nonneg_not_negative [OF that]] b costs(4) by simp
    with Cons c show ?case by (auto split: option.splits)
  qed simp
  have err: "derived_inv accepts (count_row accepts MetricErrors (base @ [modul]) (Finite 1) d)"
    using write_inv(2) [OF inv p names_plain(5), of "base @ [modul]" "Finite 1"] costs(7) by simp
  have slow: "derived_inv accepts (count_row accepts MetricSlowEvents (base @ [modul, kind]) (Finite 1) d)" for kind
    using write_inv(2) [OF inv p names_plain(6), of "base @ [modul, kind]" "Finite 1"] costs(8) by simp
  have integ: "derived_inv accepts (observeValue accepts MetricIntegrationDuration latencySeries (base @ xs) v e)"
    if "derived_inv accepts e" "dur = Some v" for e v xs
    using write_inv(1) [OF that(1) p names_plain(4), of "base @ xs" v] dur [OF that(2)] b costs(2) by simp
  have delay: "derived_inv accepts (observeValue accepts MetricTimerDelay timerDelaySeries (base @ [operation])
      (if negative t then Finite 0 else t) e)" if "derived_inv accepts e" for e t operation
    using write_inv(1) [OF that p names_plain(7), of "base @ [operation]" "if negative t then Finite 0 else t"] costs(3) by simp
  have B2: "derived_inv accepts (case map_of slowEventKinds x of
      Some kind \<Rightarrow> count_row accepts MetricSlowEvents (base @ [modul, kind]) (Finite 1) d | None \<Rightarrow> d)" for x
    using inv slow by (simp split: option.splits)
  have B3: "derived_inv accepts (case on_caps n x scope d of (d, kind) \<Rightarrow> (case dur of
      Some v \<Rightarrow> observeValue accepts MetricIntegrationDuration latencySeries (base @ [direction, kind, outcome]) v d | None \<Rightarrow> d))"
    for n x scope direction
  proof -
    obtain e kind where e: "on_caps n x scope d = (e, kind)" by fastforce
    show ?thesis unfolding e prod.case using caps_inv [OF e inv] integ by (cases dur) simp_all
  qed
  have B4: "derived_inv accepts (case on_caps n x scope d of (d, operation) \<Rightarrow>
      observeValue accepts MetricTimerDelay timerDelaySeries (base @ [operation]) (if negative t then Finite 0 else t) d)"
    for n x scope t
  proof -
    obtain e operation where e: "on_caps n x scope d = (e, operation)" by fastforce
    show ?thesis unfolding e prod.case by (rule delay [OF caps_inv [OF e inv]])
  qed
  have branch: "derived_inv accepts a \<Longrightarrow> derived_inv accepts b \<Longrightarrow> derived_inv accepts (if c then a else b)" for a b c by simp
  have time: "\<lbrakk>\<And>t. derived_inv accepts (f t); derived_inv accepts e\<rbrakk> \<Longrightarrow>
      derived_inv accepts (case v of ATime t \<Rightarrow> f t | _ \<Rightarrow> e)" for f e v by (cases v) simp_all
  show ?thesis unfolding observe_type_def Let_def by (intro branch time inv err B2 B3 B4 size)
qed

lemma observe_entry_inv:
  assumes inv: "derived_inv accepts d" and p: "prom_utf8 accepts" and b: "base \<noteq> []" and dur: "\<And>v. dur = Some v \<Longrightarrow> \<not> negative v"
  shows "derived_inv accepts (observe_entry accepts env cid logType val base application modul outcome dur d)"
proof -
  have ops: "derived_inv accepts (countOutcome accepts MetricOperations (base @ xs) outcome e)" if "derived_inv accepts e" for e xs
    using write_inv(3) [OF that p names_plain(2), of "base @ xs" "Finite 1"] b costs(5) by simp
  have front: "derived_inv accepts (countOutcome accepts MetricFrontEndOperations (base @ xs) outcome e)" if "derived_inv accepts e" for e xs
    using write_inv(3) [OF that p names_plain(9), of "base @ xs" "Finite 1"] b costs(9) by simp
  have dr: "derived_inv accepts (count_row accepts MetricOperationSeconds (base @ xs) v
      (observeValue accepts MetricOperationDuration latencySeries (base @ ys) v e))" if "derived_inv accepts e" "dur = Some v" for e v xs ys
    using write_inv(2) [OF write_inv(1) [OF that(1) p names_plain(1) _ dur [OF that(2)]] p names_plain(3) _ dur [OF that(2)]] b costs(1,6)
    by simp
  have after: "derived_inv accepts (if server \<noteq> unknownService then
        (case on_caps maxFrontEnds server scope e of (d, frontEnd) \<Rightarrow> countOutcome accepts MetricFrontEndOperations (base @ [frontEnd]) outcome d)
      else e)" if "derived_inv accepts e" for server scope e
    using that front caps_inv [OF _ that] by (auto split: prod.splits)
  obtain e operation where e: "on_caps maxOperations (labelText env (val (if logType = logTypeScreen then ''Screen'' else ''Action_Name'')))
      [cid, ''operation'', application, logType] d = (e, operation)" by fastforce
  note f = ops [OF caps_inv [OF e inv], of "[modul, logType, operation]"]
  have "derived_inv accepts (case dur of
      None \<Rightarrow> countOutcome accepts MetricOperations (base @ [modul, logType, operation]) outcome e
    | Some v \<Rightarrow> count_row accepts MetricOperationSeconds (base @ [modul, logType, operation]) v
        (observeValue accepts MetricOperationDuration latencySeries (base @ [modul, logType, outcome]) v
          (countOutcome accepts MetricOperations (base @ [modul, logType, operation]) outcome e)))"
    using f dr [OF f] by (cases dur) simp_all
  from after [OF this] show ?thesis unfolding observe_entry_def Let_def e prod.case .
qed

lemma observe_inv:
  assumes "derived_inv accepts d" and p: "prom_utf8 accepts"
  shows "derived_inv accepts (observe accepts env item batch rows instants d)"
proof -
  have row: "derived_inv accepts (observe_row accepts env item cols x d)" if inv: "derived_inv accepts d" for cols x d
  proof -
    obtain row instant where x: "x = (row, instant)" by fastforce
    have branch: "derived_inv accepts a \<Longrightarrow> derived_inv accepts b \<Longrightarrow> derived_inv accepts (if c then a else b)" for a b c by simp
    have w: "derived_inv accepts (observe_entry accepts env cid logType val [c, s, a] application modul outcome (duration_seconds env t) e)"
      "derived_inv accepts (observe_type accepts env cid logType val instant [c, s, a] application modul outcome (duration_seconds env t) e)"
      if "derived_inv accepts e" for cid logType val c s a application modul outcome t e
      by (rule observe_entry_inv [OF that p] observe_type_inv [OF that p]; simp add: duration_nonneg)+
    let ?val = "column_value cols row" and ?cid = "sp_CollectorID item"
    obtain d1 application where 1: "on_caps maxApplications (firstText env [?val columnApplication, ?val columnEspace, ?val columnModule])
        [?cid, ''application''] d = (d1, application)" by fastforce
    obtain d2 modul where 2: "on_caps maxModules (labelText env (?val columnEspace)) [?cid, ''module'', application] d1 = (d2, modul)" by fastforce
    note inv2 = caps_inv [OF 2 caps_inv [OF 1 inv]]
    show ?thesis unfolding observe_row_def x prod.case Let_def 1 2 by (intro branch w inv2)
  qed
  have "derived_inv accepts (fold (observe_row accepts env item cols) xs d)" if "derived_inv accepts d" for cols xs d
    using that by (induction xs arbitrary: d) (simp_all add: row)
  then show ?thesis using assms(1) by (simp add: observe_def)
qed

section \<open>The life of the derived metrics\<close>

text \<open>A collector's budget is set when it holds no series: it starts, or starts again after it was
  forgotten.\<close>

inductive derived_step :: "acceptance \<Rightarrow> derived \<Rightarrow> derived \<Rightarrow> bool" for accepts where
  rows: "derived_step accepts d (observe accepts env item batch rows instants d)"
| init: "created d (coll_ID c) = {} \<Longrightarrow> derived_step accepts d (derived_init accepts c d)"
| forget: "derived_step accepts d (derived_forget cid d)"

definition derived_reachable :: "acceptance \<Rightarrow> derived \<Rightarrow> bool" where
  "derived_reachable accepts d \<longleftrightarrow> (derived_step accepts)\<^sup>*\<^sup>* newDerived d"

lemma forget_inv:
  assumes "derived_inv accepts d"
  shows "derived_inv accepts (derived_forget cid d)"
proof -
  let ?d = "derived_forget cid d"
  have c: "created ?d k = (if k = cid then {} else created d k)" for k by (auto simp: created_def derived_forget_def)
  have b: "dr_budget ?d = budget_forget cid (dr_budget d)" by (simp add: derived_forget_def)
  have "tally ?d k {} \<and> gauge_ok accepts ?d k \<and> budget_used (dr_budget ?d) k \<le> budget_limit (dr_budget ?d) k" for k
  proof (cases "k = cid")
    case True
    have "dr_series ?d cid = None" by (simp add: derived_forget_def)
    then show ?thesis unfolding tally_def Let_def c b gauge_ok_def using True
      by (simp add: budget_forget_def keys_of_def budget_used_def budget_limit_def DefaultLogMaxDerivedSeries_def)
  next
    case False
    then have "tally ?d k {} = tally d k {}" by (intro tally_cong) (simp_all add: c b budget_forget_def)
    with False assms show ?thesis
      by (simp add: derived_inv_def gauge_ok_def b budget_forget_def budget_used_def budget_limit_def derived_forget_def)
  qed
  moreover have "vec_ok ?d" using assms by (auto simp: derived_inv_def vec_ok_def derived_forget_def split: if_splits)
  ultimately show ?thesis by (simp add: derived_inv_def)
qed

lemma init_inv:
  assumes "derived_inv accepts d" and "created d (coll_ID c) = {}"
  shows "derived_inv accepts (derived_init accepts c d)"
proof -
  let ?d = "derived_init accepts c d" and ?cid = "coll_ID c"
  have over: "\<exists>o'. fold (\<lambda>m d. if accepts MetricDerivedSeriesOverflow [?cid, m]
          then d\<lparr>dr_overflow := (dr_overflow d)((?cid, m) \<mapsto> the_overflow d ?cid m)\<rparr> else d) ms e = e\<lparr>dr_overflow := o'\<rparr>" for ms e
  proof (induction ms arbitrary: e)
    case Nil
    show ?case by (rule exI [of _ "dr_overflow e"]) simp
  next
    case (Cons m ms)
    show ?case using Cons [of "if accepts MetricDerivedSeriesOverflow [?cid, m]
          then e\<lparr>dr_overflow := (dr_overflow e)((?cid, m) \<mapsto> the_overflow e ?cid m)\<rparr> else e"] by (auto split: if_splits)
  qed
  let ?e = "d\<lparr>dr_budget := (dr_budget d)\<lparr>sb_limits := (sb_limits (dr_budget d))(?cid \<mapsto> logs_MaxDerivedSeries (coll_OutSystemsLogs c))\<rparr>\<rparr>"
  obtain o' where d: "?d = (setSeriesLocked accepts ?cid ?e)\<lparr>dr_overflow := o'\<rparr>"
    using over [of derivedMetrics "setSeriesLocked accepts ?cid ?e"] by (auto simp: derived_init_def Let_def)
  have s: "dr_vecs ?d = dr_vecs d" "created ?d = created d" "sb_held (dr_budget ?d) = sb_held (dr_budget d)"
    "sb_limits (dr_budget ?d) = (sb_limits (dr_budget d))(?cid \<mapsto> logs_MaxDerivedSeries (coll_OutSystemsLogs c))"
    by (simp_all add: d)
  have u: "budget_used (dr_budget ?d) k = budget_used (dr_budget d) k" for k by (simp add: budget_used_def s(3))
  have t: "tally ?d k {}" for k using assms(1) tally_cong [of ?d k d "{}"] by (simp add: derived_inv_def s(2,3))
  have g: "gauge_ok accepts ?d k" for k
    using assms(1) by (auto simp: derived_inv_def gauge_ok_def d setSeriesLocked_def budget_used_def)
  have l: "budget_used (dr_budget ?d) k \<le> budget_limit (dr_budget ?d) k" for k
  proof (cases "k = ?cid")
    case True
    have "budget_used (dr_budget d) ?cid = 0" using assms by (simp add: derived_inv_def tally_def Let_def)
    then show ?thesis using True by (simp add: u budget_limit_def s(4) DefaultLogMaxDerivedSeries_def)
  next
    case False
    have "budget_used (dr_budget d) k \<le> budget_limit (dr_budget d) k" using assms(1) by (simp add: derived_inv_def)
    then show ?thesis using False by (simp add: u budget_limit_def s(4))
  qed
  have "vec_ok ?d" using assms(1) by (simp add: derived_inv_def vec_ok_def s(1))
  with t g l show ?thesis by (simp add: derived_inv_def)
qed

lemma derived_reachable_inv:
  assumes "derived_reachable accepts d" and "prom_utf8 accepts"
  shows "derived_inv accepts d"
  using assms(1) unfolding derived_reachable_def
proof (induction rule: rtranclp_induct)
  case base
  show ?case
    by (simp add: derived_inv_def vec_ok_def tally_def gauge_ok_def created_def newDerived_def newSeriesBudget_def keys_of_def
        budget_used_def budget_limit_def DefaultLogMaxDerivedSeries_def)
next
  case (step d e)
  from step(2) step(3) assms(2) show ?case
    by (induction rule: derived_step.induct) (simp_all add: observe_inv init_inv forget_inv)
qed

text \<open>C28: the series budget is exact and kept: in every history of delivered rows, starts and stops, the
  derived series a collector has cost exactly what its budget counts, never more than its limit, the
  exported series count is that number, no counter is ever given a negative value (which panics), and
  a write to a series that exists always takes effect, however full the budget is.\<close>

theorem budget_exact:
  assumes "derived_reachable accepts d" and "prom_utf8 accepts"
  shows "finite (created d cid) \<and> budget_used (dr_budget d) cid = total_cost (created d cid) \<and>
    total_cost (created d cid) \<le> budget_limit (dr_budget d) cid \<and>
    dr_series d cid \<in> {None, Some (total_cost (created d cid))} \<and>
    (dr_vecs d (m, vs) = Some old \<longrightarrow> list_all (\<lambda>x. \<not> negative x) old) \<and>
    ((m, vs) \<in> created d cid \<and> dr_vecs d (m, vs) = Some old \<and> accepts m vs \<longrightarrow>
      observeValue accepts m (series_cost m) vs v d = d\<lparr>dr_vecs := (dr_vecs d)((m, vs) \<mapsto> old @ [v])\<rparr>)"
proof -
  note inv = derived_reachable_inv [OF assms, unfolded derived_inv_def]
  have S: "finite (created d cid)" "keys_of (dr_budget d) cid = series_key ` created d cid"
    "budget_used (dr_budget d) cid = total_cost (created d cid)"
    using inv by (simp_all add: tally_def Let_def)
  have "observeValue accepts m (series_cost m) vs v d = d\<lparr>dr_vecs := (dr_vecs d)((m, vs) \<mapsto> old @ [v])\<rparr>"
    if x: "(m, vs) \<in> created d cid" "dr_vecs d (m, vs) = Some old" "accepts m vs"
  proof -
    have "hd vs = cid" using x(1) by (simp add: created_def)
    moreover have "keyOf m vs \<in> keys_of (dr_budget d) cid" unfolding S(2) using x(1) by force
    ultimately have "admitLocked accepts m (series_cost m) [vs] d = (d, [False], True)"
      by (simp add: admitLocked_def admit_alt Let_def)
    then show ?thesis using x by (simp add: observeValue_def write_series_def)
  qed
  moreover have "dr_series d cid \<in> {None, Some (total_cost (created d cid))}" 
  proof -
    have "gauge_ok accepts d cid" using inv by blast
    then show ?thesis unfolding gauge_ok_def S(3) by blast
  qed
  moreover have "total_cost (created d cid) \<le> budget_limit (dr_budget d) cid" using inv unfolding S(3) [symmetric] by blast
  moreover have "dr_vecs d (m, vs) = Some old \<longrightarrow> list_all (\<lambda>x. \<not> negative x) old" using inv unfolding vec_ok_def by blast
  ultimately show ?thesis using S by simp
qed

text \<open>A row of the error log without any column counts one error of the unknown application.\<close>

definition example_item :: ScheduledProbe where
  "example_item = \<lparr>sp_CollectorID = ''logs'',
     sp_Target = \<lparr>dt_ID = [], dt_EnvironmentSlug = ''prod'', dt_Name = ''db'', dt_Engine = [], dt_Host = [], dt_Port = 0,
       dt_DatabaseName = [], dt_CredentialRef = []\<rparr>,
     sp_Definition = \<lparr>pdef_ID = [], pdef_Name = ''error'', pdef_Category = [], pdef_QueryTemplate = [], pdef_TimeoutMS = 0,
       pdef_MaxRows = 0, pdef_Lag = 0\<rparr>,
     sp_Assignment = \<lparr>pa_ID = [], pa_IntervalSeconds = 60\<rparr>, sp_OutSystemsLogs = zero_logs\<rparr>"

theorem budget_exact_witness:
  "\<exists>d. derived_reachable (\<lambda>m vs. list_all (\<lambda>v. sep \<notin> set v) vs) d \<and>
     created d ''logs'' = {(MetricErrors, [''logs'', ''prod'', ''unknown'', ''unknown''])} \<and> budget_used (dr_budget d) ''logs'' = 1"
proof -
  let ?acc = "\<lambda>m vs. list_all (\<lambda>v. sep \<notin> set v) vs"
  let ?env = "\<lparr>le_tables = ascii_tables, le_sprint = \<lambda>_. [], le_guid = \<lambda>_. None, le_parse_float = \<lambda>_. None,
    le_wall = \<lambda>t. t, le_real = \<lambda>t. t, le_sha = \<lambda>s. s\<rparr>"
  let ?batch = "\<lparr>b_Columns = [], b_Rows = [[]], b_Partial = False, b_Bytes = 0\<rparr>"
  define d where "d = observe ?acc ?env example_item ?batch [[]] [0] newDerived"
  have r: "derived_reachable ?acc d" unfolding derived_reachable_def d_def by (rule r_into_rtranclp) (rule derived_step.rows)
  have p: "prom_utf8 ?acc" by (simp add: prom_utf8_def)
  have n: "column_value [] [] x = ANil" for x by (simp add: column_value_def index_columns_def)
  have v: "dr_vecs d = (\<lambda>_. None)((MetricErrors, [''logs'', ''prod'', ''unknown'', ''unknown'']) \<mapsto> [Finite 1])"
    by (simp add: d_def observe_def observe_row_def example_item_def n on_caps_def caps_value_def newDerived_def newSeriesBudget_def
        observe_type_def errorLogType_def count_row_def admitLocked_def admit_alt keys_of_def budget_used_def budget_limit_def
        DefaultLogMaxDerivedSeries_def setSeriesLocked_def write_series_def sep_def isEntryPoint_def logTypeScreen_def
        logTypeMobileRequest_def logTypeCyclicJob_def logTypeIntegration_def labelText_def optionalText_def unknownService_def
        maxApplications_def maxModules_def Let_def trim_space_def)
  have c: "created d ''logs'' = {(MetricErrors, [''logs'', ''prod'', ''unknown'', ''unknown''])}"
    by (auto simp: created_def v split: if_splits)
  have "budget_used (dr_budget d) ''logs'' = total_cost (created d ''logs'')" using budget_exact [OF r p] by blast
  then have "budget_used (dr_budget d) ''logs'' = 1" unfolding c using costs(7) by simp
  with r c show ?thesis by blast
qed

text \<open>A duration of NaN, which \<open>strconv.ParseFloat\<close> reads, counts as a number.\<close>

lemma duration_nan: "le_parse_float env (trim_space s) = Some NaN \<Longrightarrow> duration_seconds env (AText s) = Some NaN"
  by (simp add: duration_seconds_def column_number_def)

end
