(* ===== verification/Base64.thy ===== *)
theory Base64
  imports GoStrings
begin

text \<open>
  \<open>base64.RawURLEncoding\<close> and \<open>RawStdEncoding\<close> as the platform API uses them for session tokens and password
  hashes: encoding of bytes without padding, and the lenient decoder, which skips line breaks and ignores
  the unused bits of the last character.  An encoding is its alphabet.
\<close>

definition RawURLEncoding :: string where
  "RawURLEncoding = ''ABCDEFGHIJKLMNOPQRSTUVWXYZabcdefghijklmnopqrstuvwxyz0123456789-_''"

definition RawStdEncoding :: string where
  "RawStdEncoding = ''ABCDEFGHIJKLMNOPQRSTUVWXYZabcdefghijklmnopqrstuvwxyz0123456789+/''"

fun index_in :: "'a \<Rightarrow> 'a list \<Rightarrow> nat option" where
  "index_in x [] = None"
| "index_in x (y # ys) = (if x = y then Some 0 else map_option Suc (index_in x ys))"

fun EncodeToString :: "string \<Rightarrow> string \<Rightarrow> string" where
  "EncodeToString enc [] = []"
| "EncodeToString enc [a] = [enc ! (of_char a div 4), enc ! (of_char a mod 4 * 16)]"
| "EncodeToString enc [a, b] =
     [enc ! (of_char a div 4), enc ! (of_char a mod 4 * 16 + of_char b div 16), enc ! (of_char b mod 16 * 4)]"
| "EncodeToString enc (a # b # c # s) =
     enc ! (of_char a div 4) # enc ! (of_char a mod 4 * 16 + of_char b div 16) #
     enc ! (of_char b mod 16 * 4 + of_char c div 64) # enc ! (of_char c mod 64) # EncodeToString enc s"

fun decode_quanta :: "nat option list \<Rightarrow> string option" where
  "decode_quanta [] = Some []"
| "decode_quanta [Some x, Some y] = Some [char_of (x * 4 + y div 16)]"
| "decode_quanta [Some x, Some y, Some z] = Some [char_of (x * 4 + y div 16), char_of (y mod 16 * 16 + z div 4)]"
| "decode_quanta (Some x # Some y # Some z # Some w # s) =
     map_option (\<lambda>t. char_of (x * 4 + y div 16) # char_of (y mod 16 * 16 + z div 4) # char_of (z mod 4 * 64 + w) # t) (decode_quanta s)"
| "decode_quanta _ = None"

definition DecodeString :: "string \<Rightarrow> string \<Rightarrow> string option" where
  "DecodeString enc s = decode_quanta (map (\<lambda>c. index_in c enc) (filter (\<lambda>c. c \<noteq> CHR 0x0A \<and> c \<noteq> CHR 0x0D) s))"

lemma index_in_nth: "distinct xs \<Longrightarrow> i < length xs \<Longrightarrow> index_in (xs ! i) xs = Some i"
proof (induction xs arbitrary: i)
  case (Cons x xs)
  then show ?case by (cases i) auto
qed simp

text \<open>An alphabet has 64 characters, none of which is a line break.\<close>

definition alphabet :: "string \<Rightarrow> bool" where
  "alphabet enc \<longleftrightarrow> length enc = 64 \<and> distinct enc \<and> CHR 0x0A \<notin> set enc \<and> CHR 0x0D \<notin> set enc"

lemma alphabets [simp]: "alphabet RawURLEncoding" "alphabet RawStdEncoding"
  by (simp_all add: alphabet_def RawURLEncoding_def RawStdEncoding_def)

lemma digit_index [simp]: "alphabet enc \<Longrightarrow> n < 64 \<Longrightarrow> index_in (enc ! n) enc = Some n"
  by (rule index_in_nth) (simp_all add: alphabet_def)

lemma digit_char: "alphabet enc \<Longrightarrow> n < 64 \<Longrightarrow> enc ! n \<in> set enc"
  by (simp add: alphabet_def)

lemma byte_bound: "(of_char c :: nat) < 256"
  using char_of_char [of c] by (metis of_char_of mod_less_divisor zero_less_numeral)

lemma byte_digits:
  fixes a b c :: nat
  assumes "a < 256" "b < 256" "c < 256"
  shows "a div 4 < 64" "a mod 4 * 16 < 64" "a mod 4 * 16 + b div 16 < 64" "b mod 16 * 4 < 64" "b mod 16 * 4 + c div 64 < 64" "c mod 64 < 64"
  using assms by auto

lemma low_digit: "y < k \<Longrightarrow> (x * k + y) div k = x \<and> (x * k + y) mod k = (y :: nat)"
  by simp

lemma byte_join:
  fixes a b c :: nat
  assumes "a < 256" "b < 256" "c < 256"
  shows "a div 4 * 4 + (a mod 4 * 16) div 16 = a" "a div 4 * 4 + (a mod 4 * 16 + b div 16) div 16 = a"
    "(a mod 4 * 16 + b div 16) mod 16 * 16 + (b mod 16 * 4) div 4 = b"
    "(a mod 4 * 16 + b div 16) mod 16 * 16 + (b mod 16 * 4 + c div 64) div 4 = b"
    "(b mod 16 * 4 + c div 64) mod 4 * 64 + c mod 64 = c"
proof -
  have d: "b div 16 < 16" "c div 64 < 4" using assms by auto
  have "(b mod 16 * 4 + c div 64) div 4 = b mod 16" "(b mod 16 * 4 + c div 64) mod 4 = c div 64" using low_digit [OF d(2)] by blast+
  moreover have "(a mod 4 * 16 + b div 16) div 16 = a mod 4" "(a mod 4 * 16 + b div 16) mod 16 = b div 16" using low_digit [OF d(1)] by blast+
  moreover have "(a mod 4 * 16) div 16 = a mod 4" "(b mod 16 * 4) div 4 = b mod 16" by simp_all
  ultimately show "a div 4 * 4 + (a mod 4 * 16) div 16 = a" "a div 4 * 4 + (a mod 4 * 16 + b div 16) div 16 = a"
    "(a mod 4 * 16 + b div 16) mod 16 * 16 + (b mod 16 * 4) div 4 = b"
    "(a mod 4 * 16 + b div 16) mod 16 * 16 + (b mod 16 * 4 + c div 64) div 4 = b"
    "(b mod 16 * 4 + c div 64) mod 4 * 64 + c mod 64 = c"
    by (simp_all only: div_mult_mod_eq)
qed

lemmas digits = byte_digits [OF byte_bound byte_bound byte_bound] and join = byte_join [OF byte_bound byte_bound byte_bound]

lemma encode_alphabet: "alphabet enc \<Longrightarrow> set (EncodeToString enc s) \<subseteq> set enc"
  by (induction enc s rule: EncodeToString.induct) (simp_all only: EncodeToString.simps list.set insert_subset empty_subsetI digit_char digits simp_thms)

lemma decode_encode:
  assumes enc: "alphabet enc"
  shows "DecodeString enc (EncodeToString enc s) = Some s"
proof -
  have "filter (\<lambda>c. c \<noteq> CHR 0x0A \<and> c \<noteq> CHR 0x0D) (EncodeToString enc s) = EncodeToString enc s"
    using encode_alphabet [OF enc, of s] enc by (intro filter_True) (auto simp: alphabet_def)
  moreover have "decode_quanta (map (\<lambda>c. index_in c enc) (EncodeToString enc s)) = Some s"
    using enc by (induction enc s rule: EncodeToString.induct)
      (simp_all only: EncodeToString.simps list.map digit_index digits decode_quanta.simps join option.map char_of_char)
  ultimately show ?thesis by (simp add: DecodeString_def)
qed

end
