(* ===== verification/AuthLimits.thy ===== *)
theory AuthLimits
  imports GoTime "HOL-Library.Word"
begin

text \<open>
  The limits on failed logins of the platform API (\<open>apps/api/internal/auth/limits.go\<close>).  Redis is a
  parameter: a record of the commands the code sends, on a store of any type; a transaction either runs
  as a whole or not at all, and its reply can be lost in both cases.
\<close>

unbundle bit_operations_syntax

section \<open>Redis\<close>

record 's redis =
  rd_incr :: "gotime \<Rightarrow> string \<Rightarrow> 's \<Rightarrow> 's \<times> int"
  rd_decr :: "gotime \<Rightarrow> string \<Rightarrow> 's \<Rightarrow> 's \<times> int"
  rd_expireNX :: "gotime \<Rightarrow> string \<Rightarrow> duration \<Rightarrow> 's \<Rightarrow> 's"
  rd_pttl :: "gotime \<Rightarrow> string \<Rightarrow> 's \<Rightarrow> duration"
  rd_del :: "gotime \<Rightarrow> string \<Rightarrow> 's \<Rightarrow> 's"

datatype tx = TxDone | TxLost | TxUnsent

text \<open>What the store holds under a key: a count and when it expires, if it does.\<close>

type_synonym 's counter_view = "'s \<Rightarrow> gotime \<Rightarrow> string \<Rightarrow> (int \<times> gotime option) option"

definition value_of :: "'s counter_view \<Rightarrow> 's \<Rightarrow> gotime \<Rightarrow> string \<Rightarrow> int" where
  "value_of view s now k = (case view s now k of Some (c, _) \<Rightarrow> c | None \<Rightarrow> 0)"

definition expiry_of :: "'s counter_view \<Rightarrow> 's \<Rightarrow> gotime \<Rightarrow> string \<Rightarrow> gotime option" where
  "expiry_of view s now k = (case view s now k of Some (_, e) \<Rightarrow> e | None \<Rightarrow> None)"

text \<open>The documented behaviour of \<open>INCR\<close>, \<open>DECR\<close>, \<open>EXPIRE NX\<close> and \<open>DEL\<close>, and of expiry.\<close>

definition redis_counters :: "'s redis \<Rightarrow> 's counter_view \<Rightarrow> bool" where
  "redis_counters R view \<longleftrightarrow>
     (\<forall>now k s. view (fst (rd_incr R now k s)) now = (view s now)(k \<mapsto> (value_of view s now k + 1, expiry_of view s now k)) \<and>
        snd (rd_incr R now k s) = value_of view s now k + 1) \<and>
     (\<forall>now k s. view (fst (rd_decr R now k s)) now = (view s now)(k \<mapsto> (value_of view s now k - 1, expiry_of view s now k))) \<and>
     (\<forall>now k d s. 0 < d \<longrightarrow> view (rd_expireNX R now k d s) now = (case view s now k of
        Some (c, None) \<Rightarrow> (view s now)(k \<mapsto> (c, Some (now + d))) | _ \<Rightarrow> view s now)) \<and>
     (\<forall>now k s. view (rd_del R now k s) now = (view s now)(k := None)) \<and>
     (\<forall>now now' k s. now \<le> now' \<longrightarrow> view s now' k = (case view s now k of
        Some (c, Some e) \<Rightarrow> if e \<le> now' then None else Some (c, Some e) | x \<Rightarrow> x))"

lemma redis_laws:
  assumes "redis_counters R view"
  shows "view (fst (rd_incr R now k s)) now = (view s now)(k \<mapsto> (value_of view s now k + 1, expiry_of view s now k))"
    and "snd (rd_incr R now k s) = value_of view s now k + 1"
    and "view (fst (rd_decr R now k s)) now = (view s now)(k \<mapsto> (value_of view s now k - 1, expiry_of view s now k))"
    and "0 < d \<Longrightarrow> view (rd_expireNX R now k d s) now = (case view s now k of
        Some (c, None) \<Rightarrow> (view s now)(k \<mapsto> (c, Some (now + d))) | _ \<Rightarrow> view s now)"
    and "view (rd_del R now k s) now = (view s now)(k := None)"
    and "now \<le> now' \<Longrightarrow> view s now' k = (case view s now k of
        Some (c, Some e) \<Rightarrow> if e \<le> now' then None else Some (c, Some e) | x \<Rightarrow> x)"
  using assms unfolding redis_counters_def by auto

section \<open>Keys\<close>

definition AccountFailures :: int where "AccountFailures = 10"
definition AddressFailures :: int where "AddressFailures = 50"
definition FailureWindow :: duration where "FailureWindow = 15 * ns_minute"

definition accountKeyPrefix :: string where "accountKeyPrefix = ''heartbeat:login-failures:account:''"
definition addressKeyPrefix :: string where "addressKeyPrefix = ''heartbeat:login-failures:address:''"

datatype netaddr = IPv4 "32 word" | IPv6 "128 word"

text \<open>\<open>Unmap\<close>: an IPv4-mapped address is the IPv4 address.\<close>

definition Unmap :: "netaddr \<Rightarrow> netaddr" where
  "Unmap a = (case a of IPv4 w \<Rightarrow> IPv4 w | IPv6 w \<Rightarrow> if drop_bit 32 w = 0xFFFF then IPv4 (ucast w) else IPv6 w)"

datatype address_block = Address4 "32 word" | Prefix6 "128 word"

text \<open>What an address is counted as; \<open>block_text\<close> is its text.\<close>

definition addressBlock :: "netaddr \<Rightarrow> address_block" where
  "addressBlock a = (case Unmap a of IPv4 w \<Rightarrow> Address4 w | IPv6 w \<Rightarrow> Prefix6 (w AND push_bit 64 (mask 64)))"

record limits_env =
  lv_sha :: "string \<Rightarrow> string"
  lv_block_text :: "address_block \<Rightarrow> string"

definition accountKey :: "limits_env \<Rightarrow> string \<Rightarrow> string" where
  "accountKey v email = accountKeyPrefix @ lv_sha v email"

definition addressKey :: "limits_env \<Rightarrow> netaddr \<Rightarrow> string" where
  "addressKey v a = addressKeyPrefix @ lv_block_text v (addressBlock a)"

definition counters :: "limits_env \<Rightarrow> string \<Rightarrow> netaddr \<Rightarrow> (string \<times> int) list" where
  "counters v email a = [(accountKey v email, AccountFailures), (addressKey v a, AddressFailures)]"

section \<open>Operations\<close>

definition decrement :: "'s redis \<Rightarrow> gotime \<Rightarrow> string \<Rightarrow> 's \<Rightarrow> 's" where
  "decrement R now k s = rd_expireNX R now k FailureWindow (fst (rd_decr R now k s))"

definition count_login :: "'s redis \<Rightarrow> gotime \<Rightarrow> string \<Rightarrow> 's \<Rightarrow> 's \<times> int \<times> duration" where
  "count_login R now k s =
     (case rd_incr R now k s of (s, n) \<Rightarrow>
        let s = rd_expireNX R now k FailureWindow s in (s, n, rd_pttl R now k s))"

definition takeBack :: "'s redis \<Rightarrow> gotime \<Rightarrow> tx \<Rightarrow> (string \<times> int) list \<Rightarrow> 's \<Rightarrow> 's \<times> bool" where
  "takeBack R now t cs s = (if t = TxUnsent then s else fold (decrement R now \<circ> fst) cs s, t = TxDone)"

definition over :: "int \<times> int \<times> duration \<Rightarrow> duration \<Rightarrow> duration" where
  "over = (\<lambda>(limit, n, ttl) wait. if n \<le> limit then wait else max wait (if ttl \<le> 0 then ns_second else ttl))"

text \<open>\<open>Begin\<close>: \<open>None\<close> is an error, \<open>Some 0\<close> lets the login be checked.  Its first transaction counts the
  login; the second, for a login over a limit, runs later, on what the store has become meanwhile.\<close>

definition begin_count :: "limits_env \<Rightarrow> 's redis \<Rightarrow> gotime \<Rightarrow> tx \<Rightarrow> string \<Rightarrow> netaddr \<Rightarrow> 's \<Rightarrow> 's \<times> duration option" where
  "begin_count v R now t email a s =
     (if t = TxUnsent then (s, None)
      else case fold (\<lambda>c (s, out). case count_login R now (fst c) s of (s, n, ttl) \<Rightarrow> (s, out @ [(snd c, n, ttl)])) (counters v email a) (s, []) of
        (s, out) \<Rightarrow> (s, if t = TxLost then None else Some (fold over out 0)))"

definition Begin :: "limits_env \<Rightarrow> 's redis \<Rightarrow> gotime \<Rightarrow> tx \<Rightarrow> gotime \<Rightarrow> tx \<Rightarrow> ('s \<Rightarrow> 's) \<Rightarrow> string \<Rightarrow> netaddr \<Rightarrow> 's \<Rightarrow> 's \<times> duration option" where
  "Begin v R now t now' t' meanwhile email a s =
     (case begin_count v R now t email a s of
        (s, None) \<Rightarrow> (s, None)
      | (s, Some wait) \<Rightarrow>
          if wait > 0 then (case takeBack R now' t' (counters v email a) (meanwhile s) of (s, ok) \<Rightarrow> (s, if ok then Some wait else None))
          else (s, Some wait))"

definition Succeeded :: "limits_env \<Rightarrow> 's redis \<Rightarrow> gotime \<Rightarrow> tx \<Rightarrow> string \<Rightarrow> netaddr \<Rightarrow> 's \<Rightarrow> 's \<times> bool" where
  "Succeeded v R now t email a s =
     (if t = TxUnsent then s else decrement R now (addressKey v a) (rd_del R now (accountKey v email) s), t = TxDone)"

definition Unchecked :: "limits_env \<Rightarrow> 's redis \<Rightarrow> gotime \<Rightarrow> tx \<Rightarrow> string \<Rightarrow> netaddr \<Rightarrow> 's \<Rightarrow> 's \<times> bool" where
  "Unchecked v R now t email a s = takeBack R now t (counters v email a) s"

lemma key_prefixes: "accountKey v email \<noteq> addressKey v a"
  by (simp add: accountKey_def addressKey_def accountKeyPrefix_def addressKeyPrefix_def)

text \<open>Counting and taking back, as changes of what the store shows.\<close>

definition with_window :: "gotime \<Rightarrow> gotime option \<Rightarrow> gotime option" where
  "with_window now e = Some (case e of Some t \<Rightarrow> t | None \<Rightarrow> now + FailureWindow)"

lemma window_pos: "0 < FailureWindow"
  by (simp add: FailureWindow_def ns_minute_def)

lemma count_login_view:
  assumes "redis_counters R view" and "count_login R now k s = (s', n, ttl)"
  shows "view s' now = (view s now)(k \<mapsto> (value_of view s now k + 1, with_window now (expiry_of view s now k)))"
    and "n = value_of view s now k + 1"
proof -
  note L = redis_laws [OF assms(1)]
  have s: "s' = rd_expireNX R now k FailureWindow (fst (rd_incr R now k s))" "n = snd (rd_incr R now k s)"
    using assms(2) by (auto simp: count_login_def Let_def split: prod.splits)
  show "n = value_of view s now k + 1" using s(2) L(2) by simp
  show "view s' now = (view s now)(k \<mapsto> (value_of view s now k + 1, with_window now (expiry_of view s now k)))"
    unfolding s(1) L(4) [OF window_pos] L(1) by (auto simp: with_window_def split: option.splits)
qed

lemma decrement_view:
  assumes "redis_counters R view"
  shows "view (decrement R now k s) now = (view s now)(k \<mapsto> (value_of view s now k - 1, with_window now (expiry_of view s now k)))"
  unfolding decrement_def redis_laws(4) [OF assms window_pos] redis_laws(3) [OF assms]
  by (auto simp: with_window_def split: option.splits)

lemma with_window_idem [simp]: "with_window now (with_window now e) = with_window now e"
  by (simp add: with_window_def)

definition touched :: "'s counter_view \<Rightarrow> gotime \<Rightarrow> string set \<Rightarrow> int \<Rightarrow> 's \<Rightarrow> 's \<Rightarrow> bool" where
  "touched view now ks d s s' \<longleftrightarrow> (\<forall>k. view s' now k =
     (if k \<in> ks then Some (value_of view s now k + d, with_window now (expiry_of view s now k)) else view s now k))"

lemma touched_value: "touched view now ks d s s' \<Longrightarrow> value_of view s' now k = value_of view s now k + (if k \<in> ks then d else 0)"
  "touched view now ks d s s' \<Longrightarrow> expiry_of view s' now k = (if k \<in> ks then with_window now (expiry_of view s now k) else expiry_of view s now k)"
  by (simp_all add: touched_def value_of_def expiry_of_def split: option.splits)

lemma takeBack_touched:
  assumes R: "redis_counters R view" and "t \<noteq> TxUnsent"
  shows "touched view now {accountKey v email, addressKey v a} (- 1) s (fst (takeBack R now t (counters v email a) s))"
  using assms(2) key_prefixes [of v email a]
  by (auto simp: takeBack_def counters_def touched_def decrement_view [OF R] value_of_def expiry_of_def split: option.splits)

lemma over_step: "(0 < over (limit, n, ttl) wait) = (0 < wait \<or> limit < n)"
  by (auto simp: over_def ns_second_def)

lemma over_pos: "(0 < fold over out wait) = (0 < wait \<or> list_ex (\<lambda>(limit, n, ttl). limit < n) out)"
proof (induction out arbitrary: wait)
  case (Cons x out)
  obtain limit n ttl where x: "x = (limit, n, ttl)" by (metis prod_cases3)
  show ?case unfolding fold_simps Cons.IH x over_step by simp
qed simp

text \<open>What the first transaction of \<open>Begin\<close> does to the store: nothing, or it counts the login under both
  keys; it lets the login be checked exactly when both counts are within their limits.\<close>

lemma begin_count_touched:
  assumes R: "redis_counters R view" and b: "begin_count v R now t email a s = (s', r)"
  obtains (unsent) "t = TxUnsent" "s' = s" "r = None"
    | (counted) "touched view now {accountKey v email, addressKey v a} 1 s s'"
      "r \<noteq> None \<Longrightarrow> t = TxDone"
      "\<And>wait. r = Some wait \<Longrightarrow> wait \<le> 0 \<longleftrightarrow> value_of view s now (accountKey v email) + 1 \<le> AccountFailures \<and>
        value_of view s now (addressKey v a) + 1 \<le> AddressFailures"
proof (cases "t = TxUnsent")
  case True
  with b show thesis by (intro unsent) (simp_all add: begin_count_def)
next
  case sent: False
  let ?k = "accountKey v email" and ?l = "addressKey v a"
  note kl = key_prefixes [of v email a]
  obtain s1 n1 ttl1 where 1: "count_login R now ?k s = (s1, n1, ttl1)" by (metis prod_cases3)
  obtain s2 n2 ttl2 where 2: "count_login R now ?l s1 = (s2, n2, ttl2)" by (metis prod_cases3)
  note v1 = count_login_view [OF R 1] and v2 = count_login_view [OF R 2]
  have l1: "value_of view s1 now ?l = value_of view s now ?l" "expiry_of view s1 now ?l = expiry_of view s now ?l"
    using kl by (simp_all add: v1(1) value_of_def expiry_of_def)
  define out where "out = [(AccountFailures, n1, ttl1), (AddressFailures, n2, ttl2)]"
  have run: "s' = s2" "r = (if t = TxLost then None else Some (fold over out 0))"
    using b sent 1 2 by (auto simp: begin_count_def counters_def out_def split: if_splits)
  have "0 < fold over out 0 \<longleftrightarrow> \<not> (value_of view s now ?k + 1 \<le> AccountFailures \<and> value_of view s now ?l + 1 \<le> AddressFailures)"
    unfolding over_pos by (auto simp: out_def v1(2) v2(2) l1)
  moreover have "touched view now {?k, ?l} 1 s s'" using kl by (simp add: touched_def run(1) v2(1) v1(1) l1)
  moreover have "r \<noteq> None \<Longrightarrow> t = TxDone" using sent run(2) by (cases t) simp_all
  ultimately show thesis using run(2) by (intro counted) (auto split: if_splits)
qed

section \<open>Attempts\<close>

datatype attempt_state = Flying | Counted | Refused | TakenBack

text \<open>A login that was counted: its keys, the windows it was counted in, and whether it is being checked,
  has failed, was refused, or had its count taken back.  A window of a key lasts until the key expires or
  is deleted.\<close>

record attempt =
  at_account :: string
  at_address :: string
  at_accountWindow :: nat
  at_addressWindow :: nat
  at_state :: attempt_state

record 's limit_system =
  lm_store :: 's
  lm_now :: gotime
  lm_attempts :: "attempt list"
  lm_window :: "string \<Rightarrow> nat"
  lm_late :: "string \<Rightarrow> nat"

definition in_window_of :: "'s limit_system \<Rightarrow> string \<Rightarrow> attempt \<Rightarrow> bool" where
  "in_window_of g k l \<longleftrightarrow> (at_account l = k \<and> at_accountWindow l = lm_window g k) \<or> (at_address l = k \<and> at_addressWindow l = lm_window g k)"

text \<open>The logins of a key's window in given states; the open ones failed or are being checked.\<close>

definition logins :: "attempt_state set \<Rightarrow> 's limit_system \<Rightarrow> string \<Rightarrow> nat" where
  "logins S g k = length (filter (\<lambda>l. in_window_of g k l \<and> at_state l \<in> S) (lm_attempts g))"

abbreviation open_logins :: "'s limit_system \<Rightarrow> string \<Rightarrow> nat" where
  "open_logins \<equiv> logins {Flying, Counted}"

abbreviation counted_logins :: "'s limit_system \<Rightarrow> string \<Rightarrow> nat" where
  "counted_logins \<equiv> logins {Flying, Counted, Refused}"

lemma filter_length_mono: "(\<And>x. P x \<Longrightarrow> Q x) \<Longrightarrow> length (filter P xs) \<le> length (filter Q xs)"
  by (induction xs) (simp_all add: le_SucI)

lemma open_counted: "open_logins g k \<le> counted_logins g k"
  unfolding logins_def by (rule filter_length_mono) blast

definition roll :: "'s counter_view \<Rightarrow> string \<Rightarrow> 's limit_system \<Rightarrow> 's limit_system" where
  "roll view k g = (if view (lm_store g) (lm_now g) k = None
     then g\<lparr>lm_window := (lm_window g)(k := lm_window g k + 1), lm_late := (lm_late g)(k := 0)\<rparr> else g)"

text \<open>A count that is taken back in a later window than the login's.\<close>

definition note_back :: "string \<Rightarrow> nat \<Rightarrow> 's limit_system \<Rightarrow> 's limit_system" where
  "note_back k w g = (if lm_window g k = w then g else g\<lparr>lm_late := (lm_late g)(k := lm_late g k + 1)\<rparr>)"

definition set_state :: "nat \<Rightarrow> attempt_state \<Rightarrow> 's limit_system \<Rightarrow> 's limit_system" where
  "set_state i st g = g\<lparr>lm_attempts := (lm_attempts g)[i := (lm_attempts g ! i)\<lparr>at_state := st\<rparr>]\<rparr>"

definition is_attempt :: "limits_env \<Rightarrow> 's limit_system \<Rightarrow> nat \<Rightarrow> attempt_state set \<Rightarrow> string \<Rightarrow> netaddr \<Rightarrow> bool" where
  "is_attempt v g i S email a \<longleftrightarrow> i < length (lm_attempts g) \<and> at_state (lm_attempts g ! i) \<in> S \<and>
     at_account (lm_attempts g ! i) = accountKey v email \<and> at_address (lm_attempts g ! i) = addressKey v a"

text \<open>One step: time passes; a login's first transaction is lost on the way there or back, or counts it
  and lets it be checked or refuses it; a login in flight fails, or succeeds; its count, or that of a
  refused login, is taken back.  A transaction that is not sent leaves the count as it is.\<close>

inductive limit_step :: "limits_env \<Rightarrow> 's redis \<Rightarrow> 's counter_view \<Rightarrow> 's limit_system \<Rightarrow> 's limit_system \<Rightarrow> bool" for v R view where
  tick: "lm_now g \<le> now \<Longrightarrow> limit_step v R view g (g\<lparr>lm_now := now\<rparr>)"
| not_sent: "begin_count v R (lm_now g) TxUnsent email a (lm_store g) = (s, r) \<Longrightarrow> limit_step v R view g (g\<lparr>lm_store := s\<rparr>)"
| counted: "t \<noteq> TxUnsent \<Longrightarrow> begin_count v R (lm_now g) t email a (lm_store g) = (s, r) \<Longrightarrow>
    h = roll view (addressKey v a) (roll view (accountKey v email) g) \<Longrightarrow>
    limit_step v R view g (h\<lparr>lm_store := s, lm_attempts := lm_attempts h @ [\<lparr>at_account = accountKey v email, at_address = addressKey v a,
      at_accountWindow = lm_window h (accountKey v email), at_addressWindow = lm_window h (addressKey v a),
      at_state = (if r = Some 0 then Flying else Refused)\<rparr>]\<rparr>)"
| failed: "is_attempt v g i {Flying} email a \<Longrightarrow> limit_step v R view g (set_state i Counted g)"
| kept: "is_attempt v g i {Flying} email a \<Longrightarrow> Unchecked v R (lm_now g) TxUnsent email a (lm_store g) = (s, ok) \<Longrightarrow>
    limit_step v R view g ((set_state i Counted g)\<lparr>lm_store := s\<rparr>)"
| taken_back: "is_attempt v g i {Flying, Refused} email a \<Longrightarrow> t \<noteq> TxUnsent \<Longrightarrow> Unchecked v R (lm_now g) t email a (lm_store g) = (s, ok) \<Longrightarrow>
    h = roll view (addressKey v a) (roll view (accountKey v email) g) \<Longrightarrow>
    limit_step v R view g ((note_back (accountKey v email) (at_accountWindow (lm_attempts g ! i))
      (note_back (addressKey v a) (at_addressWindow (lm_attempts g ! i)) (set_state i TakenBack h)))\<lparr>lm_store := s\<rparr>)"
| succeeded: "is_attempt v g i {Flying} email a \<Longrightarrow> t \<noteq> TxUnsent \<Longrightarrow> Succeeded v R (lm_now g) t email a (lm_store g) = (s, ok) \<Longrightarrow>
    h = roll view (addressKey v a) g \<Longrightarrow>
    limit_step v R view g ((note_back (addressKey v a) (at_addressWindow (lm_attempts g ! i)) (set_state i TakenBack h))\<lparr>lm_store := s\<rparr>)"
| unsent: "is_attempt v g i {Flying} email a \<Longrightarrow> Succeeded v R (lm_now g) TxUnsent email a (lm_store g) = (s, ok) \<Longrightarrow>
    limit_step v R view g ((set_state i Counted g)\<lparr>lm_store := s\<rparr>)"

section \<open>The invariant\<close>

definition limit_of :: "string \<Rightarrow> int" where
  "limit_of k = (if has_prefix k accountKeyPrefix then AccountFailures else AddressFailures)"

definition windows_ok :: "'s limit_system \<Rightarrow> bool" where
  "windows_ok g \<longleftrightarrow> list_all (\<lambda>l. at_accountWindow l \<le> lm_window g (at_account l) \<and> at_addressWindow l \<le> lm_window g (at_address l) \<and>
     at_account l \<noteq> at_address l) (lm_attempts g)"

definition key_inv :: "'s counter_view \<Rightarrow> 's limit_system \<Rightarrow> string \<Rightarrow> bool" where
  "key_inv view g k = (case view (lm_store g) (lm_now g) k of
     None \<Rightarrow> True
   | Some (c, _) \<Rightarrow> int (counted_logins g k) \<le> c + int (lm_late g k) \<and> int (open_logins g k) \<le> limit_of k + int (lm_late g k))"

definition limit_inv :: "'s counter_view \<Rightarrow> 's limit_system \<Rightarrow> bool" where
  "limit_inv view g \<longleftrightarrow> windows_ok g \<and> (\<forall>k. key_inv view g k)"

lemma limit_of_keys: "limit_of (accountKey v email) = AccountFailures" "limit_of (addressKey v a) = AddressFailures"
  by (simp_all add: limit_of_def accountKey_def addressKey_def has_prefix_def accountKeyPrefix_def addressKeyPrefix_def)

lemma limit_of_pos: "0 < limit_of k"
  by (simp add: limit_of_def AccountFailures_def AddressFailures_def)

lemma length_filter_update:
  "i < length xs \<Longrightarrow> length (filter P (xs[i := y])) + (if P (xs ! i) then 1 else 0) = length (filter P xs) + (if P y then 1 else 0)"
proof (induction xs arbitrary: i)
  case (Cons x xs)
  show ?case
  proof (cases i)
    case (Suc j)
    then have "j < length xs" using Cons.prems by simp
    from Cons.IH [OF this] show ?thesis by (simp add: Suc)
  qed simp
qed simp

lemma roll_simps [simp]:
  "lm_store (roll view k g) = lm_store g" "lm_now (roll view k g) = lm_now g" "lm_attempts (roll view k g) = lm_attempts g"
  by (simp_all add: roll_def)

lemma roll_windows: "windows_ok g \<Longrightarrow> windows_ok (roll view k g)"
  by (auto simp: windows_ok_def roll_def list_all_iff intro: le_SucI)

lemma roll_open:
  assumes "windows_ok g"
  shows "logins S (roll view k g) k' = (if k' = k \<and> view (lm_store g) (lm_now g) k = None then 0 else logins S g k')"
proof (cases "k' = k \<and> view (lm_store g) (lm_now g) k = None")
  case True
  have "\<not> in_window_of (roll view k g) k l" if "l \<in> set (lm_attempts g)" for l
    using assms that True by (auto simp: windows_ok_def list_all_iff in_window_of_def roll_def)
  then show ?thesis using True by (simp add: logins_def filter_empty_conv)
next
  case False
  then have "in_window_of (roll view k g) k' l = in_window_of g k' l" for l by (auto simp: in_window_of_def roll_def)
  then show ?thesis using False by (auto simp: logins_def)
qed

lemma roll_late: "lm_late (roll view k g) k' = (if k' = k \<and> view (lm_store g) (lm_now g) k = None then 0 else lm_late g k')"
  by (simp add: roll_def)

text \<open>After the window of a key was rolled, the key's invariant holds with the count it had, 0 if it was
  absent.\<close>

definition base_inv :: "'s counter_view \<Rightarrow> 's limit_system \<Rightarrow> string \<Rightarrow> bool" where
  "base_inv view g k \<longleftrightarrow> int (counted_logins g k) \<le> value_of view (lm_store g) (lm_now g) k + int (lm_late g k) \<and>
     int (open_logins g k) \<le> limit_of k + int (lm_late g k)"

lemma roll_base: "limit_inv view g \<Longrightarrow> base_inv view (roll view k g) k"
  using limit_of_pos [of k]
  by (auto simp: limit_inv_def base_inv_def roll_open roll_late key_inv_def value_of_def split: option.splits prod.splits)

lemma roll_inv: "limit_inv view g \<Longrightarrow> limit_inv view (roll view k g)"
  by (auto simp: limit_inv_def roll_windows key_inv_def roll_open roll_late split: option.splits)

lemma key_inv_touched:
  assumes "touched view (lm_now g) ks d (lm_store g) s" and "k \<in> ks"
  shows "key_inv view (g\<lparr>lm_store := s\<rparr>) k \<longleftrightarrow> int (counted_logins g k) \<le> value_of view (lm_store g) (lm_now g) k + d + int (lm_late g k) \<and>
    int (open_logins g k) \<le> limit_of k + int (lm_late g k)"
  using assms by (simp add: key_inv_def touched_def logins_def in_window_of_def)

lemma key_inv_untouched:
  assumes "touched view (lm_now g) ks d (lm_store g) s" and "k \<notin> ks"
  shows "key_inv view (g\<lparr>lm_store := s\<rparr>) k \<longleftrightarrow> key_inv view g k"
  using assms by (simp add: key_inv_def touched_def logins_def in_window_of_def split: option.splits)

lemma tick_limit_inv:
  assumes "redis_counters R view" and "limit_inv view g" and "lm_now g \<le> now"
  shows "limit_inv view (g\<lparr>lm_now := now\<rparr>)"
proof -
  have "key_inv view (g\<lparr>lm_now := now\<rparr>) k" for k
    using assms(2) redis_laws(6) [OF assms(1,3), of "lm_store g" k]
    by (auto simp: limit_inv_def key_inv_def logins_def in_window_of_def split: option.splits prod.splits if_splits)
  then show ?thesis using assms(2) by (simp add: limit_inv_def windows_ok_def)
qed

lemma key_inv_same:
  "view (lm_store g') (lm_now g') k = view (lm_store g) (lm_now g) k \<Longrightarrow> (\<And>S. TakenBack \<notin> S \<Longrightarrow> logins S g' k \<le> logins S g k) \<Longrightarrow> lm_late g' k = lm_late g k \<Longrightarrow>
    key_inv view g k \<Longrightarrow> key_inv view g' k"
proof -
  assume a: "view (lm_store g') (lm_now g') k = view (lm_store g) (lm_now g) k" "\<And>S. TakenBack \<notin> S \<Longrightarrow> logins S g' k \<le> logins S g k"
    "lm_late g' k = lm_late g k" "key_inv view g k"
  have "open_logins g' k \<le> open_logins g k" "counted_logins g' k \<le> counted_logins g k" by (intro a(2); simp)+
  then show ?thesis using a(1,3,4) by (auto simp: key_inv_def split: option.splits)
qed

lemma roll_both:
  assumes "limit_inv view g" and "k \<noteq> l"
  defines "h \<equiv> roll view l (roll view k g)"
  shows "limit_inv view h" "base_inv view h k" "base_inv view h l"
proof -
  note i = roll_inv [OF assms(1), of k]
  have w: "windows_ok (roll view k g)" using i by (simp add: limit_inv_def)
  show "limit_inv view h" unfolding h_def by (rule roll_inv [OF i])
  show "base_inv view h l" unfolding h_def by (rule roll_base [OF i])
  show "base_inv view h k"
    using roll_base [OF assms(1), of k] assms(2) by (simp add: h_def base_inv_def roll_open [OF w] roll_late)
qed

lemma append_open:
  assumes "at_account l = k" "at_address l = k'" "at_accountWindow l = lm_window h k" "at_addressWindow l = lm_window h k'"
  shows "logins S (h\<lparr>lm_store := s, lm_attempts := lm_attempts h @ [l]\<rparr>) x = logins S h x + (if x \<in> {k, k'} \<and> at_state l \<in> S then 1 else 0)"
  using assms by (auto simp: logins_def in_window_of_def)

lemma counted_step_inv:
  assumes R: "redis_counters R view" and inv: "limit_inv view g" and sent: "t \<noteq> TxUnsent"
    and b: "begin_count v R (lm_now g) t email a (lm_store g) = (s, r)"
    and h: "h = roll view (addressKey v a) (roll view (accountKey v email) g)"
    and l: "l = \<lparr>at_account = accountKey v email, at_address = addressKey v a, at_accountWindow = lm_window h (accountKey v email),
      at_addressWindow = lm_window h (addressKey v a), at_state = (if r = Some 0 then Flying else Refused)\<rparr>"
  shows "limit_inv view (h\<lparr>lm_store := s, lm_attempts := lm_attempts h @ [l]\<rparr>)" (is "limit_inv view ?g")
proof -
  let ?k = "accountKey v email" and ?l = "addressKey v a"
  note kl = key_prefixes [of v email a]
  note rb = roll_both [OF inv kl, folded h]
  have same: "lm_store h = lm_store g" "lm_now h = lm_now g" by (simp_all add: h)
  have t: "touched view (lm_now h) {?k, ?l} 1 (lm_store h) s"
    and low: "r = Some 0 \<Longrightarrow> value_of view (lm_store h) (lm_now h) ?k + 1 \<le> AccountFailures \<and> value_of view (lm_store h) (lm_now h) ?l + 1 \<le> AddressFailures"
    unfolding same using begin_count_touched [OF R b] sent by (metis order_refl)+
  have op: "logins S ?g x = logins S h x + (if x \<in> {?k, ?l} \<and> at_state l \<in> S then 1 else 0)" for S x
    by (rule append_open) (simp_all add: l)
  have "key_inv view ?g x" for x
  proof (cases "x \<in> {?k, ?l}")
    case True
    have b: "base_inv view h x" using True rb(2,3) by auto
    have "value_of view (lm_store h) (lm_now h) x + 1 \<le> limit_of x" if "r = Some 0" using True low [OF that] by (auto simp: limit_of_keys)
    moreover have "view s (lm_now h) x = Some (value_of view (lm_store h) (lm_now h) x + 1, with_window (lm_now h) (expiry_of view (lm_store h) (lm_now h) x))"
      using True t by (simp add: touched_def)
    moreover have "at_state l = (if r = Some 0 then Flying else Refused)" by (simp add: l)
    ultimately show ?thesis using b True op [of _ x] open_counted [of h x] by (auto simp: key_inv_def base_inv_def split: if_splits)
  next
    case False
    have "key_inv view h x" using rb(1) by (simp add: limit_inv_def)
    moreover have "view s (lm_now h) x = view (lm_store h) (lm_now h) x" using False t by (simp add: touched_def)
    ultimately show ?thesis using False op [of _ x] by (intro key_inv_same [of view ?g x h]) simp_all
  qed
  moreover have "windows_ok ?g" using rb(1) kl by (simp add: limit_inv_def windows_ok_def l)
  ultimately show ?thesis by (simp add: limit_inv_def)
qed

text \<open>A count that stands.\<close>

lemma set_state_open:
  assumes "i < length (lm_attempts g)"
  shows "logins S (set_state i st g) k + (if at_state (lm_attempts g ! i) \<in> S \<and> in_window_of g k (lm_attempts g ! i) then 1 else 0) =
    logins S g k + (if st \<in> S \<and> in_window_of g k (lm_attempts g ! i) then 1 else 0)"
proof -
  let ?P = "\<lambda>l. in_window_of g k l \<and> at_state l \<in> S"
  have w: "in_window_of (set_state i st g) k = in_window_of g k" by (simp add: fun_eq_iff in_window_of_def set_state_def)
  have n: "in_window_of g k ((lm_attempts g ! i)\<lparr>at_state := st\<rparr>) = in_window_of g k (lm_attempts g ! i)" by (simp add: in_window_of_def)
  show ?thesis
    using length_filter_update [OF assms(1), of ?P "(lm_attempts g ! i)\<lparr>at_state := st\<rparr>"]
    unfolding logins_def w by (auto simp: set_state_def n split: if_splits)
qed

lemma set_state_windows: "windows_ok g \<Longrightarrow> windows_ok (set_state i st g)"
proof (cases "i < length (lm_attempts g)")
  case True
  assume w: "windows_ok g"
  have "lm_attempts g ! i \<in> set (lm_attempts g)" using True by simp
  then show ?thesis using w unfolding windows_ok_def set_state_def list_all_iff by (auto dest!: set_update_subset_insert [THEN subsetD])
next
  case False
  then show "windows_ok g \<Longrightarrow> windows_ok (set_state i st g)" by (simp add: set_state_def list_update_beyond)
qed

lemma set_state_simps [simp]:
  "lm_store (set_state i st g) = lm_store g" "lm_now (set_state i st g) = lm_now g" "lm_window (set_state i st g) = lm_window g"
  "lm_late (set_state i st g) = lm_late g"
  by (simp_all add: set_state_def)

lemma counted_inv:
  assumes "limit_inv view g" and "is_attempt v g i {Flying} email a"
  shows "limit_inv view (set_state i Counted g)"
proof -
  have i: "i < length (lm_attempts g)" "at_state (lm_attempts g ! i) = Flying" using assms(2) by (simp_all add: is_attempt_def)
  have "open_logins (set_state i Counted g) k = open_logins g k" "counted_logins (set_state i Counted g) k = counted_logins g k" for k
    using set_state_open [OF i(1), of "{Flying, Counted}" Counted k] set_state_open [OF i(1), of "{Flying, Counted, Refused}" Counted k] i(2)
    by simp_all
  then have "key_inv view (set_state i Counted g) k" for k
    using spec [OF conjunct2 [OF assms(1) [unfolded limit_inv_def]], of k] by (auto simp: key_inv_def split: option.splits)
  then show ?thesis using assms(1) by (simp add: limit_inv_def set_state_windows)
qed

text \<open>A count that is taken back.\<close>

lemma note_back_simps [simp]:
  "lm_store (note_back k w g) = lm_store g" "lm_now (note_back k w g) = lm_now g" "lm_window (note_back k w g) = lm_window g"
  "lm_attempts (note_back k w g) = lm_attempts g"
  "lm_late (note_back k w g) x = (if x = k \<and> lm_window g k \<noteq> w then lm_late g k + 1 else lm_late g x)"
  by (simp_all add: note_back_def)

lemma open_cong: "lm_attempts g' = lm_attempts g \<Longrightarrow> lm_window g' = lm_window g \<Longrightarrow> logins S g' = logins S g"
  by (simp add: fun_eq_iff logins_def in_window_of_def)

lemma back_logins:
  assumes "i < length (lm_attempts g)"
  shows "TakenBack \<notin> S \<Longrightarrow> logins S (set_state i TakenBack g) k \<le> logins S g k"
    and "at_state (lm_attempts g ! i) \<in> {Flying, Refused} \<Longrightarrow>
      counted_logins (set_state i TakenBack g) k + (if in_window_of g k (lm_attempts g ! i) then 1 else 0) = counted_logins g k"
  using set_state_open [OF assms, of S TakenBack k] set_state_open [OF assms, of "{Flying, Counted, Refused}" TakenBack k]
  by (auto split: if_splits)

lemma back_key:
  assumes base: "base_inv view h k" and i: "i < length (lm_attempts h)" "at_state (lm_attempts h ! i) \<in> {Flying, Refused}"
    and w: "in_window_of h k (lm_attempts h ! i) \<longleftrightarrow> lm_window h k = w"
    and t: "touched view (lm_now h) ks (- 1) (lm_store h) s" "k \<in> ks"
    and g': "lm_store g' = s" "lm_now g' = lm_now h" "lm_attempts g' = lm_attempts (set_state i TakenBack h)" "lm_window g' = lm_window h"
      "lm_late g' k = (if lm_window h k \<noteq> w then lm_late h k + 1 else lm_late h k)"
  shows "key_inv view g' k"
proof -
  have "logins S g' = logins S (set_state i TakenBack h)" for S by (rule open_cong) (simp_all add: g')
  then have "counted_logins g' k + (if lm_window h k = w then 1 else 0) = counted_logins h k" "open_logins g' k \<le> open_logins h k"
    using back_logins(1) [OF i(1), of "{Flying, Counted}" k] back_logins(2) [OF i, of k] w by simp_all
  then show ?thesis using base t by (auto simp: key_inv_def touched_def base_inv_def g' split: if_splits)
qed

lemma taken_back_inv:
  assumes R: "redis_counters R view" and inv: "limit_inv view g" and f: "is_attempt v g i {Flying, Refused} email a" and t: "t \<noteq> TxUnsent"
    and u: "Unchecked v R (lm_now g) t email a (lm_store g) = (s, ok)"
    and h: "h = roll view (addressKey v a) (roll view (accountKey v email) g)"
  shows "limit_inv view ((note_back (accountKey v email) (at_accountWindow (lm_attempts g ! i))
      (note_back (addressKey v a) (at_addressWindow (lm_attempts g ! i)) (set_state i TakenBack h)))\<lparr>lm_store := s\<rparr>)" (is "limit_inv view ?g")
proof -
  let ?k = "accountKey v email" and ?l = "addressKey v a" and ?x = "lm_attempts g ! i"
  note kl = key_prefixes [of v email a]
  note rb = roll_both [OF inv kl, folded h]
  have same: "lm_store h = lm_store g" "lm_now h = lm_now g" "lm_attempts h = lm_attempts g" by (simp_all add: h)
  have x: "i < length (lm_attempts h)" "at_state (lm_attempts h ! i) \<in> {Flying, Refused}" "at_account ?x = ?k" "at_address ?x = ?l"
    using f by (auto simp: is_attempt_def same)
  have tt: "touched view (lm_now h) {?k, ?l} (- 1) (lm_store h) s"
    using takeBack_touched [OF R t, of "lm_now g" v email a "lm_store g"] u by (simp add: Unchecked_def same)
  have w: "in_window_of h ?k (lm_attempts h ! i) \<longleftrightarrow> lm_window h ?k = at_accountWindow ?x"
    "in_window_of h ?l (lm_attempts h ! i) \<longleftrightarrow> lm_window h ?l = at_addressWindow ?x"
    using x(3,4) kl by (auto simp: in_window_of_def same)
  have A: "key_inv view ?g ?k" by (rule back_key [OF rb(2) x(1,2) w(1) tt]) (use kl in simp_all)
  have B: "key_inv view ?g ?l" by (rule back_key [OF rb(3) x(1,2) w(2) tt]) (use kl in simp_all)
  have C: "key_inv view ?g y" if "y \<notin> {?k, ?l}" for y
  proof (rule key_inv_same [of view ?g y h])
    show "logins S ?g y \<le> logins S h y" if "TakenBack \<notin> S" for S
      using back_logins(1) [OF x(1) that, of y] open_cong [of ?g "set_state i TakenBack h" S] by simp
    show "view (lm_store ?g) (lm_now ?g) y = view (lm_store h) (lm_now h) y" using tt that by (simp add: touched_def)
  qed (use that rb(1) in \<open>auto simp: limit_inv_def\<close>)
  have W: "windows_ok ?g" using set_state_windows [of h i TakenBack] rb(1) by (simp add: limit_inv_def windows_ok_def)
  have "key_inv view ?g y" for y
  proof (cases "y \<in> {?k, ?l}")
    case True
    with A B show ?thesis by (elim insertE emptyE) simp_all
  qed (rule C)
  then show ?thesis unfolding limit_inv_def using W by blast
qed

lemma succeeded_inv:
  assumes R: "redis_counters R view" and inv: "limit_inv view g" and f: "is_attempt v g i {Flying} email a" and t: "t \<noteq> TxUnsent"
    and u: "Succeeded v R (lm_now g) t email a (lm_store g) = (s, ok)" and h: "h = roll view (addressKey v a) g"
  shows "limit_inv view ((note_back (addressKey v a) (at_addressWindow (lm_attempts g ! i)) (set_state i TakenBack h))\<lparr>lm_store := s\<rparr>)"
    (is "limit_inv view ?g")
proof -
  let ?k = "accountKey v email" and ?l = "addressKey v a" and ?x = "lm_attempts g ! i"
  note kl = key_prefixes [of v email a]
  note hi = roll_inv [OF inv, of ?l, folded h] and hb = roll_base [OF inv, of ?l, folded h]
  have same: "lm_store h = lm_store g" "lm_now h = lm_now g" "lm_attempts h = lm_attempts g" by (simp_all add: h)
  have x: "i < length (lm_attempts h)" "at_state (lm_attempts h ! i) \<in> {Flying, Refused}" "at_account ?x = ?k" "at_address ?x = ?l"
    using f by (auto simp: is_attempt_def same)
  let ?s1 = "rd_del R (lm_now g) ?k (lm_store g)"
  have s: "s = decrement R (lm_now g) ?l ?s1" using u t by (simp add: Succeeded_def)
  have d: "view ?s1 (lm_now g) = (view (lm_store g) (lm_now g))(?k := None)" by (rule redis_laws(5) [OF R])
  have dl: "value_of view ?s1 (lm_now g) ?l = value_of view (lm_store g) (lm_now g) ?l"
    "expiry_of view ?s1 (lm_now g) ?l = expiry_of view (lm_store g) (lm_now g) ?l" using kl by (simp_all add: value_of_def expiry_of_def d)
  have vs: "view s (lm_now g) y = (if y = ?l then Some (value_of view (lm_store g) (lm_now g) ?l - 1,
      with_window (lm_now g) (expiry_of view (lm_store g) (lm_now g) ?l)) else if y = ?k then None else view (lm_store g) (lm_now g) y)" for y
    unfolding s decrement_view [OF R] dl d by simp
  have w: "in_window_of h ?l (lm_attempts h ! i) \<longleftrightarrow> lm_window h ?l = at_addressWindow ?x"
    using x(3,4) kl by (auto simp: in_window_of_def same)
  have eq: "logins S ?g = logins S (set_state i TakenBack h)" for S by (rule open_cong) simp_all
  have op: "counted_logins ?g y + (if in_window_of h y (lm_attempts h ! i) then 1 else 0) = counted_logins h y" for y
    unfolding eq by (rule back_logins(2) [OF x(1,2)])
  have le: "logins S ?g y \<le> logins S h y" if "TakenBack \<notin> S" for S y unfolding eq by (rule back_logins(1) [OF x(1) that])
  have A: "key_inv view ?g ?k" using kl by (simp add: key_inv_def vs same)
  have B: "key_inv view ?g ?l" using op [of ?l] le [of "{Flying, Counted}" ?l] w hb vs [of ?l] by (auto simp: key_inv_def base_inv_def same split: if_splits)
  have C: "key_inv view ?g y" if "y \<notin> {?k, ?l}" for y
  proof (rule key_inv_same [of view ?g y h])
    show "logins S ?g y \<le> logins S h y" if "TakenBack \<notin> S" for S by (rule le [OF that])
    show "view (lm_store ?g) (lm_now ?g) y = view (lm_store h) (lm_now h) y" using vs [of y] that by (simp add: same)
  qed (use that hi in \<open>auto simp: limit_inv_def\<close>)
  have W: "windows_ok ?g" using set_state_windows [of h i TakenBack] hi by (simp add: limit_inv_def windows_ok_def)
  have "key_inv view ?g y" for y
  proof (cases "y \<in> {?k, ?l}")
    case True
    with A B show ?thesis by (elim insertE emptyE) simp_all
  qed (rule C)
  then show ?thesis unfolding limit_inv_def using W by blast
qed

lemma limit_step_inv:
  assumes "limit_step v R view g g'" and "redis_counters R view" and "limit_inv view g"
  shows "limit_inv view g'"
  using assms
proof (induction rule: limit_step.induct)
  case (kept g i email a s ok)
  have "s = lm_store g" using kept(2) by (simp add: Unchecked_def takeBack_def)
  then have "(set_state i Counted g)\<lparr>lm_store := s\<rparr> = set_state i Counted g" by (cases g) (simp add: set_state_def)
  then show ?case using counted_inv [OF kept(4,1)] by simp
next
  case (unsent g i email a s ok)
  have "s = lm_store g" using unsent(2) by (simp add: Succeeded_def)
  then have "(set_state i Counted g)\<lparr>lm_store := s\<rparr> = set_state i Counted g" by (cases g) (simp add: set_state_def)
  then show ?case using counted_inv [OF unsent(4,1)] by simp
next
  case (tick g now)
  then show ?case by (intro tick_limit_inv)
next
  case (not_sent g email a s r)
  then have "s = lm_store g" by (simp add: begin_count_def)
  then have "g\<lparr>lm_store := s\<rparr> = g" by simp
  then show ?case using not_sent(3) by simp
next
  case (counted g t email a s r h)
  then show ?case by (intro counted_step_inv [OF counted(4,5,1,2,3)]) simp
next
  case (failed g i email a)
  then show ?case by (intro counted_inv)
next
  case (taken_back g i email a t s ok h)
  then show ?case by (intro taken_back_inv)
next
  case (succeeded g i email a t s ok h)
  then show ?case by (intro succeeded_inv)
qed

definition limit_init :: "'s \<Rightarrow> gotime \<Rightarrow> 's limit_system" where
  "limit_init s now = \<lparr>lm_store = s, lm_now = now, lm_attempts = [], lm_window = \<lambda>_. 0, lm_late = \<lambda>_. 0\<rparr>"

definition limit_reachable :: "limits_env \<Rightarrow> 's redis \<Rightarrow> 's counter_view \<Rightarrow> 's limit_system \<Rightarrow> bool" where
  "limit_reachable v R view g \<longleftrightarrow> (\<exists>s now. (\<forall>k. view s now k = None) \<and> (limit_step v R view)\<^sup>*\<^sup>* (limit_init s now) g)"

lemma limit_reachable_inv:
  assumes "limit_reachable v R view g" and "redis_counters R view"
  shows "limit_inv view g"
proof -
  obtain s now where s: "\<forall>k. view s now k = None" "(limit_step v R view)\<^sup>*\<^sup>* (limit_init s now) g"
    using assms(1) by (auto simp: limit_reachable_def)
  from s(2) show ?thesis
  proof (induction rule: rtranclp_induct)
    case base
    show ?case using s(1) by (simp add: limit_inv_def windows_ok_def key_inv_def limit_init_def)
  next
    case (step g g')
    then show ?case using limit_step_inv assms(2) by blast
  qed
qed

text \<open>C30: concurrent logins cannot pass the limits: over any interleaving of logins, their outcomes, lost
  transactions and time, of the logins counted in the running window of an account or address never more
  than its limit have failed or are being checked, plus one for each login of an earlier window that was
  taken back in this one.\<close>

theorem limits_hold:
  assumes "redis_counters R view" and "limit_reachable v R view g" and "view (lm_store g) (lm_now g) k \<noteq> None"
  shows "int (open_logins g k) \<le> limit_of k + int (lm_late g k)"
  using limit_reachable_inv [OF assms(2,1)] assms(3) by (auto simp: limit_inv_def key_inv_def split: option.splits dest: spec [of _ k])

text \<open>A store with these commands: a map of counts with their expiry.\<close>

definition map_view :: "(string \<Rightarrow> (int \<times> gotime option) option) counter_view" where
  "map_view s now = (\<lambda>k. case s k of Some (c, Some e) \<Rightarrow> if e \<le> now then None else Some (c, Some e) | x \<Rightarrow> x)"

definition map_redis :: "(string \<Rightarrow> (int \<times> gotime option) option) redis" where
  "map_redis =
     \<lparr>rd_incr = \<lambda>now k s. ((map_view s now)(k \<mapsto> (value_of map_view s now k + 1, expiry_of map_view s now k)), value_of map_view s now k + 1),
      rd_decr = \<lambda>now k s. ((map_view s now)(k \<mapsto> (value_of map_view s now k - 1, expiry_of map_view s now k)), value_of map_view s now k - 1),
      rd_expireNX = \<lambda>now k d s. (case map_view s now k of Some (c, None) \<Rightarrow> (map_view s now)(k \<mapsto> (c, Some (now + d))) | _ \<Rightarrow> map_view s now),
      rd_pttl = \<lambda>now k s. (case map_view s now k of Some (_, Some e) \<Rightarrow> e - now | Some (_, None) \<Rightarrow> - 1 | None \<Rightarrow> - 2),
      rd_del = \<lambda>now k s. (map_view s now)(k := None)\<rparr>"

lemma map_view_idem [simp]: "map_view (map_view s now) now = map_view s now"
  by (auto simp: map_view_def fun_eq_iff split: option.splits prod.splits)

lemma map_view_upd: "(\<And>e'. e = Some e' \<Longrightarrow> now < e') \<Longrightarrow> map_view ((map_view s now)(k \<mapsto> (c, e))) now = (map_view s now)(k \<mapsto> (c, e))"
  by (auto simp: map_view_def fun_eq_iff split: option.splits prod.splits)

lemma map_view_expiry: "expiry_of map_view s now k = Some e \<Longrightarrow> now < e"
  by (auto simp: expiry_of_def map_view_def split: option.splits prod.splits if_splits)

lemma map_redis_counters: "redis_counters map_redis map_view"
proof -
  have del: "map_view ((map_view s now)(k := None)) now = (map_view s now)(k := None)" for s now k
    by (auto simp: map_view_def fun_eq_iff split: option.splits prod.splits)
  have later: "map_view s now' k = (case map_view s now k of Some (c, Some e) \<Rightarrow> if e \<le> now' then None else Some (c, Some e) | x \<Rightarrow> x)"
    if "now \<le> now'" for now now' k s
    using that by (auto simp: map_view_def split: option.splits prod.splits)
  have exp: "map_view (rd_expireNX map_redis now k d s) now = (case map_view s now k of
      Some (c, None) \<Rightarrow> (map_view s now)(k \<mapsto> (c, Some (now + d))) | _ \<Rightarrow> map_view s now)" if "0 < d" for now k d s
    using that map_view_upd [of "Some (now + d)" now s k]
    by (simp add: map_redis_def split: option.splits prod.splits)
  show ?thesis
    unfolding redis_counters_def
  proof (intro conjI allI impI)
    fix now k s
    have upd: "map_view ((map_view s now)(k \<mapsto> (c, expiry_of map_view s now k))) now =
        (map_view s now)(k \<mapsto> (c, expiry_of map_view s now k))" for c
      by (intro map_view_upd map_view_expiry)
    show "map_view (fst (rd_incr map_redis now k s)) now =
        (map_view s now)(k \<mapsto> (value_of map_view s now k + 1, expiry_of map_view s now k))"
      and "map_view (fst (rd_decr map_redis now k s)) now =
        (map_view s now)(k \<mapsto> (value_of map_view s now k - 1, expiry_of map_view s now k))"
      by (simp_all add: map_redis_def upd)
    show "snd (rd_incr map_redis now k s) = value_of map_view s now k + 1" by (simp add: map_redis_def)
    show "map_view (rd_del map_redis now k s) now = (map_view s now)(k := None)" by (simp add: map_redis_def del)
  qed (rule exp, assumption, rule later, assumption)
qed

text \<open>The first login, on empty counters, is let through.\<close>

lemma begin_fresh:
  assumes R: "redis_counters R view" and empty: "view s now = (\<lambda>_. None)"
  obtains s' where "begin_count v R now TxDone email a s = (s', Some 0)" "view s' now (accountKey v email) \<noteq> None"
proof -
  let ?k = "accountKey v email" and ?l = "addressKey v a"
  obtain s1 n1 t1 where 1: "count_login R now ?k s = (s1, n1, t1)" by (metis prod_cases3)
  obtain s2 n2 t2 where 2: "count_login R now ?l s1 = (s2, n2, t2)" by (metis prod_cases3)
  note v1 = count_login_view [OF R 1] and v2 = count_login_view [OF R 2]
  have "n1 = 1" "n2 = 1" using v1 v2(2) key_prefixes [of v email a] by (simp_all add: value_of_def empty)
  then have "begin_count v R now TxDone email a s = (s2, Some 0)"
    using 1 2 by (simp add: begin_count_def counters_def over_def AccountFailures_def AddressFailures_def)
  moreover have "view s2 now ?k \<noteq> None" using v1 v2 key_prefixes [of v email a] by simp
  ultimately show thesis by (rule that)
qed

theorem limits_hold_witness:
  "\<exists>g :: (string \<Rightarrow> (int \<times> gotime option) option) limit_system.
     limit_reachable \<lparr>lv_sha = \<lambda>s. s, lv_block_text = \<lambda>_. ''10.0.0.1''\<rparr> map_redis map_view g \<and>
     open_logins g (accountKeyPrefix @ ''a@b'') = 1 \<and> int (open_logins g (accountKeyPrefix @ ''a@b'')) \<le> AccountFailures + int (lm_late g (accountKeyPrefix @ ''a@b''))"
proof -
  let ?v = "\<lparr>lv_sha = \<lambda>s. s, lv_block_text = \<lambda>_. ''10.0.0.1''\<rparr>" and ?k = "accountKeyPrefix @ ''a@b''" and ?l = "addressKeyPrefix @ ''10.0.0.1''"
  let ?g = "limit_init (\<lambda>_. None) 0"
  have keys: "accountKey ?v ''a@b'' = ?k" "addressKey ?v (IPv4 0) = ?l" by (simp_all add: accountKey_def addressKey_def)
  have kl: "?k \<noteq> ?l" using key_prefixes [of ?v "''a@b''" "IPv4 0"] unfolding keys .
  have mv: "map_view (\<lambda>_. None) 0 = (\<lambda>_. None)" by (simp add: map_view_def)
  obtain s where b: "begin_count ?v map_redis 0 TxDone ''a@b'' (IPv4 0) (\<lambda>_. None) = (s, Some 0)" and s: "map_view s 0 ?k \<noteq> None"
    using begin_fresh [of map_redis map_view "\<lambda>_. None" 0 ?v "''a@b''" "IPv4 0"] map_redis_counters mv unfolding keys by metis
  define h where "h = roll map_view ?l (roll map_view ?k ?g)"
  define g where "g = h\<lparr>lm_store := s, lm_attempts := lm_attempts h @ [\<lparr>at_account = ?k, at_address = ?l,
    at_accountWindow = lm_window h ?k, at_addressWindow = lm_window h ?l, at_state = Flying\<rparr>]\<rparr>"
  have "limit_step ?v map_redis map_view ?g g"
    using limit_step.counted [of TxDone ?v map_redis ?g "''a@b''" "IPv4 0" s "Some 0" h map_view] b
    unfolding keys g_def h_def by (simp add: limit_init_def)
  then have r: "limit_reachable ?v map_redis map_view g"
    unfolding limit_reachable_def using mv by (intro exI [of _ "\<lambda>_. None"] exI [of _ 0]) auto
  have "view_ok" if "view_ok = (map_view (lm_store g) (lm_now g) ?k \<noteq> None)" for view_ok
    using that s by (simp add: g_def h_def limit_init_def)
  then have "int (open_logins g ?k) \<le> limit_of ?k + int (lm_late g ?k)" using limits_hold [OF map_redis_counters r] by blast
  moreover have "limit_of ?k = AccountFailures" using limit_of_keys(1) [of ?v "''a@b''"] unfolding keys .
  moreover have "open_logins g ?k = 1" using kl by (simp add: g_def logins_def in_window_of_def h_def limit_init_def)
  ultimately show ?thesis using r by auto
qed

end
