(* ===== verification/Sessions.thy ===== *)
theory Sessions
  imports Base64 AuthLimits
begin

text \<open>
  Login sessions of the platform API (\<open>apps/api/internal/auth/sessions.go\<close>).  Redis is a parameter: a
  record of the commands the code sends, on a store of any type, with their documented effect on what the
  store shows under a key.  A stored value is the session document it parses to, or nothing.  The API and
  Redis share one clock.
\<close>

section \<open>Sessions\<close>

definition DefaultIdleTimeout :: duration where "DefaultIdleTimeout = 8 * ns_hour"
definition DefaultMaxAge :: duration where "DefaultMaxAge = 7 * 24 * ns_hour"
definition touchInterval :: duration where "touchInterval = ns_minute"

definition sessionKeyPrefix :: string where "sessionKeyPrefix = ''heartbeat:session:''"
definition userKeyPrefix :: string where "userKeyPrefix = ''heartbeat:user-sessions:''"
definition tokenBytes :: nat where "tokenBytes = 32"

record session_doc =
  ss_ID :: string
  ss_UserID :: string
  ss_Address :: string
  ss_Created :: gotime
  ss_LastSeen :: gotime

record session = session_doc +
  ss_key :: string

type_synonym session_value = "session_doc option"

datatype session_error = ErrNoSession | TokenFailed | NewIDFailed | MarshalFailed | CreateFailed | LookupFailed
  | UnmarshalFailed | TouchFailed | DeleteFailed | ListFailed | DeleteUserFailed

record sessions_cfg =
  sn_IdleTimeout :: duration
  sn_MaxAge :: duration

record 's session_redis =
  sr_get :: "gotime \<Rightarrow> string \<Rightarrow> 's \<Rightarrow> session_value option"
  sr_setNX :: "gotime \<Rightarrow> string \<Rightarrow> session_value \<Rightarrow> gotime \<Rightarrow> 's \<Rightarrow> 's \<times> bool"
  sr_setXX :: "gotime \<Rightarrow> string \<Rightarrow> session_value \<Rightarrow> gotime \<Rightarrow> 's \<Rightarrow> 's \<times> bool"
  sr_del :: "gotime \<Rightarrow> string \<Rightarrow> 's \<Rightarrow> 's"
  sr_sadd :: "gotime \<Rightarrow> string \<Rightarrow> string \<Rightarrow> 's \<Rightarrow> 's"
  sr_srem :: "gotime \<Rightarrow> string \<Rightarrow> string list \<Rightarrow> 's \<Rightarrow> 's"
  sr_expire :: "gotime \<Rightarrow> string \<Rightarrow> duration \<Rightarrow> 's \<Rightarrow> 's"
  sr_smembers :: "gotime \<Rightarrow> string \<Rightarrow> 's \<Rightarrow> string list"

definition ExpiresAt :: "sessions_cfg \<Rightarrow> 'a session_doc_scheme \<Rightarrow> gotime" where
  "ExpiresAt cfg session = ss_Created session + sn_MaxAge cfg"

definition deadline :: "sessions_cfg \<Rightarrow> 'a session_doc_scheme \<Rightarrow> gotime" where
  "deadline cfg session =
     (let idle = ss_LastSeen session + sn_IdleTimeout cfg; expires = ExpiresAt cfg session in
      if idle < expires then idle else expires)"

text \<open>\<open>json.Marshal\<close> of a session fails only on a time past the year 9999.\<close>

definition json_time :: "gotime \<Rightarrow> bool" where
  "json_time t \<longleftrightarrow> t < int (days_before_year 10000) * day_ns"

definition marshal :: "'a session_doc_scheme \<Rightarrow> session_value" where
  "marshal s = (if json_time (ss_Created s) \<and> json_time (ss_LastSeen s) then Some (session_doc.truncate s) else None)"

definition token_key :: "(string \<Rightarrow> string) \<Rightarrow> string \<Rightarrow> string" where
  "token_key sha raw = sha raw"

definition stamp :: "gotime \<Rightarrow> gotime" where
  "stamp now = time_truncate now ns_millisecond"

text \<open>\<open>Create\<close>: drawing the session, then the transaction that stores it.  \<open>raw\<close> and \<open>uid\<close> are what the
  random generator gave, if it did.\<close>

definition create_session :: "(string \<Rightarrow> string) \<Rightarrow> string option \<Rightarrow> string option \<Rightarrow> gotime \<Rightarrow> string \<Rightarrow> string \<Rightarrow> (session_error, session \<times> string) result" where
  "create_session sha raw uid now userID address =
     (case raw of None \<Rightarrow> Inl TokenFailed | Some raw \<Rightarrow>
      case uid of None \<Rightarrow> Inl NewIDFailed | Some uid \<Rightarrow>
      let session = \<lparr>ss_ID = uid, ss_UserID = userID, ss_Address = address, ss_Created = stamp now, ss_LastSeen = stamp now, ss_key = token_key sha raw\<rparr> in
      case marshal session of None \<Rightarrow> Inl MarshalFailed | Some _ \<Rightarrow> Inr (session, EncodeToString RawURLEncoding raw))"

definition create_commit :: "sessions_cfg \<Rightarrow> 's session_redis \<Rightarrow> gotime \<Rightarrow> tx \<Rightarrow> session \<Rightarrow> 's \<Rightarrow> 's \<times> session_error option" where
  "create_commit cfg R now t session s =
     (if t = TxUnsent then (s, Some CreateFailed)
      else case sr_setNX R now (sessionKeyPrefix @ ss_key session) (marshal session) (deadline cfg session) s of (s, ok) \<Rightarrow>
        let s = sr_sadd R now (userKeyPrefix @ ss_UserID session) (ss_key session) s;
            s = sr_expire R now (userKeyPrefix @ ss_UserID session) (sn_MaxAge cfg) s in
        (s, if t = TxDone \<and> ok then None else Some CreateFailed))"

definition CreateSession :: "sessions_cfg \<Rightarrow> (string \<Rightarrow> string) \<Rightarrow> 's session_redis \<Rightarrow> string option \<Rightarrow> string option \<Rightarrow> gotime \<Rightarrow> gotime \<Rightarrow> tx \<Rightarrow>
    string \<Rightarrow> string \<Rightarrow> 's \<Rightarrow> 's \<times> (session_error, session \<times> string) result" where
  "CreateSession cfg sha R raw uid now now' t userID address s =
     (case create_session sha raw uid now userID address of
        Inl e \<Rightarrow> (s, Inl e)
      | Inr (session, token) \<Rightarrow> (case create_commit cfg R now' t session s of
            (s, Some e) \<Rightarrow> (s, Inl e)
          | (s, None) \<Rightarrow> (s, Inr (session, token))))"

text \<open>\<open>Lookup\<close>: reading the session, then writing its last-seen time when that is due.\<close>

datatype lookup_outcome = Answer "(session_error, session) result" | Touch session

definition lookup_value :: "sessions_cfg \<Rightarrow> gotime \<Rightarrow> string \<Rightarrow> session_value \<Rightarrow> lookup_outcome" where
  "lookup_value cfg now key value =
     (case value of None \<Rightarrow> Answer (Inl UnmarshalFailed) | Some doc \<Rightarrow>
      let session = session_doc.extend doc (session.fields key) in
      if \<not> now < deadline cfg session then Answer (Inl ErrNoSession)
      else if time_sub now (ss_LastSeen session) < touchInterval then Answer (Inr session)
      else
        let session = session\<lparr>ss_LastSeen := stamp now\<rparr> in
        if marshal session = None then Answer (Inl MarshalFailed) else Touch session)"

definition lookup_read :: "sessions_cfg \<Rightarrow> (string \<Rightarrow> string) \<Rightarrow> 's session_redis \<Rightarrow> bool \<Rightarrow> gotime \<Rightarrow> gotime \<Rightarrow> string \<Rightarrow> 's \<Rightarrow> lookup_outcome" where
  "lookup_read cfg sha R replied now now' token s =
     (case DecodeString RawURLEncoding token of
        None \<Rightarrow> Answer (Inl ErrNoSession)
      | Some raw \<Rightarrow>
          if length raw \<noteq> tokenBytes then Answer (Inl ErrNoSession)
          else if \<not> replied then Answer (Inl LookupFailed)
          else case sr_get R now (sessionKeyPrefix @ token_key sha raw) s of
            None \<Rightarrow> Answer (Inl ErrNoSession)
          | Some value \<Rightarrow> lookup_value cfg now' (token_key sha raw) value)"

definition lookup_touch :: "sessions_cfg \<Rightarrow> 's session_redis \<Rightarrow> gotime \<Rightarrow> tx \<Rightarrow> session \<Rightarrow> 's \<Rightarrow> 's \<times> (session_error, session) result" where
  "lookup_touch cfg R now t session s =
     (if t = TxUnsent then (s, Inl TouchFailed)
      else case sr_setXX R now (sessionKeyPrefix @ ss_key session) (marshal session) (deadline cfg session) s of (s, ok) \<Rightarrow>
        (s, if t = TxLost then Inl TouchFailed else if ok then Inr session else Inl ErrNoSession))"

definition Lookup :: "sessions_cfg \<Rightarrow> (string \<Rightarrow> string) \<Rightarrow> 's session_redis \<Rightarrow> bool \<Rightarrow> gotime \<Rightarrow> gotime \<Rightarrow> gotime \<Rightarrow> tx \<Rightarrow> ('s \<Rightarrow> 's) \<Rightarrow>
    string \<Rightarrow> 's \<Rightarrow> 's \<times> (session_error, session) result" where
  "Lookup cfg sha R replied now now' now'' t meanwhile token s =
     (case lookup_read cfg sha R replied now now' token s of
        Answer r \<Rightarrow> (s, r)
      | Touch session \<Rightarrow> lookup_touch cfg R now'' t session (meanwhile s))"

definition DeleteSession :: "'s session_redis \<Rightarrow> gotime \<Rightarrow> tx \<Rightarrow> session \<Rightarrow> 's \<Rightarrow> 's \<times> session_error option" where
  "DeleteSession R now t session s =
     (if t = TxUnsent then (s, Some DeleteFailed)
      else (sr_srem R now (userKeyPrefix @ ss_UserID session) [ss_key session] (sr_del R now (sessionKeyPrefix @ ss_key session) s),
        if t = TxDone then None else Some DeleteFailed))"

text \<open>\<open>DeleteUser\<close>: listing the user's sessions, then the transaction that deletes them.\<close>

definition delete_listed :: "'s session_redis \<Rightarrow> gotime \<Rightarrow> tx \<Rightarrow> string \<Rightarrow> string list \<Rightarrow> 's \<Rightarrow> 's \<times> session_error option" where
  "delete_listed R now t userID keys s =
     (if keys = [] then (s, None)
      else if t = TxUnsent then (s, Some DeleteUserFailed)
      else (sr_srem R now (userKeyPrefix @ userID) keys (fold (\<lambda>key. sr_del R now (sessionKeyPrefix @ key)) keys s),
        if t = TxDone then None else Some DeleteUserFailed))"

definition DeleteUser :: "'s session_redis \<Rightarrow> bool \<Rightarrow> gotime \<Rightarrow> gotime \<Rightarrow> tx \<Rightarrow> ('s \<Rightarrow> 's) \<Rightarrow> string \<Rightarrow> 's \<Rightarrow> 's \<times> session_error option" where
  "DeleteUser R replied now now' t meanwhile userID s =
     (if \<not> replied then (s, Some ListFailed)
      else delete_listed R now' t userID (sr_smembers R now (userKeyPrefix @ userID) s) (meanwhile s))"

section \<open>The store\<close>

text \<open>What the store shows: under a key a value and when it expires, or a set and when that expires, if it
  does.\<close>

type_synonym 's value_view = "'s \<Rightarrow> gotime \<Rightarrow> string \<Rightarrow> (session_value \<times> gotime) option"
type_synonym 's index_view = "'s \<Rightarrow> gotime \<Rightarrow> string \<Rightarrow> string set \<times> gotime option"

definition expires_value :: "gotime \<Rightarrow> (session_value \<times> gotime) option \<Rightarrow> (session_value \<times> gotime) option" where
  "expires_value now x = (case x of Some (v, e) \<Rightarrow> if e \<le> now then None else Some (v, e) | None \<Rightarrow> None)"

definition expires_index :: "gotime \<Rightarrow> string set \<times> gotime option \<Rightarrow> string set \<times> gotime option" where
  "expires_index now x = (case x of (m, Some e) \<Rightarrow> if e \<le> now then ({}, None) else (m, Some e) | (m, None) \<Rightarrow> (m, None))"

text \<open>The value a \<open>SET\<close> with an expiry time leaves: Redis takes that time to the second.\<close>

definition value_set :: "gotime \<Rightarrow> string \<Rightarrow> session_value \<Rightarrow> gotime \<Rightarrow> (string \<Rightarrow> (session_value \<times> gotime) option) \<Rightarrow>
    (string \<Rightarrow> (session_value \<times> gotime) option) \<Rightarrow> bool" where
  "value_set now k v expireAt m m' \<longleftrightarrow>
     (\<exists>e. e \<le> expireAt \<and> expireAt < e + ns_second \<and> m' = m(k := if now < e then Some (v, e) else None))"

text \<open>The documented behaviour of the commands: a key holds a value or a set, not both; a set without
  members is no key.\<close>

definition redis_sessions :: "'s session_redis \<Rightarrow> 's value_view \<Rightarrow> 's index_view \<Rightarrow> bool" where
  "redis_sessions R V I \<longleftrightarrow>
     (\<forall>now k s. sr_get R now k s = map_option fst (V s now k)) \<and>
     (\<forall>now k v x s. I (fst (sr_setNX R now k v x s)) now = I s now \<and> I (fst (sr_setXX R now k v x s)) now = I s now) \<and>
     (\<forall>now k v x s. fst (I s now k) = {} \<longrightarrow>
        (snd (sr_setNX R now k v x s) \<longleftrightarrow> V s now k = None) \<and>
        (if V s now k = None then value_set now k v x (V s now) (V (fst (sr_setNX R now k v x s)) now)
         else V (fst (sr_setNX R now k v x s)) now = V s now)) \<and>
     (\<forall>now k v x s. fst (I s now k) = {} \<longrightarrow>
        (snd (sr_setXX R now k v x s) \<longleftrightarrow> V s now k \<noteq> None) \<and>
        (if V s now k \<noteq> None then value_set now k v x (V s now) (V (fst (sr_setXX R now k v x s)) now)
         else V (fst (sr_setXX R now k v x s)) now = V s now)) \<and>
     (\<forall>now k s. V (sr_del R now k s) now = (V s now)(k := None) \<and> I (sr_del R now k s) now = (I s now)(k := ({}, None))) \<and>
     (\<forall>now k x s. V s now k = None \<longrightarrow> V (sr_sadd R now k x s) now = V s now \<and>
        I (sr_sadd R now k x s) now = (I s now)(k := (insert x (fst (I s now k)), snd (I s now k)))) \<and>
     (\<forall>now k xs s. V s now k = None \<longrightarrow> V (sr_srem R now k xs s) now = V s now \<and>
        I (sr_srem R now k xs s) now = (I s now)(k :=
          (fst (I s now k) - set xs, if fst (I s now k) \<subseteq> set xs then None else snd (I s now k)))) \<and>
     (\<forall>now k d s. V s now k = None \<longrightarrow> fst (I s now k) \<noteq> {} \<longrightarrow> 0 < d \<longrightarrow> ns_second dvd d \<longrightarrow>
        V (sr_expire R now k d s) now = V s now \<and> I (sr_expire R now k d s) now = (I s now)(k := (fst (I s now k), Some (now + d)))) \<and>
     (\<forall>now k s. set (sr_smembers R now k s) = fst (I s now k)) \<and>
     (\<forall>now now' k s. now \<le> now' \<longrightarrow> V s now' k = expires_value now' (V s now k) \<and> I s now' k = expires_index now' (I s now k))"

lemma session_laws:
  assumes "redis_sessions R V I"
  shows "sr_get R now k s = map_option fst (V s now k)"
    and "I (fst (sr_setNX R now k v x s)) now = I s now"
    and "I (fst (sr_setXX R now k v x s)) now = I s now"
    and "fst (I s now k) = {} \<Longrightarrow> snd (sr_setNX R now k v x s) \<longleftrightarrow> V s now k = None"
    and "fst (I s now k) = {} \<Longrightarrow> V s now k = None \<Longrightarrow> value_set now k v x (V s now) (V (fst (sr_setNX R now k v x s)) now)"
    and "fst (I s now k) = {} \<Longrightarrow> V s now k \<noteq> None \<Longrightarrow> V (fst (sr_setNX R now k v x s)) now = V s now"
    and "fst (I s now k) = {} \<Longrightarrow> snd (sr_setXX R now k v x s) \<longleftrightarrow> V s now k \<noteq> None"
    and "fst (I s now k) = {} \<Longrightarrow> V s now k \<noteq> None \<Longrightarrow> value_set now k v x (V s now) (V (fst (sr_setXX R now k v x s)) now)"
    and "fst (I s now k) = {} \<Longrightarrow> V s now k = None \<Longrightarrow> V (fst (sr_setXX R now k v x s)) now = V s now"
    and "V (sr_del R now k s) now = (V s now)(k := None)"
    and "I (sr_del R now k s) now = (I s now)(k := ({}, None))"
    and "V s now k = None \<Longrightarrow> V (sr_sadd R now k m s) now = V s now"
    and "V s now k = None \<Longrightarrow> I (sr_sadd R now k m s) now = (I s now)(k := (insert m (fst (I s now k)), snd (I s now k)))"
    and "V s now k = None \<Longrightarrow> V (sr_srem R now k ms s) now = V s now"
    and "V s now k = None \<Longrightarrow> I (sr_srem R now k ms s) now = (I s now)(k :=
          (fst (I s now k) - set ms, if fst (I s now k) \<subseteq> set ms then None else snd (I s now k)))"
    and "V s now k = None \<Longrightarrow> fst (I s now k) \<noteq> {} \<Longrightarrow> 0 < d \<Longrightarrow> ns_second dvd d \<Longrightarrow> V (sr_expire R now k d s) now = V s now"
    and "V s now k = None \<Longrightarrow> fst (I s now k) \<noteq> {} \<Longrightarrow> 0 < d \<Longrightarrow> ns_second dvd d \<Longrightarrow>
          I (sr_expire R now k d s) now = (I s now)(k := (fst (I s now k), Some (now + d)))"
    and "set (sr_smembers R now k s) = fst (I s now k)"
    and "now \<le> now' \<Longrightarrow> V s now' k = expires_value now' (V s now k)"
    and "now \<le> now' \<Longrightarrow> I s now' k = expires_index now' (I s now k)"
  using assms unfolding redis_sessions_def by (simp_all split: if_splits)

lemma key_spaces [simp]: "sessionKeyPrefix @ k \<noteq> userKeyPrefix @ u" "userKeyPrefix @ u \<noteq> sessionKeyPrefix @ k"
  by (simp_all add: sessionKeyPrefix_def userKeyPrefix_def)

text \<open>The two key spaces are kept apart.\<close>

definition spaces_ok :: "'s value_view \<Rightarrow> 's index_view \<Rightarrow> 's \<Rightarrow> gotime \<Rightarrow> bool" where
  "spaces_ok V I s now \<longleftrightarrow> (\<forall>k. fst (I s now (sessionKeyPrefix @ k)) = {}) \<and> (\<forall>u. V s now (userKeyPrefix @ u) = None)"

text \<open>The session stored under a key, and the index of a user.\<close>

definition stored :: "'s value_view \<Rightarrow> 's \<Rightarrow> gotime \<Rightarrow> string \<Rightarrow> (session_value \<times> gotime) option" where
  "stored V s now k = V s now (sessionKeyPrefix @ k)"

definition user_index :: "'s index_view \<Rightarrow> 's \<Rightarrow> gotime \<Rightarrow> string \<Rightarrow> string set \<times> gotime option" where
  "user_index I s now u = I s now (userKeyPrefix @ u)"

text \<open>What each operation does to them.\<close>

definition whole_seconds :: "sessions_cfg \<Rightarrow> bool" where
  "whole_seconds cfg \<longleftrightarrow> 0 < sn_MaxAge cfg \<and> ns_second dvd sn_MaxAge cfg"

lemma create_commit_view:
  assumes R: "redis_sessions R V I" and cfg: "whole_seconds cfg" and ok: "spaces_ok V I s now" and t: "t \<noteq> TxUnsent"
    and c: "create_commit cfg R now t session s = (s', r)"
  defines "k \<equiv> ss_key session" and "u \<equiv> ss_UserID session"
  shows "spaces_ok V I s' now"
    and "user_index I s' now = (\<lambda>w. if w = u then (insert k (fst (user_index I s now u)), Some (now + sn_MaxAge cfg)) else user_index I s now w)"
    and "stored V s now k \<noteq> None \<Longrightarrow> stored V s' now = stored V s now \<and> r \<noteq> None"
    and "stored V s now k = None \<Longrightarrow> \<exists>e \<le> deadline cfg session. deadline cfg session < e + ns_second \<and>
      stored V s' now = (stored V s now)(k := if now < e then Some (marshal session, e) else None)"
    and "r = None \<Longrightarrow> stored V s now k = None"
proof -
  let ?x = "sr_setNX R now (sessionKeyPrefix @ k) (marshal session) (deadline cfg session) s"
  define s1 where "s1 = fst ?x"
  define s2 where "s2 = sr_sadd R now (userKeyPrefix @ u) k s1"
  have s': "s' = sr_expire R now (userKeyPrefix @ u) (sn_MaxAge cfg) s2" and r: "r = (if t = TxDone \<and> snd ?x then None else Some CreateFailed)"
    using c t by (auto simp: create_commit_def Let_def s1_def s2_def k_def u_def split: prod.splits)
  note L = session_laws [OF R]
  have e: "fst (I s now (sessionKeyPrefix @ k)) = {}" and un: "V s now (userKeyPrefix @ w) = None" for w using ok by (simp_all add: spaces_ok_def)
  have i1: "I s1 now = I s now" by (simp add: s1_def L(2))
  obtain m where v1: "V s1 now = (V s now)(sessionKeyPrefix @ k := m)"
    and m: "V s now (sessionKeyPrefix @ k) \<noteq> None \<Longrightarrow> m = V s now (sessionKeyPrefix @ k)"
      "V s now (sessionKeyPrefix @ k) = None \<Longrightarrow> \<exists>e \<le> deadline cfg session. deadline cfg session < e + ns_second \<and> m = (if now < e then Some (marshal session, e) else None)"
  proof (cases "V s now (sessionKeyPrefix @ k) = None")
    case True
    then show thesis using L(5) [OF e True, of "marshal session" "deadline cfg session"] that unfolding value_set_def s1_def by force
  next
    case False
    then show thesis using L(6) [OF e False, of "marshal session" "deadline cfg session"] that [of "V s now (sessionKeyPrefix @ k)"] unfolding s1_def by auto
  qed
  have u1: "V s1 now (userKeyPrefix @ w) = None" for w by (simp add: v1 un)
  have v2: "V s2 now = V s1 now" and i2: "I s2 now = (I s now)(userKeyPrefix @ u := (insert k (fst (I s now (userKeyPrefix @ u))), snd (I s now (userKeyPrefix @ u))))"
    unfolding s2_def by (simp_all add: L(12,13) [OF u1] i1)
  have ne: "fst (I s2 now (userKeyPrefix @ u)) \<noteq> {}" by (simp add: i2)
  have d: "0 < sn_MaxAge cfg" "ns_second dvd sn_MaxAge cfg" using cfg by (simp_all add: whole_seconds_def)
  have u2: "V s2 now (userKeyPrefix @ u) = None" by (simp add: v2 u1)
  have v3: "V s' now = (V s now)(sessionKeyPrefix @ k := m)" unfolding s' L(16) [OF u2 ne d] v2 v1 ..
  have i3: "I s' now = (I s now)(userKeyPrefix @ u := (insert k (fst (I s now (userKeyPrefix @ u))), Some (now + sn_MaxAge cfg)))"
    unfolding s' L(17) [OF u2 ne d] i2 by (simp add: fun_eq_iff)
  show "spaces_ok V I s' now" using ok by (auto simp: spaces_ok_def v3 i3)
  show "user_index I s' now = (\<lambda>w. if w = u then (insert k (fst (user_index I s now u)), Some (now + sn_MaxAge cfg)) else user_index I s now w)"
    by (simp add: i3 fun_eq_iff user_index_def)
  have st: "stored V s' now = (stored V s now)(k := m)" by (rule ext) (simp add: v3 stored_def)
  show "stored V s now k \<noteq> None \<Longrightarrow> stored V s' now = stored V s now \<and> r \<noteq> None"
    using m(1) L(4) [OF e] unfolding st by (simp add: r stored_def [symmetric])
  show "\<exists>e \<le> deadline cfg session. deadline cfg session < e + ns_second \<and>
      stored V s' now = (stored V s now)(k := if now < e then Some (marshal session, e) else None)" if "stored V s now k = None"
    using m(2) that unfolding st stored_def by blast
  show "r = None \<Longrightarrow> stored V s now k = None" using L(4) [OF e] by (auto simp: r stored_def split: if_splits)
qed

lemma lookup_touch_view:
  assumes R: "redis_sessions R V I" and ok: "spaces_ok V I s now" and t: "t \<noteq> TxUnsent"
    and c: "lookup_touch cfg R now t session s = (s', r)"
  defines "k \<equiv> ss_key session"
  shows "spaces_ok V I s' now" and "user_index I s' now = user_index I s now"
    and "stored V s now k = None \<Longrightarrow> stored V s' now = stored V s now"
    and "stored V s now k \<noteq> None \<Longrightarrow> \<exists>e \<le> deadline cfg session. deadline cfg session < e + ns_second \<and>
      stored V s' now = (stored V s now)(k := if now < e then Some (marshal session, e) else None)"
    and "r = Inr x \<Longrightarrow> x = session \<and> stored V s now k \<noteq> None"
proof -
  let ?x = "sr_setXX R now (sessionKeyPrefix @ k) (marshal session) (deadline cfg session) s"
  have s': "s' = fst ?x" and r: "r = (if t = TxLost then Inl TouchFailed else if snd ?x then Inr session else Inl ErrNoSession)"
    using c t by (auto simp: lookup_touch_def k_def split: prod.splits)
  note L = session_laws [OF R]
  have e: "fst (I s now (sessionKeyPrefix @ k)) = {}" and un: "V s now (userKeyPrefix @ w) = None" for w using ok by (simp_all add: spaces_ok_def)
  have i: "I s' now = I s now" unfolding s' by (rule L(3))
  then show "user_index I s' now = user_index I s now" by (simp add: fun_eq_iff user_index_def)
  have none: "V s' now = V s now" if "stored V s now k = None" using L(9) [OF e] that unfolding s' stored_def by blast
  then show "stored V s now k = None \<Longrightarrow> stored V s' now = stored V s now" by (simp add: fun_eq_iff stored_def)
  have some: "value_set now (sessionKeyPrefix @ k) (marshal session) (deadline cfg session) (V s now) (V s' now)" if "stored V s now k \<noteq> None"
    using L(8) [OF e] that unfolding s' stored_def by blast
  then show "\<exists>e \<le> deadline cfg session. deadline cfg session < e + ns_second \<and>
      stored V s' now = (stored V s now)(k := if now < e then Some (marshal session, e) else None)" if there: "stored V s now k \<noteq> None"
  proof -
    obtain e where "e \<le> deadline cfg session" "deadline cfg session < e + ns_second"
      "V s' now = (V s now)(sessionKeyPrefix @ k := if now < e then Some (marshal session, e) else None)"
      using some [OF there] unfolding value_set_def by blast
    then show ?thesis by (intro exI [of _ e]) (simp add: fun_eq_iff stored_def)
  qed
  have "V s' now (userKeyPrefix @ w) = None" for w using some none un by (cases "stored V s now k = None") (auto simp: value_set_def)
  then show "spaces_ok V I s' now" using ok by (simp add: spaces_ok_def i)
  show "r = Inr x \<Longrightarrow> x = session \<and> stored V s now k \<noteq> None" using L(7) [OF e] by (auto simp: r stored_def split: if_splits)
qed

text \<open>The index of a user without some keys.\<close>

definition without :: "string set \<Rightarrow> string set \<times> gotime option \<Rightarrow> string set \<times> gotime option" where
  "without K x = (fst x - K, if fst x \<subseteq> K then None else snd x)"

lemma del_view:
  assumes R: "redis_sessions R V I" and ok: "spaces_ok V I s now"
  shows "spaces_ok V I (fold (\<lambda>key. sr_del R now (sessionKeyPrefix @ key)) keys s) now \<and>
    stored V (fold (\<lambda>key. sr_del R now (sessionKeyPrefix @ key)) keys s) now = (\<lambda>k. if k \<in> set keys then None else stored V s now k) \<and>
    user_index I (fold (\<lambda>key. sr_del R now (sessionKeyPrefix @ key)) keys s) now = user_index I s now"
  using ok
proof (induction keys arbitrary: s)
  case Nil
  then show ?case by (simp add: fun_eq_iff)
next
  case (Cons key keys)
  let ?s = "sr_del R now (sessionKeyPrefix @ key) s"
  note L = session_laws(10,11) [OF R]
  have "spaces_ok V I ?s now" using Cons.prems by (auto simp: spaces_ok_def L)
  moreover have "stored V ?s now = (stored V s now)(key := None)" "user_index I ?s now = user_index I s now"
    by (simp_all add: fun_eq_iff stored_def user_index_def L)
  ultimately show ?case using Cons.IH [of ?s] by (auto simp: fun_eq_iff)
qed

lemma srem_view:
  assumes R: "redis_sessions R V I" and ok: "spaces_ok V I s now"
  shows "spaces_ok V I (sr_srem R now (userKeyPrefix @ u) keys s) now"
    and "stored V (sr_srem R now (userKeyPrefix @ u) keys s) now = stored V s now"
    and "user_index I (sr_srem R now (userKeyPrefix @ u) keys s) now = (user_index I s now)(u := without (set keys) (user_index I s now u))"
proof -
  have un: "V s now (userKeyPrefix @ u) = None" using ok by (simp add: spaces_ok_def)
  note L = session_laws(14,15) [OF R un]
  show "spaces_ok V I (sr_srem R now (userKeyPrefix @ u) keys s) now" using ok by (auto simp: spaces_ok_def L)
  show "stored V (sr_srem R now (userKeyPrefix @ u) keys s) now = stored V s now" by (simp add: fun_eq_iff stored_def L)
  show "user_index I (sr_srem R now (userKeyPrefix @ u) keys s) now = (user_index I s now)(u := without (set keys) (user_index I s now u))"
    by (simp add: fun_eq_iff user_index_def L without_def)
qed

lemma delete_listed_view:
  assumes R: "redis_sessions R V I" and ok: "spaces_ok V I s now" and t: "t \<noteq> TxUnsent" and c: "delete_listed R now t u keys s = (s', r)"
  shows "spaces_ok V I s' now" and "stored V s' now = (\<lambda>k. if k \<in> set keys then None else stored V s now k)"
    and "keys = [] \<Longrightarrow> s' = s"
    and "keys \<noteq> [] \<Longrightarrow> user_index I s' now = (user_index I s now)(u := without (set keys) (user_index I s now u))"
proof -
  show "keys = [] \<Longrightarrow> s' = s" using c by (simp add: delete_listed_def)
  note d = del_view [OF R ok, of keys] and e = srem_view [OF R conjunct1 [OF del_view [OF R ok, of keys]], of u keys]
  have s': "s' = (if keys = [] then s else sr_srem R now (userKeyPrefix @ u) keys (fold (\<lambda>key. sr_del R now (sessionKeyPrefix @ key)) keys s))"
    using c t by (auto simp: delete_listed_def split: if_splits)
  show "spaces_ok V I s' now" using ok e(1) by (simp add: s')
  show "stored V s' now = (\<lambda>k. if k \<in> set keys then None else stored V s now k)" using e(2) d by (simp add: s' fun_eq_iff)
  show "user_index I s' now = (user_index I s now)(u := without (set keys) (user_index I s now u))" if "keys \<noteq> []" using e(3) d that by (simp add: s')
qed

lemma DeleteSession_view:
  assumes R: "redis_sessions R V I" and ok: "spaces_ok V I s now" and t: "t \<noteq> TxUnsent" and c: "DeleteSession R now t session s = (s', r)"
  shows "spaces_ok V I s' now" and "stored V s' now = (stored V s now)(ss_key session := None)"
    and "user_index I s' now = (user_index I s now)(ss_UserID session := without {ss_key session} (user_index I s now (ss_UserID session)))"
proof -
  note d = del_view [OF R ok, of "[ss_key session]"]
  note e = srem_view [OF R conjunct1 [OF d], of "ss_UserID session" "[ss_key session]"]
  have s': "s' = sr_srem R now (userKeyPrefix @ ss_UserID session) [ss_key session] (fold (\<lambda>key. sr_del R now (sessionKeyPrefix @ key)) [ss_key session] s)"
    using c t by (auto simp: DeleteSession_def)
  show "spaces_ok V I s' now" unfolding s' by (rule e(1))
  show "stored V s' now = (stored V s now)(ss_key session := None)" unfolding s' e(2) using d by (simp add: fun_eq_iff)
  show "user_index I s' now = (user_index I s now)(ss_UserID session := without {ss_key session} (user_index I s now (ss_UserID session)))"
    unfolding s' e(3) using d by simp
qed

section \<open>Interleavings\<close>

text \<open>
  The state of the sessions of several API replicas: the store, the clock, the session each token was drawn
  for, the times the use of a session was recorded (its login, and every request that writes the last-seen
  time), the creations whose transaction is still to come, the lookups that are about to write the last-seen
  time, the listed keys of running \<open>DeleteUser\<close> calls, and the keys of the sessions that were deleted.
\<close>

record 's session_system =
  sy_store :: 's
  sy_now :: gotime
  sy_drawn :: "string \<Rightarrow> session option"
  sy_uses :: "(string \<times> gotime) set"
  sy_creating :: "session set"
  sy_touching :: "session set"
  sy_deleting :: "(string \<times> string list) set"
  sy_ended :: "string set"

text \<open>The keys whose creation has been carried out.\<close>

definition settled :: "'s session_system \<Rightarrow> string set \<Rightarrow> string set" where
  "settled g K = {k \<in> K. sy_drawn g k \<noteq> None \<and> k \<notin> ss_key ` sy_creating g}"

text \<open>Tokens are 256 random bits: the hash of a new one is not the hash of an earlier one.\<close>

inductive session_step :: "sessions_cfg \<Rightarrow> (string \<Rightarrow> string) \<Rightarrow> 's session_redis \<Rightarrow> 's session_system \<Rightarrow> 's session_system \<Rightarrow> bool" for cfg sha R where
  tick: "sy_now g \<le> now \<Longrightarrow> session_step cfg sha R g (g\<lparr>sy_now := now\<rparr>)"
| draw: "create_session sha (Some raw) uid (sy_now g) userID address = Inr (session, token) \<Longrightarrow> sy_drawn g (token_key sha raw) = None \<Longrightarrow>
    session_step cfg sha R g (g\<lparr>sy_drawn := (sy_drawn g)(token_key sha raw \<mapsto> session), sy_uses := insert (token_key sha raw, sy_now g) (sy_uses g),
      sy_creating := insert session (sy_creating g)\<rparr>)"
| not_created: "session \<in> sy_creating g \<Longrightarrow> create_commit cfg R (sy_now g) TxUnsent session (sy_store g) = (s, r) \<Longrightarrow>
    session_step cfg sha R g (g\<lparr>sy_store := s, sy_creating := sy_creating g - {session}\<rparr>)"
| created: "session \<in> sy_creating g \<Longrightarrow> t \<noteq> TxUnsent \<Longrightarrow> create_commit cfg R (sy_now g) t session (sy_store g) = (s, r) \<Longrightarrow>
    session_step cfg sha R g (g\<lparr>sy_store := s, sy_creating := sy_creating g - {session}\<rparr>)"
| looked_up: "lookup_read cfg sha R True (sy_now g) (sy_now g) token (sy_store g) = Touch session \<Longrightarrow>
    session_step cfg sha R g (g\<lparr>sy_uses := insert (ss_key session, sy_now g) (sy_uses g), sy_touching := insert session (sy_touching g)\<rparr>)"
| touched: "session \<in> sy_touching g \<Longrightarrow> t \<noteq> TxUnsent \<Longrightarrow> lookup_touch cfg R (sy_now g) t session (sy_store g) = (s, r) \<Longrightarrow>
    session_step cfg sha R g (g\<lparr>sy_store := s, sy_touching := sy_touching g - {session}\<rparr>)"
| deleted: "t \<noteq> TxUnsent \<Longrightarrow> DeleteSession R (sy_now g) t session (sy_store g) = (s, r) \<Longrightarrow>
    session_step cfg sha R g (g\<lparr>sy_store := s, sy_ended := sy_ended g \<union> settled g {ss_key session}\<rparr>)"
| listed: "session_step cfg sha R g
    (g\<lparr>sy_deleting := insert (userID, sr_smembers R (sy_now g) (userKeyPrefix @ userID) (sy_store g)) (sy_deleting g)\<rparr>)"
| deleted_user: "(userID, keys) \<in> sy_deleting g \<Longrightarrow> t \<noteq> TxUnsent \<Longrightarrow> delete_listed R (sy_now g) t userID keys (sy_store g) = (s, r) \<Longrightarrow>
    session_step cfg sha R g (g\<lparr>sy_store := s, sy_ended := sy_ended g \<union> settled g (set keys)\<rparr>)"

definition session_init :: "'s \<Rightarrow> gotime \<Rightarrow> 's session_system" where
  "session_init s now = \<lparr>sy_store = s, sy_now = now, sy_drawn = \<lambda>_. None, sy_uses = {}, sy_creating = {}, sy_touching = {}, sy_deleting = {}, sy_ended = {}\<rparr>"

definition session_reachable :: "sessions_cfg \<Rightarrow> (string \<Rightarrow> string) \<Rightarrow> 's session_redis \<Rightarrow> 's value_view \<Rightarrow> 's index_view \<Rightarrow> 's session_system \<Rightarrow> bool" where
  "session_reachable cfg sha R V I g \<longleftrightarrow> (\<exists>s now. (\<forall>k. V s now k = None \<and> fst (I s now k) = {}) \<and> (session_step cfg sha R)\<^sup>*\<^sup>* (session_init s now) g)"

text \<open>A session belongs to a login: it differs from what was drawn for its token in the last-seen time only.\<close>

definition same_login :: "'a session_doc_scheme \<Rightarrow> 'b session_doc_scheme \<Rightarrow> bool" where
  "same_login d d' \<longleftrightarrow> ss_ID d = ss_ID d' \<and> ss_UserID d = ss_UserID d' \<and> ss_Address d = ss_Address d' \<and> ss_Created d = ss_Created d'"

definition recorded :: "'s session_system \<Rightarrow> string \<Rightarrow> 'a session_doc_scheme \<Rightarrow> bool" where
  "recorded g k d \<longleftrightarrow> (\<exists>t. (k, t) \<in> sy_uses g \<and> t \<le> sy_now g \<and> ss_LastSeen d = stamp t)"

definition of_login :: "'s session_system \<Rightarrow> string \<Rightarrow> 'a session_doc_scheme \<Rightarrow> bool" where
  "of_login g k d \<longleftrightarrow> (\<exists>l. sy_drawn g k = Some l \<and> same_login d l) \<and> ss_Created d \<le> sy_now g \<and> recorded g k d"

definition stored_ok :: "sessions_cfg \<Rightarrow> 's index_view \<Rightarrow> 's session_system \<Rightarrow> string \<Rightarrow> session_value \<times> gotime \<Rightarrow> bool" where
  "stored_ok cfg I g k x \<longleftrightarrow> (\<exists>d. fst x = Some d \<and> of_login g k d \<and> snd x \<le> deadline cfg d \<and>
     k \<notin> ss_key ` sy_creating g \<and> k \<notin> sy_ended g \<and> k \<in> fst (user_index I (sy_store g) (sy_now g) (ss_UserID d)) \<and>
     (\<forall>e. snd (user_index I (sy_store g) (sy_now g) (ss_UserID d)) = Some e \<longrightarrow> ExpiresAt cfg d \<le> e))"

definition session_inv :: "sessions_cfg \<Rightarrow> 's value_view \<Rightarrow> 's index_view \<Rightarrow> 's session_system \<Rightarrow> bool" where
  "session_inv cfg V I g \<longleftrightarrow> spaces_ok V I (sy_store g) (sy_now g) \<and>
     (\<forall>k x. stored V (sy_store g) (sy_now g) k = Some x \<longrightarrow> stored_ok cfg I g k x) \<and>
     (\<forall>session \<in> sy_creating g. sy_drawn g (ss_key session) = Some session \<and> ss_LastSeen session = ss_Created session \<and>
        ss_Created session \<le> sy_now g \<and> marshal session \<noteq> None \<and> recorded g (ss_key session) session) \<and>
     (\<forall>session \<in> sy_touching g. of_login g (ss_key session) session \<and> ss_key session \<notin> ss_key ` sy_creating g \<and> marshal session \<noteq> None) \<and>
     sy_ended g \<subseteq> settled g UNIV"

lemma deadline_le: "deadline cfg d \<le> ExpiresAt cfg d" "deadline cfg d \<le> ss_LastSeen d + sn_IdleTimeout cfg"
  by (simp_all add: deadline_def Let_def)

lemma deadline_cong: "ss_Created d = ss_Created d' \<Longrightarrow> ss_LastSeen d = ss_LastSeen d' \<Longrightarrow> deadline cfg d = deadline cfg d'"
  by (simp add: deadline_def ExpiresAt_def)

lemma marshal_Some: "marshal session = Some d \<Longrightarrow> same_login d session \<and> ss_LastSeen d = ss_LastSeen session"
  by (auto simp: marshal_def same_login_def session_doc.truncate_def split: if_splits)

lemma stored_live: "redis_sessions R V I \<Longrightarrow> stored V s now k = Some (v, e) \<Longrightarrow> now < e"
  using session_laws(19) [of R V I now now s "sessionKeyPrefix @ k"] by (auto simp: stored_def expires_value_def split: if_splits)

lemma recorded_mono: "recorded g k d \<Longrightarrow> sy_uses g \<subseteq> sy_uses g' \<Longrightarrow> sy_now g \<le> sy_now g' \<Longrightarrow> recorded g' k d"
  unfolding recorded_def using order_trans by blast

lemma recorded_simps [simp]:
  "recorded (g\<lparr>sy_store := s\<rparr>) k d = recorded g k d" "recorded (g\<lparr>sy_drawn := r\<rparr>) k d = recorded g k d"
  "recorded (g\<lparr>sy_creating := c\<rparr>) k d = recorded g k d" "recorded (g\<lparr>sy_touching := c\<rparr>) k d = recorded g k d"
  "recorded (g\<lparr>sy_deleting := x\<rparr>) k d = recorded g k d" "recorded (g\<lparr>sy_ended := K\<rparr>) k d = recorded g k d"
  by (simp_all add: recorded_def)

lemma recorded_use: "sy_uses g \<subseteq> U \<Longrightarrow> recorded g k d \<Longrightarrow> recorded (g\<lparr>sy_uses := U\<rparr>) k d"
  by (auto simp: recorded_def)

lemma recorded_cong: "ss_LastSeen d = ss_LastSeen d' \<Longrightarrow> recorded g k d = recorded g k d'"
  by (simp add: recorded_def)

lemma of_login_mono: "of_login g k d \<Longrightarrow> (\<And>l. sy_drawn g k = Some l \<Longrightarrow> sy_drawn g' k = Some l) \<Longrightarrow> sy_uses g \<subseteq> sy_uses g' \<Longrightarrow>
    sy_now g \<le> sy_now g' \<Longrightarrow> of_login g' k d"
  unfolding of_login_def using recorded_mono [of g k d g'] by auto

lemma of_login_cong: "of_login g k d \<Longrightarrow> same_login d' d \<Longrightarrow> recorded g k d' \<Longrightarrow> of_login g k d'"
  unfolding of_login_def same_login_def by auto

lemma stored_okD:
  assumes "stored_ok cfg I g k x"
  shows "k \<notin> ss_key ` sy_creating g" "k \<notin> sy_ended g" "sy_drawn g k \<noteq> None"
    "\<exists>d. fst x = Some d \<and> of_login g k d \<and> snd x \<le> deadline cfg d \<and> k \<in> fst (user_index I (sy_store g) (sy_now g) (ss_UserID d))"
  using assms unfolding stored_ok_def of_login_def by auto

lemma stored_ok_mono:
  assumes "stored_ok cfg I g k x" and "\<And>l. sy_drawn g k = Some l \<Longrightarrow> sy_drawn g' k = Some l" "sy_uses g \<subseteq> sy_uses g'" "sy_now g \<le> sy_now g'"
    and "k \<notin> ss_key ` sy_creating g'" "k \<notin> sy_ended g'"
    and "\<And>d :: session_doc. k \<in> fst (user_index I (sy_store g) (sy_now g) (ss_UserID d)) \<Longrightarrow> ss_Created d \<le> sy_now g \<Longrightarrow> snd x \<le> ExpiresAt cfg d \<Longrightarrow>
      (\<forall>e. snd (user_index I (sy_store g) (sy_now g) (ss_UserID d)) = Some e \<longrightarrow> ExpiresAt cfg d \<le> e) \<Longrightarrow>
      k \<in> fst (user_index I (sy_store g') (sy_now g') (ss_UserID d)) \<and>
      (\<forall>e. snd (user_index I (sy_store g') (sy_now g') (ss_UserID d)) = Some e \<longrightarrow> ExpiresAt cfg d \<le> e)"
  shows "stored_ok cfg I g' k x"
proof -
  obtain d where d: "fst x = Some d" "of_login g k d" "snd x \<le> deadline cfg d" "k \<in> fst (user_index I (sy_store g) (sy_now g) (ss_UserID d))"
    "\<forall>e. snd (user_index I (sy_store g) (sy_now g) (ss_UserID d)) = Some e \<longrightarrow> ExpiresAt cfg d \<le> e"
    using assms(1) unfolding stored_ok_def by blast
  have "ss_Created d \<le> sy_now g" "snd x \<le> ExpiresAt cfg d" using d(2,3) deadline_le(1) [of cfg d] by (auto simp: of_login_def)
  then show ?thesis
    unfolding stored_ok_def using d assms(5,6) assms(7) [of d] of_login_mono [OF d(2) assms(2,3,4)] by blast
qed

lemma session_invD:
  assumes "session_inv cfg V I g"
  shows "spaces_ok V I (sy_store g) (sy_now g)"
    and "stored V (sy_store g) (sy_now g) k = Some x \<Longrightarrow> stored_ok cfg I g k x"
    and "session \<in> sy_creating g \<Longrightarrow> sy_drawn g (ss_key session) = Some session \<and> ss_LastSeen session = ss_Created session \<and>
        ss_Created session \<le> sy_now g \<and> marshal session \<noteq> None \<and> recorded g (ss_key session) session"
    and "session \<in> sy_touching g \<Longrightarrow> of_login g (ss_key session) session \<and> ss_key session \<notin> ss_key ` sy_creating g \<and> marshal session \<noteq> None"
    and "sy_ended g \<subseteq> settled g UNIV"
  using assms unfolding session_inv_def by blast+

lemma tick_session_inv:
  assumes R: "redis_sessions R V I" and inv: "session_inv cfg V I g" and le: "sy_now g \<le> now"
  shows "session_inv cfg V I (g\<lparr>sy_now := now\<rparr>)"
proof -
  let ?s = "sy_store g" and ?g = "g\<lparr>sy_now := now\<rparr>"
  note D = session_invD [OF inv]
  note late = session_laws(19,20) [OF R le]
  have "expires_index now x = x \<or> fst (expires_index now x) = {}" for x by (cases x) (simp add: expires_index_def split: option.splits)
  then have "fst (I ?s now (sessionKeyPrefix @ k)) = {}" for k using D(1) unfolding spaces_ok_def late by metis
  moreover have "V ?s now (userKeyPrefix @ u) = None" for u using D(1) by (simp add: spaces_ok_def late expires_value_def)
  ultimately have "spaces_ok V I ?s now" unfolding spaces_ok_def by blast
  moreover have "stored_ok cfg I ?g k x" if x: "stored V ?s now k = Some x" for k x
  proof -
    have old: "stored V ?s (sy_now g) k = Some x" "\<not> snd x \<le> now"
      using x by (auto simp: stored_def late expires_value_def split: option.splits prod.splits if_splits)
    show ?thesis
    proof (rule stored_ok_mono [OF D(2) [OF old(1)]])
      show "k \<notin> ss_key ` sy_creating ?g" "k \<notin> sy_ended ?g" using stored_okD(1,2) [OF D(2) [OF old(1)]] by simp_all
      fix d :: session_doc
      assume a: "k \<in> fst (user_index I ?s (sy_now g) (ss_UserID d))" "snd x \<le> ExpiresAt cfg d"
        "\<forall>e. snd (user_index I ?s (sy_now g) (ss_UserID d)) = Some e \<longrightarrow> ExpiresAt cfg d \<le> e"
      have "user_index I ?s now (ss_UserID d) = user_index I ?s (sy_now g) (ss_UserID d)"
        using a old(2) by (auto simp: user_index_def late expires_index_def split: prod.splits option.splits)
      then show "k \<in> fst (user_index I (sy_store ?g) (sy_now ?g) (ss_UserID d)) \<and>
          (\<forall>e. snd (user_index I (sy_store ?g) (sy_now ?g) (ss_UserID d)) = Some e \<longrightarrow> ExpiresAt cfg d \<le> e)" using a by simp
    qed (use le in simp_all)
  qed
  moreover have "of_login ?g (ss_key l) l \<and> ss_key l \<notin> ss_key ` sy_creating ?g \<and> marshal l \<noteq> None" if "l \<in> sy_touching ?g" for l
    using D(4) [of l] that le of_login_mono [of g "ss_key l" l ?g] by simp
  moreover have "sy_drawn ?g (ss_key l) = Some l \<and> ss_LastSeen l = ss_Created l \<and> ss_Created l \<le> sy_now ?g \<and> marshal l \<noteq> None \<and>
      recorded ?g (ss_key l) l" if "l \<in> sy_creating ?g" for l
    using D(3) [of l] that le recorded_mono [of g "ss_key l" l ?g] by simp
  moreover have "sy_ended ?g \<subseteq> settled ?g UNIV" using D(5) by (simp add: settled_def)
  ultimately show ?thesis unfolding session_inv_def by simp
qed

lemma draw_inv:
  assumes inv: "session_inv cfg V I g" and c: "create_session sha (Some raw) uid (sy_now g) userID address = Inr (session, token)"
    and fresh: "sy_drawn g (token_key sha raw) = None"
  shows "session_inv cfg V I (g\<lparr>sy_drawn := (sy_drawn g)(token_key sha raw \<mapsto> session), sy_uses := insert (token_key sha raw, sy_now g) (sy_uses g),
      sy_creating := insert session (sy_creating g)\<rparr>)"
    (is "session_inv cfg V I ?g")
proof -
  let ?k = "token_key sha raw"
  note D = session_invD [OF inv]
  have s: "ss_key session = ?k" "ss_LastSeen session = ss_Created session" "ss_Created session \<le> sy_now g" "marshal session \<noteq> None"
      "ss_LastSeen session = stamp (sy_now g)"
    using c time_truncate_le [of ns_millisecond "sy_now g"]
    by (auto simp: create_session_def Let_def stamp_def ns_millisecond_def split: option.splits)
  have new: "k \<noteq> ?k" if "sy_drawn g k \<noteq> None" for k using that fresh by auto
  have "stored_ok cfg I ?g k x" if "stored V (sy_store ?g) (sy_now ?g) k = Some x" for k x
  proof (rule stored_ok_mono [of cfg I g])
    show ok: "stored_ok cfg I g k x" using D(2) that by simp
    show "k \<notin> ss_key ` sy_creating ?g" "k \<notin> sy_ended ?g" using stored_okD [OF ok] new [of k] by (auto simp: s)
    show "\<And>l. sy_drawn g k = Some l \<Longrightarrow> sy_drawn ?g k = Some l" using fresh by auto
  qed auto
  moreover have "of_login ?g (ss_key l) l \<and> ss_key l \<notin> ss_key ` sy_creating ?g \<and> marshal l \<noteq> None" if l: "l \<in> sy_touching ?g" for l
  proof -
    have l': "of_login g (ss_key l) l" "ss_key l \<notin> ss_key ` sy_creating g" "marshal l \<noteq> None" using l D(4) by auto
    then have "ss_key l \<noteq> ?k" using new by (auto simp: of_login_def)
    then show ?thesis using l' by (auto simp: s of_login_def intro!: recorded_use)
  qed
  moreover have "sy_drawn ?g (ss_key l) = Some l \<and> ss_LastSeen l = ss_Created l \<and> ss_Created l \<le> sy_now ?g \<and> marshal l \<noteq> None \<and>
      recorded ?g (ss_key l) l" if "l \<in> sy_creating ?g" for l
  proof (cases "l = session")
    case True
    with s show ?thesis by (auto simp: recorded_def)
  next
    case False
    with that D(3) [of l] fresh show ?thesis by (auto intro!: recorded_use)
  qed
  moreover have "sy_ended ?g \<subseteq> settled ?g UNIV" using D(5) new by (auto simp: settled_def s)
  ultimately show ?thesis unfolding session_inv_def using D(1) by simp
qed

text \<open>A creation that is over frees its key.\<close>

lemma creating_over:
  assumes inv: "session_inv cfg V I g" and "session \<in> sy_creating g"
  shows "ss_key ` (sy_creating g - {session}) = ss_key ` sy_creating g - {ss_key session}"
proof -
  have "inj_on ss_key (sy_creating g)"
    using session_invD(3) [OF inv] by (intro inj_onI) (metis option.inject)
  from inj_on_image_set_diff [OF this, of "sy_creating g" "{session}"] show ?thesis using assms(2) by simp
qed

lemma created_inv:
  assumes R: "redis_sessions R V I" and cfg: "whole_seconds cfg" and inv: "session_inv cfg V I g"
    and c: "session \<in> sy_creating g" "t \<noteq> TxUnsent" "create_commit cfg R (sy_now g) t session (sy_store g) = (s, r)"
  shows "session_inv cfg V I (g\<lparr>sy_store := s, sy_creating := sy_creating g - {session}\<rparr>)" (is "session_inv cfg V I ?g")
proof -
  let ?k = "ss_key session" and ?u = "ss_UserID session" and ?now = "sy_now g"
  note D = session_invD [OF inv] and C = creating_over [OF inv c(1)]
  note W = create_commit_view [OF R cfg D(1) c(2,3)]
  have l: "sy_drawn g ?k = Some session" "ss_LastSeen session = ss_Created session" "ss_Created session \<le> ?now"
    "recorded g ?k session" using D(3) [OF c(1)] by auto
  obtain doc where doc: "marshal session = Some doc" using D(3) [OF c(1)] by auto
  note M = marshal_Some [OF doc]
  have none: "stored V (sy_store g) ?now ?k = None"
  proof (rule ccontr)
    assume "stored V (sy_store g) ?now ?k \<noteq> None"
    then obtain x where "stored V (sy_store g) ?now ?k = Some x" by blast
    from stored_okD(1) [OF D(2) [OF this]] show False using c(1) by blast
  qed
  obtain e where e: "e \<le> deadline cfg session"
    "stored V s ?now = (stored V (sy_store g) ?now)(?k := if ?now < e then Some (Some doc, e) else None)"
    using W(4) [OF none] doc by auto
  have "stored_ok cfg I ?g k x" if x: "stored V (sy_store ?g) (sy_now ?g) k = Some x" for k x
  proof (cases "k = ?k")
    case True
    then have x': "x = (Some doc, e)" using x e(2) by (simp split: if_splits)
    have "of_login ?g ?k doc" using l M recorded_cong [of doc session] by (auto simp: of_login_def same_login_def)
    moreover have "deadline cfg doc = deadline cfg session" using M by (intro deadline_cong) (simp_all add: same_login_def)
    moreover have "?k \<notin> sy_ended g" using D(5) c(1) by (auto simp: settled_def)
    moreover have "ExpiresAt cfg doc \<le> ?now + sn_MaxAge cfg" using M l(3) by (simp add: ExpiresAt_def same_login_def)
    moreover have "ss_UserID doc = ?u" using M by (simp add: same_login_def)
    ultimately show ?thesis unfolding stored_ok_def x' True using e(1) C by (simp add: W(2))
  next
    case False
    then have old: "stored_ok cfg I g k x" using x e(2) D(2) by simp
    show ?thesis
      by (rule stored_ok_mono [OF old]) (use stored_okD(1,2) [OF old] C in \<open>auto simp: W(2) ExpiresAt_def\<close>)
  qed
  moreover have "sy_ended ?g \<subseteq> settled ?g UNIV" using D(5) by (auto simp: settled_def)
  moreover have "of_login ?g (ss_key l) l \<and> ss_key l \<notin> ss_key ` sy_creating ?g \<and> marshal l \<noteq> None" if "l \<in> sy_touching ?g" for l
    using D(4) [of l] that by (auto simp: of_login_def)
  ultimately show ?thesis unfolding session_inv_def using D(3) W(1) by simp
qed

lemma not_created_inv:
  assumes inv: "session_inv cfg V I g" and c: "session \<in> sy_creating g" "create_commit cfg R (sy_now g) TxUnsent session (sy_store g) = (s, r)"
  shows "session_inv cfg V I (g\<lparr>sy_store := s, sy_creating := sy_creating g - {session}\<rparr>)" (is "session_inv cfg V I ?g")
proof -
  note D = session_invD [OF inv]
  have s: "s = sy_store g" using c(2) by (simp add: create_commit_def)
  have "stored_ok cfg I ?g k x" if x: "stored V (sy_store ?g) (sy_now ?g) k = Some x" for k x
  proof -
    have old: "stored_ok cfg I g k x" using x D(2) by (simp add: s)
    show ?thesis by (rule stored_ok_mono [OF old]) (use stored_okD(1,2) [OF old] in \<open>auto simp: s\<close>)
  qed
  moreover have "sy_ended ?g \<subseteq> settled ?g UNIV" using D(5) by (auto simp: settled_def)
  moreover have "of_login ?g (ss_key l) l \<and> ss_key l \<notin> ss_key ` sy_creating ?g \<and> marshal l \<noteq> None" if "l \<in> sy_touching ?g" for l
    using D(4) [of l] that by (auto simp: of_login_def)
  ultimately show ?thesis unfolding session_inv_def using D(1,3) by (simp add: s)
qed

text \<open>What a lookup answers or is about to write is the session stored under the token's key.\<close>

lemma lookup_read_stored:
  assumes R: "redis_sessions R V I" and l: "lookup_read cfg sha R True now now token s \<in> {Answer (Inr session), Touch session}"
  obtains raw d e where "DecodeString RawURLEncoding token = Some raw" "stored V s now (token_key sha raw) = Some (Some d, e)"
    "ss_key session = token_key sha raw" "same_login session d" "now < deadline cfg d"
    "ss_LastSeen session \<in> {ss_LastSeen d, stamp now}"
    "lookup_read cfg sha R True now now token s = Touch session \<Longrightarrow> ss_LastSeen session = stamp now \<and> marshal session \<noteq> None"
proof -
  obtain raw val where raw: "DecodeString RawURLEncoding token = Some raw" "sr_get R now (sessionKeyPrefix @ token_key sha raw) s = Some val"
    "lookup_read cfg sha R True now now token s = lookup_value cfg now (token_key sha raw) val"
    using l by (auto simp: lookup_read_def split: option.splits if_splits)
  obtain e where e: "stored V s now (token_key sha raw) = Some (val, e)"
    using raw(2) session_laws(1) [OF R, of now "sessionKeyPrefix @ token_key sha raw" s] by (auto simp: stored_def)
  obtain d where d: "val = Some d" using l raw(3) by (auto simp: lookup_value_def split: option.splits)
  define x where "x = session_doc.extend d (session.fields (token_key sha raw))"
  have x: "ss_key x = token_key sha raw" "same_login x d" "ss_LastSeen x = ss_LastSeen d"
    by (simp_all add: x_def same_login_def session_doc.extend_def session.fields_def)
  have dl: "deadline cfg x = deadline cfg d" using x by (intro deadline_cong) (simp_all add: same_login_def)
  have v: "lookup_value cfg now (token_key sha raw) val =
      (if \<not> now < deadline cfg d then Answer (Inl ErrNoSession)
       else if time_sub now (ss_LastSeen d) < touchInterval then Answer (Inr x)
       else if marshal (x\<lparr>ss_LastSeen := stamp now\<rparr>) = None then Answer (Inl MarshalFailed) else Touch (x\<lparr>ss_LastSeen := stamp now\<rparr>))"
    by (simp add: lookup_value_def d Let_def x_def [symmetric] dl x(3))
  have "now < deadline cfg d" "session = x \<and> lookup_read cfg sha R True now now token s = Answer (Inr session) \<or>
      session = x\<lparr>ss_LastSeen := stamp now\<rparr> \<and> marshal session \<noteq> None"
    using l unfolding raw(3) v by (auto split: if_splits)
  then show thesis using raw(1) e d x by (intro that [of raw d e]) (auto simp: same_login_def)
qed

lemma stamp_le: "stamp now \<le> now"
  using time_truncate_le [of ns_millisecond now] by (simp add: stamp_def ns_millisecond_def)

lemma looked_up_inv:
  assumes R: "redis_sessions R V I" and inv: "session_inv cfg V I g"
    and l: "lookup_read cfg sha R True (sy_now g) (sy_now g) token (sy_store g) = Touch session"
  shows "session_inv cfg V I (g\<lparr>sy_uses := insert (ss_key session, sy_now g) (sy_uses g), sy_touching := insert session (sy_touching g)\<rparr>)"
proof -
  note D = session_invD [OF inv]
  have "lookup_read cfg sha R True (sy_now g) (sy_now g) token (sy_store g) \<in> {Answer (Inr session), Touch session}" using l by simp
  then obtain raw d e where x: "stored V (sy_store g) (sy_now g) (token_key sha raw) = Some (Some d, e)"
    "ss_key session = token_key sha raw" "same_login session d" "ss_LastSeen session = stamp (sy_now g)" "marshal session \<noteq> None"
    using lookup_read_stored [OF R] l by metis
  have d: "of_login g (ss_key session) d" using stored_okD(4) [OF D(2) [OF x(1)]] x(2) by auto
  let ?g = "g\<lparr>sy_uses := insert (ss_key session, sy_now g) (sy_uses g), sy_touching := insert session (sy_touching g)\<rparr>"
  have old: "of_login ?g k x" if "of_login g k x" for k and x :: session
    by (rule of_login_mono [OF that]) auto
  have "recorded ?g (ss_key session) session" using x(4) by (auto simp: recorded_def)
  moreover have "of_login ?g (ss_key session) d" by (rule of_login_mono [OF d]) auto
  ultimately have "of_login ?g (ss_key session) session" using of_login_cong [OF _ x(3)] by blast
  moreover have "ss_key session \<notin> ss_key ` sy_creating g" using stored_okD(1) [OF D(2) [OF x(1)]] x(2) by simp
  moreover have "stored_ok cfg I ?g k x" if "stored_ok cfg I g k x" for k x
    by (rule stored_ok_mono [OF that]) (use stored_okD(1,2) [OF that] in auto)
  moreover have "recorded ?g k x" if "recorded g k x" for k and x :: session
    by (rule recorded_mono [OF that]) auto
  ultimately show ?thesis using inv x(5) old unfolding session_inv_def by (auto simp: settled_def)
qed

lemma touched_inv:
  assumes R: "redis_sessions R V I" and inv: "session_inv cfg V I g"
    and c: "session \<in> sy_touching g" "t \<noteq> TxUnsent" "lookup_touch cfg R (sy_now g) t session (sy_store g) = (s, r)"
  shows "session_inv cfg V I (g\<lparr>sy_store := s, sy_touching := sy_touching g - {session}\<rparr>)" (is "session_inv cfg V I ?g")
proof -
  let ?k = "ss_key session" and ?now = "sy_now g"
  note D = session_invD [OF inv] and W = lookup_touch_view [OF R session_invD(1) [OF inv] c(2,3)]
  obtain doc where doc: "marshal session = Some doc" using D(4) [OF c(1)] by auto
  note M = marshal_Some [OF doc]
  have ol: "of_login g ?k session" using D(4) [OF c(1)] by blast
  have keep: "stored_ok cfg I ?g k x" if old: "stored_ok cfg I g k x" for k x
    by (rule stored_ok_mono [OF old]) (use stored_okD(1,2) [OF old] in \<open>auto simp: W(2)\<close>)
  have "stored_ok cfg I ?g k x" if x: "stored V (sy_store ?g) (sy_now ?g) k = Some x" for k x
  proof (cases "stored V (sy_store g) ?now ?k")
    case None
    then show ?thesis using x W(3) D(2) keep by simp
  next
    case (Some y)
    then obtain e where e: "e \<le> deadline cfg session" "stored V s ?now = (stored V (sy_store g) ?now)(?k := if ?now < e then Some (Some doc, e) else None)"
      using W(4) doc by auto
    note y = D(2) [OF Some]
    show ?thesis
    proof (cases "k = ?k")
      case True
      then have x': "x = (Some doc, e)" using x e(2) by (simp split: if_splits)
      obtain d :: session_doc where d: "of_login g ?k d" "?k \<in> fst (user_index I (sy_store g) ?now (ss_UserID d))"
        "\<forall>e. snd (user_index I (sy_store g) ?now (ss_UserID d)) = Some e \<longrightarrow> ExpiresAt cfg d \<le> e"
        using y unfolding stored_ok_def by blast
      have same: "ss_UserID doc = ss_UserID d" "ss_Created doc = ss_Created d" using d(1) ol M by (auto simp: of_login_def same_login_def)
      have "of_login ?g ?k doc" using ol M recorded_cong [of doc session] by (auto simp: of_login_def same_login_def)
      moreover have "deadline cfg doc = deadline cfg session" using M by (intro deadline_cong) (simp_all add: same_login_def)
      ultimately show ?thesis unfolding stored_ok_def x' True using e(1) d(2,3) stored_okD(1,2) [OF y] same by (simp add: W(2) ExpiresAt_def)
    next
      case False
      then show ?thesis using x e(2) D(2) keep by simp
    qed
  qed
  moreover have "of_login ?g (ss_key l) l \<and> ss_key l \<notin> ss_key ` sy_creating ?g \<and> marshal l \<noteq> None" if "l \<in> sy_touching ?g" for l
    using D(4) [of l] that by (auto simp: of_login_def)
  moreover have "sy_ended ?g \<subseteq> settled ?g UNIV" using D(5) by (auto simp: settled_def)
  ultimately show ?thesis unfolding session_inv_def using D(3) W(1) by simp
qed

text \<open>Deleting some keys, and taking them from a user's index.\<close>

lemma ended_inv:
  assumes inv: "session_inv cfg V I g" and ok: "spaces_ok V I s (sy_now g)"
    and st: "stored V s (sy_now g) = (\<lambda>k. if k \<in> K then None else stored V (sy_store g) (sy_now g) k)"
    and ix: "user_index I s (sy_now g) = user_index I (sy_store g) (sy_now g) \<or>
      user_index I s (sy_now g) = (user_index I (sy_store g) (sy_now g))(u := without K (user_index I (sy_store g) (sy_now g) u))"
  shows "session_inv cfg V I (g\<lparr>sy_store := s, sy_ended := sy_ended g \<union> settled g K\<rparr>)" (is "session_inv cfg V I ?g")
proof -
  note D = session_invD [OF inv]
  have "stored_ok cfg I ?g k x" if x: "stored V (sy_store ?g) (sy_now ?g) k = Some x" for k x
  proof -
    have k: "k \<notin> K" "stored V (sy_store g) (sy_now g) k = Some x" using x st by (auto split: if_splits)
    note old = D(2) [OF k(2)]
    have in_ix: "k \<in> fst (user_index I s (sy_now g) w) \<and> snd (user_index I s (sy_now g) w) = snd (user_index I (sy_store g) (sy_now g) w)"
      if "k \<in> fst (user_index I (sy_store g) (sy_now g) w)" for w
      using ix that k(1) by (auto simp: without_def)
    show ?thesis by (rule stored_ok_mono [OF old]) (use stored_okD(1,2) [OF old] k(1) in_ix in \<open>auto simp: settled_def\<close>)
  qed
  moreover have "of_login ?g (ss_key l) l \<and> ss_key l \<notin> ss_key ` sy_creating ?g \<and> marshal l \<noteq> None" if "l \<in> sy_touching ?g" for l
    using D(4) [of l] that by (auto simp: of_login_def)
  moreover have "sy_ended ?g \<subseteq> settled ?g UNIV" using D(5) by (auto simp: settled_def)
  ultimately show ?thesis unfolding session_inv_def using D(3) ok by simp
qed

lemma session_step_inv:
  assumes "session_step cfg sha R g g'" and R: "redis_sessions R V I" and cfg: "whole_seconds cfg" and "session_inv cfg V I g"
  shows "session_inv cfg V I g'"
  using assms(1,4)
proof (induction rule: session_step.induct)
  case (tick g now)
  then show ?case by (intro tick_session_inv [OF R])
next
  case (draw raw uid g userID address session token)
  then show ?case by (intro draw_inv)
next
  case (not_created session g s r)
  then show ?case by (intro not_created_inv)
next
  case (created session g t s r)
  then show ?case by (intro created_inv [OF R cfg])
next
  case (looked_up g token session)
  then show ?case by (intro looked_up_inv [OF R])
next
  case (touched session g t s r)
  then show ?case by (intro touched_inv [OF R])
next
  case (deleted t g session s r)
  note W = DeleteSession_view [OF R session_invD(1) [OF deleted(3)] deleted(1,2)]
  show ?case by (rule ended_inv [OF deleted(3) W(1), of "{ss_key session}" "ss_UserID session"]) (auto simp: W fun_eq_iff)
next
  case (listed g userID)
  then show ?case unfolding session_inv_def by (simp add: of_login_def stored_ok_def settled_def)
next
  case (deleted_user userID keys g t s r)
  note W = delete_listed_view [OF R session_invD(1) [OF deleted_user(4)] deleted_user(2,3)]
  show ?case
  proof (rule ended_inv [OF deleted_user(4) W(1,2)])
    show "user_index I s (sy_now g) = user_index I (sy_store g) (sy_now g) \<or>
        user_index I s (sy_now g) = (user_index I (sy_store g) (sy_now g))(userID := without (set keys) (user_index I (sy_store g) (sy_now g) userID))"
      using W(3,4) by (cases "keys = []") simp_all
  qed
qed

lemma session_reachable_inv:
  assumes "session_reachable cfg sha R V I g" and "redis_sessions R V I" and "whole_seconds cfg"
  shows "session_inv cfg V I g"
proof -
  obtain s now where s: "\<forall>k. V s now k = None \<and> fst (I s now k) = {}" "(session_step cfg sha R)\<^sup>*\<^sup>* (session_init s now) g"
    using assms(1) by (auto simp: session_reachable_def)
  from s(2) show ?thesis
  proof (induction rule: rtranclp_induct)
    case base
    show ?case using s(1) by (simp add: session_inv_def session_init_def spaces_ok_def stored_def settled_def)
  next
    case (step g g')
    then show ?case using session_step_inv assms(2,3) by blast
  qed
qed

section \<open>What the sessions promise\<close>

text \<open>A lookup that answers a session now: one that does not have to write the last-seen time, or one that
  writes it now.\<close>

definition answers :: "sessions_cfg \<Rightarrow> (string \<Rightarrow> string) \<Rightarrow> 's session_redis \<Rightarrow> 's session_system \<Rightarrow> session \<Rightarrow> bool" where
  "answers cfg sha R g session \<longleftrightarrow>
     (\<exists>token. lookup_read cfg sha R True (sy_now g) (sy_now g) token (sy_store g) = Answer (Inr session)) \<or>
     (session \<in> sy_touching g \<and> snd (lookup_touch cfg R (sy_now g) TxDone session (sy_store g)) = Inr session)"

lemma answers_stored:
  assumes R: "redis_sessions R V I" and inv: "session_inv cfg V I g" and a: "answers cfg sha R g session"
  obtains d e where "stored V (sy_store g) (sy_now g) (ss_key session) = Some (Some d, e)" "same_login session d"
proof -
  from a consider token where "lookup_read cfg sha R True (sy_now g) (sy_now g) token (sy_store g) = Answer (Inr session)"
    | "session \<in> sy_touching g" "snd (lookup_touch cfg R (sy_now g) TxDone session (sy_store g)) = Inr session"
    unfolding answers_def by blast
  then show thesis
  proof cases
    case 1
    then have "lookup_read cfg sha R True (sy_now g) (sy_now g) token (sy_store g) \<in> {Answer (Inr session), Touch session}" by simp
    from lookup_read_stored [OF R this] show thesis using that by metis
  next
    case 2
    obtain s r where c: "lookup_touch cfg R (sy_now g) TxDone session (sy_store g) = (s, r)" by (metis surj_pair)
    have "stored V (sy_store g) (sy_now g) (ss_key session) \<noteq> None"
      using lookup_touch_view(5) [OF R session_invD(1) [OF inv] _ c] 2(2) by (simp add: c)
    then obtain v e where st: "stored V (sy_store g) (sy_now g) (ss_key session) = Some (v, e)" by auto
    then obtain d where d: "v = Some d" "of_login g (ss_key session) d" using stored_okD(4) [OF session_invD(2) [OF inv st]] by auto
    moreover have "of_login g (ss_key session) session" using session_invD(4) [OF inv 2(1)] by blast
    ultimately show thesis using st by (intro that [of d e]) (auto simp: of_login_def same_login_def)
  qed
qed

text \<open>A session that is stored is that of its login, not ended, and within its limits.\<close>

lemma stored_within:
  assumes R: "redis_sessions R V I" and inv: "session_inv cfg V I g" and st: "stored V (sy_store g) (sy_now g) k = Some (Some d, e)"
  shows "\<exists>l u. sy_drawn g k = Some l \<and> same_login d l \<and> k \<notin> sy_ended g \<and> sy_now g < ss_Created l + sn_MaxAge cfg \<and>
    (k, u) \<in> sy_uses g \<and> u \<le> sy_now g \<and> sy_now g < u + sn_IdleTimeout cfg"
proof -
  note ok = stored_okD [OF session_invD(2) [OF inv st]]
  have d: "of_login g k d" "e \<le> deadline cfg d" using ok(4) by auto
  have "sy_now g < deadline cfg d" using stored_live [OF R st] d(2) by simp
  then have now: "sy_now g < ExpiresAt cfg d" "sy_now g < ss_LastSeen d + sn_IdleTimeout cfg"
    using deadline_le [of cfg d] by auto
  obtain l u where l: "sy_drawn g k = Some l" "same_login d l" "(k, u) \<in> sy_uses g" "u \<le> sy_now g" "ss_LastSeen d = stamp u"
    using d(1) by (auto simp: of_login_def recorded_def)
  moreover have "sy_now g < u + sn_IdleTimeout cfg" using now(2) l(5) stamp_le [of u] by simp
  moreover have "sy_now g < ss_Created l + sn_MaxAge cfg" using now(1) l(2) by (simp add: ExpiresAt_def same_login_def)
  ultimately show ?thesis using ok(2) by blast
qed

lemma answers_live:
  assumes R: "redis_sessions R V I" and inv: "session_inv cfg V I g" and a: "answers cfg sha R g session"
  shows "\<exists>l. sy_drawn g (ss_key session) = Some l \<and> same_login session l \<and> ss_key session \<notin> sy_ended g"
proof -
  obtain d e where st: "stored V (sy_store g) (sy_now g) (ss_key session) = Some (Some d, e)" and sd: "same_login session d"
    using answers_stored [OF R inv a] .
  with stored_within [OF R inv st] show ?thesis by (auto simp: same_login_def)
qed

lemma drawn_steps: "(session_step cfg sha R)\<^sup>*\<^sup>* g g' \<Longrightarrow> sy_drawn g k = Some l \<Longrightarrow> sy_drawn g' k = Some l"
proof (induction rule: rtranclp_induct)
  case (step g1 g2)
  from step(2,3,4) show ?case by (induction rule: session_step.induct) auto
qed

text \<open>Keys whose creation is over stay so.\<close>

lemma settled_step: "session_step cfg sha R g g' \<Longrightarrow> k \<in> settled g K \<Longrightarrow> k \<in> settled g' K"
proof (induction rule: session_step.induct)
  case (draw raw uid g userID address session token)
  then have "ss_key session = token_key sha raw" by (auto simp: create_session_def Let_def split: option.splits)
  with draw show ?case by (auto simp: settled_def)
qed (auto simp: settled_def)

lemma settled_steps: "(session_step cfg sha R)\<^sup>*\<^sup>* g g' \<Longrightarrow> k \<in> settled g K \<Longrightarrow> k \<in> settled g' K"
  by (induction rule: rtranclp_induct) (auto intro: settled_step)

lemma steps_inv:
  "(session_step cfg sha R)\<^sup>*\<^sup>* g g' \<Longrightarrow> redis_sessions R V I \<Longrightarrow> whole_seconds cfg \<Longrightarrow> session_inv cfg V I g \<Longrightarrow> session_inv cfg V I g'"
  by (induction rule: rtranclp_induct) (auto intro: session_step_inv)

lemma index_complete:
  assumes R: "redis_sessions R V I" and inv: "session_inv cfg V I g" and st: "stored V (sy_store g) (sy_now g) k = Some (Some d, e)"
  shows "k \<in> set (sr_smembers R (sy_now g) (userKeyPrefix @ ss_UserID d) (sy_store g))"
  using stored_okD(4) [OF session_invD(2) [OF inv st]] by (simp add: session_laws(18) [OF R] user_index_def)

text \<open>C21: ending the sessions of a user ends all of them: every session of the user that is stored when
  \<open>DeleteUser\<close> lists them is gone when its transaction has run, whatever happened in between, and counts
  as deleted from then on.\<close>

theorem delete_user_ends:
  assumes "redis_sessions R V I" and "whole_seconds cfg" and "session_reachable cfg sha R V I g"
    and "stored V (sy_store g) (sy_now g) k = Some (Some d, e)" and "ss_UserID d = userID"
    and "keys = sr_smembers R (sy_now g) (userKeyPrefix @ userID) (sy_store g)"
    and "(session_step cfg sha R)\<^sup>*\<^sup>* g g'" and "t \<noteq> TxUnsent"
    and "delete_listed R (sy_now g') t userID keys (sy_store g') = (s, r)"
  shows "stored V s (sy_now g') k = None \<and> k \<in> settled g' (set keys)"
proof -
  have inv: "session_inv cfg V I g" by (rule session_reachable_inv [OF assms(3,1,2)])
  have k: "k \<in> set keys" using index_complete [OF assms(1) inv assms(4)] assms(5,6) by simp
  note ok = stored_okD [OF session_invD(2) [OF inv assms(4)]]
  have "k \<in> settled g (set keys)" using k ok(1,3) by (simp add: settled_def)
  moreover have "stored V s (sy_now g') k = None"
    using delete_listed_view(2) [OF assms(1) session_invD(1) [OF steps_inv [OF assms(7,1,2) inv]] assms(8,9)] k by simp
  ultimately show ?thesis using settled_steps [OF assms(7)] by blast
qed

text \<open>C35: over any interleaving of logins, requests, logouts and endings of a user's sessions, \<open>Lookup\<close> only answers a
  session for a token that decodes to bytes whose hash a login drew, and it answers the session of that login.  When it
  answers, right after its read, or after it wrote the last-seen time where that is due, whatever happened in between,
  the session is younger than the maximum age, the login or a request that recorded its use lies less than the idle
  timeout back, and the session was not deleted.\<close>

theorem lookup_live:
  assumes "redis_sessions R V I" and "whole_seconds cfg" and "session_reachable cfg sha R V I g0" and "(session_step cfg sha R)\<^sup>*\<^sup>* g0 g1"
    and "Lookup cfg sha R replied (sy_now g0) (sy_now g0) (sy_now g1) t (\<lambda>_. sy_store g1) token (sy_store g0) = (s, Inr session)"
  defines "g \<equiv> (case lookup_read cfg sha R replied (sy_now g0) (sy_now g0) token (sy_store g0) of Answer _ \<Rightarrow> g0 | Touch _ \<Rightarrow> g1)"
  shows "\<exists>raw l u. DecodeString RawURLEncoding token = Some raw \<and> ss_key session = token_key sha raw \<and>
    sy_drawn g (token_key sha raw) = Some l \<and> same_login session l \<and> token_key sha raw \<notin> sy_ended g \<and>
    sy_now g < ss_Created l + sn_MaxAge cfg \<and>
    (token_key sha raw, u) \<in> sy_uses g \<and> u \<le> sy_now g \<and> sy_now g < u + sn_IdleTimeout cfg"
proof -
  note R = assms(1)
  have inv0: "session_inv cfg V I g0" by (rule session_reachable_inv [OF assms(3,1,2)])
  have inv1: "session_inv cfg V I g1" by (rule steps_inv [OF assms(4,1,2) inv0])
  let ?r = "lookup_read cfg sha R replied (sy_now g0) (sy_now g0) token (sy_store g0)"
  from assms(5) consider "?r = Answer (Inr session)" "g = g0"
    | x where "?r = Touch x" "g = g1" "lookup_touch cfg R (sy_now g1) t x (sy_store g1) = (s, Inr session)"
    by (auto simp: Lookup_def g_def split: lookup_outcome.splits)
  then show ?thesis
  proof cases
    case 1
    then have "replied" by (auto simp: lookup_read_def split: option.splits if_splits)
    with 1 have "lookup_read cfg sha R True (sy_now g0) (sy_now g0) token (sy_store g0) \<in> {Answer (Inr session), Touch session}" by simp
    then obtain raw d e where x: "DecodeString RawURLEncoding token = Some raw" "stored V (sy_store g0) (sy_now g0) (token_key sha raw) = Some (Some d, e)"
      "ss_key session = token_key sha raw" "same_login session d" by (rule lookup_read_stored [OF R]) blast
    from stored_within [OF R inv0 x(2)] x 1(2) show ?thesis by (auto simp: same_login_def)
  next
    case 2
    then have "replied" by (auto simp: lookup_read_def split: option.splits if_splits)
    have tx: "t \<noteq> TxUnsent" "x = session" using 2(3) by (auto simp: lookup_touch_def split: if_splits prod.splits)
    have "lookup_read cfg sha R True (sy_now g0) (sy_now g0) token (sy_store g0) \<in> {Answer (Inr session), Touch session}"
      using 2(1) \<open>replied\<close> tx(2) by simp
    then obtain raw d0 e0 where x: "DecodeString RawURLEncoding token = Some raw" "stored V (sy_store g0) (sy_now g0) (token_key sha raw) = Some (Some d0, e0)"
      "ss_key session = token_key sha raw" "same_login session d0" by (rule lookup_read_stored [OF R]) blast
    have "stored V (sy_store g1) (sy_now g1) (token_key sha raw) \<noteq> None"
      using lookup_touch_view(5) [OF R session_invD(1) [OF inv1] _ 2(3)] tx x(3) by simp
    then obtain v e where "stored V (sy_store g1) (sy_now g1) (token_key sha raw) = Some (v, e)" by auto
    moreover from stored_okD(4) [OF session_invD(2) [OF inv1 this]] obtain d where "v = Some d" by auto
    ultimately have "stored V (sy_store g1) (sy_now g1) (token_key sha raw) = Some (Some d, e)" by simp
    from stored_within [OF R inv1 this] stored_within [OF R inv0 x(2)] drawn_steps [OF assms(4)] x 2(2)
    show ?thesis by (fastforce simp: same_login_def)
  qed
qed

section \<open>Refinement of an abstract specification\<close>

text \<open>What clients rely on: a login draws a key that no login had, starts or fails once, and ends once.\<close>

record login_spec =
  lo_user :: "string \<Rightarrow> string option"
  lo_pending :: "string set"
  lo_live :: "string set"

inductive login_step :: "login_spec \<Rightarrow> login_spec \<Rightarrow> bool" where
  draws: "lo_user a k = None \<Longrightarrow> login_step a (a\<lparr>lo_user := (lo_user a)(k \<mapsto> u), lo_pending := insert k (lo_pending a)\<rparr>)"
| starts: "k \<in> lo_pending a \<Longrightarrow> login_step a (a\<lparr>lo_pending := lo_pending a - {k}, lo_live := insert k (lo_live a)\<rparr>)"
| fails: "k \<in> lo_pending a \<Longrightarrow> login_step a (a\<lparr>lo_pending := lo_pending a - {k}\<rparr>)"
| ends: "login_step a (a\<lparr>lo_live := lo_live a - K\<rparr>)"

definition login_abs :: "'s value_view \<Rightarrow> 's session_system \<Rightarrow> login_spec" where
  "login_abs V g = \<lparr>lo_user = map_option ss_UserID \<circ> sy_drawn g, lo_pending = ss_key ` sy_creating g,
     lo_live = {k. stored V (sy_store g) (sy_now g) k \<noteq> None}\<rparr>"

lemma ends_subset: "lo_user b = lo_user a \<Longrightarrow> lo_pending b = lo_pending a \<Longrightarrow> lo_live b \<subseteq> lo_live a \<Longrightarrow> login_step a b"
proof -
  assume "lo_user b = lo_user a" "lo_pending b = lo_pending a" "lo_live b \<subseteq> lo_live a"
  then have "b = a\<lparr>lo_live := lo_live a - (lo_live a - lo_live b)\<rparr>" by (simp add: double_diff)
  then show ?thesis using login_step.ends [of a "lo_live a - lo_live b"] by metis
qed

lemma abs_ends:
  assumes "sy_drawn g' = sy_drawn g" "sy_creating g' = sy_creating g"
    and "\<And>k. stored V (sy_store g) (sy_now g) k = None \<Longrightarrow> stored V (sy_store g') (sy_now g') k = None"
  shows "login_step (login_abs V g) (login_abs V g')"
proof (rule ends_subset)
  show "lo_live (login_abs V g') \<subseteq> lo_live (login_abs V g)" 
    unfolding login_abs_def by (rule subsetI) (use assms(3) in \<open>metis (mono_tags, lifting) login_spec.select_convs(3) mem_Collect_eq\<close>)
qed (simp_all add: login_abs_def assms)

lemma session_step_refines:
  assumes "session_step cfg sha R g g'" and R: "redis_sessions R V I" and cfg: "whole_seconds cfg" and "session_inv cfg V I g"
  shows "login_step (login_abs V g) (login_abs V g')"
  using assms(1,4)
proof (induction rule: session_step.induct)
  case (tick g now)
  then show ?case by (intro abs_ends) (simp_all add: stored_def session_laws(19) [OF R tick(1)] expires_value_def)
next
  case (draw raw uid g userID address session token)
  then have "ss_key session = token_key sha raw" by (auto simp: create_session_def Let_def split: option.splits)
  moreover have "lo_user (login_abs V g) (token_key sha raw) = None" using draw(2) by (simp add: login_abs_def)
  ultimately show ?case using login_step.draws [of "login_abs V g" "token_key sha raw" "ss_UserID session"]
    by (simp add: login_abs_def fun_upd_comp map_option_case o_def fun_upd_def if_distrib cong: if_cong)
next
  case (not_created session g s r)
  then have "s = sy_store g" by (simp add: create_commit_def)
  then show ?case using login_step.fails [of "ss_key session" "login_abs V g"] not_created(1) creating_over [OF not_created(3,1)]
    by (simp add: login_abs_def)
next
  case (created session g t s r)
  let ?k = "ss_key session" and ?now = "sy_now g"
  note D = session_invD [OF created(4)] and C = creating_over [OF created(4,1)]
  note W = create_commit_view [OF R cfg D(1) created(2,3)]
  have "stored V (sy_store g) ?now ?k = None" using stored_okD(1) [OF D(2)] created(1) by (metis imageI option.exhaust)
  then obtain e where e: "stored V s ?now = (stored V (sy_store g) ?now)(?k := if ?now < e then Some (marshal session, e) else None)"
    using W(4) by blast
  have p: "?k \<in> lo_pending (login_abs V g)" using created(1) by (simp add: login_abs_def)
  show ?case
  proof (cases "?now < e")
    case True
    then have "{k. stored V s ?now k \<noteq> None} = insert ?k {k. stored V (sy_store g) ?now k \<noteq> None}" unfolding e by auto
    then show ?thesis using login_step.starts [OF p] C by (simp add: login_abs_def)
  next
    case False
    then have "{k. stored V s ?now k \<noteq> None} = {k. stored V (sy_store g) ?now k \<noteq> None}"
      unfolding e using \<open>stored V (sy_store g) ?now ?k = None\<close> by auto
    then show ?thesis using login_step.fails [OF p] C by (simp add: login_abs_def)
  qed
next
  case (looked_up g token session)
  then show ?case by (intro abs_ends) simp_all
next
  case (touched session g t s r)
  note W = lookup_touch_view [OF R session_invD(1) [OF touched(4)] touched(2,3)]
  have "stored V s (sy_now g) k = None" if "stored V (sy_store g) (sy_now g) k = None" for k
    using that W(3,4) by (cases "stored V (sy_store g) (sy_now g) (ss_key session) = None") (auto split: if_splits)
  then show ?case by (intro abs_ends) simp_all
next
  case (deleted t g session s r)
  note W = DeleteSession_view [OF R session_invD(1) [OF deleted(3)] deleted(1,2)]
  show ?case by (intro abs_ends) (simp_all add: W)
next
  case (listed g userID)
  then show ?case by (intro abs_ends) simp_all
next
  case (deleted_user userID keys g t s r)
  note W = delete_listed_view [OF R session_invD(1) [OF deleted_user(4)] deleted_user(2,3)]
  show ?case by (intro abs_ends) (simp_all add: W(2))
qed

text \<open>C40: the sessions in Redis refine the abstract specification of logins: every run, over any interleaving, is a
  run of the specification under the abstraction, and a lookup only answers sessions that live there.\<close>

theorem sessions_refine:
  assumes "redis_sessions R V I" and "whole_seconds cfg" and "session_reachable cfg sha R V I g"
    and "(session_step cfg sha R)\<^sup>*\<^sup>* g g'"
  shows "login_step\<^sup>*\<^sup>* (login_abs V g) (login_abs V g') \<and> (\<forall>session. answers cfg sha R g' session \<longrightarrow> ss_key session \<in> lo_live (login_abs V g'))"
proof -
  have inv: "session_inv cfg V I g" by (rule session_reachable_inv [OF assms(3,1,2)])
  have "login_step\<^sup>*\<^sup>* (login_abs V g) (login_abs V g')"
    using assms(4)
  proof (induction rule: rtranclp_induct)
    case (step h h')
    then show ?case using session_step_refines [OF step(2) assms(1,2) steps_inv [OF step(1) assms(1,2) inv]] by simp
  qed simp
  moreover have "ss_key session \<in> lo_live (login_abs V g')" if a: "answers cfg sha R g' session" for session
  proof -
    obtain d e where "stored V (sy_store g') (sy_now g') (ss_key session) = Some (Some d, e)"
      using answers_stored [OF assms(1) steps_inv [OF assms(4,1,2) inv] a] .
    then show ?thesis by (simp add: login_abs_def)
  qed
  ultimately show ?thesis by blast
qed

section \<open>A store with these commands\<close>

type_synonym map_sessions = "(string \<Rightarrow> (session_value \<times> gotime) option) \<times> (string \<Rightarrow> string list \<times> gotime option)"

definition purged :: "gotime \<Rightarrow> string list \<times> gotime option \<Rightarrow> string list \<times> gotime option" where
  "purged now x = (case x of (m, Some e) \<Rightarrow> if e \<le> now then ([], None) else (m, Some e) | (m, None) \<Rightarrow> (m, None))"

definition map_values :: "map_sessions value_view" where
  "map_values s now k = expires_value now (fst s k)"

definition map_indexes :: "map_sessions index_view" where
  "map_indexes s now k = (case purged now (snd s k) of (m, e) \<Rightarrow> (set m, e))"

definition map_set :: "gotime \<Rightarrow> string \<Rightarrow> session_value \<Rightarrow> gotime \<Rightarrow> map_sessions \<Rightarrow> map_sessions" where
  "map_set now k v x s = ((fst s)(k \<mapsto> (v, time_truncate x ns_second)), snd s)"

definition map_session_redis :: "map_sessions session_redis" where
  "map_session_redis =
     \<lparr>sr_get = \<lambda>now k s. map_option fst (map_values s now k),
      sr_setNX = \<lambda>now k v x s. if map_values s now k = None then (map_set now k v x s, True) else (s, False),
      sr_setXX = \<lambda>now k v x s. if map_values s now k \<noteq> None then (map_set now k v x s, True) else (s, False),
      sr_del = \<lambda>now k s. ((fst s)(k := None), (snd s)(k := ([], None))),
      sr_sadd = \<lambda>now k x s. (fst s, (snd s)(k := (case purged now (snd s k) of (m, e) \<Rightarrow> (x # m, e)))),
      sr_srem = \<lambda>now k xs s. (fst s, (snd s)(k := (case purged now (snd s k) of (m, e) \<Rightarrow>
        (filter (\<lambda>x. x \<notin> set xs) m, if set m \<subseteq> set xs then None else e)))),
      sr_expire = \<lambda>now k d s. (fst s, (snd s)(k := (fst (purged now (snd s k)), Some (now + d)))),
      sr_smembers = \<lambda>now k s. fst (purged now (snd s k))\<rparr>"

lemma purged_idem: "purged now (purged now x) = purged now x"
  by (cases x) (simp add: purged_def split: option.splits)

lemma purged_with: "purged now x = (m, e) \<Longrightarrow> purged now (m', e) = (m', e)"
  by (cases x) (auto simp: purged_def split: option.splits if_splits)

lemma map_set_view: "value_set now k v x (map_values s now) (map_values (map_set now k v x s) now)"
proof -
  let ?e = "time_truncate x ns_second"
  have "?e \<le> x \<and> x < ?e + ns_second" by (rule time_truncate_le) (simp add: ns_second_def)
  then show ?thesis unfolding value_set_def
    by (intro exI [of _ ?e]) (auto simp: fun_eq_iff map_values_def map_set_def expires_value_def)
qed

lemma map_index_upd:
  assumes "purged now y = y"
  shows "map_indexes (f, (snd s)(k := y)) now = (map_indexes s now)(k := (set (fst y), snd y))"
  using assms by (auto simp: fun_eq_iff map_indexes_def split: prod.splits)

lemma map_values_upd: "map_values (fst s, h) now = map_values s now"
  by (simp add: fun_eq_iff map_values_def)

lemma map_later:
  assumes "now \<le> now'"
  shows "map_values s now' k = expires_value now' (map_values s now k)" "map_indexes s now' k = expires_index now' (map_indexes s now k)"
  using assms by (auto simp: map_values_def map_indexes_def expires_value_def expires_index_def purged_def split: option.splits prod.splits)

lemma map_session_redis_ok: "redis_sessions map_session_redis map_values map_indexes"
proof -
  let ?R = map_session_redis
  have set: "map_indexes (map_set now k v x s) now = map_indexes s now" for now k v x s by (simp add: fun_eq_iff map_indexes_def map_set_def)
  have sadd: "map_indexes (sr_sadd ?R now k x s) now = (map_indexes s now)(k := (insert x (fst (map_indexes s now k)), snd (map_indexes s now k)))" for now k x s
  proof -
    obtain m e where p: "purged now (snd s k) = (m, e)" by fastforce
    show ?thesis using map_index_upd [OF purged_with [OF p], of "fst s" s k "x # m"] by (simp add: map_session_redis_def p map_indexes_def)
  qed
  have srem: "map_indexes (sr_srem ?R now k xs s) now = (map_indexes s now)(k := (fst (map_indexes s now k) - set xs,
      if fst (map_indexes s now k) \<subseteq> set xs then None else snd (map_indexes s now k)))" for now k xs s
  proof -
    obtain m e where p: "purged now (snd s k) = (m, e)" by fastforce
    let ?y = "(filter (\<lambda>x. x \<notin> set xs) m, if set m \<subseteq> set xs then None else e)"
    have "purged now ?y = ?y" using purged_with [OF p] by (auto simp: purged_def)
    from map_index_upd [OF this, of "fst s" s k] show ?thesis by (simp add: map_session_redis_def p map_indexes_def set_diff_eq)
  qed
  have expire: "map_indexes (sr_expire ?R now k d s) now = (map_indexes s now)(k := (fst (map_indexes s now k), Some (now + d)))" if "0 < d" for now k d s
  proof -
    have "purged now (fst (purged now (snd s k)), Some (now + d)) = (fst (purged now (snd s k)), Some (now + d))" using that by (simp add: purged_def)
    from map_index_upd [OF this, of "fst s" s k] show ?thesis by (simp add: map_session_redis_def map_indexes_def split: prod.splits)
  qed
  have del: "map_indexes (sr_del ?R now k s) now = (map_indexes s now)(k := ({}, None))" "map_values (sr_del ?R now k s) now = (map_values s now)(k := None)" for now k s
    by (simp_all add: fun_eq_iff map_session_redis_def map_indexes_def map_values_def purged_def expires_value_def)
  have vals: "map_values (sr_sadd ?R now k x s) now = map_values s now" "map_values (sr_srem ?R now k xs s) now = map_values s now"
    "map_values (sr_expire ?R now k d s) now = map_values s now" for now k x xs d s by (simp_all add: map_session_redis_def map_values_upd)
  have sets: "sr_setNX ?R now k v x s = (if map_values s now k = None then (map_set now k v x s, True) else (s, False))"
    "sr_setXX ?R now k v x s = (if map_values s now k \<noteq> None then (map_set now k v x s, True) else (s, False))"
    "sr_get ?R now k s = map_option fst (map_values s now k)" "set (sr_smembers ?R now k s) = fst (map_indexes s now k)" for now k v x s
    by (simp_all add: map_session_redis_def map_indexes_def split: prod.splits)
  show ?thesis
    unfolding redis_sessions_def sets by (intro conjI allI impI) (simp_all add: set map_set_view sadd srem expire del vals map_later)
qed

definition sample_cfg :: sessions_cfg where
  "sample_cfg = \<lparr>sn_IdleTimeout = DefaultIdleTimeout, sn_MaxAge = DefaultMaxAge\<rparr>"

definition sample_raw :: string where "sample_raw = replicate 32 (CHR ''a'')"

definition sample_session :: session where
  "sample_session = \<lparr>ss_ID = ''1'', ss_UserID = ''u'', ss_Address = ''10.0.0.1'', ss_Created = 0, ss_LastSeen = 0, ss_key = sample_raw\<rparr>"

abbreviation sample_init :: "map_sessions session_system" where
  "sample_init \<equiv> session_init (\<lambda>_. None, \<lambda>_. ([], None)) 0"

lemma sample_whole: "whole_seconds sample_cfg"
  by (simp add: whole_seconds_def sample_cfg_def DefaultMaxAge_def ns_hour_def ns_second_def)

lemma sample_create: "create_session (\<lambda>s. s) (Some sample_raw) (Some ''1'') 0 ''u'' ''10.0.0.1'' = Inr (sample_session, EncodeToString RawURLEncoding sample_raw)"
proof -
  have "year_days 1 \<le> days_before_year 10000" unfolding days_before_year_def by (rule member_le_sum_list) (simp, rule zero_le)
  then have "json_time 0" by (simp add: json_time_def year_days_def leap_def day_ns_def ns_hour_def)
  then show ?thesis
    by (simp add: create_session_def Let_def stamp_def time_truncate_def token_key_def marshal_def sample_session_def)
qed

lemma sample_start: "session_reachable sample_cfg (\<lambda>s. s) map_session_redis map_values map_indexes sample_init"
  unfolding session_reachable_def
  by (intro exI [of _ "(\<lambda>_. None, \<lambda>_. ([], None))"] exI [of _ 0])
    (simp add: map_values_def map_indexes_def expires_value_def purged_def)

text \<open>A login and nothing else.\<close>

definition sample_drawn :: "map_sessions session_system" where
  "sample_drawn = sample_init\<lparr>sy_drawn := [sample_raw \<mapsto> sample_session], sy_uses := {(sample_raw, 0)}, sy_creating := {sample_session}\<rparr>"

lemma sample_commit:
  obtains s where "create_commit sample_cfg map_session_redis 0 TxDone sample_session (\<lambda>_. None, \<lambda>_. ([], None)) = (s, None)"
  by (simp add: create_commit_def map_session_redis_def map_values_def expires_value_def Let_def)

lemma sample_run:
  obtains g d e where "(session_step sample_cfg (\<lambda>s. s) map_session_redis)\<^sup>*\<^sup>* sample_init g"
    "session_reachable sample_cfg (\<lambda>s. s) map_session_redis map_values map_indexes g"
    "stored map_values (sy_store g) (sy_now g) sample_raw = Some (Some d, e)" "ss_UserID d = ''u''"
    "answers sample_cfg (\<lambda>s. s) map_session_redis g sample_session"
    "lookup_read sample_cfg (\<lambda>s. s) map_session_redis True 0 0 (EncodeToString RawURLEncoding sample_raw) (sy_store g) = Answer (Inr sample_session)"
    "sy_now g = 0"
    "create_commit sample_cfg map_session_redis 0 TxDone sample_session (\<lambda>_. None, \<lambda>_. ([], None)) = (sy_store g, None)"
    "g = sample_drawn\<lparr>sy_store := sy_store g, sy_creating := {}\<rparr>"
proof -
  let ?step = "session_step sample_cfg (\<lambda>s. s) map_session_redis"
  define h where "h = sample_drawn"
  note h_def = h_def [unfolded sample_drawn_def]
  obtain s where c: "create_commit sample_cfg map_session_redis 0 TxDone sample_session (\<lambda>_. None, \<lambda>_. ([], None)) = (s, None)" using sample_commit .
  define g where "g = h\<lparr>sy_store := s, sy_creating := {}\<rparr>"
  have "?step sample_init h"
    using session_step.draw [of "\<lambda>s. s" sample_raw "Some ''1''" sample_init "''u''" "''10.0.0.1''" sample_session] sample_create
    by (simp add: h_def session_init_def token_key_def)
  moreover have "?step h g"
    using session_step.created [of sample_session h TxDone sample_cfg map_session_redis s None "\<lambda>s. s"] c by (simp add: g_def h_def session_init_def)
  ultimately have run: "?step\<^sup>*\<^sup>* sample_init g" by simp
  have reach: "session_reachable sample_cfg (\<lambda>s. s) map_session_redis map_values map_indexes g"
    using sample_start run unfolding session_reachable_def by (meson rtranclp_trans)
  note R = map_session_redis_ok
  have empty: "map_values (\<lambda>_. None, \<lambda>_. ([], None)) 0 = (\<lambda>_. None)" "map_indexes (\<lambda>_. None, \<lambda>_. ([], None)) 0 = (\<lambda>_. ({}, None))"
    by (simp_all add: fun_eq_iff map_values_def map_indexes_def expires_value_def purged_def)
  have ok: "spaces_ok map_values map_indexes (\<lambda>_. None, \<lambda>_. ([], None)) 0" by (simp add: spaces_ok_def empty)
  have "stored map_values (\<lambda>_. None, \<lambda>_. ([], None)) 0 (ss_key sample_session) = None" by (simp add: stored_def empty)
  from create_commit_view(4) [OF R sample_whole ok _ c this]
  obtain e where e: "e \<le> deadline sample_cfg sample_session" "deadline sample_cfg sample_session < e + ns_second"
    "stored map_values s 0 = (stored map_values (\<lambda>_. None, \<lambda>_. ([], None)) 0)(sample_raw := if 0 < e then Some (marshal sample_session, e) else None)"
    by (auto simp: sample_session_def)
  have "deadline sample_cfg sample_session = DefaultIdleTimeout"
    by (simp add: deadline_def ExpiresAt_def sample_cfg_def sample_session_def DefaultIdleTimeout_def DefaultMaxAge_def Let_def ns_hour_def)
  with e(2) have "0 < e" by (simp add: DefaultIdleTimeout_def ns_hour_def ns_second_def)
  moreover obtain d where d: "marshal sample_session = Some d"
    using sample_create by (auto simp: create_session_def Let_def sample_session_def stamp_def time_truncate_def token_key_def split: option.splits)
  ultimately have st: "stored map_values s 0 sample_raw = Some (Some d, e)" using e(3) by simp
  have u: "ss_UserID d = ''u''" "ss_LastSeen d = 0" "same_login d sample_session" using marshal_Some [OF d] by (simp_all add: same_login_def sample_session_def)
  have "sr_get map_session_redis 0 (sessionKeyPrefix @ sample_raw) s = Some (Some d)"
    using st session_laws(1) [OF R] by (simp add: stored_def)
  moreover have "lookup_value sample_cfg 0 sample_raw (Some d) = Answer (Inr sample_session)"
  proof -
    have x: "session_doc.extend d (session.fields sample_raw) = sample_session"
      using d by (auto simp: marshal_def sample_session_def session_doc.truncate_def session_doc.extend_def session.fields_def split: if_splits)
    show ?thesis using \<open>deadline sample_cfg sample_session = DefaultIdleTimeout\<close>
      by (simp add: lookup_value_def x Let_def time_sub_def touchInterval_def ns_minute_def DefaultIdleTimeout_def ns_hour_def sample_session_def)
  qed
  ultimately have lr: "lookup_read sample_cfg (\<lambda>s. s) map_session_redis True 0 0 (EncodeToString RawURLEncoding sample_raw) s = Answer (Inr sample_session)"
    by (simp add: lookup_read_def decode_encode token_key_def tokenBytes_def sample_raw_def)
  then have "answers sample_cfg (\<lambda>s. s) map_session_redis g sample_session"
    unfolding answers_def by (auto simp: g_def h_def session_init_def)
  moreover have "sy_store g = s" "sy_now g = 0" by (simp_all add: g_def h_def session_init_def)
  moreover have "g = sample_drawn\<lparr>sy_store := s, sy_creating := {}\<rparr>" by (simp add: g_def h_def sample_drawn_def)
  ultimately show thesis using run reach st u(1) c lr that [of g d e] by simp
qed

theorem lookup_live_witness:
  "\<exists>g l u. session_reachable sample_cfg (\<lambda>s. s) map_session_redis map_values map_indexes g \<and>
     Lookup sample_cfg (\<lambda>s. s) map_session_redis True 0 0 0 TxDone (\<lambda>_. sy_store g) (EncodeToString RawURLEncoding sample_raw) (sy_store g) =
       (sy_store g, Inr sample_session) \<and>
     sy_drawn g sample_raw = Some l \<and> sample_raw \<notin> sy_ended g \<and> (sample_raw, u) \<in> sy_uses g \<and> 0 < u + DefaultIdleTimeout"
proof -
  obtain g d e where g: "session_reachable sample_cfg (\<lambda>s. s) map_session_redis map_values map_indexes g"
    "lookup_read sample_cfg (\<lambda>s. s) map_session_redis True 0 0 (EncodeToString RawURLEncoding sample_raw) (sy_store g) = Answer (Inr sample_session)"
    "sy_now g = 0" using sample_run .
  then have l: "Lookup sample_cfg (\<lambda>s. s) map_session_redis True (sy_now g) (sy_now g) (sy_now g) TxDone (\<lambda>_. sy_store g)
      (EncodeToString RawURLEncoding sample_raw) (sy_store g) = (sy_store g, Inr sample_session)"
    by (simp add: Lookup_def)
  have raw: "DecodeString RawURLEncoding (EncodeToString RawURLEncoding sample_raw) = Some sample_raw" by (simp add: decode_encode)
  from lookup_live [OF map_session_redis_ok sample_whole g(1) rtranclp.rtrancl_refl l] g l raw show ?thesis
    by (auto simp: token_key_def sample_cfg_def)
qed

theorem delete_user_ends_witness:
  "\<exists>g d e s r. session_reachable sample_cfg (\<lambda>s. s) map_session_redis map_values map_indexes g \<and>
     stored map_values (sy_store g) (sy_now g) sample_raw = Some (Some d, e) \<and>
     DeleteUser map_session_redis True (sy_now g) (sy_now g) TxDone (\<lambda>s. s) ''u'' (sy_store g) = (s, r) \<and> stored map_values s (sy_now g) sample_raw = None"
proof -
  obtain g d e where g: "session_reachable sample_cfg (\<lambda>s. s) map_session_redis map_values map_indexes g"
    "stored map_values (sy_store g) (sy_now g) sample_raw = Some (Some d, e)" "ss_UserID d = ''u''" using sample_run .
  obtain s r where c: "delete_listed map_session_redis (sy_now g) TxDone ''u''
      (sr_smembers map_session_redis (sy_now g) (userKeyPrefix @ ''u'') (sy_store g)) (sy_store g) = (s, r)" by fastforce
  from delete_user_ends [OF map_session_redis_ok sample_whole g refl rtranclp.rtrancl_refl _ c]
  have "stored map_values s (sy_now g) sample_raw = None" by simp
  moreover have "DeleteUser map_session_redis True (sy_now g) (sy_now g) TxDone (\<lambda>s. s) ''u'' (sy_store g) = (s, r)" by (simp add: DeleteUser_def c)
  ultimately show ?thesis using g by blast
qed

theorem sessions_refine_witness:
  "\<exists>g. login_step\<^sup>*\<^sup>* (login_abs map_values sample_init) (login_abs map_values g) \<and> sample_raw \<in> lo_live (login_abs map_values g)"
proof -
  obtain g d e where g: "(session_step sample_cfg (\<lambda>s. s) map_session_redis)\<^sup>*\<^sup>* sample_init g"
    "answers sample_cfg (\<lambda>s. s) map_session_redis g sample_session" using sample_run .
  from sessions_refine [OF map_session_redis_ok sample_whole sample_start g(1)] g(2)
  have "login_step\<^sup>*\<^sup>* (login_abs map_values sample_init) (login_abs map_values g)" "ss_key sample_session \<in> lo_live (login_abs map_values g)"
    by blast+
  then show ?thesis by (intro exI [of _ g]) (simp add: sample_session_def)
qed

end
