(* ===== verification/Password.thy ===== *)
theory Password
  imports GoTime Base64
begin

text \<open>
  Passwords of local users (\<open>apps/api/internal/password/password.go\<close>): the check of a new password, its
  argon2id hash as a PHC string, and the check of a password against a stored hash.  argon2id itself is a
  parameter; whether a slot of the hasher was free before the context ended is an argument.
\<close>

section \<open>Hashing\<close>

record Params =
  pa_Time :: nat
  pa_MemoryKiB :: nat
  pa_Threads :: nat
  pa_SaltBytes :: nat
  pa_KeyBytes :: nat

definition DefaultParams :: Params where
  "DefaultParams = \<lparr>pa_Time = 3, pa_MemoryKiB = 64 * 1024, pa_Threads = 4, pa_SaltBytes = 16, pa_KeyBytes = 32\<rparr>"

definition MinLength :: nat where "MinLength = 15"
definition MaxBytes :: nat where "MaxBytes = 1024"

datatype password_error = NotUTF8 | ErrTooLong | ErrTooShort | SaltFailed | HashWait | ErrMalformedHash

definition Check :: "string \<Rightarrow> password_error option" where
  "Check password =
     (if \<not> valid_utf8 password then Some NotUTF8
      else if length password > MaxBytes then Some ErrTooLong
      else if length (runes password) < MinLength then Some ErrTooShort
      else None)"

type_synonym argon2 = "string \<Rightarrow> string \<Rightarrow> nat \<Rightarrow> nat \<Rightarrow> nat \<Rightarrow> nat \<Rightarrow> string"

definition argon2_Version :: nat where "argon2_Version = 19"

definition derive :: "argon2 \<Rightarrow> bool \<Rightarrow> string \<Rightarrow> string \<Rightarrow> Params \<Rightarrow> (password_error, string) result" where
  "derive argon slot password salt p =
     (if \<not> slot then Inl HashWait
      else Inr (argon password salt (pa_Time p) (pa_MemoryKiB p) (pa_Threads p) (pa_KeyBytes p)))"

definition cost_text :: "Params \<Rightarrow> string" where
  "cost_text p = ''m='' @ decimal (pa_MemoryKiB p) @ '',t='' @ decimal (pa_Time p) @ '',p='' @ decimal (pa_Threads p)"

definition phc_text :: "Params \<Rightarrow> string \<Rightarrow> string \<Rightarrow> string" where
  "phc_text p salt key = ''$argon2id$v='' @ decimal argon2_Version @ ''$'' @ cost_text p @ ''$'' @
     EncodeToString RawStdEncoding salt @ ''$'' @ EncodeToString RawStdEncoding key"

definition Hash :: "argon2 \<Rightarrow> Params \<Rightarrow> string option \<Rightarrow> bool \<Rightarrow> string \<Rightarrow> (password_error, string) result" where
  "Hash argon params salt slot password =
     (case salt of None \<Rightarrow> Inl SaltFailed
      | Some salt \<Rightarrow> bind_result (derive argon slot password salt params) (\<lambda>key. Inr (phc_text params salt key)))"

section \<open>Reading a hash\<close>

definition maxTime :: nat where "maxTime = 16"
definition maxMemoryKiB :: nat where "maxMemoryKiB = 256 * 1024"
definition minSaltBytes :: nat where "minSaltBytes = 8"
definition minKeyBytes :: nat where "minKeyBytes = 16"
definition maxKeyBytes :: nat where "maxKeyBytes = 128"

text \<open>\<open>strings.Split\<close> at one byte.\<close>

fun split_char :: "char \<Rightarrow> string \<Rightarrow> string list" where
  "split_char d [] = [[]]"
| "split_char d (c # s) = (if c = d then [] # split_char d s
     else case split_char d s of f # fs \<Rightarrow> (c # f) # fs | [] \<Rightarrow> [[c]])"

text \<open>What \<open>fmt.Sscanf\<close> does for a literal of the format and for a \<open>%d\<close>: white space before a number is
  skipped, a line break there is an error; what follows the last item is not read.\<close>

definition scan_literal :: "string \<Rightarrow> string \<Rightarrow> string option" where
  "scan_literal l s = (if has_prefix s l then Some (drop (length l) s) else None)"

definition scan_space :: "string \<Rightarrow> string" where
  "scan_space s = concat (map snd (dropWhile (\<lambda>(r, _). is_space r \<and> r \<noteq> 10) (runes s)))"

definition scan_digits :: "string \<Rightarrow> (nat \<times> string) option" where
  "scan_digits s =
     (let ds = takeWhile is_digit_char s in
      if ds = [] then None else map_option (\<lambda>n. (n, drop (length ds) s)) (decimal_value ds))"

definition scan_uint :: "nat \<Rightarrow> string \<Rightarrow> (nat \<times> string) option" where
  "scan_uint bits s = (case scan_digits (scan_space s) of Some (n, r) \<Rightarrow> if n < 2 ^ bits then Some (n, r) else None | None \<Rightarrow> None)"

definition scan_int :: "string \<Rightarrow> (int \<times> string) option" where
  "scan_int s =
     (let s = scan_space s; neg = has_prefix s ''-''; s = (if neg \<or> has_prefix s ''+'' then drop 1 s else s) in
      case scan_digits s of
        None \<Rightarrow> None
      | Some (n, r) \<Rightarrow> let i = (if neg then - int n else int n) in if - (2 ^ 63) \<le> i \<and> i < 2 ^ 63 then Some (i, r) else None)"

definition scan_version :: "string \<Rightarrow> int option" where
  "scan_version s = (case scan_literal ''v='' s of None \<Rightarrow> None | Some s \<Rightarrow> map_option fst (scan_int s))"

definition scan_cost :: "string \<Rightarrow> (nat \<times> nat \<times> nat) option" where
  "scan_cost s =
     (case scan_literal ''m='' s of None \<Rightarrow> None | Some s \<Rightarrow>
      case scan_uint 32 s of None \<Rightarrow> None | Some (m, s) \<Rightarrow>
      case scan_literal '',t='' s of None \<Rightarrow> None | Some s \<Rightarrow>
      case scan_uint 32 s of None \<Rightarrow> None | Some (t, s) \<Rightarrow>
      case scan_literal '',p='' s of None \<Rightarrow> None | Some s \<Rightarrow>
      case scan_uint 8 s of None \<Rightarrow> None | Some (p, s) \<Rightarrow> Some (m, t, p))"

definition in_bounds :: "Params \<Rightarrow> bool" where
  "in_bounds p \<longleftrightarrow> 1 \<le> pa_Time p \<and> pa_Time p \<le> maxTime \<and> 1 \<le> pa_Threads p \<and>
     8 * pa_Threads p \<le> pa_MemoryKiB p \<and> pa_MemoryKiB p \<le> maxMemoryKiB \<and>
     minSaltBytes \<le> pa_SaltBytes p \<and> minKeyBytes \<le> pa_KeyBytes p \<and> pa_KeyBytes p \<le> maxKeyBytes"

definition parse_hash :: "string \<Rightarrow> (password_error, Params \<times> string \<times> string) result" where
  "parse_hash hash =
     (case split_char (CHR ''$'') hash of
        [f0, f1, f2, f3, f4, f5] \<Rightarrow>
          if f0 \<noteq> [] \<or> f1 \<noteq> ''argon2id'' then Inl ErrMalformedHash
          else if scan_version f2 \<noteq> Some (int argon2_Version) then Inl ErrMalformedHash
          else (case scan_cost f3 of None \<Rightarrow> Inl ErrMalformedHash | Some (m, t, th) \<Rightarrow>
            if cost_text \<lparr>pa_Time = t, pa_MemoryKiB = m, pa_Threads = th, pa_SaltBytes = 0, pa_KeyBytes = 0\<rparr> \<noteq> f3 then Inl ErrMalformedHash
            else case DecodeString RawStdEncoding f4 of None \<Rightarrow> Inl ErrMalformedHash | Some salt \<Rightarrow>
            case DecodeString RawStdEncoding f5 of None \<Rightarrow> Inl ErrMalformedHash | Some key \<Rightarrow>
            let p = \<lparr>pa_Time = t, pa_MemoryKiB = m, pa_Threads = th, pa_SaltBytes = length salt, pa_KeyBytes = length key\<rparr> in
            if in_bounds p then Inr (p, salt, key) else Inl ErrMalformedHash)
      | _ \<Rightarrow> Inl ErrMalformedHash)"

definition Verify :: "argon2 \<Rightarrow> Params \<Rightarrow> bool \<Rightarrow> string \<Rightarrow> string \<Rightarrow> (password_error, bool \<times> bool) result" where
  "Verify argon params slot password hash =
     (if length password > MaxBytes then Inl ErrTooLong
      else bind_result (parse_hash hash) (\<lambda>(p, salt, key).
        bind_result (derive argon slot password salt p) (\<lambda>got.
          Inr (if got \<noteq> key then (False, False) else (True, p \<noteq> params)))))"

section \<open>Round trip\<close>

lemma decimal_digits: "c \<in> set (decimal n) \<Longrightarrow> is_digit_char c"
proof (induction n rule: decimal.induct)
  case (1 n)
  then show ?case by (subst (asm) decimal.simps) (auto simp: is_digit_char_def split: if_splits)
qed

lemma decimal_nonempty: "decimal n \<noteq> []"
  by (subst decimal.simps) simp

lemma decimal_value_decimal: "decimal_value (decimal n) = Some n"
proof (induction n rule: decimal.induct)
  case (1 n)
  show ?case
  proof (cases "n < 10")
    case True
    then show ?thesis using decimal_value_snoc [of "[]" "digit n"] by (simp add: decimal.simps [of n])
  next
    case False
    then show ?thesis using 1 decimal_value_snoc [of "decimal (n div 10)" "digit (n mod 10)"] by (simp add: decimal.simps [of n])
  qed
qed

lemma digit_facts:
  assumes "is_digit_char c"
  shows "byte c < 128" "\<not> is_space (byte c)" "c \<noteq> CHR ''$'' \<and> c \<noteq> CHR ''-'' \<and> c \<noteq> CHR ''+'' \<and> c \<noteq> CHR '',''"
  using assms by (auto simp: is_digit_char_def digit_value_def is_space_def byte_def split: if_splits)

lemma scan_space_decimal: "scan_space (decimal n @ s) = decimal n @ s"
proof -
  obtain c t where c: "decimal n = c # t" using decimal_nonempty [of n] by (cases "decimal n") auto
  then have "is_digit_char c" using decimal_digits [of c n] by simp
  note d = digit_facts [OF this]
  have "dropWhile (\<lambda>(r, _). is_space r \<and> r \<noteq> 10) (runes (c # t @ s)) = runes (c # t @ s)" using d by simp
  then have "scan_space (c # t @ s) = concat (map snd (runes (c # t @ s)))" unfolding scan_space_def by simp
  then show ?thesis unfolding c concat_runes by simp
qed

lemma scan_digits_decimal:
  assumes "s = [] \<or> \<not> is_digit_char (hd s)"
  shows "scan_digits (decimal n @ s) = Some (n, s)"
proof -
  have "takeWhile is_digit_char (decimal n @ s) = decimal n"
    using assms decimal_digits by (cases s) (auto simp: takeWhile_append)
  then show ?thesis using decimal_nonempty by (simp add: scan_digits_def decimal_value_decimal)
qed

lemma scan_uint_decimal:
  assumes "s = [] \<or> \<not> is_digit_char (hd s)" and "n < 2 ^ bits"
  shows "scan_uint bits (decimal n @ s) = Some (n, s)"
  using assms by (simp add: scan_uint_def scan_space_decimal scan_digits_decimal)

lemma scan_version_own: "scan_version (''v='' @ decimal argon2_Version) = Some (int argon2_Version)"
proof -
  have d: "decimal 19 = ''19''" by code_simp
  have "scan_digits ''19'' = Some (19, [])" using scan_digits_decimal [of "[]" 19] by (simp add: d)
  moreover have "scan_space ''19'' = ''19''" using scan_space_decimal [of 19 "[]"] by (simp add: d)
  ultimately show ?thesis
    by (simp add: scan_version_def scan_literal_def scan_int_def argon2_Version_def d has_prefix_def Let_def)
qed

lemma comma_digit: "\<not> is_digit_char (CHR '','')"
  by (simp add: is_digit_char_def digit_value_def byte_def)

lemma scan_literal_own [simp]: "scan_literal l (l @ s) = Some s"
  by (simp add: scan_literal_def has_prefix_def)

lemma scan_cost_own:
  assumes "in_bounds p" and "pa_Threads p < 256"
  shows "scan_cost (cost_text p) = Some (pa_MemoryKiB p, pa_Time p, pa_Threads p)"
proof -
  have m: "pa_MemoryKiB p < 2 ^ 32" and t: "pa_Time p < 2 ^ 32" and th: "pa_Threads p < 2 ^ 8"
    using assms by (simp_all add: in_bounds_def maxTime_def maxMemoryKiB_def)
  have "scan_uint 32 (decimal (pa_MemoryKiB p) @ '',t='' @ s) = Some (pa_MemoryKiB p, '',t='' @ s)" for s
    by (rule scan_uint_decimal [OF _ m]) (simp add: comma_digit)
  moreover have "scan_uint 32 (decimal (pa_Time p) @ '',p='' @ s) = Some (pa_Time p, '',p='' @ s)" for s
    by (rule scan_uint_decimal [OF _ t]) (simp add: comma_digit)
  moreover have "scan_uint 8 (decimal (pa_Threads p)) = Some (pa_Threads p, [])" using scan_uint_decimal [OF _ th, of "[]"] by simp
  ultimately show ?thesis unfolding scan_cost_def cost_text_def by (simp only: scan_literal_own option.case prod.case)
qed

lemma split_char_plain: "d \<notin> set f \<Longrightarrow> split_char d f = [f]"
  by (induction f) auto

lemma split_char_append: "d \<notin> set f \<Longrightarrow> split_char d (f @ d # s) = f # split_char d s"
  by (induction f) auto

lemma split_phc: "split_char (CHR ''$'') (phc_text p salt key) =
    [[], ''argon2id'', ''v='' @ decimal argon2_Version, cost_text p, EncodeToString RawStdEncoding salt, EncodeToString RawStdEncoding key]"
proof -
  have n: "CHR ''$'' \<notin> set (decimal n)" for n using decimal_digits digit_facts(3) by blast
  have std: "CHR ''$'' \<notin> set RawStdEncoding" by (simp add: RawStdEncoding_def)
  have e: "CHR ''$'' \<notin> set (EncodeToString RawStdEncoding x)" for x
    using encode_alphabet [OF alphabets(2), of x] std by blast
  have v: "CHR ''$'' \<notin> set (''v='' @ decimal argon2_Version)" and c: "CHR ''$'' \<notin> set (cost_text p)" and a: "CHR ''$'' \<notin> set ''argon2id''"
    using n by (simp_all add: cost_text_def)
  have eq: "phc_text p salt key = CHR ''$'' # ''argon2id'' @ CHR ''$'' # (''v='' @ decimal argon2_Version) @ CHR ''$'' # cost_text p @
      CHR ''$'' # EncodeToString RawStdEncoding salt @ CHR ''$'' # EncodeToString RawStdEncoding key"
    by (simp add: phc_text_def)
  have z: "split_char d (d # s) = [] # split_char d s" for d s by simp
  show ?thesis
    unfolding eq z split_char_append [OF a] split_char_append [OF v] split_char_append [OF c] split_char_append [OF e] split_char_plain [OF e] ..
qed

lemma cost_text_cong: "pa_Time p = pa_Time q \<Longrightarrow> pa_MemoryKiB p = pa_MemoryKiB q \<Longrightarrow> pa_Threads p = pa_Threads q \<Longrightarrow> cost_text p = cost_text q"
  by (simp add: cost_text_def)

lemma parse_phc:
  assumes "in_bounds p" and "pa_Threads p < 256" and "length salt = pa_SaltBytes p" and "length key = pa_KeyBytes p"
  shows "parse_hash (phc_text p salt key) = Inr (p, salt, key)"
proof -
  have p: "\<lparr>pa_Time = pa_Time p, pa_MemoryKiB = pa_MemoryKiB p, pa_Threads = pa_Threads p, pa_SaltBytes = length salt, pa_KeyBytes = length key\<rparr> = p"
    using assms(3,4) by simp
  have c: "cost_text \<lparr>pa_Time = pa_Time p, pa_MemoryKiB = pa_MemoryKiB p, pa_Threads = pa_Threads p, pa_SaltBytes = 0, pa_KeyBytes = 0\<rparr> = cost_text p"
    by (rule cost_text_cong) simp_all
  show ?thesis
    unfolding parse_hash_def split_phc
    by (simp add: scan_version_own [unfolded append_Cons append_Nil] scan_cost_own [OF assms(1,2)] c decode_encode p assms(1) Let_def)
qed

lemma verify_own:
  assumes "in_bounds params" and "pa_Threads params < 256" and "length salt = pa_SaltBytes params"
    and "\<And>password salt t m p n. length (argon password salt t m p n) = n"
    and "Hash argon params (Some salt) True password = Inr hash" and "length secret \<le> MaxBytes"
  defines "key s \<equiv> argon s salt (pa_Time params) (pa_MemoryKiB params) (pa_Threads params) (pa_KeyBytes params)"
  shows "Verify argon params' True secret hash = Inr (key secret = key password, key secret = key password \<and> params \<noteq> params')"
proof -
  have "hash = phc_text params salt (key password)" using assms(5) by (simp add: Hash_def derive_def key_def)
  then have "parse_hash hash = Inr (params, salt, key password)"
    using parse_phc [OF assms(1-3), of "key password"] assms(4) by (simp add: key_def)
  then show ?thesis using assms(6) by (simp add: Verify_def derive_def key_def)
qed

text \<open>C39: a hash round trip: a password's hash, made with parameters that are within the bounds of \<open>Verify\<close>, is
  readable; exactly the passwords with the same argon2id key under its salt match, the password itself
  among them, and a match asks for a new hash exactly when the parameters have changed since.\<close>

theorem verify_hash:
  assumes "in_bounds params" and "pa_Threads params < 256" and "length salt = pa_SaltBytes params"
    and "\<And>password salt t m p n. length (argon password salt t m p n) = n"
    and "Hash argon params (Some salt) True password = Inr hash" and "length secret \<le> MaxBytes"
  defines "key s \<equiv> argon s salt (pa_Time params) (pa_MemoryKiB params) (pa_Threads params) (pa_KeyBytes params)"
  shows "Verify argon params' True secret hash = Inr (key secret = key password, key secret = key password \<and> params \<noteq> params')"
  using verify_own [OF assms(1-6)] unfolding key_def .

theorem verify_hash_witness:
  "\<exists>hash. Hash (\<lambda>password salt t m p n. take n (password @ replicate n CHR ''x'')) DefaultParams (Some (replicate 16 CHR ''s'')) True ''correct horse battery'' = Inr hash \<and>
     Verify (\<lambda>password salt t m p n. take n (password @ replicate n CHR ''x'')) DefaultParams True ''correct horse battery'' hash = Inr (True, False) \<and>
     Verify (\<lambda>password salt t m p n. take n (password @ replicate n CHR ''x'')) DefaultParams True ''wrong'' hash = Inr (False, False)"
proof -
  let ?a = "\<lambda>password salt (t::nat) (m::nat) (p::nat) n. take n (password @ replicate n CHR ''x'')"
  obtain hash where h: "Hash ?a DefaultParams (Some (replicate 16 CHR ''s'')) True ''correct horse battery'' = Inr hash"
    by (simp add: Hash_def derive_def)
  have b: "in_bounds DefaultParams" "pa_Threads DefaultParams < 256" "length (replicate 16 CHR ''s'') = pa_SaltBytes DefaultParams"
    by (simp_all add: in_bounds_def DefaultParams_def maxTime_def maxMemoryKiB_def minSaltBytes_def minKeyBytes_def maxKeyBytes_def)
  have "Verify ?a DefaultParams True ''correct horse battery'' hash = Inr (True, False)"
    using verify_hash [OF b _ h, of "''correct horse battery''" DefaultParams] by (simp add: MaxBytes_def)
  moreover have "Verify ?a DefaultParams True ''wrong'' hash = Inr (False, False)"
    using verify_hash [OF b _ h, of "''wrong''" DefaultParams] by (simp add: MaxBytes_def DefaultParams_def)
  ultimately show ?thesis using h by blast
qed

text \<open>Whatever text is stored as a hash, checking a password against it runs argon2id within the bounds.\<close>

lemma parse_hash_bounds: "parse_hash hash = Inr (p, salt, key) \<Longrightarrow> in_bounds p \<and> pa_SaltBytes p = length salt \<and> pa_KeyBytes p = length key"
  by (auto simp: parse_hash_def Let_def split: list.splits if_splits option.splits prod.splits)

end
