(* ===== verification/AuditLog.thy ===== *)
theory AuditLog
  imports AuthLimits
begin

text \<open>
  The audit log of the platform API (\<open>apps/api/internal/audit/\<close>): records of changes, written to an outbox
  in the transaction of the change, and drained from there to the OTel Collector.  The state of an entity
  before and after a change is a value of any type that encodes as JSON; UUIDs, the clock, the database
  and the Collector's answers are arguments.
\<close>

section \<open>Records\<close>

definition EntityUser :: string where "EntityUser = ''user''"
definition EntitySession :: string where "EntitySession = ''session''"

definition EntityTypes :: "string list" where
  "EntityTypes = [EntityUser, EntitySession, ''environment'', ''application'', ''application_component'', ''telemetry_source'',
     ''probe_definition'', ''database_target'', ''probe_assignment'']"

definition ActionCreate :: string where "ActionCreate = ''create''"
definition ActionLogin :: string where "ActionLogin = ''login''"
definition ActionLogout :: string where "ActionLogout = ''logout''"
definition ActionLoginFailed :: string where "ActionLoginFailed = ''login_failed''"

definition ActorUser :: string where "ActorUser = ''user''"
definition ActorCLI :: string where "ActorCLI = ''cli''"
definition ActorClient :: string where "ActorClient = ''client''"
definition ActorSystem :: string where "ActorSystem = ''system''"
definition ActorConfig :: string where "ActorConfig = ''config''"

record Actor =
  ac_Type :: string
  ac_UserID :: string
  ac_Email :: string
  ac_Command :: string
  ac_Host :: string
  ac_Address :: string
  ac_File :: string

definition no_actor :: Actor where
  "no_actor = \<lparr>ac_Type = [], ac_UserID = [], ac_Email = [], ac_Command = [], ac_Host = [], ac_Address = [], ac_File = []\<rparr>"

definition UserActor :: "string \<Rightarrow> string \<Rightarrow> Actor" where
  "UserActor userID email = no_actor\<lparr>ac_Type := ActorUser, ac_UserID := userID, ac_Email := email\<rparr>"
definition CLIActor :: "string \<Rightarrow> string \<Rightarrow> Actor" where
  "CLIActor command host = no_actor\<lparr>ac_Type := ActorCLI, ac_Command := command, ac_Host := host\<rparr>"
definition SystemActor :: "string \<Rightarrow> string \<Rightarrow> Actor" where
  "SystemActor task host = no_actor\<lparr>ac_Type := ActorSystem, ac_Command := task, ac_Host := host\<rparr>"
definition ConfigActor :: "string \<Rightarrow> string \<Rightarrow> Actor" where
  "ConfigActor file host = no_actor\<lparr>ac_Type := ActorConfig, ac_File := file, ac_Host := host\<rparr>"
definition ClientActor :: "string \<Rightarrow> Actor" where
  "ClientActor address = no_actor\<lparr>ac_Type := ActorClient, ac_Address := address\<rparr>"

definition is_hex :: "char \<Rightarrow> bool" where
  "is_hex c \<longleftrightarrow> (48 \<le> byte c \<and> byte c \<le> 57) \<or> (97 \<le> byte c \<and> byte c \<le> 102) \<or> (65 \<le> byte c \<and> byte c \<le> 70)"

text \<open>The regular expressions \<open>uuid\<close> and \<open>name\<close>.\<close>

definition uuid_text :: "string \<Rightarrow> bool" where
  "uuid_text s \<longleftrightarrow> length s = 36 \<and> list_all (\<lambda>i. if i \<in> {8, 13, 18, 23} then s ! i = CHR ''-'' else is_hex (s ! i)) [0..<36]"

definition is_lower :: "char \<Rightarrow> bool" where
  "is_lower c \<longleftrightarrow> 97 \<le> byte c \<and> byte c \<le> 122"

definition name_text :: "string \<Rightarrow> bool" where
  "name_text s = (case s of [] \<Rightarrow> False | c # t \<Rightarrow> is_lower c \<and> list_all (\<lambda>c. is_lower c \<or> c = CHR ''_'') t)"

definition actor_ok :: "Actor \<Rightarrow> bool" where
  "actor_ok a \<longleftrightarrow>
     (ac_Type a = ActorUser \<and> uuid_text (ac_UserID a) \<and> ac_Email a \<noteq> [] \<and> ac_Command a = [] \<and> ac_Host a = [] \<and> ac_Address a = [] \<and> ac_File a = []) \<or>
     ((ac_Type a = ActorCLI \<or> ac_Type a = ActorSystem) \<and> ac_Command a \<noteq> [] \<and> ac_UserID a = [] \<and> ac_Email a = [] \<and> ac_Address a = [] \<and> ac_File a = []) \<or>
     (ac_Type a = ActorConfig \<and> ac_File a \<noteq> [] \<and> ac_UserID a = [] \<and> ac_Email a = [] \<and> ac_Command a = [] \<and> ac_Address a = []) \<or>
     (ac_Type a = ActorClient \<and> ac_Address a \<noteq> [] \<and> ac_UserID a = [] \<and> ac_Email a = [] \<and> ac_Command a = [] \<and> ac_Host a = [] \<and> ac_File a = [])"

text \<open>A value passed as \<open>any\<close>, by what \<open>json.Marshal\<close> makes of it.\<close>

datatype 'j any = AnyNil | AnyFails | AnyNull | AnyObject 'j | AnyOther

record 'j Change =
  ch_RequestID :: string
  ch_Actor :: Actor
  ch_Action :: string
  ch_EntityType :: string
  ch_EntityID :: string
  ch_Before :: "'j any"
  ch_After :: "'j any"
  ch_ConfigVersion :: string

record 'j Record =
  ar_ID :: string
  ar_Time :: gotime
  ar_RequestID :: string
  ar_Actor :: Actor
  ar_Action :: string
  ar_EntityType :: string
  ar_EntityID :: string
  ar_Before :: "'j option"
  ar_After :: "'j option"
  ar_ConfigVersion :: string

datatype audit_error = NewIDError | BeforeError | AfterError | NoRequestID | BadAction | BadEntityType | NoEntityID | NoState | BadActor | InsertFailed
  | BeginFailed | ClaimFailed | DeliverFailed | DeleteRowsFailed | CommitFailed

fun object :: "audit_error \<Rightarrow> 'j any \<Rightarrow> (audit_error, 'j option) result" where
  "object e AnyNil = Inr None"
| "object e AnyFails = Inl e"
| "object e AnyNull = Inr None"
| "object e (AnyObject j) = Inr (Some j)"
| "object e AnyOther = Inl e"

definition record_error :: "'j Record \<Rightarrow> audit_error option" where
  "record_error r =
     (if ar_RequestID r = [] then Some NoRequestID
      else if \<not> name_text (ar_Action r) then Some BadAction
      else if ar_EntityType r \<notin> set EntityTypes then Some BadEntityType
      else if ar_EntityID r = [] then Some NoEntityID
      else if ar_Before r = None \<and> ar_After r = None then Some NoState
      else fail_if (\<not> actor_ok (ar_Actor r)) BadActor)"

text \<open>\<open>Write\<close>: what it inserts is the record it returns.\<close>

definition Write :: "string option \<Rightarrow> gotime \<Rightarrow> bool \<Rightarrow> 'j Change \<Rightarrow> (audit_error, 'j Record) result" where
  "Write newID now inserted change =
     (case newID of None \<Rightarrow> Inl NewIDError | Some rid \<Rightarrow>
      bind_result (object BeforeError (ch_Before change)) (\<lambda>before.
      bind_result (object AfterError (ch_After change)) (\<lambda>after.
        let r = \<lparr>ar_ID = rid, ar_Time = now, ar_RequestID = ch_RequestID change, ar_Actor = ch_Actor change, ar_Action = ch_Action change,
          ar_EntityType = ch_EntityType change, ar_EntityID = ch_EntityID change, ar_Before = before, ar_After = after,
          ar_ConfigVersion = ch_ConfigVersion change\<rparr> in
        case record_error r of Some e \<Rightarrow> Inl e | None \<Rightarrow> if inserted then Inr r else Inl InsertFailed)))"

text \<open>\<open>NewID\<close>: random bytes with the version and variant bits of a version 4 UUID.\<close>

definition NewID :: "8 word list option \<Rightarrow> 8 word list option" where
  "NewID raw = map_option (\<lambda>b. b[6 := (b ! 6 AND 0x0f) OR 0x40, 8 := (b ! 8 AND 0x3f) OR 0x80]) raw"

section \<open>The outbox\<close>

record 'j Row =
  ro_Seq :: int
  ro_Record :: "'j Record"

text \<open>\<open>ClaimAuditRecords\<close>: the oldest rows no other transaction has locked.\<close>

definition claim :: "nat \<Rightarrow> int set \<Rightarrow> 'j Row list \<Rightarrow> 'j Row list" where
  "claim limit locked rows = take limit (filter (\<lambda>r. ro_Seq r \<notin> locked) (sort_key ro_Seq rows))"

text \<open>\<open>DeleteAuditRecords\<close> and the commit: the rows are gone unless the commit did not take place.\<close>

definition delete_claimed :: "tx \<Rightarrow> 'j Row list \<Rightarrow> 'j Row list \<Rightarrow> 'j Row list" where
  "delete_claimed t claimed rows = (if t = TxUnsent then rows else filter (\<lambda>r. ro_Seq r \<notin> ro_Seq ` set claimed) rows)"

record drain_faults =
  df_begin :: bool
  df_claim :: bool
  df_delete :: bool
  df_commit :: tx

text \<open>The two halves of \<open>Drain\<close>, before and after the delivery: claiming the rows, which stay locked by the
  transaction, and ending the transaction once the delivery has returned, with \<open>ok\<close> when it returned no error.\<close>

definition drain_claim :: "drain_faults \<Rightarrow> nat \<Rightarrow> int set \<Rightarrow> 'j Row list \<Rightarrow> (audit_error, 'j Row list) result" where
  "drain_claim f limit locked rows =
     (if df_begin f then Inl BeginFailed else if df_claim f then Inl ClaimFailed else Inr (claim limit locked rows))"

definition drain_finish :: "drain_faults \<Rightarrow> bool \<Rightarrow> 'j Row list \<Rightarrow> 'j Row list \<Rightarrow> 'j Row list \<times> (audit_error, nat) result" where
  "drain_finish f ok claimed rows =
     (if \<not> ok then (rows, Inl DeliverFailed)
      else if df_delete f then (rows, Inl DeleteRowsFailed)
      else (delete_claimed (df_commit f) claimed rows,
        if df_commit f = TxDone then Inr (length claimed) else Inl CommitFailed))"

text \<open>\<open>Drain\<close>: \<open>deliver\<close> says whether the delivery of the rows returned no error; \<open>meanwhile\<close> is what other
  transactions committed until the rows are deleted.\<close>

definition Drain_outbox :: "drain_faults \<Rightarrow> nat \<Rightarrow> int set \<Rightarrow> ('j Row list \<Rightarrow> bool) \<Rightarrow> ('j Row list \<Rightarrow> 'j Row list) \<Rightarrow> 'j Row list \<Rightarrow>
    'j Row list \<times> (audit_error, nat) result" where
  "Drain_outbox f limit locked deliver meanwhile rows =
     (case drain_claim f limit locked rows of
        Inl e \<Rightarrow> (rows, Inl e)
      | Inr claimed \<Rightarrow>
          if claimed = [] then (rows, Inr 0)
          else drain_finish f (deliver claimed) claimed (meanwhile rows))"

section \<open>The drainer\<close>

definition DefaultBatchSize :: nat where "DefaultBatchSize = 100"
definition DefaultPollInterval :: duration where "DefaultPollInterval = 2 * ns_second"
definition DefaultMinBackoff :: duration where "DefaultMinBackoff = ns_second"
definition DefaultMaxBackoff :: duration where "DefaultMaxBackoff = 30 * ns_second"

record drainer =
  dr_BatchSize :: nat
  dr_PollInterval :: duration
  dr_MinBackoff :: duration
  dr_MaxBackoff :: duration

text \<open>A round of \<open>Run\<close>: the next backoff and the wait before the next round.\<close>

definition run_round :: "drainer \<Rightarrow> duration \<Rightarrow> (audit_error, nat) result \<Rightarrow> duration \<times> duration" where
  "run_round d backoff r =
     (case r of
        Inl _ \<Rightarrow> let backoff = min (max (int64 (2 * backoff)) (dr_MinBackoff d)) (dr_MaxBackoff d) in (backoff, backoff)
      | Inr n \<Rightarrow> (0, if dr_BatchSize d \<le> n then 0 else dr_PollInterval d))"

definition ServiceName :: string where "ServiceName = ''heartbeat-api''"
definition EventName :: string where "EventName = ''heartbeat.audit''"
definition AttributeRecordID :: string where "AttributeRecordID = ''log.record.uid''"

record audit_log_record =
  al_Observed :: int
  al_Time :: int
  al_Body :: string
  al_Attributes :: "(string \<times> string) list"

text \<open>\<open>logRecord\<close>; \<open>text_of\<close> is the compact JSON of a record.\<close>

definition logRecord :: "('j Record \<Rightarrow> string) \<Rightarrow> int \<Rightarrow> 'j Row \<Rightarrow> audit_log_record" where
  "logRecord text_of observed row =
     \<lparr>al_Observed = observed, al_Time = (if ar_Time (ro_Record row) = 0 then 0 else UnixNano (ar_Time (ro_Record row)) mod 2 ^ 64),
      al_Body = text_of (ro_Record row), al_Attributes = [(''event.name'', EventName), (AttributeRecordID, ar_ID (ro_Record row))]\<rparr>"

definition Resource :: "string \<Rightarrow> string \<Rightarrow> string \<Rightarrow> (string \<times> string) list" where
  "Resource version instance_id environment =
     filter (\<lambda>(k, v). v \<noteq> []) [(''service.name'', ServiceName), (''service.version'', version),
       (''service.instance.id'', instance_id), (''deployment.environment.name'', environment)]"

text \<open>The backoff stays between its bounds and doubles in between.\<close>

lemma run_round_backoff:
  assumes "0 \<le> backoff" "backoff \<le> dr_MaxBackoff d" "0 \<le> dr_MinBackoff d" "dr_MinBackoff d \<le> dr_MaxBackoff d" "dr_MaxBackoff d < 2 ^ 62"
  shows "run_round d backoff (Inl e) = (min (max (2 * backoff) (dr_MinBackoff d)) (dr_MaxBackoff d), min (max (2 * backoff) (dr_MinBackoff d)) (dr_MaxBackoff d))"
    and "dr_MinBackoff d \<le> fst (run_round d backoff (Inl e))" "fst (run_round d backoff (Inl e)) \<le> dr_MaxBackoff d"
  using assms int64_id [of "2 * backoff"] by (simp_all add: run_round_def Let_def)

section \<open>Delivery\<close>

text \<open>
  The outbox with its writers and drainers: the committed rows, what each drainer holds, and, for the
  statement, the rows ever committed and the rows the Collector accepted.
\<close>

datatype 'j drain_state = Idle | Claimed "'j Row list"

fun held :: "'j drain_state \<Rightarrow> 'j Row list" where
  "held Idle = []"
| "held (Claimed rs) = rs"

record 'j audit_system =
  au_rows :: "'j Row list"
  au_drains :: "nat \<Rightarrow> 'j drain_state"
  au_written :: "'j Row set"
  au_accepted :: "'j Row set"

definition locked :: "'j audit_system \<Rightarrow> int set" where
  "locked g = (\<Union>d. ro_Seq ` set (held (au_drains g d)))"

text \<open>A change commits with its record; a drainer runs the first half of \<open>Drain\<close>; the Collector gets the rows; the
  drainer runs the second half; or its transaction ends without it, as in a crash.  A delivery returns no error
  only when the Collector accepted the rows; it may return one, or none may come back, when it did.\<close>

inductive audit_step :: "nat \<Rightarrow> 'j audit_system \<Rightarrow> 'j audit_system \<Rightarrow> bool" for limit where
  wrote: "Write newID now True change = Inr r \<Longrightarrow> row = \<lparr>ro_Seq = q, ro_Record = r\<rparr> \<Longrightarrow> q \<notin> ro_Seq ` au_written g \<Longrightarrow>
    audit_step limit g (g\<lparr>au_rows := au_rows g @ [row], au_written := insert row (au_written g)\<rparr>)"
| claims: "au_drains g d = Idle \<Longrightarrow> drain_claim f limit (locked g) (au_rows g) = Inr claimed \<Longrightarrow> claimed \<noteq> [] \<Longrightarrow>
    audit_step limit g (g\<lparr>au_drains := (au_drains g)(d := Claimed claimed)\<rparr>)"
| accepts: "au_drains g d = Claimed rs \<Longrightarrow> audit_step limit g (g\<lparr>au_accepted := au_accepted g \<union> set rs\<rparr>)"
| finishes: "au_drains g d = Claimed rs \<Longrightarrow> (ok \<Longrightarrow> set rs \<subseteq> au_accepted g) \<Longrightarrow> drain_finish f ok rs (au_rows g) = (rows, r) \<Longrightarrow>
    audit_step limit g (g\<lparr>au_rows := rows, au_drains := (au_drains g)(d := Idle)\<rparr>)"
| releases: "audit_step limit g (g\<lparr>au_drains := (au_drains g)(d := Idle)\<rparr>)"

definition audit_init :: "'j audit_system" where
  "audit_init = \<lparr>au_rows = [], au_drains = \<lambda>_. Idle, au_written = {}, au_accepted = {}\<rparr>"

definition audit_inv :: "'j audit_system \<Rightarrow> bool" where
  "audit_inv g \<longleftrightarrow> set (au_rows g) \<subseteq> au_written g \<and> au_written g \<subseteq> set (au_rows g) \<union> au_accepted g \<and> au_accepted g \<subseteq> au_written g \<and>
     inj_on ro_Seq (au_written g) \<and> (\<forall>row \<in> au_written g. record_error (ro_Record row) = None) \<and>
     (\<forall>d. set (held (au_drains g d)) \<subseteq> set (au_rows g)) \<and>
     (\<forall>d d'. d \<noteq> d' \<longrightarrow> set (held (au_drains g d)) \<inter> set (held (au_drains g d')) = {})"

lemma audit_invD:
  assumes "audit_inv g"
  shows "set (au_rows g) \<subseteq> au_written g" "au_written g \<subseteq> set (au_rows g) \<union> au_accepted g" "au_accepted g \<subseteq> au_written g"
    "inj_on ro_Seq (au_written g)" "row \<in> au_written g \<Longrightarrow> record_error (ro_Record row) = None" "set (held (au_drains g d)) \<subseteq> set (au_rows g)"
    "d \<noteq> d' \<Longrightarrow> set (held (au_drains g d)) \<inter> set (held (au_drains g d')) = {}"
  using assms unfolding audit_inv_def by blast+

lemma claim_set: "set (claim limit L rows) \<subseteq> {r \<in> set rows. ro_Seq r \<notin> L}"
  using set_take_subset [of limit "filter (\<lambda>r. ro_Seq r \<notin> L) (sort_key ro_Seq rows)"] by (auto simp: claim_def)

lemma claim_sorted: "sorted (map ro_Seq (claim limit L rows))" "length (claim limit L rows) \<le> limit"
proof -
  have "sorted (map ro_Seq (filter (\<lambda>r. ro_Seq r \<notin> L) (sort_key ro_Seq rows)))" by (rule sorted_filter) (rule sorted_sort_key)
  then show "sorted (map ro_Seq (claim limit L rows))" unfolding claim_def take_map [symmetric] by (rule sorted_wrt_take)
  show "length (claim limit L rows) \<le> limit" by (simp add: claim_def)
qed

lemma Write_valid: "Write newID now inserted change = Inr r \<Longrightarrow> record_error r = None"
  by (auto simp: Write_def bind_result_Inr_iff Let_def split: option.splits if_splits)

lemma delete_claimed_set:
  assumes "inj_on ro_Seq W" "set rows \<subseteq> W" "set claimed \<subseteq> set rows"
  shows "set (delete_claimed t claimed rows) \<subseteq> set rows" "set rows - set claimed \<subseteq> set (delete_claimed t claimed rows)"
proof -
  have "ro_Seq r \<notin> ro_Seq ` set claimed" if "r \<in> set rows" "r \<notin> set claimed" for r
    using that assms inj_on_image_mem_iff [OF assms(1), of r "set claimed"] by blast
  then show "set (delete_claimed t claimed rows) \<subseteq> set rows" "set rows - set claimed \<subseteq> set (delete_claimed t claimed rows)"
    by (auto simp: delete_claimed_def)
qed

text \<open>Deleting rows that were accepted, and giving up the rows one drainer holds.\<close>

lemma audit_inv_deleted:
  assumes inv: "audit_inv g" and rs: "set rs \<subseteq> set (held (au_drains g d))" "set rs \<subseteq> au_accepted g"
    and rows: "set rows \<subseteq> set (au_rows g)" "set (au_rows g) - set rs \<subseteq> set rows"
  shows "audit_inv (g\<lparr>au_rows := rows, au_drains := (au_drains g)(d := Idle)\<rparr>)"
proof -
  note D = audit_invD [OF inv]
  have "set (held (((au_drains g)(d := Idle)) e)) \<subseteq> set rows" for e
  proof (cases "e = d")
    case False
    then have "set (held (au_drains g e)) \<inter> set rs = {}" using D(7) rs(1) by blast
    with D(6) [of e] rows(2) False show ?thesis by auto
  qed simp
  moreover have "set (held (((au_drains g)(d := Idle)) e)) \<inter> set (held (((au_drains g)(d := Idle)) e')) = {}" if "e \<noteq> e'" for e e'
    using D(7) [OF that] by auto
  moreover have "set rows \<subseteq> au_written g" "au_written g \<subseteq> set rows \<union> au_accepted g" using D(1,2) rows rs(2) by blast+
  ultimately show ?thesis unfolding audit_inv_def using D(3-5) by simp
qed

text \<open>The second half of \<open>Drain\<close> deletes only claimed rows, and only after a delivery without an error.\<close>

lemma drain_finish_rows:
  assumes "drain_finish f ok rs rows = (rows', r)" and "inj_on ro_Seq W" "set rows \<subseteq> W" "set rs \<subseteq> set rows"
  shows "set rows' \<subseteq> set rows" "set rows - set (if ok then rs else []) \<subseteq> set rows'"
  using assms(1) delete_claimed_set [OF assms(2-4), of "df_commit f"]
  by (auto simp: drain_finish_def split: if_splits)

lemma audit_step_inv:
  assumes "audit_step limit g g'" and "audit_inv g"
  shows "audit_inv g'"
  using assms
proof (induction rule: audit_step.induct)
  case (wrote newID now change r row q g)
  note D = audit_invD [OF wrote(4)]
  have "inj_on ro_Seq (insert row (au_written g))" using wrote(2,3) D(4) by auto
  moreover have "record_error (ro_Record row) = None" using Write_valid [OF wrote(1)] wrote(2) by simp
  ultimately show ?case using D unfolding audit_inv_def by (simp add: subset_insertI2)
next
  case (claims g d f claimed)
  note D = audit_invD [OF claims(4)]
  have c: "set claimed \<subseteq> set (au_rows g)" "r \<in> set claimed \<Longrightarrow> ro_Seq r \<notin> locked g" for r
    using claim_set [of limit "locked g" "au_rows g"] claims(2) by (auto simp: drain_claim_def split: if_splits)
  have free: "set claimed \<inter> set (held (au_drains g e)) = {}" for e using c(2) by (auto simp: locked_def)
  have "set (held (((au_drains g)(d := Claimed claimed)) e)) \<inter> set (held (((au_drains g)(d := Claimed claimed)) e')) = {}" if "e \<noteq> e'" for e e'
    using D(7) [OF that] free [of e] free [of e'] that by (auto split: if_splits)
  moreover have "set (held (((au_drains g)(d := Claimed claimed)) e)) \<subseteq> set (au_rows g)" for e using D(6) [of e] c(1) by simp
  ultimately show ?case unfolding audit_inv_def using D(1-5) by simp
next
  case (accepts g d rs)
  note D = audit_invD [OF accepts(2)]
  have "set rs \<subseteq> au_written g" using D(1) D(6) [of d] accepts(1) by auto
  then show ?case using D unfolding audit_inv_def by auto
next
  case (finishes g d rs ok f rows r)
  note D = audit_invD [OF finishes(4)]
  have rs: "set rs \<subseteq> set (au_rows g)" using D(6) [of d] finishes(1) by simp
  show ?case
    by (rule audit_inv_deleted [OF finishes(4) _ _ drain_finish_rows [OF finishes(3) D(4) D(1) rs]])
      (use finishes(1,2) in auto)
next
  case (releases g d)
  from audit_inv_deleted [OF releases, of "[]" d "au_rows g"] show ?case by simp
qed

lemma audit_reachable_inv: "(audit_step limit)\<^sup>*\<^sup>* audit_init g \<Longrightarrow> audit_inv g"
proof (induction rule: rtranclp_induct)
  case base
  show ?case by (simp add: audit_inv_def audit_init_def)
next
  case (step g g')
  then show ?case using audit_step_inv by blast
qed

text \<open>The steps of a drainer are the code's: a claim and, after whatever others committed, its end make one run of \<open>Drain\<close>.\<close>

lemma drain_steps:
  assumes "drain_claim f limit (locked g) (au_rows g) = Inr claimed" and "claimed \<noteq> []"
    and "drain_finish f ok claimed (au_rows g') = (rows, r)"
  shows "Drain_outbox f limit (locked g) (\<lambda>_. ok) (\<lambda>_. au_rows g') (au_rows g) = (rows, r)"
  using assms by (simp add: Drain_outbox_def)


definition sample_change :: "nat Change" where
  "sample_change = \<lparr>ch_RequestID = ''r'', ch_Actor = ClientActor ''10.0.0.1'', ch_Action = ActionLoginFailed, ch_EntityType = EntitySession,
     ch_EntityID = ''1'', ch_Before = AnyNil, ch_After = AnyObject 0, ch_ConfigVersion = []\<rparr>"


end
