(* ===== verification/Users.thy ===== *)
theory Users
  imports Sessions Password AuditLog
begin

text \<open>
  Local users and their roles (\<open>apps/api/internal/users/users.go\<close>, \<open>manage.go\<close>) over the PostgreSQL statements
  of \<open>store/queries/users.sql\<close>.  The database is its rows; a statement that fails, the clock, random bytes,
  argon2id and the parser of mail addresses are arguments.  A user's ID is the text of its UUID.
\<close>

section \<open>Users\<close>

definition RoleAdmin :: string where "RoleAdmin = ''admin''"
definition maxEmailBytes :: nat where "maxEmailBytes = 254"
definition maxDisplayNameRunes :: nat where "maxDisplayNameRunes = 200"
definition StatusActive :: string where "StatusActive = ''active''"
definition StatusDisabled :: string where "StatusDisabled = ''disabled''"
definition ActionUpdate :: string where "ActionUpdate = ''update''"
definition ActionSetPassword :: string where "ActionSetPassword = ''set_password''"
definition ActionGrantRole :: string where "ActionGrantRole = ''grant_role''"
definition ActionRevokeRole :: string where "ActionRevokeRole = ''revoke_role''"

record User =
  us_ID :: string
  us_Email :: string
  us_DisplayName :: string
  us_Status :: string
  us_Roles :: "string list"
  us_LastLoginAt :: "gotime option"
  us_CreatedAt :: gotime
  us_UpdatedAt :: gotime

record user_row = User +
  ur_PasswordHash :: "string option"

text \<open>What audit records show of users, password changes, sessions and refused requests.\<close>

record sessionRecord =
  sx_ID :: string
  sx_UserID :: string
  sx_Email :: string
  sx_Address :: string
  sx_CreatedAt :: gotime
  sx_ExpiresAt :: gotime

datatype entity =
    EUser string string string string "string list"
  | EPasswordSet string string bool
  | ESession sessionRecord
  | EFailedLogin string string string
  | EFailedPasswordChange string string string

definition user_entity :: "'a User_scheme \<Rightarrow> entity" where
  "user_entity u = EUser (us_ID u) (us_Email u) (us_DisplayName u) (us_Status u) (us_Roles u)"

record users_db =
  db_users :: "user_row list"
  db_roles :: "string list"
  db_outbox :: "entity Record list"

datatype stmt = SBegin | SLockAdminRole | SLockUser | SGetLocked | SCountAdmins | SUpdateUser | SGetAfter | SAudit | SRoleExists | SGrantRole | SRevokeRole
  | STouchUser | SSetPasswordHash | SCreateUser | SListUsers | SGetLoginUser | SGetPasswordHash | SRecordLogin | SUpgradeHash | SGetSessionUser

datatype users_error = ErrNotFound | ErrLastAdmin | ErrLastRole | ErrUnknownRole | ErrStalePassword | ErrEmailTaken | InvalidField string
  | PasswordFailed password_error | StatementFailed stmt | RowsChanged | AuditFailed audit_error | SessionsFailed session_error | CommitError

record users_env =
  un_mail :: "string \<Rightarrow> bool"
  un_tables :: unicode_tables
  un_argon :: argon2
  un_params :: Params
  un_salt :: "string option"
  un_slot :: bool
  un_newID :: "string option"
  un_now :: gotime
  un_fails :: "stmt \<Rightarrow> bool"

record Caller =
  ca_Actor :: Actor
  ca_RequestID :: string

text \<open>\<open>NormalizeEmail\<close>; \<open>un_mail\<close> says whether \<open>mail.ParseAddress\<close> reads the text as a bare address equal to
  it.\<close>

definition NormalizeEmail :: "users_env \<Rightarrow> string \<Rightarrow> string option" where
  "NormalizeEmail env address =
     (let address = trim_space address in
      if \<not> un_mail env address \<or> length address > maxEmailBytes then None else Some (to_lower (un_tables env) address))"

definition displayName :: "string \<Rightarrow> string \<Rightarrow> string option" where
  "displayName name email =
     (let name = trim_space name; name = (if name = [] then takeWhile (\<lambda>c. c \<noteq> CHR ''@'') email else name) in
      if \<not> valid_utf8 name \<or> length (runes name) > maxDisplayNameRunes \<or> list_ex (is_control \<circ> fst) (runes name) then None else Some name)"

section \<open>Statements\<close>

definition find_user :: "users_db \<Rightarrow> string \<Rightarrow> user_row option" where
  "find_user db i = find (\<lambda>r. us_ID r = i) (db_users db)"

definition put_user :: "user_row \<Rightarrow> users_db \<Rightarrow> users_db" where
  "put_user row db = db\<lparr>db_users := map (\<lambda>r. if us_ID r = us_ID row then row else r) (db_users db)\<rparr>"

definition active_admin :: "'a User_scheme \<Rightarrow> bool" where
  "active_admin u \<longleftrightarrow> us_Status u = StatusActive \<and> RoleAdmin \<in> set (us_Roles u)"

definition CountOtherActiveAdmins :: "users_db \<Rightarrow> string \<Rightarrow> nat" where
  "CountOtherActiveAdmins db i = length (filter (\<lambda>u. active_admin u \<and> us_ID u \<noteq> i) (db_users db))"

text \<open>The unique index on \<open>lower(email)\<close>.\<close>

definition email_taken :: "users_env \<Rightarrow> users_db \<Rightarrow> string \<Rightarrow> string \<Rightarrow> bool" where
  "email_taken env db i email \<longleftrightarrow> list_ex (\<lambda>u. us_ID u \<noteq> i \<and> to_lower (un_tables env) (us_Email u) = to_lower (un_tables env) email) (db_users db)"

section \<open>Changes\<close>

text \<open>What a transaction on a locked user is about to commit: the user's row and the record of the change,
  if it changes anything, whether it ends the user's sessions, and the user after it.\<close>

record tx_write =
  tw_row :: "user_row option"
  tw_record :: "entity Record option"
  tw_ends :: bool
  tw_user :: User

definition apply_write :: "tx_write \<Rightarrow> users_db \<Rightarrow> users_db" where
  "apply_write x db = (case tw_row x of None \<Rightarrow> db | Some row \<Rightarrow> put_user row db)\<lparr>db_outbox := db_outbox db @ (case tw_record x of None \<Rightarrow> [] | Some r \<Rightarrow> [r])\<rparr>"

definition record_change :: "users_env \<Rightarrow> Caller \<Rightarrow> string \<Rightarrow> string \<Rightarrow> entity any \<Rightarrow> entity any \<Rightarrow> (users_error, entity Record) result" where
  "record_change env caller action i before after =
     (case Write (un_newID env) (un_now env) (\<not> un_fails env SAudit)
         \<lparr>ch_RequestID = ca_RequestID caller, ch_Actor = ca_Actor caller, ch_Action = action, ch_EntityType = EntityUser, ch_EntityID = i,
          ch_Before = before, ch_After = after, ch_ConfigVersion = []\<rparr> of
        Inl e \<Rightarrow> Inl (AuditFailed e) | Inr r \<Rightarrow> Inr r)"

definition lastAdmin :: "users_env \<Rightarrow> string \<Rightarrow> users_db \<Rightarrow> users_error option" where
  "lastAdmin env i db =
     (if un_fails env SCountAdmins then Some (StatementFailed SCountAdmins)
      else fail_if (CountOtherActiveAdmins db i = 0) ErrLastAdmin)"

text \<open>\<open>Update\<close>: the checked fields, then the change of the locked user.\<close>

type_synonym user_fields = "string option \<times> string option \<times> string option"

definition update_fields :: "users_env \<Rightarrow> user_fields \<Rightarrow> (users_error, user_fields) result" where
  "update_fields env change =
     (case change of (email, name, status) \<Rightarrow>
      bind_result (case email of None \<Rightarrow> Inr None | Some e \<Rightarrow>
          case NormalizeEmail env e of None \<Rightarrow> Inl (InvalidField ''email'') | Some e \<Rightarrow> Inr (Some e)) (\<lambda>email.
      bind_result (case name of None \<Rightarrow> Inr None | Some n \<Rightarrow>
          if trim_space n = [] then Inl (InvalidField ''display_name'')
          else case displayName n [] of None \<Rightarrow> Inl (InvalidField ''display_name'') | Some n \<Rightarrow> Inr (Some n)) (\<lambda>name.
      if status \<noteq> None \<and> status \<noteq> Some StatusActive \<and> status \<noteq> Some StatusDisabled then Inl (InvalidField ''status'')
      else Inr (email, name, status))))"

definition fields_or :: "'a option \<Rightarrow> 'a \<Rightarrow> 'a" where
  "fields_or f x = (case f of None \<Rightarrow> x | Some y \<Rightarrow> y)"

definition update_locked :: "users_env \<Rightarrow> Caller \<Rightarrow> user_fields \<Rightarrow> user_row \<Rightarrow> users_db \<Rightarrow> (users_error, tx_write) result" where
  "update_locked env caller f row db =
     (case f of (email, name, status) \<Rightarrow>
      let row' = row\<lparr>us_Email := fields_or email (us_Email row), us_DisplayName := fields_or name (us_DisplayName row), us_Status := fields_or status (us_Status row)\<rparr> in
      if us_Email row' = us_Email row \<and> us_DisplayName row' = us_DisplayName row \<and> us_Status row' = us_Status row
      then Inr \<lparr>tw_row = None, tw_record = None, tw_ends = False, tw_user = User.truncate row\<rparr>
      else
        let ending = us_Status row' = StatusDisabled \<and> us_Status row = StatusActive in
        case (if ending \<and> RoleAdmin \<in> set (us_Roles row) then lastAdmin env (us_ID row) db else None) of Some e \<Rightarrow> Inl e | None \<Rightarrow>
        if email_taken env db (us_ID row) (us_Email row') then Inl ErrEmailTaken
        else if un_fails env SUpdateUser then Inl (StatementFailed SUpdateUser)
        else
          let row' = row'\<lparr>us_UpdatedAt := un_now env\<rparr> in
          if un_fails env SGetAfter then Inl (StatementFailed SGetAfter)
          else bind_result (record_change env caller ActionUpdate (us_ID row) (AnyObject (user_entity row)) (AnyObject (user_entity row'))) (\<lambda>r.
            Inr \<lparr>tw_row = Some row', tw_record = Some r, tw_ends = ending, tw_user = User.truncate row'\<rparr>))"

text \<open>\<open>role\<close>: granting or revoking a role of the locked user.  Roles are listed in the order of their names.\<close>

definition role_locked :: "users_env \<Rightarrow> Caller \<Rightarrow> string \<Rightarrow> bool \<Rightarrow> user_row \<Rightarrow> users_db \<Rightarrow> (users_error, tx_write) result" where
  "role_locked env caller role grant row db =
     (if (role \<in> set (us_Roles row)) = grant then Inr \<lparr>tw_row = None, tw_record = None, tw_ends = False, tw_user = User.truncate row\<rparr>
      else
        case (if grant then None
              else or_else (if role = RoleAdmin \<and> us_Status row = StatusActive then lastAdmin env (us_ID row) db else None)
                (fail_if (length (us_Roles row) = 1) ErrLastRole)) of Some e \<Rightarrow> Inl e | None \<Rightarrow>
        if un_fails env (if grant then SGrantRole else SRevokeRole) then Inl (StatementFailed (if grant then SGrantRole else SRevokeRole))
        else if role \<notin> set (db_roles db) then Inl RowsChanged
        else if un_fails env STouchUser then Inl (StatementFailed STouchUser)
        else
          let row' = row\<lparr>us_Roles := (if grant then insort role (us_Roles row) else filter (\<lambda>x. x \<noteq> role) (us_Roles row)), us_UpdatedAt := un_now env\<rparr> in
          if un_fails env SGetAfter then Inl (StatementFailed SGetAfter)
          else bind_result (record_change env caller (if grant then ActionGrantRole else ActionRevokeRole) (us_ID row)
              (AnyObject (user_entity row)) (AnyObject (user_entity row'))) (\<lambda>r.
            Inr \<lparr>tw_row = Some row', tw_record = Some r, tw_ends = False, tw_user = User.truncate row'\<rparr>))"

text \<open>\<open>SetPassword\<close>: replacing the hash of the locked user.\<close>

definition password_locked :: "users_env \<Rightarrow> Caller \<Rightarrow> string \<Rightarrow> string option \<Rightarrow> user_row \<Rightarrow> users_db \<Rightarrow> (users_error, tx_write) result" where
  "password_locked env caller hash ifHash row db =
     (if un_fails env SSetPasswordHash then Inl (StatementFailed SSetPasswordHash)
      else if ifHash \<noteq> None \<and> ur_PasswordHash row \<noteq> ifHash then Inl ErrStalePassword
      else
        let row' = row\<lparr>ur_PasswordHash := Some hash, us_UpdatedAt := un_now env\<rparr> in
        bind_result (record_change env caller ActionSetPassword (us_ID row) AnyNil (AnyObject (EPasswordSet (us_ID row) (us_Email row) True))) (\<lambda>r.
          Inr \<lparr>tw_row = Some row', tw_record = Some r, tw_ends = True, tw_user = User.truncate row\<rparr>))"

text \<open>A change that takes locks, and the admin role's lock before the user's if it can leave no admin.\<close>

datatype user_op = OpUpdate user_fields | OpRole string bool | OpPassword string "string option"

definition op_locked :: "users_env \<Rightarrow> Caller \<Rightarrow> user_op \<Rightarrow> user_row \<Rightarrow> users_db \<Rightarrow> (users_error, tx_write) result" where
  "op_locked env caller p row db =
     (case p of OpUpdate f \<Rightarrow> update_locked env caller f row db | OpRole role grant \<Rightarrow> role_locked env caller role grant row db
      | OpPassword hash ifHash \<Rightarrow> password_locked env caller hash ifHash row db)"

definition takes_role_lock :: "user_op \<Rightarrow> bool" where
  "takes_role_lock p = (case p of OpUpdate (_, _, status) \<Rightarrow> status = Some StatusDisabled | OpRole role grant \<Rightarrow> \<not> grant \<and> role = RoleAdmin | OpPassword _ _ \<Rightarrow> False)"

section \<open>Operations\<close>

record 's world =
  wd_db :: users_db
  wd_store :: 's

text \<open>How the transaction and the ending of the sessions inside it go.\<close>

record 's tx_run =
  tr_commit :: tx
  tr_redis :: "'s session_redis"
  tr_replied :: bool
  tr_delete :: tx
  tr_meanwhile :: "'s \<Rightarrow> 's"

definition locked_tx :: "users_env \<Rightarrow> 's tx_run \<Rightarrow> Caller \<Rightarrow> user_op \<Rightarrow> string \<Rightarrow> 's world \<Rightarrow> 's world \<times> (users_error, User) result" where
  "locked_tx env t caller p i w =
     (if un_fails env SBegin then (w, Inl (StatementFailed SBegin))
      else if takes_role_lock p \<and> un_fails env SLockAdminRole then (w, Inl (StatementFailed SLockAdminRole))
      else if un_fails env SLockUser then (w, Inl (StatementFailed SLockUser))
      else case find_user (wd_db w) i of None \<Rightarrow> (w, Inl ErrNotFound) | Some row \<Rightarrow>
      if un_fails env SGetLocked then (w, Inl (StatementFailed SGetLocked))
      else case op_locked env caller p row (wd_db w) of Inl e \<Rightarrow> (w, Inl e) | Inr x \<Rightarrow>
      case (if tw_ends x then DeleteUser (tr_redis t) (tr_replied t) (un_now env) (un_now env) (tr_delete t) (tr_meanwhile t) i (wd_store w) else (wd_store w, None)) of
        (s, Some e) \<Rightarrow> (w\<lparr>wd_store := s\<rparr>, Inl (SessionsFailed e))
      | (s, None) \<Rightarrow>
          (w\<lparr>wd_db := (if tr_commit t = TxUnsent then wd_db w else apply_write x (wd_db w)), wd_store := s\<rparr>,
           if tr_commit t = TxDone then Inr (tw_user x) else Inl CommitError))"

definition UpdateUser :: "users_env \<Rightarrow> 's tx_run \<Rightarrow> Caller \<Rightarrow> string \<Rightarrow> user_fields \<Rightarrow> 's world \<Rightarrow> 's world \<times> (users_error, User) result" where
  "UpdateUser env t caller i change w =
     (case update_fields env change of Inl e \<Rightarrow> (w, Inl e) | Inr f \<Rightarrow> locked_tx env t caller (OpUpdate f) i w)"

definition change_role :: "users_env \<Rightarrow> 's tx_run \<Rightarrow> Caller \<Rightarrow> string \<Rightarrow> string \<Rightarrow> bool \<Rightarrow> 's world \<Rightarrow> 's world \<times> (users_error, User) result" where
  "change_role env t caller i role grant w =
     (if un_fails env SBegin then (w, Inl (StatementFailed SBegin))
      else if un_fails env SRoleExists then (w, Inl (StatementFailed SRoleExists))
      else if role \<notin> set (db_roles (wd_db w)) then (w, Inl ErrUnknownRole)
      else locked_tx env t caller (OpRole role grant) i w)"

definition Grant :: "users_env \<Rightarrow> 's tx_run \<Rightarrow> Caller \<Rightarrow> string \<Rightarrow> string \<Rightarrow> 's world \<Rightarrow> 's world \<times> (users_error, User) result" where
  "Grant env t caller i role w = change_role env t caller i role True w"

definition Revoke :: "users_env \<Rightarrow> 's tx_run \<Rightarrow> Caller \<Rightarrow> string \<Rightarrow> string \<Rightarrow> 's world \<Rightarrow> 's world \<times> (users_error, User) result" where
  "Revoke env t caller i role w = change_role env t caller i role False w"

definition SetPassword :: "users_env \<Rightarrow> 's tx_run \<Rightarrow> Caller \<Rightarrow> string \<Rightarrow> string \<Rightarrow> string \<Rightarrow> 's world \<Rightarrow> 's world \<times> (users_error, User) result" where
  "SetPassword env t caller i secret ifHash w =
     (case Check secret of Some e \<Rightarrow> (w, Inl (InvalidField ''password'')) | None \<Rightarrow>
      case Hash (un_argon env) (un_params env) (un_salt env) (un_slot env) secret of Inl e \<Rightarrow> (w, Inl (PasswordFailed e)) | Inr hash \<Rightarrow>
      locked_tx env t caller (OpPassword hash (if ifHash = [] then None else Some ifHash)) i w)"

definition ListUsers :: "users_env \<Rightarrow> string \<Rightarrow> users_db \<Rightarrow> (users_error, User list) result" where
  "ListUsers env status db =
     (if un_fails env SListUsers then Inl (StatementFailed SListUsers)
      else Inr (map User.truncate (sort_key us_Email (filter (\<lambda>u. status = [] \<or> us_Status u = status) (db_users db)))))"

definition GetUser :: "users_env \<Rightarrow> string \<Rightarrow> users_db \<Rightarrow> (users_error, User) result" where
  "GetUser env i db =
     (if un_fails env SGetAfter then Inl (StatementFailed SGetAfter)
      else case find_user db i of None \<Rightarrow> Inl ErrNotFound | Some row \<Rightarrow> Inr (User.truncate row))"

text \<open>\<open>Create\<close> and \<open>CreateAdmin\<close>: the row and the record they insert; \<open>i\<close> is the ID the database gives it,
  \<open>granted\<close> what stopped the granting of its roles, \<open>reads\<close> whether the row is read back.\<close>

definition insert_user :: "users_env \<Rightarrow> Caller \<Rightarrow> string \<Rightarrow> string \<Rightarrow> string \<Rightarrow> string \<Rightarrow> string list \<Rightarrow> users_error option \<Rightarrow> bool \<Rightarrow> users_db \<Rightarrow>
    (users_error, user_row \<times> entity Record) result" where
  "insert_user env caller i email name hash roles granted reads db =
     (if email_taken env db i email then Inl ErrEmailTaken
      else if un_fails env SCreateUser then Inl (StatementFailed SCreateUser)
      else case granted of Some e \<Rightarrow> Inl e | None \<Rightarrow>
        let row = \<lparr>us_ID = i, us_Email = email, us_DisplayName = name, us_Status = StatusActive, us_Roles = sort (remdups roles),
          us_LastLoginAt = None, us_CreatedAt = un_now env, us_UpdatedAt = un_now env, ur_PasswordHash = Some hash\<rparr> in
        if reads \<and> un_fails env SGetAfter then Inl (StatementFailed SGetAfter)
        else bind_result (record_change env caller ActionCreate i AnyNil (AnyObject (user_entity row))) (\<lambda>r. Inr (row, r)))"

fun grant_all :: "users_env \<Rightarrow> users_db \<Rightarrow> string list \<Rightarrow> users_error option" where
  "grant_all env db [] = None"
| "grant_all env db (role # roles) =
     (if un_fails env SRoleExists then Some (StatementFailed SRoleExists)
      else if role \<notin> set (db_roles db) then Some ErrUnknownRole
      else if un_fails env SGrantRole then Some (StatementFailed SGrantRole)
      else grant_all env db roles)"

definition grant_admin :: "users_env \<Rightarrow> users_db \<Rightarrow> users_error option" where
  "grant_admin env db =
     (if un_fails env SGrantRole then Some (StatementFailed SGrantRole) else fail_if (RoleAdmin \<notin> set (db_roles db)) ErrUnknownRole)"

definition add_user :: "tx \<Rightarrow> user_row \<Rightarrow> entity Record \<Rightarrow> users_db \<Rightarrow> users_db" where
  "add_user t row r db = (if t = TxUnsent then db else db\<lparr>db_users := db_users db @ [row], db_outbox := db_outbox db @ [r]\<rparr>)"

definition CreateUser :: "users_env \<Rightarrow> tx \<Rightarrow> Caller \<Rightarrow> string \<Rightarrow> string \<Rightarrow> string \<Rightarrow> string \<Rightarrow> string list \<Rightarrow> users_db \<Rightarrow> users_db \<times> (users_error, User) result" where
  "CreateUser env t caller i email name secret roles db =
     (case NormalizeEmail env email of None \<Rightarrow> (db, Inl (InvalidField ''email'')) | Some email \<Rightarrow>
      case displayName name email of None \<Rightarrow> (db, Inl (InvalidField ''display_name'')) | Some name \<Rightarrow>
      case Check secret of Some _ \<Rightarrow> (db, Inl (InvalidField ''password'')) | None \<Rightarrow>
      if roles = [] then (db, Inl (InvalidField ''roles''))
      else case Hash (un_argon env) (un_params env) (un_salt env) (un_slot env) secret of Inl e \<Rightarrow> (db, Inl (PasswordFailed e)) | Inr hash \<Rightarrow>
      if un_fails env SBegin then (db, Inl (StatementFailed SBegin))
      else case insert_user env caller i email name hash roles (grant_all env db roles) True db of Inl e \<Rightarrow> (db, Inl e) | Inr (row, r) \<Rightarrow>
        (add_user t row r db, if t = TxDone then Inr (User.truncate row) else Inl CommitError))"

definition CreateAdmin :: "users_env \<Rightarrow> tx \<Rightarrow> Caller \<Rightarrow> string \<Rightarrow> string \<Rightarrow> string \<Rightarrow> string \<Rightarrow> users_db \<Rightarrow> users_db \<times> (users_error, string \<times> string \<times> entity Record) result" where
  "CreateAdmin env t caller i email name secret db =
     (case NormalizeEmail env email of None \<Rightarrow> (db, Inl (InvalidField ''email'')) | Some email \<Rightarrow>
      case displayName name email of None \<Rightarrow> (db, Inl (InvalidField ''display_name'')) | Some name \<Rightarrow>
      case Check secret of Some _ \<Rightarrow> (db, Inl (InvalidField ''password'')) | None \<Rightarrow>
      case Hash (un_argon env) (un_params env) (un_salt env) (un_slot env) secret of Inl e \<Rightarrow> (db, Inl (PasswordFailed e)) | Inr hash \<Rightarrow>
      if un_fails env SBegin then (db, Inl (StatementFailed SBegin))
      else case insert_user env caller i email name hash [RoleAdmin] (grant_admin env db) False db of Inl e \<Rightarrow> (db, Inl e) | Inr (row, r) \<Rightarrow>
        (add_user t row r db, if t = TxDone then Inr (i, us_Email row, r) else Inl CommitError))"

section \<open>Interleavings\<close>

text \<open>
  The committed rows and the transactions that change users, each with the locks it holds: the admin role's
  from \<open>RoleLocked\<close> on if it takes it, the user's row from \<open>RowLocked\<close> on.
\<close>

datatype tx_phase = NoTx | Began user_op string | RoleLocked user_op string | RowLocked user_op string user_row | Ready user_op string tx_write

fun holds_role :: "tx_phase \<Rightarrow> bool" where
  "holds_role (RoleLocked p i) = True"
| "holds_role (RowLocked p i row) = takes_role_lock p"
| "holds_role (Ready p i x) = takes_role_lock p"
| "holds_role _ = False"

fun holds_row :: "string \<Rightarrow> tx_phase \<Rightarrow> bool" where
  "holds_row j (RowLocked p i row) = (i = j)"
| "holds_row j (Ready p i x) = (i = j)"
| "holds_row j _ = False"

record users_system =
  um_db :: users_db
  um_txs :: "nat \<Rightarrow> tx_phase"

definition free_row :: "users_system \<Rightarrow> string \<Rightarrow> bool" where
  "free_row g i \<longleftrightarrow> (\<forall>j. \<not> holds_row i (um_txs g j))"

text \<open>What a login writes to the user's row (\<open>RecordLogin\<close>, \<open>UpgradePasswordHash\<close>), with its record.\<close>

definition login_row :: "gotime \<Rightarrow> string option \<Rightarrow> user_row \<Rightarrow> user_row" where
  "login_row now newHash row = row\<lparr>us_LastLoginAt := Some now, ur_PasswordHash := (if newHash = None then ur_PasswordHash row else newHash)\<rparr>"

text \<open>The status of an update is one of the two.\<close>

definition checked_op :: "user_op \<Rightarrow> bool" where
  "checked_op p = (case p of OpUpdate (_, _, status) \<Rightarrow> status \<in> {None, Some StatusActive, Some StatusDisabled} | _ \<Rightarrow> True)"

lemma update_fields_checked: "update_fields env change = Inr f \<Longrightarrow> checked_op (OpUpdate f)"
  by (auto simp: update_fields_def checked_op_def bind_result_Inr_iff split: prod.splits if_splits)

inductive users_step :: "users_system \<Rightarrow> users_system \<Rightarrow> bool" where
  begins: "um_txs g n = NoTx \<Longrightarrow> checked_op p \<Longrightarrow> users_step g (g\<lparr>um_txs := (um_txs g)(n := Began p i)\<rparr>)"
| locks_role: "um_txs g n = Began p i \<Longrightarrow> takes_role_lock p \<Longrightarrow> (\<forall>j. \<not> holds_role (um_txs g j)) \<Longrightarrow>
    users_step g (g\<lparr>um_txs := (um_txs g)(n := RoleLocked p i)\<rparr>)"
| locks_row: "um_txs g n = (if takes_role_lock p then RoleLocked p i else Began p i) \<Longrightarrow> free_row g i \<Longrightarrow> find_user (um_db g) i = Some row \<Longrightarrow>
    users_step g (g\<lparr>um_txs := (um_txs g)(n := RowLocked p i row)\<rparr>)"
| runs: "um_txs g n = RowLocked p i row \<Longrightarrow> op_locked env caller p row (um_db g) = Inr x \<Longrightarrow>
    users_step g (g\<lparr>um_txs := (um_txs g)(n := Ready p i x)\<rparr>)"
| commits: "um_txs g n = Ready p i x \<Longrightarrow> users_step g (g\<lparr>um_db := apply_write x (um_db g), um_txs := (um_txs g)(n := NoTx)\<rparr>)"
| aborts: "users_step g (g\<lparr>um_txs := (um_txs g)(n := NoTx)\<rparr>)"
| creates: "insert_user env caller i email name hash roles granted reads (um_db g) = Inr (row, r) \<Longrightarrow> roles \<noteq> [] \<Longrightarrow> find_user (um_db g) i = None \<Longrightarrow> t \<noteq> TxUnsent \<Longrightarrow>
    users_step g (g\<lparr>um_db := add_user t row r (um_db g)\<rparr>)"
| logs_in: "free_row g i \<Longrightarrow> find_user (um_db g) i = Some row \<Longrightarrow> us_Status row = StatusActive \<Longrightarrow> record_error r = None \<Longrightarrow>
    users_step g (g\<lparr>um_db := (put_user (login_row now newHash row) (um_db g))\<lparr>db_outbox := db_outbox (um_db g) @ [r]\<rparr>\<rparr>)"

definition has_admin :: "users_db \<Rightarrow> bool" where
  "has_admin db \<longleftrightarrow> list_ex active_admin (db_users db)"

definition ids_ok :: "users_db \<Rightarrow> bool" where
  "ids_ok db \<longleftrightarrow> distinct (map us_ID (db_users db)) \<and> list_all (\<lambda>u. us_Roles u \<noteq> [] \<and> distinct (us_Roles u)) (db_users db)"

text \<open>A write about to be committed keeps the user's ID and roles, and takes an active admin only under the
  admin role's lock and while another active admin exists.\<close>

definition write_ok :: "users_db \<Rightarrow> user_op \<Rightarrow> string \<Rightarrow> tx_write \<Rightarrow> bool" where
  "write_ok db p i x \<longleftrightarrow> (\<exists>row. find_user db i = Some row \<and> (\<forall>row'. tw_row x = Some row' \<longrightarrow>
     us_ID row' = i \<and> us_Roles row' \<noteq> [] \<and> distinct (us_Roles row') \<and> (\<exists>r. tw_record x = Some r \<and> record_error r = None) \<and>
     (active_admin row \<longrightarrow> active_admin row' \<or> takes_role_lock p \<and> list_ex (\<lambda>u. active_admin u \<and> us_ID u \<noteq> i) (db_users db))))"

fun phase_op :: "tx_phase \<Rightarrow> user_op option" where
  "phase_op NoTx = None"
| "phase_op (Began p i) = Some p"
| "phase_op (RoleLocked p i) = Some p"
| "phase_op (RowLocked p i row) = Some p"
| "phase_op (Ready p i x) = Some p"

definition users_inv :: "users_system \<Rightarrow> bool" where
  "users_inv g \<longleftrightarrow> ids_ok (um_db g) \<and> has_admin (um_db g) \<and>
     (\<forall>n m. holds_role (um_txs g n) \<longrightarrow> holds_role (um_txs g m) \<longrightarrow> n = m) \<and>
     (\<forall>i n m. holds_row i (um_txs g n) \<longrightarrow> holds_row i (um_txs g m) \<longrightarrow> n = m) \<and>
     (\<forall>n p i row. um_txs g n = RowLocked p i row \<longrightarrow> find_user (um_db g) i = Some row) \<and>
     (\<forall>n p i x. um_txs g n = Ready p i x \<longrightarrow> write_ok (um_db g) p i x) \<and>
     (\<forall>n p. phase_op (um_txs g n) = Some p \<longrightarrow> checked_op p)"

lemma users_invD:
  assumes "users_inv g"
  shows "ids_ok (um_db g)" "has_admin (um_db g)" "holds_role (um_txs g n) \<Longrightarrow> holds_role (um_txs g m) \<Longrightarrow> n = m"
    "holds_row i (um_txs g n) \<Longrightarrow> holds_row i (um_txs g m) \<Longrightarrow> n = m" "um_txs g n = RowLocked p i row \<Longrightarrow> find_user (um_db g) i = Some row"
    "um_txs g n = Ready p i x \<Longrightarrow> write_ok (um_db g) p i x" "phase_op (um_txs g n) = Some p \<Longrightarrow> checked_op p"
  using assms unfolding users_inv_def by blast+

lemma users_invI:
  assumes "ids_ok (um_db g)" "has_admin (um_db g)" "\<And>n m. holds_role (um_txs g n) \<Longrightarrow> holds_role (um_txs g m) \<Longrightarrow> n = m"
    "\<And>i n m. holds_row i (um_txs g n) \<Longrightarrow> holds_row i (um_txs g m) \<Longrightarrow> n = m"
    "\<And>n p i row. um_txs g n = RowLocked p i row \<Longrightarrow> find_user (um_db g) i = Some row"
    "\<And>n p i x. um_txs g n = Ready p i x \<Longrightarrow> write_ok (um_db g) p i x" "\<And>n p. phase_op (um_txs g n) = Some p \<Longrightarrow> checked_op p"
  shows "users_inv g"
  using assms unfolding users_inv_def by blast

lemma find_user_Some: "find_user db i = Some row \<Longrightarrow> us_ID row = i \<and> row \<in> set (db_users db)"
  by (auto simp: find_user_def find_Some_iff)

lemma find_user_put:
  assumes "find_user db i = Some row" "us_ID row' = i"
  shows "find_user (put_user row' db) j = (if j = i then Some row' else find_user db j)"
proof -
  have "find (\<lambda>r. us_ID r = j) (map (\<lambda>r. if us_ID r = us_ID row' then row' else r) xs) =
      (if j = i \<and> find (\<lambda>r. us_ID r = i) xs \<noteq> None then Some row' else find (\<lambda>r. us_ID r = j) xs)" for xs
    using assms(2) by (induction xs) auto
  then show ?thesis using assms(1) by (simp add: find_user_def put_user_def)
qed

lemma find_user_mem: "ids_ok db \<Longrightarrow> u \<in> set (db_users db) \<Longrightarrow> find_user db (us_ID u) = Some u"
proof -
  have "distinct (map us_ID xs) \<Longrightarrow> u \<in> set xs \<Longrightarrow> find (\<lambda>r. us_ID r = us_ID u) xs = Some u" for xs
    by (induction xs) (auto simp: image_iff)
  then show "ids_ok db \<Longrightarrow> u \<in> set (db_users db) \<Longrightarrow> find_user db (us_ID u) = Some u" by (simp add: ids_ok_def find_user_def)
qed

lemma put_user_ids: "map us_ID (db_users (put_user row db)) = map us_ID (db_users db)"
  by (simp add: put_user_def)

lemma put_user_set: "set (db_users (put_user row db)) \<subseteq> insert row (set (db_users db))"
  by (auto simp: put_user_def)

lemma put_user_keeps: "u \<in> set (db_users db) \<Longrightarrow> us_ID u \<noteq> us_ID row \<Longrightarrow> u \<in> set (db_users (put_user row db))"
  by (auto simp: put_user_def)

lemma put_user_new: "find_user db (us_ID row) \<noteq> None \<Longrightarrow> row \<in> set (db_users (put_user row db))"
  by (auto simp: put_user_def find_user_def find_None_iff image_iff)

lemma lastAdmin_None: "lastAdmin env i db = None \<Longrightarrow> list_ex (\<lambda>u. active_admin u \<and> us_ID u \<noteq> i) (db_users db)"
  by (auto simp: lastAdmin_def CountOtherActiveAdmins_def filter_empty_conv list_ex_iff split: if_splits)

lemma record_change_valid: "record_change env caller action i before after = Inr r \<Longrightarrow> record_error r = None"
  by (auto simp: record_change_def split: sum.splits dest: Write_valid)

text \<open>What the body of each change may commit.\<close>

lemma update_locked_ok:
  assumes "update_locked env caller f row db = Inr x" and "find_user db i = Some row" and "us_Roles row \<noteq> []" "distinct (us_Roles row)"
    and "checked_op (OpUpdate f)"
  shows "write_ok db (OpUpdate f) i x"
proof -
  obtain email name status where f: "f = (email, name, status)" by (cases f)
  define row' where "row' = row\<lparr>us_Email := fields_or email (us_Email row), us_DisplayName := fields_or name (us_DisplayName row), us_Status := fields_or status (us_Status row)\<rparr>"
  have i: "us_ID row = i" using find_user_Some [OF assms(2)] by simp
  consider "tw_row x = None" | r where "tw_row x = Some (row'\<lparr>us_UpdatedAt := un_now env\<rparr>)" "tw_record x = Some r" "record_error r = None"
      "us_Status row' = StatusDisabled \<Longrightarrow> us_Status row = StatusActive \<Longrightarrow> RoleAdmin \<in> set (us_Roles row) \<Longrightarrow> lastAdmin env i db = None"
    using assms(1) unfolding update_locked_def f prod.case row'_def [symmetric]
    by (auto simp: Let_def bind_result_Inr_iff i dest: record_change_valid split: if_splits option.splits)
  then show ?thesis
  proof cases
    case 1
    then show ?thesis using assms(2) by (simp add: write_ok_def)
  next
    case (2 r)
    have keep: "us_ID row' = i" "us_Roles row' = us_Roles row" "us_Status row' = fields_or status (us_Status row)" by (simp_all add: row'_def i)
    have "takes_role_lock (OpUpdate f) \<and> list_ex (\<lambda>u. active_admin u \<and> us_ID u \<noteq> i) (db_users db)"
      if a: "active_admin row" "\<not> active_admin (row'\<lparr>us_UpdatedAt := un_now env\<rparr>)"
    proof -
      have "us_Status row = StatusActive" "RoleAdmin \<in> set (us_Roles row)" "us_Status row' \<noteq> StatusActive"
        using a keep by (auto simp: active_admin_def)
      moreover from this have "status = Some StatusDisabled"
        using assms(5) keep(3) by (auto simp: f checked_op_def fields_or_def split: option.splits)
      ultimately show ?thesis using 2(4) lastAdmin_None keep(3) by (simp add: takes_role_lock_def f fields_or_def)
    qed
    then show ?thesis unfolding write_ok_def using assms(2-4) 2 keep by auto
  qed
qed

lemma role_locked_ok:
  assumes "role_locked env caller role grant row db = Inr x" and "find_user db i = Some row" and "us_Roles row \<noteq> []" "distinct (us_Roles row)"
  shows "write_ok db (OpRole role grant) i x"
proof -
  define row' where "row' = row\<lparr>us_Roles := (if grant then insort role (us_Roles row) else filter (\<lambda>x. x \<noteq> role) (us_Roles row)), us_UpdatedAt := un_now env\<rparr>"
  have i: "us_ID row = i" using find_user_Some [OF assms(2)] by simp
  consider "tw_row x = None" | r where "tw_row x = Some row'" "tw_record x = Some r" "record_error r = None" "(role \<in> set (us_Roles row)) \<noteq> grant"
      "\<not> grant \<Longrightarrow> length (us_Roles row) \<noteq> 1" "\<not> grant \<Longrightarrow> role = RoleAdmin \<Longrightarrow> us_Status row = StatusActive \<Longrightarrow> lastAdmin env i db = None"
    using assms(1) unfolding role_locked_def row'_def [symmetric]
    by (auto simp: Let_def bind_result_Inr_iff i fail_if_def dest: record_change_valid split: if_splits option.splits)
  then show ?thesis
  proof cases
    case 1
    then show ?thesis using assms(2) by (simp add: write_ok_def)
  next
    case (2 r)
    have "us_Roles row' \<noteq> [] \<and> distinct (us_Roles row')"
    proof (cases grant)
      case True
      then show ?thesis using 2(4) assms(4) by (simp add: row'_def distinct_insort set_insort_key)
    next
      case False
      have "\<exists>y \<in> set (us_Roles row). y \<noteq> role"
      proof (rule ccontr)
        assume "\<not> (\<exists>y \<in> set (us_Roles row). y \<noteq> role)"
        moreover have "role \<in> set (us_Roles row)" using 2(4) False by simp
        ultimately have "set (us_Roles row) = {role}" by blast
        then show False using distinct_card [OF assms(4)] 2(5) False by simp
      qed
      then obtain y where "y \<in> set (us_Roles row)" "y \<noteq> role" by blast
      then show ?thesis using False assms(4) by (auto simp: row'_def filter_empty_conv)
    qed
    moreover have "takes_role_lock (OpRole role grant) \<and> list_ex (\<lambda>u. active_admin u \<and> us_ID u \<noteq> i) (db_users db)"
      if "active_admin row" "\<not> active_admin row'"
    proof -
      have "us_Status row = StatusActive" "\<not> grant" "role = RoleAdmin"
        using that by (auto simp: active_admin_def row'_def set_insort_key split: if_splits)
      then show ?thesis using 2(6) lastAdmin_None by (simp add: takes_role_lock_def)
    qed
    moreover have "us_ID row' = i" by (simp add: row'_def i)
    ultimately show ?thesis unfolding write_ok_def using assms(2) 2 by auto
  qed
qed

lemma password_locked_ok:
  assumes "password_locked env caller hash ifHash row db = Inr x" and "find_user db i = Some row" and "us_Roles row \<noteq> []" "distinct (us_Roles row)"
  shows "write_ok db (OpPassword hash ifHash) i x"
proof -
  have i: "us_ID row = i" using find_user_Some [OF assms(2)] by simp
  obtain r where "tw_row x = Some (row\<lparr>ur_PasswordHash := Some hash, us_UpdatedAt := un_now env\<rparr>)" "tw_record x = Some r" "record_error r = None"
    using assms(1) by (auto simp: password_locked_def Let_def bind_result_Inr_iff dest: record_change_valid split: if_splits)
  then show ?thesis unfolding write_ok_def using assms(2-4) i by (auto simp: active_admin_def)
qed

lemma op_locked_ok:
  assumes "op_locked env caller p row db = Inr x" and "find_user db i = Some row" and "ids_ok db" and "checked_op p"
  shows "write_ok db p i x"
proof -
  have "us_Roles row \<noteq> []" "distinct (us_Roles row)" using find_user_Some [OF assms(2)] assms(3) by (auto simp: ids_ok_def list_all_iff)
  note roles = this
  show ?thesis
  proof (cases p)
    case (OpUpdate f)
    then show ?thesis using assms(1,4) update_locked_ok [OF _ assms(2) roles] by (simp add: op_locked_def)
  next
    case (OpRole role grant)
    then show ?thesis using assms(1) role_locked_ok [OF _ assms(2) roles] by (simp add: op_locked_def)
  next
    case (OpPassword hash ifHash)
    then show ?thesis using assms(1) password_locked_ok [OF _ assms(2) roles] by (simp add: op_locked_def)
  qed
qed

text \<open>Committing a row of a user.\<close>

lemma put_user_ok:
  assumes "ids_ok db" and "us_Roles row' \<noteq> []" "distinct (us_Roles row')"
  shows "ids_ok (put_user row' db)"
proof -
  have "us_Roles u \<noteq> [] \<and> distinct (us_Roles u)" if "u \<in> set (db_users (put_user row' db))" for u
    using that put_user_set [of row' db] assms by (auto simp: ids_ok_def list_all_iff)
  then show ?thesis using assms(1) by (simp add: ids_ok_def put_user_ids list_all_iff)
qed

lemma put_user_others:
  assumes "ids_ok db" and "find_user db (us_ID row') = Some row" and "active_admin row \<Longrightarrow> active_admin row'"
    and "list_ex (\<lambda>u. active_admin u \<and> us_ID u \<noteq> j) (db_users db)"
  shows "list_ex (\<lambda>u. active_admin u \<and> us_ID u \<noteq> j) (db_users (put_user row' db))"
proof -
  obtain u where u: "u \<in> set (db_users db)" "active_admin u" "us_ID u \<noteq> j" using assms(4) by (auto simp: list_ex_iff)
  show ?thesis
  proof (cases "us_ID u = us_ID row'")
    case True
    then have "u = row" using find_user_mem [OF assms(1) u(1)] assms(2) by simp
    then show ?thesis using assms(2,3) u True put_user_new [of db row'] by (auto simp: list_ex_iff)
  next
    case False
    then show ?thesis using put_user_keeps [OF u(1)] u by (auto simp: list_ex_iff)
  qed
qed

lemma put_user_admin:
  assumes "ids_ok db" and "find_user db (us_ID row') = Some row" and "has_admin db"
    and "active_admin row \<Longrightarrow> active_admin row' \<or> list_ex (\<lambda>u. active_admin u \<and> us_ID u \<noteq> us_ID row') (db_users db)"
  shows "has_admin (put_user row' db)"
proof -
  obtain u where u: "u \<in> set (db_users db)" "active_admin u" using assms(3) by (auto simp: has_admin_def list_ex_iff)
  consider "us_ID u = us_ID row'" "active_admin row'" | v where "v \<in> set (db_users db)" "active_admin v" "us_ID v \<noteq> us_ID row'"
    using u find_user_mem [OF assms(1) u(1)] assms(2,4) by (cases "us_ID u = us_ID row'") (auto simp: list_ex_iff)
  then show ?thesis
  proof cases
    case 1
    then show ?thesis using put_user_new [of db row'] assms(2) by (auto simp: has_admin_def list_ex_iff)
  next
    case (2 v)
    then show ?thesis using put_user_keeps [of v db row'] by (auto simp: has_admin_def list_ex_iff)
  qed
qed

text \<open>What the rest of the system sees of a change of one row, by a transaction that holds it.\<close>

lemma write_ok_put:
  assumes "ids_ok db" and "find_user db (us_ID row') = Some row" and "active_admin row \<Longrightarrow> active_admin row' \<or> \<not> takes_role_lock p"
    and "write_ok db p j x" and "j \<noteq> us_ID row'" and "\<And>i. find_user db' i = find_user (put_user row' db) i" "db_users db' = db_users (put_user row' db)"
  shows "write_ok db' p j x"
proof -
  obtain r where r: "find_user db j = Some r" "\<And>r'. tw_row x = Some r' \<Longrightarrow> us_ID r' = j \<and> us_Roles r' \<noteq> [] \<and> distinct (us_Roles r') \<and>
      (\<exists>a. tw_record x = Some a \<and> record_error a = None) \<and>
      (active_admin r \<longrightarrow> active_admin r' \<or> takes_role_lock p \<and> list_ex (\<lambda>u. active_admin u \<and> us_ID u \<noteq> j) (db_users db))"
    using assms(4) unfolding write_ok_def by blast
  have f: "find_user db' j = Some r" using r(1) assms(5,6) find_user_put [OF assms(2) refl] by simp
  have "list_ex (\<lambda>u. active_admin u \<and> us_ID u \<noteq> j) (db_users db')" if "takes_role_lock p" "list_ex (\<lambda>u. active_admin u \<and> us_ID u \<noteq> j) (db_users db)"
    using put_user_others [OF assms(1,2) _ that(2)] assms(3) that(1) by (auto simp: assms(7))
  then show ?thesis unfolding write_ok_def using f r(2) by blast
qed

lemma phase_inv:
  assumes "users_inv g"
    and role: "\<And>m. holds_role ph \<Longrightarrow> m \<noteq> n \<Longrightarrow> \<not> holds_role (um_txs g m)"
    and row: "\<And>i m. holds_row i ph \<Longrightarrow> m \<noteq> n \<Longrightarrow> \<not> holds_row i (um_txs g m)"
    and found: "\<And>p i r. ph = RowLocked p i r \<Longrightarrow> find_user (um_db g) i = Some r"
    and ready: "\<And>p i x. ph = Ready p i x \<Longrightarrow> write_ok (um_db g) p i x" and op: "\<And>p. phase_op ph = Some p \<Longrightarrow> checked_op p"
  shows "users_inv (g\<lparr>um_txs := (um_txs g)(n := ph)\<rparr>)"
proof -
  note D = users_invD [OF assms(1)]
  show ?thesis
  proof (rule users_invI)
    fix k m assume "holds_role (um_txs (g\<lparr>um_txs := (um_txs g)(n := ph)\<rparr>) k)" "holds_role (um_txs (g\<lparr>um_txs := (um_txs g)(n := ph)\<rparr>) m)"
    then have "holds_role (if k = n then ph else um_txs g k)" "holds_role (if m = n then ph else um_txs g m)" by simp_all
    then show "k = m" using role D(3) by metis
  next
    fix i k m assume "holds_row i (um_txs (g\<lparr>um_txs := (um_txs g)(n := ph)\<rparr>) k)" "holds_row i (um_txs (g\<lparr>um_txs := (um_txs g)(n := ph)\<rparr>) m)"
    then have "holds_row i (if k = n then ph else um_txs g k)" "holds_row i (if m = n then ph else um_txs g m)" by simp_all
    then show "k = m" using row D(4) by metis
  qed (use D(1,2) D(5-7) found ready op in \<open>auto split: if_splits\<close>)
qed

lemma put_inv:
  assumes inv: "users_inv g" and free: "free_row g i" and f: "find_user (um_db g) i = Some row" and i: "us_ID row' = i"
    and roles: "us_Roles row' \<noteq> []" "distinct (us_Roles row')"
    and adm: "active_admin row \<Longrightarrow> active_admin row' \<or>
      list_ex (\<lambda>u. active_admin u \<and> us_ID u \<noteq> i) (db_users (um_db g)) \<and> (\<forall>m. \<not> holds_role (um_txs g m))"
  shows "users_inv (g\<lparr>um_db := (put_user row' (um_db g))\<lparr>db_outbox := out\<rparr>\<rparr>)" (is "users_inv ?g")
proof -
  note D = users_invD [OF inv]
  let ?db = "(put_user row' (um_db g))\<lparr>db_outbox := out\<rparr>"
  have same: "find_user ?db j = find_user (put_user row' (um_db g)) j" "db_users ?db = db_users (put_user row' (um_db g))" for j
    by (simp_all add: find_user_def)
  have f': "find_user (um_db g) (us_ID row') = Some row" using f i by simp
  show ?thesis
  proof (rule users_invI)
    show "ids_ok (um_db ?g)" using put_user_ok [OF D(1) roles] by (simp add: ids_ok_def)
    have "has_admin (put_user row' (um_db g))" by (rule put_user_admin [OF D(1) f' D(2)]) (use adm i in auto)
    then show "has_admin (um_db ?g)" by (simp add: has_admin_def)
    fix n p j r assume n: "um_txs ?g n = RowLocked p j r"
    then have "holds_row j (um_txs g n)" by simp
    then have "j \<noteq> i" using free by (auto simp: free_row_def)
    then show "find_user (um_db ?g) j = Some r" using n D(5) find_user_put [OF f i] by (simp add: same)
  next
    fix n p j x assume n: "um_txs ?g n = Ready p j x"
    then have h: "holds_row j (um_txs g n)" by simp
    then have "j \<noteq> us_ID row'" using free i by (auto simp: free_row_def)
    moreover have "active_admin row' \<or> \<not> takes_role_lock p" if "active_admin row" using adm [OF that] n by (auto dest: spec [of _ n])
    moreover have "write_ok (um_db g) p j x" using n D(6) [of n p j x] by simp
    ultimately show "write_ok (um_db ?g) p j x" using write_ok_put [OF D(1) f', of p j x ?db] same by simp
  next
    fix n m assume "holds_role (um_txs ?g n)" "holds_role (um_txs ?g m)"
    then show "n = m" using D(3) [of n m] by simp
  next
    fix j n m assume "holds_row j (um_txs ?g n)" "holds_row j (um_txs ?g m)"
    then show "n = m" using D(4) [of j n m] by simp
  next
    fix n p assume "phase_op (um_txs ?g n) = Some p"
    then show "checked_op p" using D(7) [of n p] by simp
  qed
qed

lemma users_inv_cong: "um_txs g' = um_txs g \<Longrightarrow> db_users (um_db g') = db_users (um_db g) \<Longrightarrow> users_inv g' = users_inv g"
  unfolding users_inv_def ids_ok_def has_admin_def write_ok_def find_user_def by simp

lemma commits_inv:
  assumes inv: "users_inv g" and n: "um_txs g n = Ready p i x"
  shows "users_inv (g\<lparr>um_db := apply_write x (um_db g), um_txs := (um_txs g)(n := NoTx)\<rparr>)"
proof -
  note D = users_invD [OF inv]
  let ?g = "g\<lparr>um_txs := (um_txs g)(n := NoTx)\<rparr>"
  have g: "users_inv ?g" by (rule phase_inv [OF inv]) simp_all
  have free: "free_row ?g i" using D(4) [of i n] n by (auto simp: free_row_def)
  obtain row where row: "find_user (um_db g) i = Some row" "\<And>row'. tw_row x = Some row' \<Longrightarrow> us_ID row' = i \<and> us_Roles row' \<noteq> [] \<and> distinct (us_Roles row') \<and>
      (active_admin row \<longrightarrow> active_admin row' \<or> takes_role_lock p \<and> list_ex (\<lambda>u. active_admin u \<and> us_ID u \<noteq> i) (db_users (um_db g)))"
    using D(6) [OF n] unfolding write_ok_def by blast
  show ?thesis
  proof (cases "tw_row x")
    case None
    have "db_users (apply_write x (um_db g)) = db_users (um_db g)" by (simp add: apply_write_def None)
    then show ?thesis using users_inv_cong [of _ ?g] g by simp
  next
    case (Some row')
    note r = row(2) [OF Some]
    have none: "takes_role_lock p \<Longrightarrow> \<forall>m. \<not> holds_role (um_txs ?g m)" using D(3) [of n] n by auto
    have adm: "active_admin row \<Longrightarrow> active_admin row' \<or>
        list_ex (\<lambda>u. active_admin u \<and> us_ID u \<noteq> i) (db_users (um_db ?g)) \<and> (\<forall>m. \<not> holds_role (um_txs ?g m))"
      using r none by (cases "takes_role_lock p") simp_all
    have "users_inv (?g\<lparr>um_db := (put_user row' (um_db ?g))\<lparr>db_outbox := db_outbox (um_db g) @ (case tw_record x of None \<Rightarrow> [] | Some r \<Rightarrow> [r])\<rparr>\<rparr>)"
      by (rule put_inv [OF g free _ _ _ _ adm]) (use row(1) r in simp_all)
    moreover have "users_inv (g\<lparr>um_db := apply_write x (um_db g), um_txs := (um_txs g)(n := NoTx)\<rparr>) =
        users_inv (?g\<lparr>um_db := (put_user row' (um_db ?g))\<lparr>db_outbox := db_outbox (um_db g) @ (case tw_record x of None \<Rightarrow> [] | Some r \<Rightarrow> [r])\<rparr>\<rparr>)"
      by (rule users_inv_cong) (simp_all add: apply_write_def Some)
    ultimately show ?thesis by blast
  qed
qed

lemma creates_inv:
  assumes inv: "users_inv g" and c: "insert_user env caller i email name hash roles granted reads (um_db g) = Inr (row, r)" "roles \<noteq> []" "find_user (um_db g) i = None"
  shows "users_inv (g\<lparr>um_db := add_user t row r (um_db g)\<rparr>)" (is "users_inv ?g")
proof (cases "t = TxUnsent")
  case True
  then show ?thesis using inv by (simp add: add_user_def)
next
  case False
  note D = users_invD [OF inv]
  have row: "us_ID row = i" "us_Roles row = sort (remdups roles)" using c(1) by (auto simp: insert_user_def Let_def bind_result_Inr_iff split: if_splits option.splits)
  have ne: "sort (remdups roles) \<noteq> []" using c(2) by (metis remdups_eq_nil_iff set_empty set_sort)
  have db: "db_users (um_db ?g) = db_users (um_db g) @ [row]" using False by (simp add: add_user_def)
  have f: "find_user (um_db ?g) j = Some u" if "find_user (um_db g) j = Some u" for j u
  proof -
    have "find P xs = Some u \<Longrightarrow> find P (xs @ ys) = Some u" for P and xs ys :: "user_row list" by (induction xs) auto
    then show ?thesis using that unfolding find_user_def db by blast
  qed
  have "us_ID u \<noteq> i" if "u \<in> set (db_users (um_db g))" for u using c(3) that by (auto simp: find_user_def find_None_iff)
  then have "ids_ok (um_db ?g)" using D(1) ne unfolding ids_ok_def db by (auto simp: row)
  moreover have "has_admin (um_db ?g)" using D(2) unfolding has_admin_def db by simp
  moreover have "write_ok (um_db ?g) p j x" if w: "write_ok (um_db g) p j x" for p j x
  proof -
    have "list_ex (\<lambda>u. active_admin u \<and> us_ID u \<noteq> j) (db_users (um_db g)) \<Longrightarrow> list_ex (\<lambda>u. active_admin u \<and> us_ID u \<noteq> j) (db_users (um_db ?g))"
      unfolding db by simp
    then show ?thesis using w f unfolding write_ok_def by meson
  qed
  ultimately show ?thesis using D(3-7) f by (intro users_invI) simp_all
qed

lemma users_step_inv:
  assumes "users_step g g'" and "users_inv g"
  shows "users_inv g'"
  using assms
proof (induction rule: users_step.induct)
  case (begins g n p i)
  then show ?case by (intro phase_inv) simp_all
next
  case (locks_role g n p i)
  then show ?case using users_invD(7) [OF locks_role(4), of n] by (intro phase_inv) simp_all
next
  case (locks_row g n p i row)
  note D = users_invD [OF locks_row(4)]
  have "\<not> holds_role (um_txs g m)" if "takes_role_lock p" "m \<noteq> n" for m using D(3) [of n m] locks_row(1) that by auto
  moreover have "checked_op p" using D(7) [of n p] locks_row(1) by (simp split: if_splits)
  ultimately show ?case using locks_row by (intro phase_inv) (auto simp: free_row_def)
next
  case (runs g n p i row env caller x)
  note D = users_invD [OF runs(3)]
  have "write_ok (um_db g) p i x" using op_locked_ok [OF runs(2) D(5) [OF runs(1)] D(1) D(7) [of n]] runs(1) by simp
  then show ?case using runs D(3,4) [of _ n] D(7) [of n] by (intro phase_inv) fastforce+
next
  case (commits g n p i x)
  then show ?case by (intro commits_inv)
next
  case (aborts g n)
  then show ?case by (intro phase_inv) simp_all
next
  case (creates env caller i email name hash roles granted reads g row r t)
  then show ?case by (intro creates_inv)
next
  case (logs_in g i row r now newHash)
  note D = users_invD [OF logs_in(5)]
  have "row \<in> set (db_users (um_db g))" "us_ID row = i" using find_user_Some [OF logs_in(2)] by simp_all
  then have "us_Roles row \<noteq> []" "distinct (us_Roles row)" using D(1) by (auto simp: ids_ok_def list_all_iff)
  then show ?case
    using logs_in \<open>us_ID row = i\<close> by (intro put_inv [of g i row]) (auto simp: login_row_def active_admin_def)
qed

definition users_reachable :: "users_db \<Rightarrow> users_system \<Rightarrow> bool" where
  "users_reachable db g \<longleftrightarrow> users_step\<^sup>*\<^sup>* \<lparr>um_db = db, um_txs = \<lambda>_. NoTx\<rparr> g"

lemma users_reachable_inv:
  assumes "users_reachable db g" and "ids_ok db" "has_admin db"
  shows "users_inv g"
  using assms(1) unfolding users_reachable_def
proof (induction rule: rtranclp_induct)
  case base
  show ?case using assms(2,3) by (intro users_invI) simp_all
next
  case (step g g')
  then show ?case using users_step_inv by blast
qed

text \<open>C36: there is always an active admin, and every user keeps a role: from a database with an active admin, over
  any interleaving of transactions that create, update, disable, grant, revoke, set passwords and log in,
  each holding its locks until it commits or aborts.\<close>

theorem admin_kept:
  assumes "users_reachable db g" and "ids_ok db" and "has_admin db"
  shows "has_admin (um_db g) \<and> ids_ok (um_db g)"
  using users_invD(1,2) [OF users_reachable_inv [OF assms]] by blast

text \<open>Every committed change of a user comes with one valid audit record.\<close>

lemma users_step_audited:
  assumes "users_step g g'" and "users_inv g" and "db_users (um_db g') \<noteq> db_users (um_db g)"
  shows "\<exists>r. db_outbox (um_db g') = db_outbox (um_db g) @ [r] \<and> record_error r = None"
  using assms
proof (induction rule: users_step.induct)
  case (commits g n p i x)
  obtain row' where r: "tw_row x = Some row'" using commits(3) by (cases "tw_row x") (auto simp: apply_write_def)
  then obtain a where "tw_record x = Some a" "record_error a = None" using users_invD(6) [OF commits(2,1)] unfolding write_ok_def by blast
  then show ?case by (simp add: apply_write_def)
next
  case (creates env caller i email name hash roles granted reads g row r t)
  have "record_error r = None"
    using creates(1) by (auto simp: insert_user_def Let_def bind_result_Inr_iff dest: record_change_valid split: if_splits option.splits)
  then show ?case using creates(4) by (simp add: add_user_def)
qed simp_all

text \<open>C37: every change is audited: in every reachable state, a step that changes the committed users appends exactly one
  valid audit record in the same commit.\<close>

theorem changes_audited:
  assumes "users_reachable db g" and "ids_ok db" and "has_admin db" and "users_step g g'" and "db_users (um_db g') \<noteq> db_users (um_db g)"
  shows "\<exists>r. db_outbox (um_db g') = db_outbox (um_db g) @ [r] \<and> record_error r = None"
  using users_step_audited [OF assms(4) users_reachable_inv [OF assms(1-3)] assms(5)] .

section \<open>An example\<close>

definition sample_row :: "string \<Rightarrow> user_row" where
  "sample_row i = \<lparr>us_ID = i, us_Email = i, us_DisplayName = i, us_Status = StatusActive, us_Roles = [RoleAdmin], us_LastLoginAt = None,
     us_CreatedAt = 0, us_UpdatedAt = 0, ur_PasswordHash = None\<rparr>"

definition sample_db :: users_db where
  "sample_db = \<lparr>db_users = [sample_row ''a'', sample_row ''b''], db_roles = [RoleAdmin], db_outbox = []\<rparr>"

definition sample_env :: users_env where
  "sample_env = \<lparr>un_mail = \<lambda>_. True, un_tables = ascii_tables, un_argon = \<lambda>_ _ _ _ _ _. [], un_params = DefaultParams, un_salt = None, un_slot = True,
     un_newID = Some ''1'', un_now = 1, un_fails = \<lambda>_. False\<rparr>"

definition sample_caller :: Caller where
  "sample_caller = \<lparr>ca_Actor = ClientActor ''10.0.0.1'', ca_RequestID = ''r''\<rparr>"

lemma sample_db_ok: "ids_ok sample_db" "has_admin sample_db"
  by (simp_all add: ids_ok_def has_admin_def sample_db_def sample_row_def active_admin_def RoleAdmin_def StatusActive_def)

lemma sample_record:
  obtains r where "record_change sample_env sample_caller ActionUpdate ''a'' (AnyObject j) (AnyObject j') = Inr r"
  by (simp add: record_change_def Write_def Let_def record_error_def sample_env_def sample_caller_def ClientActor_def no_actor_def actor_ok_def
      ActionUpdate_def name_text_def is_lower_def byte_def EntityTypes_def EntityUser_def ActorClient_def ActorUser_def ActorCLI_def ActorSystem_def
      ActorConfig_def fail_if_def)

text \<open>One of two admins is disabled.\<close>

lemma sample_disable:
  obtains x where "op_locked sample_env sample_caller (OpUpdate (None, None, Some StatusDisabled)) (sample_row ''a'') sample_db = Inr x"
    "db_users (apply_write x sample_db) = [(sample_row ''a'')\<lparr>us_Status := StatusDisabled, us_UpdatedAt := 1\<rparr>, sample_row ''b'']"
proof -
  let ?row = "(sample_row ''a'')\<lparr>us_Status := StatusDisabled, us_UpdatedAt := 1\<rparr>"
  obtain r where r: "record_change sample_env sample_caller ActionUpdate ''a'' (AnyObject (user_entity (sample_row ''a''))) (AnyObject (user_entity ?row)) = Inr r"
    using sample_record .
  have same: "(sample_row ''a'')\<lparr>us_Email := ''a'', us_Status := StatusDisabled, us_UpdatedAt := 1\<rparr> = ?row" by (simp add: sample_row_def)
  have env: "un_now sample_env = 1" "un_fails sample_env = (\<lambda>_. False)" "un_tables sample_env = ascii_tables" by (simp_all add: sample_env_def)
  have "lastAdmin sample_env ''a'' sample_db = None"
    by (simp add: lastAdmin_def env CountOtherActiveAdmins_def sample_db_def sample_row_def active_admin_def RoleAdmin_def StatusActive_def fail_if_def)
  moreover have "\<not> email_taken sample_env sample_db ''a'' ''a''"
  proof -
    have "to_lower ascii_tables ''a'' = ''a''" "to_lower ascii_tables ''b'' = ''b''" by code_simp+
    then show ?thesis by (simp add: email_taken_def sample_db_def sample_row_def env)
  qed
  moreover have "us_ID (sample_row ''a'') = ''a''" "us_Email (sample_row ''a'') = ''a''" "us_Status (sample_row ''a'') = StatusActive"
    "StatusActive \<noteq> StatusDisabled" by (simp_all add: sample_row_def StatusActive_def StatusDisabled_def)
  ultimately have "op_locked sample_env sample_caller (OpUpdate (None, None, Some StatusDisabled)) (sample_row ''a'') sample_db =
      Inr \<lparr>tw_row = Some ?row, tw_record = Some r, tw_ends = True, tw_user = User.truncate ?row\<rparr>"
    by (simp add: op_locked_def update_locked_def fields_or_def Let_def env) (simp only: same r bind_result_simps)
  moreover have "db_users (put_user ?row sample_db) = [?row, sample_row ''b'']" by (simp add: put_user_def sample_db_def sample_row_def)
  ultimately show thesis by (intro that) (assumption, simp add: apply_write_def)
qed

lemma sample_users_run:
  obtains g g' where "users_reachable sample_db g" "users_step g g'" "users_reachable sample_db g'"
    "um_db g = sample_db" "db_users (um_db g') = [(sample_row ''a'')\<lparr>us_Status := StatusDisabled, us_UpdatedAt := 1\<rparr>, sample_row ''b'']"
proof -
  let ?p = "OpUpdate (None, None, Some StatusDisabled)"
  let ?g = "\<lambda>ph. \<lparr>um_db = sample_db, um_txs = (\<lambda>_. NoTx)(0 := ph)\<rparr>"
  obtain x where x: "op_locked sample_env sample_caller ?p (sample_row ''a'') sample_db = Inr x"
    "db_users (apply_write x sample_db) = [(sample_row ''a'')\<lparr>us_Status := StatusDisabled, us_UpdatedAt := 1\<rparr>, sample_row ''b'']" using sample_disable .
  have lock: "takes_role_lock ?p" by (simp add: takes_role_lock_def)
  have "users_step (?g NoTx) (?g (Began ?p ''a''))"
    using users_step.begins [of "?g NoTx" 0 ?p "''a''"] by (simp add: checked_op_def)
  moreover have "users_step (?g (Began ?p ''a'')) (?g (RoleLocked ?p ''a''))"
    using users_step.locks_role [of "?g (Began ?p ''a'')" 0 ?p "''a''"] lock by simp
  moreover have "users_step (?g (RoleLocked ?p ''a'')) (?g (RowLocked ?p ''a'' (sample_row ''a'')))"
    using users_step.locks_row [of "?g (RoleLocked ?p ''a'')" 0 ?p "''a''" "sample_row ''a''"] lock
    by (simp add: free_row_def find_user_def sample_db_def sample_row_def)
  moreover have "users_step (?g (RowLocked ?p ''a'' (sample_row ''a''))) (?g (Ready ?p ''a'' x))"
    using users_step.runs [of "?g (RowLocked ?p ''a'' (sample_row ''a''))" 0 ?p "''a''" "sample_row ''a''" sample_env sample_caller x] x(1) by simp
  ultimately have r: "users_step\<^sup>*\<^sup>* (?g NoTx) (?g (Ready ?p ''a'' x))" by (meson rtranclp.rtrancl_into_rtrancl rtranclp.rtrancl_refl)
  have z: "(\<lambda>_. NoTx)(0 := NoTx) = (\<lambda>_. NoTx)" by auto
  have s: "users_step (?g (Ready ?p ''a'' x)) \<lparr>um_db = apply_write x sample_db, um_txs = \<lambda>_. NoTx\<rparr>"
    using users_step.commits [of "?g (Ready ?p ''a'' x)" 0 ?p "''a''" x] by (simp add: z)
  have "users_reachable sample_db (?g (Ready ?p ''a'' x))" using r by (simp add: users_reachable_def z)
  then show thesis using s x(2) unfolding users_reachable_def
    by (intro that [of "?g (Ready ?p ''a'' x)" "\<lparr>um_db = apply_write x sample_db, um_txs = \<lambda>_. NoTx\<rparr>"])
      (auto simp: users_reachable_def intro: rtranclp.rtrancl_into_rtrancl)
qed

theorem admin_kept_witness:
  "\<exists>g. users_reachable sample_db g \<and> db_users (um_db g) \<noteq> db_users sample_db \<and> has_admin (um_db g) \<and> ids_ok (um_db g)"
proof -
  obtain g g' where g: "users_reachable sample_db g'" "db_users (um_db g') = [(sample_row ''a'')\<lparr>us_Status := StatusDisabled, us_UpdatedAt := 1\<rparr>, sample_row ''b'']"
    using sample_users_run .
  then have "db_users (um_db g') \<noteq> db_users sample_db" by (simp add: sample_db_def sample_row_def)
  then show ?thesis using admin_kept [OF g(1) sample_db_ok] g(1) by blast
qed

theorem changes_audited_witness:
  "\<exists>g g' r. users_reachable sample_db g \<and> users_step g g' \<and> db_outbox (um_db g') = db_outbox (um_db g) @ [r] \<and> record_error r = None"
proof -
  obtain g g' where g: "users_reachable sample_db g" "users_step g g'" "um_db g = sample_db"
    "db_users (um_db g') = [(sample_row ''a'')\<lparr>us_Status := StatusDisabled, us_UpdatedAt := 1\<rparr>, sample_row ''b'']"
    using sample_users_run .
  then have "db_users (um_db g') \<noteq> db_users (um_db g)" by (simp add: sample_db_def sample_row_def)
  then show ?thesis using changes_audited [OF g(1) sample_db_ok g(2)] g(1,2) by blast
qed

end
