(* ===== verification/Login.thy ===== *)
theory Login
  imports Users
begin

text \<open>
  Logging in and out (\<open>apps/api/internal/auth/login.go\<close>) over the limits, the sessions, the users and the
  audit log.  The service holds the parameters of those components; a run holds how the calls of one
  request go: their times, the random bytes, which transactions are carried out and answered, and what
  others do to the world between the check of a password and the transaction that records the login.
\<close>

section \<open>Data\<close>

definition outcomeSucceeded :: string where "outcomeSucceeded = ''succeeded''"
definition outcomeFailed :: string where "outcomeFailed = ''failed''"
definition outcomeRateLimited :: string where "outcomeRateLimited = ''rate_limited''"

definition ReasonUnknownEmail :: string where "ReasonUnknownEmail = ''unknown_email''"
definition ReasonNoPassword :: string where "ReasonNoPassword = ''no_password''"
definition ReasonWrongPassword :: string where "ReasonWrongPassword = ''wrong_password''"
definition ReasonDisabled :: string where "ReasonDisabled = ''disabled''"
definition ReasonUnreadableHash :: string where "ReasonUnreadableHash = ''unreadable_hash''"
definition ReasonChangedMeanwhile :: string where "ReasonChangedMeanwhile = ''changed_meanwhile''"

definition ActionSetPasswordFailed :: string where "ActionSetPasswordFailed = ''set_password_failed''"

datatype auth_error = InvalidRequest string | LimitsFailed | RateLimited duration | ErrInvalidCredentials | ErrWrongPassword | errChangedMeanwhile
  | AttemptIDFailed | AuthStatement stmt | CheckFailed password_error | AuthAudit audit_error | SessionFailed session_error | BadUserID
  | ChangeFailed users_error | AuthCommit

record Client =
  cl_Address :: netaddr
  cl_Text :: string
  cl_RequestID :: string

record auth_user =
  lu_ID :: string
  lu_Email :: string
  lu_DisplayName :: string
  lu_Roles :: "string list"

record Principal =
  pr_Session :: session
  pr_User :: auth_user

record ('s, 'c) auth_world =
  aw_db :: users_db
  aw_sessions :: 's
  aw_counters :: 'c
  aw_attempts :: "string list"

record ('s, 'c) auth_service =
  sv_env :: users_env
  sv_limits :: limits_env
  sv_counters :: "'c redis"
  sv_redis :: "'s session_redis"
  sv_cfg :: sessions_cfg
  sv_sha :: "string \<Rightarrow> string"
  sv_decoy :: "(password_error, string) result"
  sv_uuid :: "string \<Rightarrow> bool"

record ('s, 'c) auth_run =
  lr_beginAt :: gotime
  lr_begin :: tx
  lr_takeBackAt :: gotime
  lr_takeBack :: tx
  lr_during :: "'c \<Rightarrow> 'c"
  lr_slot :: bool
  lr_meanwhile :: "('s, 'c) auth_world \<Rightarrow> ('s, 'c) auth_world"
  lr_raw :: "string option"
  lr_uid :: "string option"
  lr_drawAt :: gotime
  lr_createAt :: gotime
  lr_create :: tx
  lr_commit :: tx
  lr_deleteAt :: gotime
  lr_delete :: tx
  lr_attempt :: "string option"
  lr_endAt :: gotime
  lr_end :: tx

text \<open>The decoy: a hash of a random password, made once.\<close>

definition decoy :: "users_env \<Rightarrow> string option \<Rightarrow> (password_error, string) result" where
  "decoy env raw = (case raw of None \<Rightarrow> Inl SaltFailed | Some raw \<Rightarrow>
     Hash (un_argon env) (un_params env) (un_salt env) (un_slot env) (EncodeToString RawStdEncoding raw))"

definition checkable :: "string \<Rightarrow> bool" where
  "checkable secret \<longleftrightarrow> secret \<noteq> [] \<and> length secret \<le> MaxBytes \<and> valid_utf8 secret"

definition session_user :: "user_row \<Rightarrow> auth_user" where
  "session_user row = \<lparr>lu_ID = us_ID row, lu_Email = us_Email row, lu_DisplayName = us_DisplayName row, lu_Roles = us_Roles row\<rparr>"

definition session_record :: "sessions_cfg \<Rightarrow> Principal \<Rightarrow> sessionRecord" where
  "session_record cfg p =
     \<lparr>sx_ID = ss_ID (pr_Session p), sx_UserID = lu_ID (pr_User p), sx_Email = lu_Email (pr_User p), sx_Address = ss_Address (pr_Session p),
      sx_CreatedAt = ss_Created (pr_Session p), sx_ExpiresAt = ExpiresAt cfg (pr_Session p)\<rparr>"

section \<open>Statements and records\<close>

definition GetLoginUser :: "users_env \<Rightarrow> string \<Rightarrow> users_db \<Rightarrow> user_row option" where
  "GetLoginUser env email db = find (\<lambda>u. to_lower (un_tables env) (us_Email u) = to_lower (un_tables env) email) (db_users db)"

text \<open>The row \<open>RecordLogin\<close> updates, if it does: only of an active user who still has the hash.\<close>

definition RecordLogin :: "string \<Rightarrow> string option \<Rightarrow> users_db \<Rightarrow> user_row option" where
  "RecordLogin i hash db = (case find_user db i of None \<Rightarrow> None | Some row \<Rightarrow>
     if hash \<noteq> None \<and> ur_PasswordHash row = hash \<and> us_Status row = StatusActive then Some row else None)"

definition audit_write :: "users_env \<Rightarrow> entity Change \<Rightarrow> (auth_error, entity Record) result" where
  "audit_write env change = (case Write (un_newID env) (un_now env) (\<not> un_fails env SAudit) change of Inl e \<Rightarrow> Inl (AuthAudit e) | Inr r \<Rightarrow> Inr r)"

definition outbox_add :: "entity Record \<Rightarrow> users_db \<Rightarrow> users_db" where
  "outbox_add r db = db\<lparr>db_outbox := db_outbox db @ [r]\<rparr>"

text \<open>A transaction that only writes an audit record.\<close>

definition audit_tx :: "users_env \<Rightarrow> tx \<Rightarrow> entity Change \<Rightarrow> ('s, 'c) auth_world \<Rightarrow> ('s, 'c) auth_world \<times> auth_error option" where
  "audit_tx env t change w =
     (if un_fails env SBegin then (w, Some (AuthStatement SBegin))
      else case audit_write env change of Inl e \<Rightarrow> (w, Some e) | Inr r \<Rightarrow>
        (if t = TxUnsent then w else w\<lparr>aw_db := outbox_add r (aw_db w)\<rparr>, if t = TxDone then None else Some AuthCommit))"

section \<open>Login\<close>

definition unchecked_login :: "('s, 'c) auth_service \<Rightarrow> ('s, 'c) auth_run \<Rightarrow> string \<Rightarrow> Client \<Rightarrow> ('s, 'c) auth_world \<Rightarrow> ('s, 'c) auth_world" where
  "unchecked_login sv run email client w =
     w\<lparr>aw_counters := fst (Unchecked (sv_limits sv) (sv_counters sv) (lr_endAt run) (lr_end run) email (cl_Address client) (aw_counters w))\<rparr>"

definition login_succeeded :: "('s, 'c) auth_service \<Rightarrow> ('s, 'c) auth_run \<Rightarrow> string \<Rightarrow> Client \<Rightarrow> ('s, 'c) auth_world \<Rightarrow> ('s, 'c) auth_world" where
  "login_succeeded sv run email client w =
     w\<lparr>aw_counters := fst (Succeeded (sv_limits sv) (sv_counters sv) (lr_endAt run) (lr_end run) email (cl_Address client) (aw_counters w))\<rparr>"

definition failed_change :: "string \<Rightarrow> string \<Rightarrow> string \<Rightarrow> string \<Rightarrow> Client \<Rightarrow> entity Change" where
  "failed_change attempt email userID reason client =
     \<lparr>ch_RequestID = cl_RequestID client, ch_Actor = ClientActor (cl_Text client), ch_Action = ActionLoginFailed, ch_EntityType = EntitySession,
      ch_EntityID = attempt, ch_Before = AnyNil, ch_After = AnyObject (EFailedLogin email userID reason), ch_ConfigVersion = []\<rparr>"

definition fail_login :: "('s, 'c) auth_service \<Rightarrow> ('s, 'c) auth_run \<Rightarrow> string \<Rightarrow> string \<Rightarrow> string \<Rightarrow> Client \<Rightarrow> ('s, 'c) auth_world \<Rightarrow> ('s, 'c) auth_world \<times> auth_error" where
  "fail_login sv run email userID reason client w =
     (case lr_attempt run of None \<Rightarrow> (w, AttemptIDFailed) | Some attempt \<Rightarrow>
      case audit_tx (sv_env sv) (lr_commit run) (failed_change attempt email userID reason client) w of
        (w, Some e) \<Rightarrow> (w, e)
      | (w, None) \<Rightarrow> (w\<lparr>aw_attempts := aw_attempts w @ [outcomeFailed]\<rparr>, ErrInvalidCredentials))"

definition drop_session :: "('s, 'c) auth_service \<Rightarrow> ('s, 'c) auth_run \<Rightarrow> session \<Rightarrow> ('s, 'c) auth_world \<Rightarrow> ('s, 'c) auth_world" where
  "drop_session sv run session w = w\<lparr>aw_sessions := fst (DeleteSession (sv_redis sv) (lr_deleteAt run) (lr_delete run) session (aw_sessions w))\<rparr>"

definition login_change :: "sessions_cfg \<Rightarrow> Client \<Rightarrow> Principal \<Rightarrow> entity Change" where
  "login_change cfg client p =
     \<lparr>ch_RequestID = cl_RequestID client, ch_Actor = UserActor (lu_ID (pr_User p)) (lu_Email (pr_User p)), ch_Action = ActionLogin,
      ch_EntityType = EntitySession, ch_EntityID = ss_ID (pr_Session p), ch_Before = AnyNil, ch_After = AnyObject (ESession (session_record cfg p)),
      ch_ConfigVersion = []\<rparr>"

text \<open>The transaction of \<open>succeed\<close>, which creates the session before it commits and deletes it again when
  it does not.\<close>

definition succeed_tx :: "('s, 'c) auth_service \<Rightarrow> ('s, 'c) auth_run \<Rightarrow> user_row \<Rightarrow> string option \<Rightarrow> Client \<Rightarrow> ('s, 'c) auth_world \<Rightarrow>
    ('s, 'c) auth_world \<times> (auth_error, Principal \<times> string) result" where
  "succeed_tx sv run login newHash client w =
     (let env = sv_env sv in
      if un_fails env SBegin then (w, Inl (AuthStatement SBegin))
      else if un_fails env SRecordLogin then (w, Inl (AuthStatement SRecordLogin))
      else case RecordLogin (us_ID login) (ur_PasswordHash login) (aw_db w) of None \<Rightarrow> (w, Inl errChangedMeanwhile) | Some row \<Rightarrow>
      if newHash \<noteq> None \<and> un_fails env SUpgradeHash then (w, Inl (AuthStatement SUpgradeHash))
      else if un_fails env SGetSessionUser then (w, Inl (AuthStatement SGetSessionUser))
      else case CreateSession (sv_cfg sv) (sv_sha sv) (sv_redis sv) (lr_raw run) (lr_uid run) (lr_drawAt run) (lr_createAt run) (lr_create run)
          (us_ID row) (cl_Text client) (aw_sessions w) of
        (s, Inl e) \<Rightarrow> (w\<lparr>aw_sessions := s\<rparr>, Inl (SessionFailed e))
      | (s, Inr (session, token)) \<Rightarrow>
          let p = \<lparr>pr_Session = session, pr_User = session_user row\<rparr>; w = w\<lparr>aw_sessions := s\<rparr> in
          case audit_write env (login_change (sv_cfg sv) client p) of Inl e \<Rightarrow> (drop_session sv run session w, Inl e) | Inr r \<Rightarrow>
          let w' = (if lr_commit run = TxUnsent then w else w\<lparr>aw_db := outbox_add r (put_user (login_row (un_now env) newHash row) (aw_db w))\<rparr>) in
          if lr_commit run = TxDone then (w', Inr (p, token)) else (drop_session sv run session w', Inl AuthCommit))"

definition succeed_login :: "('s, 'c) auth_service \<Rightarrow> ('s, 'c) auth_run \<Rightarrow> string \<Rightarrow> user_row \<Rightarrow> string \<Rightarrow> bool \<Rightarrow> Client \<Rightarrow> ('s, 'c) auth_world \<Rightarrow>
    ('s, 'c) auth_world \<times> (auth_error, Principal \<times> string) result" where
  "succeed_login sv run email login secret rehash client w =
     (let env = sv_env sv;
          newHash = (if rehash then (case Hash (un_argon env) (un_params env) (un_salt env) (un_slot env) secret of Inr h \<Rightarrow> Some h | Inl _ \<Rightarrow> None) else None) in
      case succeed_tx sv run login newHash client w of
        (w, Inl e) \<Rightarrow> (w, Inl e)
      | (w, Inr x) \<Rightarrow> ((login_succeeded sv run email client w)\<lparr>aw_attempts := aw_attempts w @ [outcomeSucceeded]\<rparr>, Inr x))"

text \<open>Why a login fails, given what checking its password said.\<close>

definition login_reason :: "user_row option \<Rightarrow> bool \<Rightarrow> bool \<Rightarrow> string option" where
  "login_reason user malformed match =
     (case user of None \<Rightarrow> Some ReasonUnknownEmail | Some u \<Rightarrow>
      if ur_PasswordHash u = None then Some ReasonNoPassword
      else if malformed then Some ReasonUnreadableHash
      else if \<not> match then Some ReasonWrongPassword
      else if us_Status u \<noteq> StatusActive then Some ReasonDisabled else None)"

definition login_id :: "user_row option \<Rightarrow> string" where
  "login_id user = (case user of None \<Rightarrow> [] | Some u \<Rightarrow> us_ID u)"

definition login_hash :: "('s, 'c) auth_service \<Rightarrow> user_row option \<Rightarrow> (password_error, string) result" where
  "login_hash sv user = (case user of None \<Rightarrow> sv_decoy sv | Some u \<Rightarrow> case ur_PasswordHash u of None \<Rightarrow> sv_decoy sv | Some h \<Rightarrow> Inr h)"

text \<open>What checking a password says: whether the hash is malformed, whether the password matches, and
  whether it should be hashed anew.\<close>

definition verify_login :: "('s, 'c) auth_service \<Rightarrow> ('s, 'c) auth_run \<Rightarrow> string \<Rightarrow> string \<Rightarrow> (auth_error, bool \<times> bool \<times> bool) result" where
  "verify_login sv run secret hash =
     (case Verify (un_argon (sv_env sv)) (un_params (sv_env sv)) (lr_slot run) secret hash of
        Inl e \<Rightarrow> if e = ErrMalformedHash then Inr (True, False, False) else Inl (CheckFailed e)
      | Inr (match, rehash) \<Rightarrow> Inr (False, match, rehash))"

text \<open>A login that is within the limits.\<close>

definition check_login :: "('s, 'c) auth_service \<Rightarrow> ('s, 'c) auth_run \<Rightarrow> string \<Rightarrow> string \<Rightarrow> Client \<Rightarrow> ('s, 'c) auth_world \<Rightarrow>
    ('s, 'c) auth_world \<times> (auth_error, Principal \<times> string) result" where
  "check_login sv run email secret client w =
     (if un_fails (sv_env sv) SGetLoginUser then (unchecked_login sv run email client w, Inl (AuthStatement SGetLoginUser))
      else
        let user = GetLoginUser (sv_env sv) email (aw_db w) in
        case login_hash sv user of Inl e \<Rightarrow> (unchecked_login sv run email client w, Inl (CheckFailed e)) | Inr hash \<Rightarrow>
        case verify_login sv run secret hash of Inl e \<Rightarrow> (unchecked_login sv run email client w, Inl e) | Inr (malformed, match, rehash) \<Rightarrow>
        case login_reason user malformed match of
          Some reason \<Rightarrow> (case fail_login sv run email (login_id user) reason client w of (w, e) \<Rightarrow> (w, Inl e))
        | None \<Rightarrow> (case succeed_login sv run email (the user) secret rehash client (lr_meanwhile run w) of
            (w, Inr x) \<Rightarrow> (w, Inr x)
          | (w, Inl e) \<Rightarrow>
              if e = errChangedMeanwhile then (case fail_login sv run email (login_id user) ReasonChangedMeanwhile client w of (w, e) \<Rightarrow> (w, Inl e))
              else (unchecked_login sv run email client w, Inl e)))"

text \<open>\<open>Begin\<close> of the limits, for a login and for a change of a password.\<close>

definition begin_login :: "('s, 'c) auth_service \<Rightarrow> ('s, 'c) auth_run \<Rightarrow> string \<Rightarrow> Client \<Rightarrow> ('s, 'c) auth_world \<Rightarrow> ('s, 'c) auth_world \<times> auth_error option" where
  "begin_login sv run email client w =
     (case Begin (sv_limits sv) (sv_counters sv) (lr_beginAt run) (lr_begin run) (lr_takeBackAt run) (lr_takeBack run) (lr_during run)
         email (cl_Address client) (aw_counters w) of
        (c, None) \<Rightarrow> (w\<lparr>aw_counters := c\<rparr>, Some LimitsFailed)
      | (c, Some wait) \<Rightarrow> (w\<lparr>aw_counters := c\<rparr>, if wait > 0 then Some (RateLimited wait) else None))"

fun rate_limited :: "auth_error \<Rightarrow> bool" where
  "rate_limited (RateLimited wait) = True"
| "rate_limited _ = False"

definition Login :: "('s, 'c) auth_service \<Rightarrow> ('s, 'c) auth_run \<Rightarrow> string \<Rightarrow> string \<Rightarrow> Client \<Rightarrow> ('s, 'c) auth_world \<Rightarrow>
    ('s, 'c) auth_world \<times> (auth_error, Principal \<times> string) result" where
  "Login sv run email secret client w =
     (case NormalizeEmail (sv_env sv) email of None \<Rightarrow> (w, Inl (InvalidRequest ''email'')) | Some email \<Rightarrow>
      if \<not> checkable secret then (w, Inl (InvalidRequest ''password''))
      else case begin_login sv run email client w of
        (w, Some e) \<Rightarrow> (if rate_limited e then w\<lparr>aw_attempts := aw_attempts w @ [outcomeRateLimited]\<rparr> else w, Inl e)
      | (w, None) \<Rightarrow> check_login sv run email secret client w)"

section \<open>Requests with a session\<close>

record 's lookup_run =
  lk_replied :: bool
  lk_readAt :: gotime
  lk_checkAt :: gotime
  lk_touchAt :: gotime
  lk_touch :: tx
  lk_during :: "'s \<Rightarrow> 's"
  lk_deleteAt :: gotime
  lk_delete :: tx

definition Authenticate :: "('s, 'c) auth_service \<Rightarrow> 's lookup_run \<Rightarrow> string \<Rightarrow> ('s, 'c) auth_world \<Rightarrow> ('s, 'c) auth_world \<times> (auth_error, Principal) result" where
  "Authenticate sv run token w =
     (case Lookup (sv_cfg sv) (sv_sha sv) (sv_redis sv) (lk_replied run) (lk_readAt run) (lk_checkAt run) (lk_touchAt run) (lk_touch run) (lk_during run) token (aw_sessions w) of
        (s, Inl e) \<Rightarrow> (w\<lparr>aw_sessions := s\<rparr>, Inl (SessionFailed e))
      | (s, Inr session) \<Rightarrow>
          let w = w\<lparr>aw_sessions := s\<rparr> in
          if \<not> sv_uuid sv (ss_UserID session) then (w, Inl BadUserID)
          else if un_fails (sv_env sv) SGetSessionUser then (w, Inl (AuthStatement SGetSessionUser))
          else case find_user (aw_db w) (ss_UserID session) of
            Some row \<Rightarrow>
              if us_Status row = StatusActive then (w, Inr \<lparr>pr_Session = session, pr_User = session_user row\<rparr>)
              else (w\<lparr>aw_sessions := fst (DeleteSession (sv_redis sv) (lk_deleteAt run) (lk_delete run) session (aw_sessions w))\<rparr>, Inl (SessionFailed ErrNoSession))
          | None \<Rightarrow> (w\<lparr>aw_sessions := fst (DeleteSession (sv_redis sv) (lk_deleteAt run) (lk_delete run) session (aw_sessions w))\<rparr>, Inl (SessionFailed ErrNoSession)))"

definition logout_change :: "sessions_cfg \<Rightarrow> Client \<Rightarrow> Principal \<Rightarrow> entity Change" where
  "logout_change cfg client p =
     \<lparr>ch_RequestID = cl_RequestID client, ch_Actor = UserActor (lu_ID (pr_User p)) (lu_Email (pr_User p)), ch_Action = ActionLogout,
      ch_EntityType = EntitySession, ch_EntityID = ss_ID (pr_Session p), ch_Before = AnyObject (ESession (session_record cfg p)), ch_After = AnyNil,
      ch_ConfigVersion = []\<rparr>"

definition Logout :: "('s, 'c) auth_service \<Rightarrow> ('s, 'c) auth_run \<Rightarrow> Principal \<Rightarrow> Client \<Rightarrow> ('s, 'c) auth_world \<Rightarrow> ('s, 'c) auth_world \<times> auth_error option" where
  "Logout sv run p client w =
     (if un_fails (sv_env sv) SBegin then (w, Some (AuthStatement SBegin))
      else case audit_write (sv_env sv) (logout_change (sv_cfg sv) client p) of Inl e \<Rightarrow> (w, Some e) | Inr r \<Rightarrow>
      case DeleteSession (sv_redis sv) (lr_deleteAt run) (lr_delete run) (pr_Session p) (aw_sessions w) of
        (s, Some e) \<Rightarrow> (w\<lparr>aw_sessions := s\<rparr>, Some (SessionFailed e))
      | (s, None) \<Rightarrow>
          (w\<lparr>aw_sessions := s, aw_db := (if lr_commit run = TxUnsent then aw_db w else outbox_add r (aw_db w))\<rparr>,
           if lr_commit run = TxDone then None else Some AuthCommit))"

section \<open>Changing one's password\<close>

definition refused_change :: "Actor \<Rightarrow> string \<Rightarrow> string \<Rightarrow> Client \<Rightarrow> entity Change" where
  "refused_change actor userID email client =
     \<lparr>ch_RequestID = cl_RequestID client, ch_Actor = actor, ch_Action = ActionSetPasswordFailed, ch_EntityType = EntityUser, ch_EntityID = userID,
      ch_Before = AnyNil, ch_After = AnyObject (EFailedPasswordChange userID email ReasonWrongPassword), ch_ConfigVersion = []\<rparr>"

definition wrongPassword :: "('s, 'c) auth_service \<Rightarrow> ('s, 'c) auth_run \<Rightarrow> Actor \<Rightarrow> string \<Rightarrow> string \<Rightarrow> Client \<Rightarrow> ('s, 'c) auth_world \<Rightarrow> ('s, 'c) auth_world \<times> auth_error option" where
  "wrongPassword sv run actor userID email client w =
     (case audit_tx (sv_env sv) (lr_commit run) (refused_change actor userID email client) w of
        (w, Some e) \<Rightarrow> (w, Some e) | (w, None) \<Rightarrow> (w, Some ErrWrongPassword))"

definition ChangePassword :: "('s, 'c) auth_service \<Rightarrow> ('s, 'c) auth_run \<Rightarrow> 's tx_run \<Rightarrow> Principal \<Rightarrow> string \<Rightarrow> string \<Rightarrow> Client \<Rightarrow> ('s, 'c) auth_world \<Rightarrow>
    ('s, 'c) auth_world \<times> auth_error option" where
  "ChangePassword sv run t p current new_secret client w =
     (if \<not> checkable current then (w, Some (InvalidRequest ''current_password''))
      else if Check new_secret \<noteq> None then (w, Some (InvalidRequest ''new_password''))
      else
        let email = lu_Email (pr_User p); i = lu_ID (pr_User p); actor = UserActor i email in
        case begin_login sv run email client w of (w, Some e) \<Rightarrow> (w, Some e) | (w, None) \<Rightarrow>
        if \<not> sv_uuid sv i then (unchecked_login sv run email client w, Some BadUserID)
        else if un_fails (sv_env sv) SGetPasswordHash \<or> find_user (aw_db w) i = None
        then (unchecked_login sv run email client w, Some (AuthStatement SGetPasswordHash))
        else
          let hash = ur_PasswordHash (the (find_user (aw_db w) i)) in
          case (case hash of None \<Rightarrow> Inr (False, False, False) | Some h \<Rightarrow> verify_login sv run current h) of
            Inl e \<Rightarrow> (unchecked_login sv run email client w, Some e)
          | Inr (malformed, match, rehash) \<Rightarrow>
              if \<not> match then wrongPassword sv run actor i email client w
              else
                let w = lr_meanwhile run w in
                case SetPassword (sv_env sv) t \<lparr>ca_Actor = actor, ca_RequestID = cl_RequestID client\<rparr> i new_secret (the hash)
                    \<lparr>wd_db = aw_db w, wd_store = aw_sessions w\<rparr> of
                  (x, r) \<Rightarrow>
                    let w = w\<lparr>aw_db := wd_db x, aw_sessions := wd_store x\<rparr> in
                    case r of
                      Inr _ \<Rightarrow> (login_succeeded sv run email client w, None)
                    | Inl e \<Rightarrow>
                        if e = ErrStalePassword then wrongPassword sv run actor i email client w
                        else (unchecked_login sv run email client w, Some (ChangeFailed e)))"

section \<open>What a login promises\<close>

text \<open>How the two answers of the transaction of a successful login come about.\<close>

lemma succeed_tx_Inr:
  assumes "succeed_tx sv run login newHash client w = (w', Inr (p, token))"
  obtains row r s where "RecordLogin (us_ID login) (ur_PasswordHash login) (aw_db w) = Some row"
    "CreateSession (sv_cfg sv) (sv_sha sv) (sv_redis sv) (lr_raw run) (lr_uid run) (lr_drawAt run) (lr_createAt run) (lr_create run)
       (us_ID row) (cl_Text client) (aw_sessions w) = (s, Inr (pr_Session p, token))"
    "pr_User p = session_user row" "audit_write (sv_env sv) (login_change (sv_cfg sv) client p) = Inr r" "lr_commit run = TxDone"
    "w' = w\<lparr>aw_sessions := s, aw_db := outbox_add r (put_user (login_row (un_now (sv_env sv)) newHash row) (aw_db w))\<rparr>"
  using assms unfolding succeed_tx_def Let_def
  by (auto split: if_splits option.splits prod.splits sum.splits)

lemma RecordLogin_Some:
  assumes "RecordLogin i hash db = Some row"
  shows "find_user db i = Some row" "us_ID row = i" "ur_PasswordHash row = hash" "hash \<noteq> None" "us_Status row = StatusActive"
  using assms find_user_Some [of db i row] by (auto simp: RecordLogin_def split: option.splits if_splits)

lemma verify_login_match:
  "verify_login sv run secret hash = Inr (malformed, True, rehash) \<longleftrightarrow>
     \<not> malformed \<and> Verify (un_argon (sv_env sv)) (un_params (sv_env sv)) (lr_slot run) secret hash = Inr (True, rehash)"
  by (auto simp: verify_login_def split: sum.splits prod.splits if_splits)

lemma login_reason_None:
  "login_reason user malformed match = None \<longleftrightarrow>
     (\<exists>u. user = Some u \<and> ur_PasswordHash u \<noteq> None \<and> us_Status u = StatusActive \<and> \<not> malformed \<and> match)"
  by (auto simp: login_reason_def split: option.splits)

lemma check_login_Inr:
  assumes "check_login sv run email secret client w = (w', Inr x)"
  obtains user hash rehash where "GetLoginUser (sv_env sv) email (aw_db w) = Some user" "ur_PasswordHash user = Some hash" "us_Status user = StatusActive"
    "Verify (un_argon (sv_env sv)) (un_params (sv_env sv)) (lr_slot run) secret hash = Inr (True, rehash)"
    "succeed_login sv run email user secret rehash client (lr_meanwhile run w) = (w', Inr x)"
proof -
  let ?user = "GetLoginUser (sv_env sv) email (aw_db w)"
  have ok: "\<not> un_fails (sv_env sv) SGetLoginUser" using assms by (auto simp: check_login_def)
  obtain hash where h: "login_hash sv ?user = Inr hash" using assms ok by (auto simp: check_login_def Let_def split: sum.splits)
  obtain malformed match rehash where v: "verify_login sv run secret hash = Inr (malformed, match, rehash)"
    using assms ok h by (auto simp: check_login_def Let_def split: sum.splits)
  have "login_reason ?user malformed match = None"
    using assms ok h v by (auto simp: check_login_def Let_def split: option.splits prod.splits)
  then obtain u where u: "?user = Some u" "ur_PasswordHash u \<noteq> None" "us_Status u = StatusActive" "\<not> malformed" "match"
    unfolding login_reason_None by blast
  then have "succeed_login sv run email u secret rehash client (lr_meanwhile run w) = (w', Inr x)"
    using assms ok h v \<open>login_reason ?user malformed match = None\<close>
    by (auto simp: check_login_def Let_def split: option.splits prod.splits sum.splits if_splits)
  moreover have "ur_PasswordHash u = Some hash" using h u(1,2) by (auto simp: login_hash_def)
  moreover have "Verify (un_argon (sv_env sv)) (un_params (sv_env sv)) (lr_slot run) secret hash = Inr (True, rehash)"
    using v u(5) verify_login_match [of sv run secret hash malformed rehash] by simp
  ultimately show thesis using u(1,3) that by blast
qed

lemma begin_login_world: "begin_login sv run email client w = (w', e) \<Longrightarrow> \<exists>c. w' = w\<lparr>aw_counters := c\<rparr>"
  by (auto simp: begin_login_def split: prod.splits option.splits)

text \<open>C33: a login that returns a session: its email named a user whose stored hash the password matched; when the
  login was recorded, in the transaction that created the session, the user was active and still had that
  hash; the session is that user's and is the one stored; and the transaction left its audit record.\<close>

theorem login_returns:
  assumes "Login sv run email secret client w = (w', Inr (p, token))"
  shows "\<exists>email' user hash rehash row w1 r.
    NormalizeEmail (sv_env sv) email = Some email' \<and> checkable secret \<and>
    GetLoginUser (sv_env sv) email' (aw_db w) = Some user \<and> ur_PasswordHash user = Some hash \<and>
    Verify (un_argon (sv_env sv)) (un_params (sv_env sv)) (lr_slot run) secret hash = Inr (True, rehash) \<and>
    find_user (aw_db w1) (us_ID user) = Some row \<and> us_Status row = StatusActive \<and> ur_PasswordHash row = Some hash \<and>
    CreateSession (sv_cfg sv) (sv_sha sv) (sv_redis sv) (lr_raw run) (lr_uid run) (lr_drawAt run) (lr_createAt run) (lr_create run)
      (us_ID user) (cl_Text client) (aw_sessions w1) = (aw_sessions w', Inr (pr_Session p, token)) \<and>
    pr_User p = session_user row \<and>
    db_outbox (aw_db w') = db_outbox (aw_db w1) @ [r] \<and> ar_Action r = ActionLogin \<and> ar_After r = Some (ESession (session_record (sv_cfg sv) p)) \<and>
    (\<exists>c. w1 = lr_meanwhile run (w\<lparr>aw_counters := c\<rparr>))"
proof -
  obtain email' where e: "NormalizeEmail (sv_env sv) email = Some email'" "checkable secret"
    using assms by (auto simp: Login_def split: option.splits if_splits)
  obtain w0 where b: "begin_login sv run email' client w = (w0, None)" "check_login sv run email' secret client w0 = (w', Inr (p, token))"
    using assms e by (auto simp: Login_def split: prod.splits option.splits if_splits)
  obtain c where c: "w0 = w\<lparr>aw_counters := c\<rparr>" using begin_login_world [OF b(1)] by blast
  obtain user hash rehash where u: "GetLoginUser (sv_env sv) email' (aw_db w0) = Some user" "ur_PasswordHash user = Some hash" "us_Status user = StatusActive"
    "Verify (un_argon (sv_env sv)) (un_params (sv_env sv)) (lr_slot run) secret hash = Inr (True, rehash)"
    "succeed_login sv run email' user secret rehash client (lr_meanwhile run w0) = (w', Inr (p, token))"
    using check_login_Inr [OF b(2)] .
  let ?w = "lr_meanwhile run w0"
  obtain newHash w2 where s: "succeed_tx sv run user newHash client ?w = (w2, Inr (p, token))" "w' = (login_succeeded sv run email' client w2)\<lparr>aw_attempts := aw_attempts w2 @ [outcomeSucceeded]\<rparr>"
    using u(5) by (auto simp: succeed_login_def Let_def split: prod.splits sum.splits)
  obtain row r s where t: "RecordLogin (us_ID user) (ur_PasswordHash user) (aw_db ?w) = Some row"
    "CreateSession (sv_cfg sv) (sv_sha sv) (sv_redis sv) (lr_raw run) (lr_uid run) (lr_drawAt run) (lr_createAt run) (lr_create run)
       (us_ID row) (cl_Text client) (aw_sessions ?w) = (s, Inr (pr_Session p, token))"
    "pr_User p = session_user row" "audit_write (sv_env sv) (login_change (sv_cfg sv) client p) = Inr r"
    "w2 = ?w\<lparr>aw_sessions := s, aw_db := outbox_add r (put_user (login_row (un_now (sv_env sv)) newHash row) (aw_db ?w))\<rparr>"
    using succeed_tx_Inr [OF s(1)] by metis
  note R = RecordLogin_Some [OF t(1)]
  have r: "ar_Action r = ActionLogin" "ar_After r = Some (ESession (session_record (sv_cfg sv) p))"
    using t(4) by (auto simp: audit_write_def Write_def login_change_def Let_def bind_result_Inr_iff split: sum.splits option.splits if_splits)
  have w': "aw_sessions w' = s" "db_outbox (aw_db w') = db_outbox (aw_db ?w) @ [r]"
    unfolding s(2) t(5) by (simp_all add: login_succeeded_def outbox_add_def put_user_def)
  show ?thesis
    using e u(1,2,4) R(1-3,5) t(2,3) r w' c
    by (intro exI [of _ email'] exI [of _ user] exI [of _ hash] exI [of _ rehash] exI [of _ row] exI [of _ ?w] exI [of _ r]) auto
qed

text \<open>The audit record of a refused login can be written.\<close>

lemma failed_record:
  assumes "\<not> un_fails env SAudit" and "un_newID env \<noteq> None" and "attempt \<noteq> []" and "cl_RequestID client \<noteq> []" and "cl_Text client \<noteq> []"
  obtains r where "audit_write env (failed_change attempt email uid reason client) = Inr r" "ar_Action r = ActionLoginFailed"
    "ar_EntityID r = attempt" "ar_After r = Some (EFailedLogin email uid reason)"
proof -
  obtain n where n: "un_newID env = Some n" using assms(2) by blast
  define r where "r = \<lparr>ar_ID = n, ar_Time = un_now env, ar_RequestID = cl_RequestID client, ar_Actor = ClientActor (cl_Text client),
    ar_Action = ActionLoginFailed, ar_EntityType = EntitySession, ar_EntityID = attempt, ar_Before = None,
    ar_After = Some (EFailedLogin email uid reason), ar_ConfigVersion = []\<rparr>"
  have "name_text ActionLoginFailed" "EntitySession \<in> set EntityTypes" "actor_ok (ClientActor (cl_Text client))"
    using assms(5) by (simp_all add: ActionLoginFailed_def name_text_def is_lower_def byte_def EntitySession_def EntityTypes_def ClientActor_def no_actor_def
        actor_ok_def ActorClient_def ActorUser_def ActorCLI_def ActorSystem_def ActorConfig_def)
  then have "record_error r = None" using assms(3,4) by (simp add: r_def record_error_def)
  then have "audit_write env (failed_change attempt email uid reason client) = Inr r"
    using assms(1) n by (simp add: audit_write_def Write_def failed_change_def Let_def r_def)
  then show thesis by (rule that) (simp_all add: r_def)
qed

text \<open>Why a login is refused, said of the user the email belongs to and of the hash as Argon2 derives it.\<close>

inductive login_refusal :: "('s, 'c) auth_service \<Rightarrow> users_db \<Rightarrow> string \<Rightarrow> string \<Rightarrow> string \<Rightarrow> string \<Rightarrow> bool" for sv db email secret where
  unknown_email: "GetLoginUser (sv_env sv) email db = None \<Longrightarrow> login_refusal sv db email secret ReasonUnknownEmail []"
| no_password: "GetLoginUser (sv_env sv) email db = Some u \<Longrightarrow> ur_PasswordHash u = None \<Longrightarrow>
    login_refusal sv db email secret ReasonNoPassword (us_ID u)"
| unreadable_hash: "GetLoginUser (sv_env sv) email db = Some u \<Longrightarrow> ur_PasswordHash u = Some hash \<Longrightarrow> parse_hash hash = Inl ErrMalformedHash \<Longrightarrow>
    login_refusal sv db email secret ReasonUnreadableHash (us_ID u)"
| wrong_password: "GetLoginUser (sv_env sv) email db = Some u \<Longrightarrow> ur_PasswordHash u = Some hash \<Longrightarrow> parse_hash hash = Inr (p, salt, key) \<Longrightarrow>
    un_argon (sv_env sv) secret salt (pa_Time p) (pa_MemoryKiB p) (pa_Threads p) (pa_KeyBytes p) \<noteq> key \<Longrightarrow>
    login_refusal sv db email secret ReasonWrongPassword (us_ID u)"
| user_disabled: "GetLoginUser (sv_env sv) email db = Some u \<Longrightarrow> ur_PasswordHash u = Some hash \<Longrightarrow> parse_hash hash = Inr (p, salt, key) \<Longrightarrow>
    un_argon (sv_env sv) secret salt (pa_Time p) (pa_MemoryKiB p) (pa_Threads p) (pa_KeyBytes p) = key \<Longrightarrow> us_Status u \<noteq> StatusActive \<Longrightarrow>
    login_refusal sv db email secret ReasonDisabled (us_ID u)"

text \<open>Every refusal goes through a check of the password, of the decoy hash where the user has none.\<close>

lemma refusal_checked:
  assumes "login_refusal sv db email secret reason uid" and "length secret \<le> MaxBytes" and "lr_slot run"
    and "sv_decoy sv = Inr dh" and "parse_hash dh = Inr pd"
  shows "\<exists>hash malformed match rehash. login_hash sv (GetLoginUser (sv_env sv) email db) = Inr hash \<and>
    verify_login sv run secret hash = Inr (malformed, match, rehash) \<and>
    login_reason (GetLoginUser (sv_env sv) email db) malformed match = Some reason \<and> login_id (GetLoginUser (sv_env sv) email db) = uid"
  using assms(1)
proof cases
  case unknown_email
  then show ?thesis using assms(2-5) by (auto simp: login_hash_def verify_login_def login_reason_def login_id_def Verify_def derive_def split: prod.splits)
next
  case no_password
  then show ?thesis using assms(2-5) by (auto simp: login_hash_def verify_login_def login_reason_def login_id_def Verify_def derive_def split: prod.splits)
next
  case unreadable_hash
  then show ?thesis using assms(2) by (auto simp: login_hash_def verify_login_def login_reason_def login_id_def Verify_def)
next
  case wrong_password
  then show ?thesis using assms(2,3) by (auto simp: login_hash_def verify_login_def login_reason_def login_id_def Verify_def derive_def)
next
  case user_disabled
  then show ?thesis using assms(2,3) by (auto simp: login_hash_def verify_login_def login_reason_def login_id_def Verify_def derive_def)
qed

lemma refusal_waits:
  assumes "login_refusal sv db email secret reason uid" and "reason \<noteq> ReasonUnreadableHash" and "length secret \<le> MaxBytes" and "\<not> lr_slot run"
    and "sv_decoy sv = Inr dh" and "parse_hash dh = Inr pd"
  shows "\<exists>hash. login_hash sv (GetLoginUser (sv_env sv) email db) = Inr hash \<and> verify_login sv run secret hash = Inl (CheckFailed HashWait)"
  using assms(1)
proof cases
  case unknown_email
  then show ?thesis using assms(3-6) by (auto simp: login_hash_def verify_login_def Verify_def derive_def split: prod.splits)
next
  case no_password
  then show ?thesis using assms(3-6) by (auto simp: login_hash_def verify_login_def Verify_def derive_def split: prod.splits)
qed (use assms(2-4) in \<open>auto simp: login_hash_def verify_login_def Verify_def derive_def\<close>)

text \<open>C34: every refused login gets the same answer, made the same way.  When the email is unknown, its user has no password,
  the stored hash is unreadable, Argon2 derives another key from the password, or the user is disabled, the answer is
  \<open>ErrInvalidCredentials\<close>, the limits keep the login's count, the sessions and the users are untouched, and one attempt is counted
  as failed; only the audit record says which of the reasons it was, and the user's id.  And where a password cannot be checked
  because no slot for hashing gets free, the login is answered with that error whether its email is known or not, and its count
  taken back: an unknown email has its password checked too, against the decoy.\<close>

theorem login_refused:
  assumes "NormalizeEmail (sv_env sv) email = Some email'" and "checkable secret"
    and "begin_login sv run email' client w = (w0, None)"
    and "login_refusal sv (aw_db w) email' secret reason uid" and "sv_decoy sv = Inr dh" and "parse_hash dh = Inr pd"
    and "\<not> un_fails (sv_env sv) SGetLoginUser" and "\<not> un_fails (sv_env sv) SBegin" and "\<not> un_fails (sv_env sv) SAudit"
    and "un_newID (sv_env sv) \<noteq> None" and "lr_attempt run = Some attempt" and "attempt \<noteq> []" and "lr_commit run = TxDone"
    and "cl_RequestID client \<noteq> []" and "cl_Text client \<noteq> []"
  shows "(lr_slot run \<longrightarrow> (\<exists>r. Login sv run email secret client w =
      (w0\<lparr>aw_db := outbox_add r (aw_db w), aw_attempts := aw_attempts w @ [outcomeFailed]\<rparr>, Inl ErrInvalidCredentials) \<and>
    ar_Action r = ActionLoginFailed \<and> ar_EntityID r = attempt \<and> ar_After r = Some (EFailedLogin email' uid reason))) \<and>
   (\<not> lr_slot run \<and> reason \<noteq> ReasonUnreadableHash \<longrightarrow>
      Login sv run email secret client w = (unchecked_login sv run email' client w0, Inl (CheckFailed HashWait)))"
proof (intro conjI impI)
  let ?user = "GetLoginUser (sv_env sv) email' (aw_db w)"
  have len: "length secret \<le> MaxBytes" using assms(2) by (simp add: checkable_def)
  obtain c where c: "w0 = w\<lparr>aw_counters := c\<rparr>" using begin_login_world [OF assms(3)] by blast
  {
    assume "lr_slot run"
    from refusal_checked [OF assms(4) len this assms(5,6)] obtain hash malformed match rehash where
      v: "login_hash sv ?user = Inr hash" "verify_login sv run secret hash = Inr (malformed, match, rehash)"
      "login_reason ?user malformed match = Some reason" "login_id ?user = uid" by blast
    obtain r where r: "audit_write (sv_env sv) (failed_change attempt email' uid reason client) = Inr r"
      "ar_Action r = ActionLoginFailed" "ar_EntityID r = attempt" "ar_After r = Some (EFailedLogin email' uid reason)"
      using failed_record [OF assms(9,10,12,14,15)] by metis
    have "check_login sv run email' secret client w0 =
        (w0\<lparr>aw_db := outbox_add r (aw_db w), aw_attempts := aw_attempts w @ [outcomeFailed]\<rparr>, Inl ErrInvalidCredentials)"
      using v assms(7,8,11,13) r(1) c by (simp add: check_login_def Let_def fail_login_def audit_tx_def)
    then show "\<exists>r. Login sv run email secret client w =
        (w0\<lparr>aw_db := outbox_add r (aw_db w), aw_attempts := aw_attempts w @ [outcomeFailed]\<rparr>, Inl ErrInvalidCredentials) \<and>
      ar_Action r = ActionLoginFailed \<and> ar_EntityID r = attempt \<and> ar_After r = Some (EFailedLogin email' uid reason)"
      using assms(1-3) r(2-4) by (intro exI [of _ r]) (simp add: Login_def)
  }
  assume slot: "\<not> lr_slot run \<and> reason \<noteq> ReasonUnreadableHash"
  from refusal_waits [OF assms(4) _ len _ assms(5,6), of run] slot obtain hash where
    "login_hash sv ?user = Inr hash" "verify_login sv run secret hash = Inl (CheckFailed HashWait)" by blast
  then have "check_login sv run email' secret client w0 = (unchecked_login sv run email' client w0, Inl (CheckFailed HashWait))"
    using assms(7) c by (simp add: check_login_def Let_def)
  then show "Login sv run email secret client w = (unchecked_login sv run email' client w0, Inl (CheckFailed HashWait))"
    using assms(1-3) by (simp add: Login_def)
qed

text \<open>A request with a session is answered with the user as the database has them now.\<close>

lemma authenticate_current:
  assumes "Authenticate sv run token w = (w', Inr p)"
  shows "\<exists>row. find_user (aw_db w) (ss_UserID (pr_Session p)) = Some row \<and> us_Status row = StatusActive \<and> pr_User p = session_user row \<and> aw_db w' = aw_db w"
  using assms by (auto simp: Authenticate_def Let_def split: prod.splits sum.splits option.splits if_splits)

section \<open>An example\<close>

definition sample_argon :: argon2 where
  "sample_argon password salt t m p n = take n (password @ replicate n CHR ''x'')"

definition sample_secret :: string where "sample_secret = ''correct horse battery''"
definition sample_salt :: string where "sample_salt = replicate 16 CHR ''s''"
definition sample_hash :: string where "sample_hash = phc_text DefaultParams sample_salt (sample_argon sample_secret sample_salt 3 65536 4 32)"
definition sample_uuid :: string where "sample_uuid = ''01234567-89ab-cdef-0123-456789abcdef''"

type_synonym map_counters = "string \<Rightarrow> (int \<times> gotime option) option"

definition sample_service :: "(map_sessions, map_counters) auth_service" where
  "sample_service = \<lparr>sv_env = sample_env\<lparr>un_argon := sample_argon\<rparr>, sv_limits = \<lparr>lv_sha = \<lambda>s. s, lv_block_text = \<lambda>_. ''10.0.0.1''\<rparr>,
     sv_counters = map_redis, sv_redis = map_session_redis, sv_cfg = sample_cfg, sv_sha = \<lambda>s. s, sv_decoy = Inr sample_hash, sv_uuid = uuid_text\<rparr>"

definition sample_auth :: "(map_sessions, map_counters) auth_run" where
  "sample_auth = \<lparr>lr_beginAt = 0, lr_begin = TxDone, lr_takeBackAt = 0, lr_takeBack = TxDone, lr_during = \<lambda>c. c, lr_slot = True, lr_meanwhile = \<lambda>w. w,
     lr_raw = Some sample_raw, lr_uid = Some ''1'', lr_drawAt = 0, lr_createAt = 0, lr_create = TxDone, lr_commit = TxDone, lr_deleteAt = 0, lr_delete = TxDone,
     lr_attempt = Some ''2'', lr_endAt = 0, lr_end = TxDone\<rparr>"

definition sample_client :: Client where
  "sample_client = \<lparr>cl_Address = IPv4 0, cl_Text = ''10.0.0.1'', cl_RequestID = ''r''\<rparr>"

definition login_user :: user_row where
  "login_user = (sample_row sample_uuid)\<lparr>us_Email := ''a@b'', ur_PasswordHash := Some sample_hash\<rparr>"

definition sample_auth_world :: "(map_sessions, map_counters) auth_world" where
  "sample_auth_world = \<lparr>aw_db = \<lparr>db_users = [login_user], db_roles = [RoleAdmin], db_outbox = []\<rparr>,
     aw_sessions = (\<lambda>_. None, \<lambda>_. ([], None)), aw_counters = \<lambda>_. None, aw_attempts = []\<rparr>"

lemma sample_service_simps [simp]:
  "sv_counters sample_service = map_redis" "sv_redis sample_service = map_session_redis" "sv_cfg sample_service = sample_cfg"
  "sv_sha sample_service = (\<lambda>s. s)" "un_argon (sv_env sample_service) = sample_argon" "un_params (sv_env sample_service) = DefaultParams"
  "un_fails (sv_env sample_service) = (\<lambda>_. False)" "un_newID (sv_env sample_service) = Some ''1''" "un_tables (sv_env sample_service) = ascii_tables"
  "un_mail (sv_env sample_service) = (\<lambda>_. True)"
  by (simp_all add: sample_service_def sample_env_def)

lemma sample_login_email: "NormalizeEmail (sv_env sample_service) ''a@b'' = Some ''a@b''"
proof -
  have "trim_space ''a@b'' = ''a@b''" "to_lower ascii_tables ''a@b'' = ''a@b''" by code_simp+
  then show ?thesis by (simp add: NormalizeEmail_def maxEmailBytes_def)
qed

lemma sample_login_user: "GetLoginUser (sv_env sample_service) ''a@b'' (aw_db sample_auth_world) = Some login_user"
  by (simp add: GetLoginUser_def sample_auth_world_def login_user_def)

lemma sample_checkable: "checkable sample_secret" "checkable ''wrong''"
proof -
  have "valid_utf8 sample_secret" "valid_utf8 ''wrong''" by code_simp+
  then show "checkable sample_secret" "checkable ''wrong''" by (simp_all add: checkable_def sample_secret_def MaxBytes_def)
qed

lemma sample_verify:
  assumes "length secret \<le> MaxBytes"
  shows "Verify sample_argon DefaultParams True secret sample_hash =
    Inr (sample_argon secret sample_salt 3 65536 4 32 = sample_argon sample_secret sample_salt 3 65536 4 32, False)"
proof -
  have "in_bounds DefaultParams" "pa_Threads DefaultParams < 256" "length sample_salt = pa_SaltBytes DefaultParams"
    by (simp_all add: in_bounds_def DefaultParams_def maxTime_def maxMemoryKiB_def minSaltBytes_def minKeyBytes_def maxKeyBytes_def sample_salt_def)
  moreover have "Hash sample_argon DefaultParams (Some sample_salt) True sample_secret = Inr sample_hash"
    by (simp add: Hash_def derive_def sample_hash_def DefaultParams_def)
  moreover have "length (sample_argon password salt t m p n) = n" for password salt t m p n by (simp add: sample_argon_def)
  ultimately show ?thesis
    using verify_own [of DefaultParams sample_salt sample_argon sample_secret sample_hash secret DefaultParams] assms by (simp add: DefaultParams_def)
qed

lemma sample_begin:
  obtains c where "begin_login sample_service sample_auth ''a@b'' sample_client sample_auth_world = (sample_auth_world\<lparr>aw_counters := c\<rparr>, None)"
proof -
  have "map_view (\<lambda>_. None) 0 = (\<lambda>_. None)" by (simp add: map_view_def)
  then obtain c where "begin_count (sv_limits sample_service) map_redis 0 TxDone ''a@b'' (cl_Address sample_client) (\<lambda>_. None) = (c, Some 0)"
    using begin_fresh [OF map_redis_counters] by metis
  then show thesis by (intro that [of c]) (simp add: begin_login_def Begin_def sample_auth_def sample_auth_world_def)
qed

lemma sample_hash_parses: "parse_hash sample_hash = Inr (DefaultParams, sample_salt, sample_argon sample_secret sample_salt 3 65536 4 32)"
proof -
  have "in_bounds DefaultParams" "pa_Threads DefaultParams < 256" "length sample_salt = pa_SaltBytes DefaultParams"
    by (simp_all add: in_bounds_def DefaultParams_def maxTime_def maxMemoryKiB_def minSaltBytes_def minKeyBytes_def maxKeyBytes_def sample_salt_def)
  then show ?thesis
    unfolding sample_hash_def by (intro parse_phc) (simp_all add: sample_argon_def DefaultParams_def)
qed

theorem login_refused_witness:
  "\<exists>w r. Login sample_service sample_auth ''a@b'' ''wrong'' sample_client sample_auth_world = (w, Inl ErrInvalidCredentials) \<and>
     aw_sessions w = aw_sessions sample_auth_world \<and> db_outbox (aw_db w) = [r] \<and> ar_After r = Some (EFailedLogin ''a@b'' sample_uuid ReasonWrongPassword)"
proof -
  obtain c where b: "begin_login sample_service sample_auth ''a@b'' sample_client sample_auth_world = (sample_auth_world\<lparr>aw_counters := c\<rparr>, None)"
    using sample_begin .
  have u: "ur_PasswordHash login_user = Some sample_hash" "us_ID login_user = sample_uuid" by (simp_all add: login_user_def sample_row_def)
  have "sample_argon ''wrong'' sample_salt 3 65536 4 32 \<noteq> sample_argon sample_secret sample_salt 3 65536 4 32"
    by (simp add: sample_argon_def sample_secret_def)
  then have n: "login_refusal sample_service (aw_db sample_auth_world) ''a@b'' ''wrong'' ReasonWrongPassword sample_uuid"
    using wrong_password [OF sample_login_user u(1) sample_hash_parses, of "''wrong''"] u(2) by (simp add: DefaultParams_def)
  have d: "sv_decoy sample_service = Inr sample_hash" by (simp add: sample_service_def)
  obtain r where "Login sample_service sample_auth ''a@b'' ''wrong'' sample_client sample_auth_world =
      (sample_auth_world\<lparr>aw_counters := c, aw_db := outbox_add r (aw_db sample_auth_world), aw_attempts := aw_attempts sample_auth_world @ [outcomeFailed]\<rparr>,
        Inl ErrInvalidCredentials)" "ar_After r = Some (EFailedLogin ''a@b'' sample_uuid ReasonWrongPassword)"
    using login_refused [OF sample_login_email sample_checkable(2) b n d sample_hash_parses, of "''2''"] by (auto simp: sample_auth_def sample_client_def)
  then show ?thesis by (auto simp: outbox_add_def sample_auth_world_def)
qed

text \<open>A successful login.\<close>

lemma sample_create_session:
  obtains s session where "CreateSession sample_cfg (\<lambda>s. s) map_session_redis (Some sample_raw) (Some ''1'') 0 0 TxDone sample_uuid ''10.0.0.1'' (\<lambda>_. None, \<lambda>_. ([], None)) =
      (s, Inr (session, EncodeToString RawURLEncoding sample_raw))" "ss_ID session = ''1''" "ss_UserID session = sample_uuid"
proof -
  obtain d where d: "marshal sample_session = Some d"
    using sample_create by (auto simp: create_session_def Let_def sample_session_def stamp_def time_truncate_def token_key_def split: option.splits)
  have "marshal (sample_session\<lparr>ss_UserID := sample_uuid\<rparr>) \<noteq> None" using d by (auto simp: marshal_def split: if_splits)
  then have c: "create_session (\<lambda>s. s) (Some sample_raw) (Some ''1'') 0 sample_uuid ''10.0.0.1'' =
      Inr (sample_session\<lparr>ss_UserID := sample_uuid\<rparr>, EncodeToString RawURLEncoding sample_raw)"
    by (auto simp: create_session_def Let_def stamp_def time_truncate_def token_key_def sample_session_def split: option.splits)
  obtain s where "create_commit sample_cfg map_session_redis 0 TxDone (sample_session\<lparr>ss_UserID := sample_uuid\<rparr>) (\<lambda>_. None, \<lambda>_. ([], None)) = (s, None)"
    by (simp add: create_commit_def map_session_redis_def map_values_def expires_value_def Let_def)
  then show thesis using c by (intro that [of s "sample_session\<lparr>ss_UserID := sample_uuid\<rparr>"]) (simp_all add: CreateSession_def sample_session_def)
qed

lemma sample_login_record: "\<exists>r. audit_write (sv_env sample_service)
    (login_change cfg sample_client \<lparr>pr_Session = session, pr_User = session_user login_user\<rparr>) = Inr r" if "ss_ID session = ''1''"
proof -
  have "uuid_text sample_uuid" by code_simp
  then show ?thesis using that
    by (simp add: audit_write_def Write_def login_change_def Let_def record_error_def sample_client_def session_user_def login_user_def sample_row_def
        ActionLogin_def name_text_def is_lower_def byte_def EntitySession_def EntityTypes_def UserActor_def no_actor_def actor_ok_def ActorUser_def)
qed

lemma sample_succeed:
  assumes "aw_db w = aw_db sample_auth_world" "aw_sessions w = aw_sessions sample_auth_world"
  obtains w' p where "succeed_login sample_service sample_auth ''a@b'' login_user sample_secret False sample_client w = (w', Inr (p, EncodeToString RawURLEncoding sample_raw))"
proof -
  obtain s session where c: "CreateSession sample_cfg (\<lambda>s. s) map_session_redis (Some sample_raw) (Some ''1'') 0 0 TxDone sample_uuid ''10.0.0.1'' (\<lambda>_. None, \<lambda>_. ([], None)) =
      (s, Inr (session, EncodeToString RawURLEncoding sample_raw))" "ss_ID session = ''1''" using sample_create_session .
  obtain r where r: "audit_write (sv_env sample_service) (login_change sample_cfg sample_client \<lparr>pr_Session = session, pr_User = session_user login_user\<rparr>) = Inr r"
    using sample_login_record [OF c(2)] by blast
  have u: "us_ID login_user = sample_uuid" "us_Status login_user = StatusActive" "ur_PasswordHash login_user = Some sample_hash"
    by (simp_all add: login_user_def sample_row_def)
  have "RecordLogin sample_uuid (Some sample_hash) (aw_db w) = Some login_user"
    unfolding assms(1) by (simp add: RecordLogin_def find_user_def sample_auth_world_def u)
  moreover have "lr_raw sample_auth = Some sample_raw" "lr_uid sample_auth = Some ''1''" "lr_drawAt sample_auth = 0" "lr_createAt sample_auth = 0"
    "lr_create sample_auth = TxDone" "lr_commit sample_auth = TxDone" "cl_Text sample_client = ''10.0.0.1''"
    "aw_sessions w = (\<lambda>_. None, \<lambda>_. ([], None))"
    by (simp_all add: sample_auth_def sample_client_def assms(2) sample_auth_world_def)
  ultimately show thesis using c(1) r that by (simp add: succeed_login_def succeed_tx_def Let_def u)
qed

theorem login_returns_witness:
  "\<exists>w p r. Login sample_service sample_auth ''a@b'' sample_secret sample_client sample_auth_world = (w, Inr (p, EncodeToString RawURLEncoding sample_raw)) \<and>
     lu_ID (pr_User p) = sample_uuid \<and> db_outbox (aw_db w) = [r] \<and> ar_Action r = ActionLogin"
proof -
  obtain c where b: "begin_login sample_service sample_auth ''a@b'' sample_client sample_auth_world = (sample_auth_world\<lparr>aw_counters := c\<rparr>, None)"
    using sample_begin .
  obtain w p where s: "succeed_login sample_service sample_auth ''a@b'' login_user sample_secret False sample_client (sample_auth_world\<lparr>aw_counters := c\<rparr>) =
      (w, Inr (p, EncodeToString RawURLEncoding sample_raw))" using sample_succeed [of "sample_auth_world\<lparr>aw_counters := c\<rparr>"] by auto
  have v: "verify_login sample_service sample_auth sample_secret sample_hash = Inr (False, True, False)"
    using sample_verify [of sample_secret] by (simp add: verify_login_def sample_auth_def MaxBytes_def sample_secret_def)
  have "us_Status login_user = StatusActive" "ur_PasswordHash login_user = Some sample_hash" "lr_meanwhile sample_auth = (\<lambda>w. w)"
    by (simp_all add: login_user_def sample_row_def sample_auth_def)
  then have "check_login sample_service sample_auth ''a@b'' sample_secret sample_client (sample_auth_world\<lparr>aw_counters := c\<rparr>) = (w, Inr (p, EncodeToString RawURLEncoding sample_raw))"
    using s v by (simp add: check_login_def Let_def sample_login_user login_hash_def login_reason_def)
  then have L: "Login sample_service sample_auth ''a@b'' sample_secret sample_client sample_auth_world = (w, Inr (p, EncodeToString RawURLEncoding sample_raw))"
    using b by (simp add: Login_def sample_login_email sample_checkable)
  have m: "lr_meanwhile sample_auth (sample_auth_world\<lparr>aw_counters := c\<rparr>) = sample_auth_world\<lparr>aw_counters := c\<rparr>" for c by (simp add: sample_auth_def)
  obtain user row r where x: "GetLoginUser (sv_env sample_service) ''a@b'' (aw_db sample_auth_world) = Some user"
    "find_user (aw_db sample_auth_world) (us_ID user) = Some row" "pr_User p = session_user row"
    "db_outbox (aw_db w) = db_outbox (aw_db sample_auth_world) @ [r]" "ar_Action r = ActionLogin"
    using login_returns [OF L] sample_login_email by (auto simp: m)
  have "us_ID user = sample_uuid" using x(1) unfolding sample_login_user by (auto simp: login_user_def sample_row_def)
  then have "lu_ID (pr_User p) = sample_uuid" using find_user_Some [OF x(2)] x(3) by (simp add: session_user_def)
  then show ?thesis using L x(4,5) by (auto simp: sample_auth_world_def)
qed

end
