(* ===== verification/AuthSystem.thy ===== *)
theory AuthSystem
  imports Login
begin

text \<open>
  Logins and changes of users together, over any interleaving: the committed users, the sessions in Redis,
  and the running transactions with the row they lock.  A login (\<open>succeed\<close> in \<open>auth/login.go\<close>) creates its
  session while it holds the user's row; a change that disables a user or sets their password
  (\<open>users/manage.go\<close>) deletes the user's sessions while it holds it.  The lock of the admin role only
  restricts what runs at the same time and is left out.
\<close>

section \<open>Transactions\<close>

datatype auth_tx =
    NoAuth
  | ChangeLocked user_op string user_row
  | Ending string tx_write
  | ListedSessions string tx_write "string list"
  | ChangeReady string tx_write
  | LoginLocked string user_row
  | LoginDrawn string user_row session
  | LoginCreated string user_row session

fun row_of :: "auth_tx \<Rightarrow> string option" where
  "row_of NoAuth = None"
| "row_of (ChangeLocked p i row) = Some i"
| "row_of (Ending i x) = Some i"
| "row_of (ListedSessions i x keys) = Some i"
| "row_of (ChangeReady i x) = Some i"
| "row_of (LoginLocked i row) = Some i"
| "row_of (LoginDrawn i row session) = Some i"
| "row_of (LoginCreated i row session) = Some i"

text \<open>\<open>xs_returned\<close> holds the keys of the sessions whose token a login has returned.\<close>

record 's auth_system =
  xs_db :: users_db
  xs_sessions :: "'s session_system"
  xs_txs :: "nat \<Rightarrow> auth_tx"
  xs_returned :: "string set"

definition row_free :: "'s auth_system \<Rightarrow> string \<Rightarrow> bool" where
  "row_free g i \<longleftrightarrow> (\<forall>n. row_of (xs_txs g n) \<noteq> Some i)"

definition set_tx :: "nat \<Rightarrow> auth_tx \<Rightarrow> 's auth_system \<Rightarrow> 's auth_system" where
  "set_tx n t g = g\<lparr>xs_txs := (xs_txs g)(n := t)\<rparr>"

text \<open>
  Beside the transactions, the sessions move on their own: requests, logouts, lookups, time, and commands
  to Redis that were sent and are carried out late.  A transaction can end at any point without committing,
  also with its session created or the user's sessions deleted.
\<close>

inductive auth_step :: "sessions_cfg \<Rightarrow> (string \<Rightarrow> string) \<Rightarrow> 's session_redis \<Rightarrow> 's auth_system \<Rightarrow> 's auth_system \<Rightarrow> bool" for cfg sha R where
  sessions: "session_step cfg sha R (xs_sessions g) y \<Longrightarrow> auth_step cfg sha R g (g\<lparr>xs_sessions := y\<rparr>)"
| aborts: "auth_step cfg sha R g (set_tx n NoAuth g)"
| locks: "xs_txs g n = NoAuth \<Longrightarrow> checked_op p \<Longrightarrow> row_free g i \<Longrightarrow> find_user (xs_db g) i = Some row \<Longrightarrow> auth_step cfg sha R g (set_tx n (ChangeLocked p i row) g)"
| runs: "xs_txs g n = ChangeLocked p i row \<Longrightarrow> op_locked env caller p row (xs_db g) = Inr x \<Longrightarrow>
    auth_step cfg sha R g (set_tx n (if tw_ends x then Ending i x else ChangeReady i x) g)"
| lists_sessions: "xs_txs g n = Ending i x \<Longrightarrow> keys = sr_smembers R (sy_now y) (userKeyPrefix @ i) (sy_store y) \<Longrightarrow> y = xs_sessions g \<Longrightarrow>
    auth_step cfg sha R g ((set_tx n (ListedSessions i x keys) g)\<lparr>xs_sessions := y\<lparr>sy_deleting := insert (i, keys) (sy_deleting y)\<rparr>\<rparr>)"
| ends_sessions: "xs_txs g n = ListedSessions i x keys \<Longrightarrow> y = xs_sessions g \<Longrightarrow> delete_listed R (sy_now y) TxDone i keys (sy_store y) = (s, None) \<Longrightarrow>
    auth_step cfg sha R g ((set_tx n (ChangeReady i x) g)\<lparr>xs_sessions := y\<lparr>sy_store := s, sy_ended := sy_ended y \<union> settled y (set keys)\<rparr>\<rparr>)"
| commits: "xs_txs g n = ChangeReady i x \<Longrightarrow> auth_step cfg sha R g ((set_tx n NoAuth g)\<lparr>xs_db := apply_write x (xs_db g)\<rparr>)"
| creates: "insert_user env caller i email name hash roles granted reads (xs_db g) = Inr (row, r) \<Longrightarrow> find_user (xs_db g) i = None \<Longrightarrow>
    auth_step cfg sha R g (g\<lparr>xs_db := add_user t row r (xs_db g)\<rparr>)"
| login_locks: "xs_txs g n = NoAuth \<Longrightarrow> row_free g i \<Longrightarrow> RecordLogin i hash (xs_db g) = Some row \<Longrightarrow> auth_step cfg sha R g (set_tx n (LoginLocked i row) g)"
| login_draws: "xs_txs g n = LoginLocked i row \<Longrightarrow> y = xs_sessions g \<Longrightarrow> create_session sha (Some raw) uid (sy_now y) i address = Inr (session, token) \<Longrightarrow>
    sy_drawn y (token_key sha raw) = None \<Longrightarrow>
    auth_step cfg sha R g ((set_tx n (LoginDrawn i row session) g)\<lparr>xs_sessions :=
      y\<lparr>sy_drawn := (sy_drawn y)(token_key sha raw \<mapsto> session), sy_uses := insert (token_key sha raw, sy_now y) (sy_uses y),
        sy_creating := insert session (sy_creating y)\<rparr>\<rparr>)"
| login_creates: "xs_txs g n = LoginDrawn i row session \<Longrightarrow> y = xs_sessions g \<Longrightarrow> session \<in> sy_creating y \<Longrightarrow>
    create_commit cfg R (sy_now y) TxDone session (sy_store y) = (s, None) \<Longrightarrow>
    auth_step cfg sha R g ((set_tx n (LoginCreated i row session) g)\<lparr>xs_sessions := y\<lparr>sy_store := s, sy_creating := sy_creating y - {session}\<rparr>\<rparr>)"
| login_commits: "xs_txs g n = LoginCreated i row session \<Longrightarrow> audit_write env change = Inr r \<Longrightarrow> t \<noteq> TxUnsent \<Longrightarrow>
    auth_step cfg sha R g ((set_tx n NoAuth g)\<lparr>xs_db := outbox_add r (put_user (login_row now newHash row) (xs_db g)),
      xs_returned := (if t = TxDone then insert (ss_key session) (xs_returned g) else xs_returned g)\<rparr>)"

definition auth_init :: "users_db \<Rightarrow> 's \<Rightarrow> gotime \<Rightarrow> 's auth_system" where
  "auth_init db s now = \<lparr>xs_db = db, xs_sessions = session_init s now, xs_txs = \<lambda>_. NoAuth, xs_returned = {}\<rparr>"

definition auth_reachable :: "sessions_cfg \<Rightarrow> (string \<Rightarrow> string) \<Rightarrow> 's session_redis \<Rightarrow> 's value_view \<Rightarrow> 's index_view \<Rightarrow> 's auth_system \<Rightarrow> bool" where
  "auth_reachable cfg sha R V I g \<longleftrightarrow>
     (\<exists>db s now. (\<forall>k. V s now k = None \<and> fst (I s now k) = {}) \<and> (auth_step cfg sha R)\<^sup>*\<^sup>* (auth_init db s now) g)"

section \<open>The invariant\<close>

text \<open>The keys of the sessions returned to a user, and those of them that Redis still has.\<close>

definition returned_to :: "'s auth_system \<Rightarrow> string \<Rightarrow> string set" where
  "returned_to g i = {k \<in> xs_returned g. \<exists>l. sy_drawn (xs_sessions g) k = Some l \<and> ss_UserID l = i}"

definition kept :: "'s value_view \<Rightarrow> 's session_system \<Rightarrow> string set" where
  "kept V y = {k. stored V (sy_store y) (sy_now y) k \<noteq> None}"

definition user_active :: "users_db \<Rightarrow> string \<Rightarrow> bool" where
  "user_active db i \<longleftrightarrow> (\<exists>row. find_user db i = Some row \<and> us_Status row = StatusActive)"

text \<open>A change ends sessions when it disables an active user or sets another password.\<close>

definition write_ends :: "user_row \<Rightarrow> string \<Rightarrow> tx_write \<Rightarrow> bool" where
  "write_ends row i x \<longleftrightarrow> (\<forall>row'. tw_row x = Some row' \<longrightarrow> us_ID row' = i \<and>
     (us_Status row = StatusActive \<and> us_Status row' \<noteq> StatusActive \<or> ur_PasswordHash row' \<noteq> ur_PasswordHash row \<longrightarrow> tw_ends x))"

text \<open>What holds of a transaction: once a change that ends sessions has deleted the listed ones, Redis has
  none that was returned to the user.\<close>

fun tx_ok :: "'s value_view \<Rightarrow> 's auth_system \<Rightarrow> auth_tx \<Rightarrow> bool" where
  "tx_ok V g NoAuth = True"
| "tx_ok V g (ChangeLocked p i row) = (find_user (xs_db g) i = Some row \<and> checked_op p)"
| "tx_ok V g (Ending i x) = (\<exists>row. find_user (xs_db g) i = Some row \<and> write_ends row i x)"
| "tx_ok V g (ListedSessions i x keys) = ((\<exists>row. find_user (xs_db g) i = Some row \<and> write_ends row i x) \<and>
     (i, keys) \<in> sy_deleting (xs_sessions g) \<and> returned_to g i \<inter> kept V (xs_sessions g) \<subseteq> set keys)"
| "tx_ok V g (ChangeReady i x) = ((\<exists>row. find_user (xs_db g) i = Some row \<and> write_ends row i x) \<and>
     (tw_ends x \<longrightarrow> returned_to g i \<inter> kept V (xs_sessions g) = {}))"
| "tx_ok V g (LoginLocked i row) = (find_user (xs_db g) i = Some row \<and> us_Status row = StatusActive)"
| "tx_ok V g (LoginDrawn i row session) = (find_user (xs_db g) i = Some row \<and> us_Status row = StatusActive \<and>
     sy_drawn (xs_sessions g) (ss_key session) = Some session \<and> ss_UserID session = i)"
| "tx_ok V g (LoginCreated i row session) = (find_user (xs_db g) i = Some row \<and> us_Status row = StatusActive \<and>
     sy_drawn (xs_sessions g) (ss_key session) = Some session \<and> ss_UserID session = i \<and> ss_key session \<in> settled (xs_sessions g) UNIV)"

definition auth_inv :: "sessions_cfg \<Rightarrow> 's value_view \<Rightarrow> 's index_view \<Rightarrow> 's auth_system \<Rightarrow> bool" where
  "auth_inv cfg V I g \<longleftrightarrow> session_inv cfg V I (xs_sessions g) \<and> xs_returned g \<subseteq> settled (xs_sessions g) UNIV \<and>
     (\<forall>n m i. row_of (xs_txs g n) = Some i \<longrightarrow> row_of (xs_txs g m) = Some i \<longrightarrow> n = m) \<and>
     (\<forall>n. tx_ok V g (xs_txs g n)) \<and>
     (\<forall>i. returned_to g i \<inter> kept V (xs_sessions g) \<noteq> {} \<longrightarrow> user_active (xs_db g) i)"

lemma auth_invD:
  assumes "auth_inv cfg V I g"
  shows "session_inv cfg V I (xs_sessions g)" "xs_returned g \<subseteq> settled (xs_sessions g) UNIV"
    "row_of (xs_txs g n) = Some i \<Longrightarrow> row_of (xs_txs g m) = Some i \<Longrightarrow> n = m" "tx_ok V g (xs_txs g n)"
    "returned_to g i \<inter> kept V (xs_sessions g) \<noteq> {} \<Longrightarrow> user_active (xs_db g) i"
  using assms unfolding auth_inv_def by blast+

lemma auth_invI:
  assumes "session_inv cfg V I (xs_sessions g)" "xs_returned g \<subseteq> settled (xs_sessions g) UNIV"
    "\<And>n m i. row_of (xs_txs g n) = Some i \<Longrightarrow> row_of (xs_txs g m) = Some i \<Longrightarrow> n = m" "\<And>n. tx_ok V g (xs_txs g n)"
    "\<And>i. returned_to g i \<inter> kept V (xs_sessions g) \<noteq> {} \<Longrightarrow> user_active (xs_db g) i"
  shows "auth_inv cfg V I g"
  using assms unfolding auth_inv_def by blast

text \<open>The steps of the sessions: nothing that was created and is gone comes back.\<close>

lemma drawn_mono: "session_step cfg sha R y y' \<Longrightarrow> sy_drawn y k = Some l \<Longrightarrow> sy_drawn y' k = Some l"
  by (induction rule: session_step.induct) auto

lemma deleting_mono: "session_step cfg sha R y y' \<Longrightarrow> sy_deleting y \<subseteq> sy_deleting y'"
  by (induction rule: session_step.induct) auto

lemma login_step_live: "login_step a b \<Longrightarrow> lo_live b \<subseteq> lo_live a \<union> lo_pending a"
  by (induction rule: login_step.induct) auto

lemma kept_mono:
  assumes "session_step cfg sha R y y'" and "redis_sessions R V I" and "whole_seconds cfg" and "session_inv cfg V I y"
  shows "kept V y' \<inter> settled y UNIV \<subseteq> kept V (y :: 'a session_system)"
proof -
  have "kept V y = lo_live (login_abs V y)" for y :: "'a session_system" by (simp add: kept_def login_abs_def)
  moreover have "lo_pending (login_abs V y) \<inter> settled y UNIV = {}" by (auto simp: login_abs_def settled_def)
  ultimately show ?thesis using login_step_live [OF session_step_refines [OF assms]] by blast
qed

lemma returned_to_sessions:
  assumes "session_step cfg sha R (xs_sessions g) y" and "xs_returned g \<subseteq> settled (xs_sessions g) UNIV"
  shows "returned_to (g\<lparr>xs_sessions := y\<rparr>) i = returned_to g i"
proof -
  have "sy_drawn y k = sy_drawn (xs_sessions g) k" if "k \<in> xs_returned g" for k
    using assms(2) that drawn_mono [OF assms(1), of k] by (auto simp: settled_def)
  then show ?thesis by (auto simp: returned_to_def)
qed

lemma sessions_auth_inv:
  assumes R: "redis_sessions R V I" and cfg: "whole_seconds cfg" and inv: "auth_inv cfg V I g" and st: "session_step cfg sha R (xs_sessions g) y"
  shows "auth_inv cfg V I (g\<lparr>xs_sessions := y\<rparr>)" (is "auth_inv cfg V I ?g")
proof -
  note D = auth_invD [OF inv]
  have ret: "returned_to ?g i = returned_to g i" for i by (rule returned_to_sessions [OF st D(2)])
  have sub: "returned_to g i \<inter> kept V y \<subseteq> returned_to g i \<inter> kept V (xs_sessions g)" for i
    using kept_mono [OF st R cfg D(1)] D(2) by (auto simp: returned_to_def)
  have "settled (xs_sessions g) UNIV \<subseteq> settled y UNIV" using settled_step [OF st] by blast
  moreover have "tx_ok V ?g t" if "tx_ok V g t" for t
    using that sub ret drawn_mono [OF st] deleting_mono [OF st] \<open>settled (xs_sessions g) UNIV \<subseteq> settled y UNIV\<close> by (cases t) fastforce+
  moreover have "user_active (xs_db g) i" if "returned_to g i \<inter> kept V y \<noteq> {}" for i using D(5) [of i] sub [of i] that by blast
  ultimately show ?thesis
    using D(2-4) session_step_inv [OF st R cfg D(1)] by (intro auth_invI) (auto simp: ret)
qed

lemma tx_ok_set [simp]: "tx_ok V (set_tx n t g) u = tx_ok V g u"
  by (cases u) (simp_all add: set_tx_def returned_to_def)

text \<open>A transaction that moves on, keeps its row, takes a free one or lets it go.\<close>

lemma set_tx_inv:
  assumes inv: "auth_inv cfg V I g" and ok: "tx_ok V g t"
    and row: "\<And>i. row_of t = Some i \<Longrightarrow> row_of (xs_txs g n) = Some i \<or> row_free g i"
  shows "auth_inv cfg V I (set_tx n t g)"
proof -
  note D = auth_invD [OF inv]
  have one: "a = b" if "row_of (((xs_txs g)(n := t)) a) = Some i" "row_of (((xs_txs g)(n := t)) b) = Some i" for a b i
  proof -
    have f: "c = n" if "row_of t = Some i" "row_of (xs_txs g c) = Some i" for c
      using that row [of i] D(3) [of n i c] by (auto simp: row_free_def)
    show ?thesis using that f [of a] f [of b] D(3) [of a i b] by (simp split: if_splits)
  qed
  have ret: "returned_to (set_tx n t g) i = returned_to g i" for i by (simp add: returned_to_def set_tx_def)
  show ?thesis
  proof (rule auth_invI)
    show "session_inv cfg V I (xs_sessions (set_tx n t g))" "xs_returned (set_tx n t g) \<subseteq> settled (xs_sessions (set_tx n t g)) UNIV"
      using D(1,2) by (simp_all add: set_tx_def)
    show "tx_ok V (set_tx n t g) (xs_txs (set_tx n t g) m)" for m unfolding tx_ok_set using D(4) [of m] ok by (simp add: set_tx_def)
    show "user_active (xs_db (set_tx n t g)) i" if "returned_to (set_tx n t g) i \<inter> kept V (xs_sessions (set_tx n t g)) \<noteq> {}" for i
      using D(5) [of i] that unfolding ret by (simp add: set_tx_def)
  qed (simp add: set_tx_def one del: fun_upd_apply)
qed

text \<open>A commit only changes the row it holds and, for a login, returns a session of that user.\<close>

lemma tx_ok_commit:
  assumes "tx_ok V g t" and "row_of t \<noteq> Some i" and "\<And>j. j \<noteq> i \<Longrightarrow> find_user db j = find_user (xs_db g) j"
    and "\<And>j. j \<noteq> i \<Longrightarrow> returned_to (g\<lparr>xs_db := db, xs_returned := ret\<rparr>) j = returned_to g j"
  shows "tx_ok V (g\<lparr>xs_db := db, xs_returned := ret\<rparr>) t"
  using assms by (cases t) auto

lemma commit_auth_inv:
  assumes inv: "auth_inv cfg V I g" and n: "row_of (xs_txs g n) = Some i"
    and db: "\<And>j. j \<noteq> i \<Longrightarrow> find_user db j = find_user (xs_db g) j"
    and ret: "xs_returned g \<subseteq> ret" "ret - xs_returned g \<subseteq> settled (xs_sessions g) UNIV"
      "\<And>k l. k \<in> ret - xs_returned g \<Longrightarrow> sy_drawn (xs_sessions g) k = Some l \<Longrightarrow> ss_UserID l = i"
    and act: "returned_to (g\<lparr>xs_db := db, xs_returned := ret\<rparr>) i \<inter> kept V (xs_sessions g) \<noteq> {} \<Longrightarrow> user_active db i"
  shows "auth_inv cfg V I ((set_tx n NoAuth g)\<lparr>xs_db := db, xs_returned := ret\<rparr>)" (is "auth_inv cfg V I ?g")
proof -
  note D = auth_invD [OF inv]
  let ?h = "g\<lparr>xs_db := db, xs_returned := ret\<rparr>"
  have h: "?g = set_tx n NoAuth ?h" by (simp add: set_tx_def)
  have same: "returned_to ?h j = returned_to g j" if "j \<noteq> i" for j using ret(1,3) that by (auto simp: returned_to_def)
  have others: "tx_ok V ?h (xs_txs g m)" if "m \<noteq> n" for m
    using tx_ok_commit [OF D(4) [of m] _ db same] D(3) [OF n, of m] that by blast
  have a: "user_active db j" if "returned_to ?h j \<inter> kept V (xs_sessions g) \<noteq> {}" for j
  proof (cases "j = i")
    case True
    then show ?thesis using act that by simp
  next
    case False
    then show ?thesis using D(5) [of j] that same db by (simp add: user_active_def)
  qed
  show ?thesis unfolding h
  proof (rule auth_invI)
    show "tx_ok V (set_tx n NoAuth ?h) (xs_txs (set_tx n NoAuth ?h) m)" for m
      unfolding tx_ok_set using others by (simp add: set_tx_def)
    show "a = b" if "row_of (xs_txs (set_tx n NoAuth ?h) a) = Some j" "row_of (xs_txs (set_tx n NoAuth ?h) b) = Some j" for a b j
      using that D(3) by (auto simp: set_tx_def split: if_splits)
    show "user_active (xs_db (set_tx n NoAuth ?h)) j" if "returned_to (set_tx n NoAuth ?h) j \<inter> kept V (xs_sessions (set_tx n NoAuth ?h)) \<noteq> {}" for j
      using a [of j] that by (simp add: set_tx_def returned_to_def)
  qed (use D(1,2) ret(2) in \<open>auto simp: set_tx_def\<close>)
qed

text \<open>Every change that can be committed ends the sessions when it has to.\<close>

lemma update_locked_ends: "update_locked env caller f row db = Inr x \<Longrightarrow> checked_op (OpUpdate f) \<Longrightarrow> us_ID row = i \<Longrightarrow> write_ends row i x"
  unfolding update_locked_def checked_op_def Let_def write_ends_def fields_or_def
  by (auto simp: bind_result_Inr_iff split: prod.splits if_splits option.splits)

lemma role_locked_ends: "role_locked env caller role grant row db = Inr x \<Longrightarrow> us_ID row = i \<Longrightarrow> write_ends row i x"
  unfolding role_locked_def Let_def write_ends_def
  by (auto simp: bind_result_Inr_iff split: if_splits option.splits)

lemma password_locked_ends: "password_locked env caller hash ifHash row db = Inr x \<Longrightarrow> us_ID row = i \<Longrightarrow> write_ends row i x"
  unfolding password_locked_def Let_def write_ends_def
  by (auto simp: bind_result_Inr_iff split: if_splits)

lemma op_locked_ends: "op_locked env caller p row db = Inr x \<Longrightarrow> checked_op p \<Longrightarrow> us_ID row = i \<Longrightarrow> write_ends row i x"
  by (cases p) (auto simp: op_locked_def intro: update_locked_ends role_locked_ends password_locked_ends)

lemma apply_write_find:
  assumes "find_user db i = Some row" and "write_ends row i x"
  shows "find_user (apply_write x db) j = (if j = i then Some (case tw_row x of None \<Rightarrow> row | Some row' \<Rightarrow> row') else find_user db j)"
proof (cases "tw_row x")
  case None
  then show ?thesis using assms(1) by (simp add: apply_write_def find_user_def)
next
  case (Some row')
  then have "us_ID row' = i" using assms(2) by (simp add: write_ends_def)
  from find_user_put [OF assms(1) this, of j] show ?thesis by (simp add: apply_write_def Some find_user_def)
qed

text \<open>A listing shows every session that was returned to the user and is still there.\<close>

lemma listed_complete:
  assumes R: "redis_sessions R V I" and inv: "session_inv cfg V I (xs_sessions g)"
  shows "returned_to g i \<inter> kept V (xs_sessions g) \<subseteq> set (sr_smembers R (sy_now (xs_sessions g)) (userKeyPrefix @ i) (sy_store (xs_sessions g)))"
proof
  fix k assume k: "k \<in> returned_to g i \<inter> kept V (xs_sessions g)"
  let ?y = "xs_sessions g"
  obtain x where x: "stored V (sy_store ?y) (sy_now ?y) k = Some x" using k by (auto simp: kept_def)
  obtain d where d: "fst x = Some d" "of_login ?y k d" using stored_okD(4) [OF session_invD(2) [OF inv x]] by blast
  then have "ss_UserID d = i" using k by (auto simp: returned_to_def of_login_def same_login_def)
  moreover have "stored V (sy_store ?y) (sy_now ?y) k = Some (Some d, snd x)" using x d(1) by (cases x) simp
  ultimately show "k \<in> set (sr_smembers R (sy_now ?y) (userKeyPrefix @ i) (sy_store ?y))" using index_complete [OF R inv] by blast
qed

text \<open>What a step does to the sessions.\<close>

lemma auth_step_sessions:
  assumes "auth_step cfg sha R g g'" and "auth_inv cfg V I g"
  shows "xs_sessions g' = xs_sessions g \<or> session_step cfg sha R (xs_sessions g) (xs_sessions g')"
  using assms
proof (induction rule: auth_step.induct)
  case (lists_sessions g n i x keys y)
  then show ?case using session_step.listed [of cfg sha R y i] by simp
next
  case (ends_sessions g n i x keys y s)
  then have "(i, keys) \<in> sy_deleting y" using auth_invD(4) [OF ends_sessions(4), of n] by simp
  from session_step.deleted_user [OF this _ ends_sessions(3)] show ?case using ends_sessions(2) by simp
next
  case (login_draws g n i row y raw uid address session token)
  then show ?case using session_step.draw [OF login_draws(3,4)] by simp
next
  case (login_creates g n i row session y s)
  then show ?case using session_step.created [OF login_creates(3) _ login_creates(4)] by simp
qed (simp_all add: set_tx_def)

text \<open>A step that moves the sessions and one transaction.\<close>

lemma both_inv:
  assumes "redis_sessions R V I" and "whole_seconds cfg" and "auth_inv cfg V I g" and "session_step cfg sha R (xs_sessions g) y"
    and "row_of (xs_txs g n) = Some i" and "row_of t = Some i" and "tx_ok V (g\<lparr>xs_sessions := y\<rparr>) t"
  shows "auth_inv cfg V I ((set_tx n t g)\<lparr>xs_sessions := y\<rparr>)"
proof -
  have "auth_inv cfg V I (set_tx n t (g\<lparr>xs_sessions := y\<rparr>))"
    by (rule set_tx_inv [OF sessions_auth_inv [OF assms(1-4)] assms(7)]) (use assms(5,6) in simp)
  moreover have "(set_tx n t g)\<lparr>xs_sessions := y\<rparr> = set_tx n t (g\<lparr>xs_sessions := y\<rparr>)" by (simp add: set_tx_def)
  ultimately show ?thesis by simp
qed

text \<open>The steps that touch both, and the commits.\<close>

lemma lists_sessions_inv:
  assumes R: "redis_sessions R V I" and cfg: "whole_seconds cfg" and inv: "auth_inv cfg V I g" and n: "xs_txs g n = Ending i x"
    and y: "y = xs_sessions g" and keys: "keys = sr_smembers R (sy_now y) (userKeyPrefix @ i) (sy_store y)"
  shows "auth_inv cfg V I ((set_tx n (ListedSessions i x keys) g)\<lparr>xs_sessions := y\<lparr>sy_deleting := insert (i, keys) (sy_deleting y)\<rparr>\<rparr>)"
proof -
  note D = auth_invD [OF inv]
  have st: "session_step cfg sha R (xs_sessions g) (y\<lparr>sy_deleting := insert (i, keys) (sy_deleting y)\<rparr>)" for sha
    using session_step.listed [of cfg sha R y i] y keys by simp
  have "returned_to g i \<inter> kept V (xs_sessions g) \<subseteq> set keys" using listed_complete [OF R D(1)] y keys by simp
  moreover have "kept V (y\<lparr>sy_deleting := insert (i, keys) (sy_deleting y)\<rparr>) = kept V (xs_sessions g)" using y by (simp add: kept_def)
  ultimately show ?thesis using n D(4) [of n]
    by (intro both_inv [OF R cfg inv st, of n i]) (simp_all add: returned_to_sessions [OF st D(2)])
qed

lemma ends_sessions_inv:
  assumes R: "redis_sessions R V I" and cfg: "whole_seconds cfg" and inv: "auth_inv cfg V I g" and n: "xs_txs g n = ListedSessions i x keys"
    and y: "y = xs_sessions g" and c: "delete_listed R (sy_now y) TxDone i keys (sy_store y) = (s, None)"
  shows "auth_inv cfg V I ((set_tx n (ChangeReady i x) g)\<lparr>xs_sessions := y\<lparr>sy_store := s, sy_ended := sy_ended y \<union> settled y (set keys)\<rparr>\<rparr>)"
proof -
  note D = auth_invD [OF inv]
  let ?y = "y\<lparr>sy_store := s, sy_ended := sy_ended y \<union> settled y (set keys)\<rparr>"
  have l: "(i, keys) \<in> sy_deleting y" "returned_to g i \<inter> kept V y \<subseteq> set keys" using D(4) [of n] n y by simp_all
  have st: "session_step cfg sha R (xs_sessions g) ?y" for sha using session_step.deleted_user [OF l(1) _ c] y by simp
  have ok: "spaces_ok V I (sy_store y) (sy_now y)" using session_invD(1) [OF D(1)] y by simp
  have "kept V ?y = kept V y - set keys" using delete_listed_view(2) [OF R ok _ c] by (auto simp: kept_def)
  then have "returned_to g i \<inter> kept V ?y = {}" using l(2) by blast
  then show ?thesis using n D(4) [of n]
    by (intro both_inv [OF R cfg inv st, of n i]) (simp_all add: returned_to_sessions [OF st D(2)])
qed

lemma change_commits_inv:
  assumes inv: "auth_inv cfg V I g" and n: "xs_txs g n = ChangeReady i x"
  shows "auth_inv cfg V I ((set_tx n NoAuth g)\<lparr>xs_db := apply_write x (xs_db g)\<rparr>)"
proof -
  note D = auth_invD [OF inv]
  obtain row where row: "find_user (xs_db g) i = Some row" "write_ends row i x" and
    none: "tw_ends x \<Longrightarrow> returned_to g i \<inter> kept V (xs_sessions g) = {}" using D(4) [of n] n by auto
  note F = apply_write_find [OF row]
  have "auth_inv cfg V I ((set_tx n NoAuth g)\<lparr>xs_db := apply_write x (xs_db g), xs_returned := xs_returned g\<rparr>)"
  proof (rule commit_auth_inv [OF inv, of n i])
    assume "returned_to (g\<lparr>xs_db := apply_write x (xs_db g), xs_returned := xs_returned g\<rparr>) i \<inter> kept V (xs_sessions g) \<noteq> {}"
    then have k: "returned_to g i \<inter> kept V (xs_sessions g) \<noteq> {}" by (simp add: returned_to_def)
    have "us_Status row = StatusActive" using D(5) [OF k] row(1) by (auto simp: user_active_def)
    then show "user_active (apply_write x (xs_db g)) i" using k none row(2) F [of i]
      by (auto simp: user_active_def write_ends_def split: option.splits)
  qed (simp_all add: n F)
  then show ?thesis by (simp add: set_tx_def)
qed

lemma user_added_inv:
  assumes inv: "auth_inv cfg V I g"
  shows "auth_inv cfg V I (g\<lparr>xs_db := add_user t row r (xs_db g)\<rparr>)" (is "auth_inv cfg V I ?g")
proof -
  note D = auth_invD [OF inv]
  have "find P xs = Some u \<Longrightarrow> find P (xs @ ys) = Some u" for P xs ys and u :: user_row by (induction xs) auto
  then have f: "find_user (xs_db ?g) j = Some u" if "find_user (xs_db g) j = Some u" for j u
    using that by (auto simp: find_user_def add_user_def)
  have ret: "returned_to ?g j = returned_to g j" for j by (simp add: returned_to_def)
  have ok: "tx_ok V ?g u" if "tx_ok V g u" for u using that f ret by (cases u) auto
  have "user_active (xs_db ?g) j" if "returned_to ?g j \<inter> kept V (xs_sessions ?g) \<noteq> {}" for j
    using D(5) [of j] that f unfolding ret by (auto simp: user_active_def)
  with D(1,2,3) ok [OF D(4)] show ?thesis unfolding auth_inv_def by auto
qed

lemma login_commits_inv:
  assumes inv: "auth_inv cfg V I g" and n: "xs_txs g n = LoginCreated i row session"
  shows "auth_inv cfg V I ((set_tx n NoAuth g)\<lparr>xs_db := outbox_add r (put_user (login_row now newHash row) (xs_db g)),
    xs_returned := (if answered then insert (ss_key session) (xs_returned g) else xs_returned g)\<rparr>)"
proof -
  have l: "find_user (xs_db g) i = Some row" "us_Status row = StatusActive" "sy_drawn (xs_sessions g) (ss_key session) = Some session"
    "ss_UserID session = i" "ss_key session \<in> settled (xs_sessions g) UNIV" using auth_invD(4) [OF inv, of n] n by simp_all
  have i: "us_ID (login_row now newHash row) = i" using find_user_Some [OF l(1)] by (simp add: login_row_def)
  have f: "find_user (outbox_add r (put_user (login_row now newHash row) (xs_db g))) j = (if j = i then Some (login_row now newHash row) else find_user (xs_db g) j)" for j
    using find_user_put [OF l(1) i, of j] by (simp add: outbox_add_def find_user_def)
  show ?thesis
  proof (rule commit_auth_inv [OF inv, of n i])
    show "user_active (outbox_add r (put_user (login_row now newHash row) (xs_db g))) i" using f [of i] l(2) by (simp add: user_active_def login_row_def)
  qed (use n f l in \<open>auto split: if_splits\<close>)
qed

lemma auth_step_inv:
  assumes "auth_step cfg sha R g g'" and R: "redis_sessions R V I" and cfg: "whole_seconds cfg" and "auth_inv cfg V I g"
  shows "auth_inv cfg V I g'"
  using assms(1,4)
proof (induction rule: auth_step.induct)
  case (sessions g y)
  then show ?case by (intro sessions_auth_inv [OF R cfg])
next
  case (aborts g n)
  then show ?case by (intro set_tx_inv) simp_all
next
  case (locks g n p i row)
  then show ?case by (intro set_tx_inv) simp_all
next
  case (runs g n p i row env caller x)
  have l: "find_user (xs_db g) i = Some row" "checked_op p" using auth_invD(4) [OF runs(3), of n] runs(1) by simp_all
  have w: "write_ends row i x" using op_locked_ends [OF runs(2) l(2)] find_user_Some [OF l(1)] by simp
  show ?case by (rule set_tx_inv [OF runs(3)]) (use l(1) w runs(1) in \<open>auto split: if_splits\<close>)
next
  case (lists_sessions g n i x keys y)
  then show ?case by (intro lists_sessions_inv [OF R cfg])
next
  case (ends_sessions g n i x keys y s)
  then show ?case by (intro ends_sessions_inv [OF R cfg])
next
  case (commits g n i x)
  then show ?case by (intro change_commits_inv)
next
  case (creates env caller i email name hash roles granted reads g row r t)
  then show ?case by (intro user_added_inv)
next
  case (login_locks g n i hash row)
  then show ?case using RecordLogin_Some [OF login_locks(3)] by (intro set_tx_inv) simp_all
next
  case (login_draws g n i row y raw uid address session token)
  note D = auth_invD [OF login_draws(5)]
  have s: "ss_key session = token_key sha raw" "ss_UserID session = i"
    using login_draws(3) by (auto simp: create_session_def Let_def split: option.splits)
  show ?case
    by (rule both_inv [OF R cfg login_draws(5), of sha _ n i]) (use session_step.draw [OF login_draws(3,4)] login_draws(1,2) D(4) [of n] s in simp_all)
next
  case (login_creates g n i row session y s)
  note D = auth_invD [OF login_creates(5)]
  have "ss_key session \<notin> ss_key ` (sy_creating y - {session})" using creating_over [OF _ login_creates(3), of cfg V I] D(1) login_creates(2) by simp
  then show ?case
    by (intro both_inv [OF R cfg login_creates(5), of sha _ n i])
      (use session_step.created [OF login_creates(3) _ login_creates(4)] login_creates(1,2) D(4) [of n] in \<open>auto simp: settled_def\<close>)
next
  case (login_commits g n i row session env change r t now newHash)
  then show ?case by (intro login_commits_inv)
qed

lemma auth_reachable_inv:
  assumes "auth_reachable cfg sha R V I g" and R: "redis_sessions R V I" and cfg: "whole_seconds cfg"
  shows "auth_inv cfg V I g"
proof -
  obtain db s now where s: "\<forall>k. V s now k = None \<and> fst (I s now k) = {}" "(auth_step cfg sha R)\<^sup>*\<^sup>* (auth_init db s now) g"
    using assms(1) unfolding auth_reachable_def by blast
  have "session_inv cfg V I (session_init s now)"
    using session_reachable_inv [OF _ R cfg, of sha "session_init s now"] s(1) unfolding session_reachable_def by blast
  then have init: "auth_inv cfg V I (auth_init db s now)" by (intro auth_invI) (simp_all add: auth_init_def returned_to_def)
  from s(2) show ?thesis
  proof (induction rule: rtranclp_induct)
    case (step g g')
    then show ?case using auth_step_inv [OF _ R cfg] by blast
  qed (rule init)
qed

text \<open>What was returned and is gone stays gone.\<close>

lemma gone_steps:
  assumes "(auth_step cfg sha R)\<^sup>*\<^sup>* g g'" and R: "redis_sessions R V I" and cfg: "whole_seconds cfg" and "auth_inv cfg V I g"
    and "k \<in> settled (xs_sessions g) UNIV" and "k \<notin> kept V (xs_sessions g)"
  shows "auth_inv cfg V I g' \<and> k \<in> settled (xs_sessions g') UNIV \<and> k \<notin> kept V (xs_sessions g')"
  using assms(1)
proof (induction rule: rtranclp_induct)
  case base
  then show ?case using assms(4-6) by blast
next
  case (step g g')
  then have inv: "auth_inv cfg V I g" and k: "k \<in> settled (xs_sessions g) UNIV" "k \<notin> kept V (xs_sessions g)" by auto
  from auth_step_sessions [OF step(2) inv] show ?case
  proof
    assume "xs_sessions g' = xs_sessions g"
    then show ?thesis using auth_step_inv [OF step(2) R cfg inv] k by simp
  next
    assume st: "session_step cfg sha R (xs_sessions g) (xs_sessions g')"
    show ?thesis using auth_step_inv [OF step(2) R cfg inv] settled_step [OF st k(1)] kept_mono [OF st R cfg auth_invD(1) [OF inv]] k by blast
  qed
qed

lemma answers_kept:
  assumes "redis_sessions R V I" and "session_inv cfg V I y" and "answers cfg sha R y session"
  shows "ss_key session \<in> kept V y" "\<exists>l. sy_drawn y (ss_key session) = Some l \<and> ss_UserID l = ss_UserID session"
proof -
  obtain d e where "stored V (sy_store y) (sy_now y) (ss_key session) = Some (Some d, e)" using answers_stored [OF assms] .
  then show "ss_key session \<in> kept V y" by (simp add: kept_def)
  show "\<exists>l. sy_drawn y (ss_key session) = Some l \<and> ss_UserID l = ss_UserID session"
    using answers_live [OF assms] by (auto simp: same_login_def)
qed

section \<open>What logins and changes promise together\<close>

text \<open>C31: a change of a user wins over their sessions: when a transaction is about to commit the disabling of an
  active user or another password, no session that a login has returned to that user by then is ever
  answered again, over any interleaving of logins, requests and changes.\<close>

theorem change_ends_sessions:
  assumes "redis_sessions R V I" and "whole_seconds cfg" and "auth_reachable cfg sha R V I g"
    and "xs_txs g n = ChangeReady i x" and "find_user (xs_db g) i = Some row" and "tw_row x = Some row'"
    and "us_Status row = StatusActive \<and> us_Status row' \<noteq> StatusActive \<or> ur_PasswordHash row' \<noteq> ur_PasswordHash row"
    and "k \<in> returned_to g i" and "(auth_step cfg sha R)\<^sup>*\<^sup>* g g'"
  shows "\<not> (\<exists>session. answers cfg sha R (xs_sessions g') session \<and> ss_key session = k)"
proof -
  note inv = auth_reachable_inv [OF assms(3,1,2)]
  have "tw_ends x \<Longrightarrow> returned_to g i \<inter> kept V (xs_sessions g) = {}" "write_ends row i x"
    using auth_invD(4) [OF inv, of n] assms(4,5) by auto
  then have "k \<notin> kept V (xs_sessions g)" using assms(6-8) by (auto simp: write_ends_def)
  moreover have "k \<in> settled (xs_sessions g) UNIV" using auth_invD(2) [OF inv] assms(8) by (auto simp: returned_to_def)
  ultimately have "auth_inv cfg V I g'" "k \<notin> kept V (xs_sessions g')" using gone_steps [OF assms(9,1,2) inv] by blast+
  then show ?thesis using answers_kept(1) [OF assms(1) auth_invD(1)] by blast
qed

text \<open>C32: a session that a login returned is only answered while its user exists and is active, whatever runs at the
  same time: a disabled user has no session left, also before any request looks the user up.\<close>

theorem answered_user_active:
  assumes "redis_sessions R V I" and "whole_seconds cfg" and "auth_reachable cfg sha R V I g"
    and "answers cfg sha R (xs_sessions g) session" and "ss_key session \<in> xs_returned g"
  shows "user_active (xs_db g) (ss_UserID session)"
proof -
  note inv = auth_reachable_inv [OF assms(3,1,2)]
  note A = answers_kept [OF assms(1) auth_invD(1) [OF inv] assms(4)]
  have "ss_key session \<in> returned_to g (ss_UserID session)" using A(2) assms(5) by (simp add: returned_to_def)
  then show ?thesis using auth_invD(5) [OF inv] A(1) by blast
qed

section \<open>An example\<close>

text \<open>A login, and then a new password.\<close>

definition flow_user :: user_row where
  "flow_user = (sample_row ''u'')\<lparr>ur_PasswordHash := Some ''h''\<rparr>"

definition flow_db :: users_db where
  "flow_db = \<lparr>db_users = [flow_user], db_roles = [RoleAdmin], db_outbox = []\<rparr>"

definition flow_init :: "map_sessions auth_system" where
  "flow_init = auth_init flow_db (\<lambda>_. None, \<lambda>_. ([], None)) 0"

lemma flow_init_simps [simp]:
  "xs_db flow_init = flow_db" "xs_sessions flow_init = sample_init" "xs_txs flow_init = (\<lambda>_. NoAuth)" "xs_returned flow_init = {}"
  by (simp_all add: flow_init_def auth_init_def)

abbreviation flow_step :: "map_sessions auth_system \<Rightarrow> map_sessions auth_system \<Rightarrow> bool" where
  "flow_step \<equiv> auth_step sample_cfg (\<lambda>s. s) map_session_redis"

abbreviation flow_reachable :: "map_sessions auth_system \<Rightarrow> bool" where
  "flow_reachable \<equiv> auth_reachable sample_cfg (\<lambda>s. s) map_session_redis map_values map_indexes"

lemma flow_login:
  obtains g r where "flow_reachable g" "xs_txs g = (\<lambda>_. NoAuth)" "xs_returned g = {sample_raw}" "sy_drawn (xs_sessions g) sample_raw = Some sample_session"
    "answers sample_cfg (\<lambda>s. s) map_session_redis (xs_sessions g) sample_session"
    "xs_db g = outbox_add r (put_user (login_row 0 None flow_user) flow_db)"
proof -
  obtain y where y: "answers sample_cfg (\<lambda>s. s) map_session_redis y sample_session"
    "create_commit sample_cfg map_session_redis 0 TxDone sample_session (\<lambda>_. None, \<lambda>_. ([], None)) = (sy_store y, None)"
    "y = sample_drawn\<lparr>sy_store := sy_store y, sy_creating := {}\<rparr>" using sample_run by metis
  obtain r where r: "audit_write (sv_env sample_service) (login_change sample_cfg sample_client \<lparr>pr_Session = sample_session, pr_User = session_user login_user\<rparr>) = Inr r"
    using sample_login_record [of sample_session sample_cfg] by (auto simp: sample_session_def)
  let ?i = flow_init and ?r = flow_user and ?u = "''u''"
  define g1 where "g1 = set_tx 0 (LoginLocked ?u ?r) ?i"
  define g2 where "g2 = (set_tx 0 (LoginDrawn ?u ?r sample_session) ?i)\<lparr>xs_sessions := sample_drawn\<rparr>"
  define g3 where "g3 = (set_tx 0 (LoginCreated ?u ?r sample_session) ?i)\<lparr>xs_sessions := y\<rparr>"
  define g4 where "g4 = ?i\<lparr>xs_sessions := y, xs_txs := \<lambda>_. NoAuth, xs_db := outbox_add r (put_user (login_row 0 None ?r) flow_db), xs_returned := {sample_raw}\<rparr>"
  have "flow_step ?i g1" unfolding g1_def
    by (rule auth_step.login_locks [of _ _ _ "Some ''h''"])
      (simp_all add: row_free_def RecordLogin_def find_user_def flow_db_def flow_user_def sample_row_def)
  moreover have "flow_step g1 g2"
    using auth_step.login_draws [of g1 0 ?u ?r "session_init (\<lambda>_. None, \<lambda>_. ([], None)) 0" "\<lambda>s. s" sample_raw "Some ''1''" "''10.0.0.1''" sample_session "EncodeToString RawURLEncoding sample_raw"]
      sample_create
    by (simp add: g1_def g2_def set_tx_def sample_drawn_def session_init_def token_key_def)
  moreover have "flow_step g2 g3"
    using auth_step.login_creates [of g2 0 ?u ?r sample_session sample_drawn sample_cfg map_session_redis "sy_store y" "\<lambda>s. s"] y(2,3)
    by (simp add: g2_def g3_def set_tx_def sample_drawn_def session_init_def)
  moreover have "flow_step g3 g4"
    using auth_step.login_commits [of g3 0 ?u ?r sample_session, OF _ r, of TxDone sample_cfg "\<lambda>s. s" map_session_redis 0 None]
    by (simp add: g3_def g4_def set_tx_def sample_session_def fun_upd_idem)
  ultimately have "flow_step\<^sup>*\<^sup>* ?i g4" by (meson rtranclp.rtrancl_into_rtrancl rtranclp.rtrancl_refl)
  then have "flow_reachable g4" unfolding auth_reachable_def flow_init_def
    by (intro exI [of _ flow_db] exI [of _ "(\<lambda>_. None, \<lambda>_. ([], None))"] exI [of _ 0])
      (simp add: map_values_def map_indexes_def expires_value_def purged_def)
  moreover have "sy_drawn y sample_raw = Some sample_session" by (subst y(3)) (simp add: sample_drawn_def)
  ultimately show thesis using y(1) by (intro that [of g4 r]) (simp_all add: g4_def)
qed

theorem answered_user_active_witness:
  "\<exists>g. flow_reachable g \<and> answers sample_cfg (\<lambda>s. s) map_session_redis (xs_sessions g) sample_session \<and> user_active (xs_db g) ''u''"
proof -
  obtain g where g: "flow_reachable g" "xs_returned g = {sample_raw}" "answers sample_cfg (\<lambda>s. s) map_session_redis (xs_sessions g) sample_session"
    using flow_login by metis
  from answered_user_active [OF map_session_redis_ok sample_whole g(1,3)] g show ?thesis by (auto simp: sample_session_def)
qed

lemma delete_listed_done: "\<exists>s. delete_listed R now TxDone i keys st = (s, None)"
  by (simp add: delete_listed_def)

lemma flow_password:
  assumes "us_ID row = ''u''"
  obtains x where "op_locked sample_env sample_caller (OpPassword ''h2'' None) row db = Inr x" "tw_row x = Some (row\<lparr>ur_PasswordHash := Some ''h2'', us_UpdatedAt := 1\<rparr>)" "tw_ends x"
proof -
  obtain r where "record_change sample_env sample_caller ActionSetPassword ''u'' AnyNil (AnyObject (EPasswordSet ''u'' (us_Email row) True)) = Inr r"
    by (simp add: record_change_def Write_def Let_def record_error_def sample_env_def sample_caller_def ClientActor_def no_actor_def actor_ok_def
      ActionSetPassword_def name_text_def is_lower_def byte_def EntityTypes_def EntityUser_def ActorClient_def ActorUser_def ActorCLI_def ActorSystem_def
      ActorConfig_def fail_if_def)
  then show thesis
    by (intro that [of "\<lparr>tw_row = Some (row\<lparr>ur_PasswordHash := Some ''h2'', us_UpdatedAt := 1\<rparr>), tw_record = Some r, tw_ends = True, tw_user = User.truncate row\<rparr>"])
      (simp_all add: op_locked_def password_locked_def Let_def assms sample_env_def)
qed

text \<open>From the login on, up to the commit of a new password.\<close>

lemma flow_change:
  obtains g g' x where "flow_reachable g" "answers sample_cfg (\<lambda>s. s) map_session_redis (xs_sessions g) sample_session" "flow_step\<^sup>*\<^sup>* g g'"
    "xs_txs g' 0 = ChangeReady ''u'' x" "find_user (xs_db g') ''u'' = Some (login_row 0 None flow_user)" "sample_raw \<in> returned_to g' ''u''"
    "tw_row x = Some ((login_row 0 None flow_user)\<lparr>ur_PasswordHash := Some ''h2'', us_UpdatedAt := 1\<rparr>)"
proof -
  obtain g r where g: "flow_reachable g" "xs_txs g = (\<lambda>_. NoAuth)" "xs_returned g = {sample_raw}" "sy_drawn (xs_sessions g) sample_raw = Some sample_session"
    "answers sample_cfg (\<lambda>s. s) map_session_redis (xs_sessions g) sample_session" "xs_db g = outbox_add r (put_user (login_row 0 None flow_user) flow_db)"
    using flow_login .
  let ?row = "login_row 0 None flow_user" and ?p = "OpPassword ''h2'' None" and ?y = "xs_sessions g" and ?u = "''u''"
  have f: "find_user (xs_db g) ?u = Some ?row" "us_ID ?row = ?u"
    by (simp_all add: g(6) find_user_def outbox_add_def put_user_def flow_db_def flow_user_def sample_row_def login_row_def)
  obtain x where x: "op_locked sample_env sample_caller ?p ?row (xs_db g) = Inr x" "tw_row x = Some (?row\<lparr>ur_PasswordHash := Some ''h2'', us_UpdatedAt := 1\<rparr>)" "tw_ends x"
    using flow_password [OF f(2)] .
  define keys where "keys = sr_smembers map_session_redis (sy_now ?y) (userKeyPrefix @ ?u) (sy_store ?y)"
  define y where "y = ?y\<lparr>sy_deleting := insert (?u, keys) (sy_deleting ?y)\<rparr>"
  obtain s where s: "delete_listed map_session_redis (sy_now y) TxDone ?u keys (sy_store y) = (s, None)" using delete_listed_done [of map_session_redis "sy_now y" ?u keys "sy_store y"] by blast
  define z where "z = y\<lparr>sy_store := s, sy_ended := sy_ended y \<union> settled y (set keys)\<rparr>"
  let ?l = "set_tx 0 (ChangeLocked ?p ?u ?row) g" and ?e = "set_tx 0 (Ending ?u x) g"
  define h where "h = (set_tx 0 (ListedSessions ?u x keys) g)\<lparr>xs_sessions := y\<rparr>"
  define g' where "g' = (set_tx 0 (ChangeReady ?u x) g)\<lparr>xs_sessions := z\<rparr>"
  have "flow_step g ?l" by (rule auth_step.locks) (simp_all add: g(2) row_free_def f checked_op_def)
  moreover have "flow_step ?l ?e"
    using auth_step.runs [of ?l 0 ?p ?u ?row sample_env sample_caller x] x(1,3) by (simp add: set_tx_def)
  moreover have "flow_step ?e h"
  proof -
    have e: "xs_txs ?e 0 = Ending ?u x" "?y = xs_sessions ?e" by (simp_all add: set_tx_def)
    have "h = (set_tx 0 (ListedSessions ?u x keys) ?e)\<lparr>xs_sessions := ?y\<lparr>sy_deleting := insert (?u, keys) (sy_deleting ?y)\<rparr>\<rparr>"
      by (simp add: h_def y_def set_tx_def)
    then show ?thesis using auth_step.lists_sessions [OF e(1) keys_def e(2), of sample_cfg "\<lambda>s. s"] by (simp only:)
  qed
  moreover have "flow_step h g'"
  proof -
    have h: "xs_txs h 0 = ListedSessions ?u x keys" "y = xs_sessions h" by (simp_all add: h_def set_tx_def)
    have "g' = (set_tx 0 (ChangeReady ?u x) h)\<lparr>xs_sessions := y\<lparr>sy_store := s, sy_ended := sy_ended y \<union> settled y (set keys)\<rparr>\<rparr>"
      by (simp add: h_def g'_def z_def set_tx_def)
    then show ?thesis using auth_step.ends_sessions [OF h s, of sample_cfg "\<lambda>s. s"] by (simp only:)
  qed
  ultimately have run: "flow_step\<^sup>*\<^sup>* g g'" by (meson rtranclp.rtrancl_into_rtrancl rtranclp.rtrancl_refl)
  moreover have "xs_txs g' 0 = ChangeReady ?u x" "find_user (xs_db g') ?u = Some ?row" "sample_raw \<in> returned_to g' ?u"
    using f g(3,4) by (simp_all add: g'_def set_tx_def returned_to_def z_def y_def sample_session_def)
  ultimately show thesis using g(1,5) x(2) that by blast
qed

theorem change_ends_sessions_witness:
  "\<exists>g g'. flow_reachable g \<and> answers sample_cfg (\<lambda>s. s) map_session_redis (xs_sessions g) sample_session \<and> flow_step\<^sup>*\<^sup>* g g' \<and>
     \<not> (\<exists>session. answers sample_cfg (\<lambda>s. s) map_session_redis (xs_sessions g') session \<and> ss_key session = sample_raw)"
proof -
  obtain g g' x where g: "flow_reachable g" "answers sample_cfg (\<lambda>s. s) map_session_redis (xs_sessions g) sample_session" "flow_step\<^sup>*\<^sup>* g g'"
    "xs_txs g' 0 = ChangeReady ''u'' x" "find_user (xs_db g') ''u'' = Some (login_row 0 None flow_user)" "sample_raw \<in> returned_to g' ''u''"
    "tw_row x = Some ((login_row 0 None flow_user)\<lparr>ur_PasswordHash := Some ''h2'', us_UpdatedAt := 1\<rparr>)"
    using flow_change .
  have "flow_reachable g'" using g(1,3) unfolding auth_reachable_def by (meson rtranclp_trans)
  moreover have "ur_PasswordHash ((login_row 0 None flow_user)\<lparr>ur_PasswordHash := Some ''h2'', us_UpdatedAt := 1\<rparr>) \<noteq> ur_PasswordHash (login_row 0 None flow_user)"
    by (simp add: login_row_def flow_user_def)
  ultimately have "\<not> (\<exists>session. answers sample_cfg (\<lambda>s. s) map_session_redis (xs_sessions g') session \<and> ss_key session = sample_raw)"
    using change_ends_sessions [OF map_session_redis_ok sample_whole _ g(4,5,7) _ g(6) rtranclp.rtrancl_refl] by blast
  then show ?thesis using g(1-3) by blast
qed

end
